(* ===== verification/C_Prelude.thy ===== *)
theory C_Prelude
  imports Main "HOL-Library.Word" "HOL-Library.List_Lexorder"
begin

text \<open>
  Shared vocabulary of the development: the machine types of the C sources, byte strings,
  the byte order conversions, C strings and the parts of libc the sources call (strlen,
  strcmp, strstr, memcmp, atoi, strtol), decimal rendering as printf does it, and results
  that may be an error.

  The host is the one the Makefile builds for: a little-endian machine with 8-bit char,
  16-bit short, 32-bit int and 64-bit long.
\<close>

unbundle bit_operations_syntax

type_synonym byte = "8 word"
type_synonym u16 = "16 word"
type_synonym u32 = "32 word"
type_synonym u64 = "64 word"
type_synonym bytes = "byte list"

named_theorems eval_defs \<open>definitions that a check on concrete values unfolds\<close>

section \<open>Results that may be an error\<close>

text \<open>
  What ends a call without a result: exit with a status (exit\_code.h), the use of a NULL
  pointer or of an index outside an array, and a wait on a semaphore that nobody can post
  any more (the caller would sleep for ever).
\<close>

datatype c_err = Exit nat | Null_deref | Out_of_bounds | Blocked

type_synonym 'a res = "c_err + 'a"

fun bindR :: "'a res \<Rightarrow> ('a \<Rightarrow> 'b res) \<Rightarrow> 'b res" where
  "bindR (Inl e) f = Inl e"
| "bindR (Inr x) f = f x"

lemma bindR_Inr_iff: "bindR m f = Inr y \<longleftrightarrow> (\<exists>x. m = Inr x \<and> f x = Inr y)"
  by (cases m) auto

lemma bindR_cong [fundef_cong]:
  "m = m' \<Longrightarrow> (\<And>x. m' = Inr x \<Longrightarrow> f x = f' x) \<Longrightarrow> bindR m f = bindR m' f'"
  by (cases m') auto

lemma bindR_assoc: "bindR (bindR m f) g = bindR m (\<lambda>x. bindR (f x) g)"
  by (cases m) auto

definition nth_res :: "'a list \<Rightarrow> nat \<Rightarrow> 'a res" where
  "nth_res xs i = (if i < length xs then Inr (xs ! i) else Inl Out_of_bounds)"

lemma nth_res_Inr [simp]: "i < length xs \<Longrightarrow> nth_res xs i = Inr (xs ! i)"
  by (simp add: nth_res_def)

section \<open>Byte strings and byte order\<close>

lemma unat_byte [simp]: "unat (b :: byte) < 256"
  by (rule order_less_le_trans [OF unsigned_less]) simp

text \<open>A string literal of the sources, as the bytes of its characters.\<close>

definition lit :: "string \<Rightarrow> bytes" where
  "lit s = map of_char s"

lemma lit_Nil [simp]: "lit [] = []"
  by (simp add: lit_def)

lemma length_lit [simp]: "length (lit s) = length s"
  by (simp add: lit_def)

text \<open>The memory image of an integer object on the little-endian host.\<close>

definition mem16 :: "u16 \<Rightarrow> bytes" where
  "mem16 w = [ucast w, ucast (drop_bit 8 w)]"

definition mem32 :: "u32 \<Rightarrow> bytes" where
  "mem32 w = [ucast w, ucast (drop_bit 8 w), ucast (drop_bit 16 w), ucast (drop_bit 24 w)]"

definition mem64 :: "u64 \<Rightarrow> bytes" where
  "mem64 w = [ucast w, ucast (drop_bit 8 w), ucast (drop_bit 16 w), ucast (drop_bit 24 w),
     ucast (drop_bit 32 w), ucast (drop_bit 40 w), ucast (drop_bit 48 w), ucast (drop_bit 56 w)]"

lemma mem64_split: "mem64 w = mem32 (ucast w) @ mem32 (ucast (drop_bit 32 w))"
  unfolding mem64_def mem32_def
  by simp (intro conjI; rule bit_word_eqI; auto simp: bit_simps dest: bit_imp_le_length)

text \<open>Reading an integer object back from memory at an offset.\<close>

definition rd16 :: "bytes \<Rightarrow> nat \<Rightarrow> u16" where
  "rd16 m i = ucast (m ! i) OR push_bit 8 (ucast (m ! (i + 1)))"

definition rd32 :: "bytes \<Rightarrow> nat \<Rightarrow> u32" where
  "rd32 m i = ucast (m ! i) OR push_bit 8 (ucast (m ! (i + 1)))
     OR push_bit 16 (ucast (m ! (i + 2))) OR push_bit 24 (ucast (m ! (i + 3)))"

definition rd64 :: "bytes \<Rightarrow> nat \<Rightarrow> u64" where
  "rd64 m i = ucast (rd32 m i) OR push_bit 32 (ucast (rd32 m (i + 4)))"

text \<open>htons and htonl (and ntohs, ntohl, the same functions) reverse the bytes in memory.\<close>

definition htons :: "u16 \<Rightarrow> u16" where
  "htons w = rd16 (rev (mem16 w)) 0"

definition htonl :: "u32 \<Rightarrow> u32" where
  "htonl w = rd32 (rev (mem32 w)) 0"

lemma length_mem [simp]: "length (mem16 a) = 2" "length (mem32 b) = 4" "length (mem64 c) = 8"
  by (simp_all add: mem16_def mem32_def mem64_def)

lemma rd16_mem16 [simp]: "rd16 (mem16 w) 0 = w"
  unfolding rd16_def mem16_def
  by simp (rule bit_word_eqI, auto simp: bit_simps le_diff_conv2)

lemma mem16_rd16 [simp]: "mem16 (rd16 [a, b] 0) = [a, b]"
  unfolding rd16_def mem16_def
  by simp (intro conjI; rule bit_word_eqI; auto simp: bit_simps dest: bit_imp_le_length)

lemma rd32_mem32 [simp]: "rd32 (mem32 w) 0 = w"
proof (rule bit_word_eqI)
  fix n assume "n < LENGTH(32)"
  then show "bit (rd32 (mem32 w) 0) n = bit w n"
    unfolding rd32_def mem32_def
    by (cases "24 \<le> n"; cases "16 \<le> n") (auto simp: bit_simps not_le dest: bit_imp_le_length)
qed

lemma mem32_rd32 [simp]: "mem32 (rd32 [a, b, c, d] 0) = [a, b, c, d]"
  unfolding rd32_def mem32_def
  by simp (intro conjI; rule bit_word_eqI; auto simp: bit_simps dest: bit_imp_le_length)

lemma rd32_append [simp]: "rd32 (xs @ ys) (length xs) = rd32 ys 0"
  by (simp add: rd32_def nth_append numeral_2_eq_2)

lemma mem16_rd16_length: "length m = 2 \<Longrightarrow> mem16 (rd16 m 0) = m"
  by (auto simp: length_Suc_conv numeral_2_eq_2)

lemma mem32_rd32_length: "length m = 4 \<Longrightarrow> mem32 (rd32 m 0) = m"
  by (auto simp: length_Suc_conv eval_nat_numeral)

lemma mem16_htons [simp]: "mem16 (htons w) = rev (mem16 w)"
  by (simp add: htons_def mem16_rd16_length)

lemma mem32_htonl [simp]: "mem32 (htonl w) = rev (mem32 w)"
  by (simp add: htonl_def mem32_rd32_length)

lemma htons_htons [simp]: "htons (htons w) = w"
  by (simp add: htons_def [of "htons w"])

lemma htonl_htonl [simp]: "htonl (htonl w) = w"
  by (simp add: htonl_def [of "htonl w"])

lemma mem32_inject [simp]: "mem32 a = mem32 b \<longleftrightarrow> a = b"
  by (metis rd32_mem32)

lemma mem16_inject [simp]: "mem16 a = mem16 b \<longleftrightarrow> a = b"
  by (metis rd16_mem16)

section \<open>memcmp\<close>

text \<open>The sign of memcmp: the first differing byte decides, bytes being unsigned.\<close>

fun memcmp :: "bytes \<Rightarrow> bytes \<Rightarrow> nat \<Rightarrow> int" where
  "memcmp a b 0 = 0"
| "memcmp (x # a) (y # b) (Suc n) = (if x = y then memcmp a b n else uint x - uint y)"
| "memcmp a b (Suc n) = int (length a) - int (length b)"

lemma memcmp_numeral [simp]:
  "memcmp (x # a) (y # b) (numeral n) =
     (if x = y then memcmp a b (pred_numeral n) else uint x - uint y)"
  by (simp add: numeral_eq_Suc)

lemma memcmp_eq_0: "length a = n \<Longrightarrow> length b = n \<Longrightarrow> memcmp a b n = 0 \<longleftrightarrow> a = b"
  by (induction a b n rule: memcmp.induct) (auto simp: word_uint_eq_iff)

lemma memcmp_less_0: "length a = n \<Longrightarrow> length b = n \<Longrightarrow> memcmp a b n < 0 \<longleftrightarrow> a < b"
  by (induction a b n rule: memcmp.induct) (auto simp: word_less_def)

lemma memcmp_gt_0: "length a = n \<Longrightarrow> length b = n \<Longrightarrow> 0 < memcmp a b n \<longleftrightarrow> b < a"
  by (induction a b n rule: memcmp.induct) (auto simp: word_less_def)

lemma memcmp_take: "n \<le> length a \<Longrightarrow> n \<le> length b \<Longrightarrow> memcmp a b n = 0 \<longleftrightarrow> take n a = take n b"
  by (induction a b n rule: memcmp.induct) (auto simp: word_uint_eq_iff)

section \<open>C strings\<close>

text \<open>The string a char array holds: its bytes up to the first NUL.\<close>

definition cstr :: "bytes \<Rightarrow> bytes" where
  "cstr b = takeWhile (\<lambda>c. c \<noteq> 0) b"

definition strlen :: "bytes \<Rightarrow> nat" where
  "strlen b = length (cstr b)"

definition strcmp_eq :: "bytes \<Rightarrow> bytes \<Rightarrow> bool" where
  "strcmp_eq a b \<longleftrightarrow> cstr a = cstr b"

text \<open>strstr as an offset: the first place of the needle in the text, None for NULL.\<close>

fun find_sub :: "bytes \<Rightarrow> bytes \<Rightarrow> nat option" where
  "find_sub n [] = (if n = [] then Some 0 else None)"
| "find_sub n (x # xs) =
     (if take (length n) (x # xs) = n then Some 0 else map_option Suc (find_sub n xs))"

definition strstr :: "bytes \<Rightarrow> bytes \<Rightarrow> nat option" where
  "strstr s n = find_sub (cstr n) (cstr s)"

lemma cstr_append_nul [simp]: "0 \<notin> set a \<Longrightarrow> cstr (a @ 0 # r) = a"
  unfolding cstr_def by (subst takeWhile_append2) auto

lemma cstr_no_nul [simp]: "0 \<notin> set a \<Longrightarrow> cstr a = a"
  unfolding cstr_def by (simp add: takeWhile_eq_all_conv) blast

lemma cstr_append: "0 \<notin> set a \<Longrightarrow> cstr (a @ b) = a @ cstr b"
  unfolding cstr_def by (subst takeWhile_append2) auto

lemma nul_not_in_cstr [simp]: "0 \<notin> set (cstr b)"
  unfolding cstr_def by (auto dest: set_takeWhileD)

lemma strlen_le: "strlen b \<le> length b"
  by (simp add: strlen_def cstr_def length_takeWhile_le)

lemma find_sub_Some:
  "find_sub n s = Some i \<Longrightarrow> i + length n \<le> length s \<and> take (length n) (drop i s) = n"
proof (induction s arbitrary: i)
  case Nil
  then show ?case by (auto split: if_splits)
next
  case (Cons x xs)
  show ?case
  proof (cases "take (length n) (x # xs) = n")
    case True
    then have "length n \<le> length (x # xs)"
      by (metis length_take min.cobounded1)
    with True Cons.prems show ?thesis by auto
  next
    case False
    with Cons.prems obtain j where "find_sub n xs = Some j" "i = Suc j" by auto
    with Cons.IH [of j] show ?thesis by simp
  qed
qed

section \<open>Decimal numbers\<close>

text \<open>printf's \%u and \%d (the argument of \%d is read as a signed int).\<close>

fun dec :: "nat \<Rightarrow> bytes" where
  "dec n = (if n < 10 then [48 + of_nat n] else dec (n div 10) @ [48 + of_nat (n mod 10)])"

declare dec.simps [simp del]

definition fmt_u :: "u32 \<Rightarrow> bytes" where
  "fmt_u w = dec (unat w)"

definition fmt_d :: "u32 \<Rightarrow> bytes" where
  "fmt_d w = (if sint w < 0 then 45 # dec (nat (- sint w)) else dec (nat (sint w)))"

text \<open>
  strtol of glibc for the bases 10 and 16: white space, a sign, for base 16 an optional 0x
  before a hexadecimal digit, then the digits; the value saturates at the range of long.
  atoi is the value of strtol in base 10 cut to an int.
\<close>

definition isspace :: "byte \<Rightarrow> bool" where
  "isspace c \<longleftrightarrow> c = 32 \<or> (9 \<le> c \<and> c \<le> 13)"

definition digit_val :: "byte \<Rightarrow> nat option" where
  "digit_val c =
     (if 48 \<le> c \<and> c \<le> 57 then Some (unat c - 48)
      else if 97 \<le> c \<and> c \<le> 122 then Some (unat c - 87)
      else if 65 \<le> c \<and> c \<le> 90 then Some (unat c - 55)
      else None)"

fun digits_val :: "nat \<Rightarrow> nat \<Rightarrow> bytes \<Rightarrow> nat" where
  "digits_val b acc [] = acc"
| "digits_val b acc (c # r) =
     (case digit_val c of
        None \<Rightarrow> acc
      | Some d \<Rightarrow> if d < b then digits_val b (acc * b + d) r else acc)"

definition saturate_long :: "int \<Rightarrow> int" where
  "saturate_long v = max (- (2 ^ 63)) (min (2 ^ 63 - 1) v)"

definition skip_0x :: "bytes \<Rightarrow> bytes" where
  "skip_0x s =
     (case s of
        z # x # h # r \<Rightarrow>
          (if z = 48 \<and> (x = 120 \<or> x = 88) \<and>
              (case digit_val h of None \<Rightarrow> False | Some d \<Rightarrow> d < 16)
           then h # r else s)
      | _ \<Rightarrow> s)"

definition strtol :: "bytes \<Rightarrow> nat \<Rightarrow> int" where
  "strtol str b =
     (let s = dropWhile isspace (cstr str);
          neg = (s \<noteq> [] \<and> hd s = 45);
          t = (if s \<noteq> [] \<and> (hd s = 45 \<or> hd s = 43) then tl s else s);
          u = (if b = 16 then skip_0x t else t);
          v = int (digits_val b 0 u)
      in saturate_long (if neg then - v else v))"

definition atoi :: "bytes \<Rightarrow> u32" where
  "atoi s = of_int (strtol s 10)"

definition isdigit :: "byte \<Rightarrow> bool" where
  "isdigit c \<longleftrightarrow> 48 \<le> c \<and> c \<le> 57"

lemma of_nat_byte_digit: "d < 10 \<Longrightarrow> isdigit (48 + of_nat d) \<and> digit_val (48 + of_nat d) = Some d"
proof -
  assume "d < 10"
  then have "d = 0 \<or> d = 1 \<or> d = 2 \<or> d = 3 \<or> d = 4 \<or> d = 5 \<or> d = 6 \<or> d = 7 \<or> d = 8 \<or> d = 9" by arith
  then show ?thesis by (elim disjE) (simp_all add: isdigit_def digit_val_def)
qed

lemma digits_of_dec: "list_all isdigit (dec n) \<and> dec n \<noteq> []"
proof (induction n rule: dec.induct)
  case (1 n)
  then show ?case
    by (subst (1 2) dec.simps) (simp add: of_nat_byte_digit)
qed

lemma dec_digits [simp]: "c \<in> set (dec n) \<Longrightarrow> isdigit c"
  using digits_of_dec [of n] by (simp add: list_all_iff)

lemma dec_not_Nil [simp]: "dec n \<noteq> []"
  using digits_of_dec [of n] by simp

lemma length_dec: "n < 10 ^ k \<Longrightarrow> 0 < k \<Longrightarrow> length (dec n) \<le> k"
proof (induction k arbitrary: n)
  case (Suc k)
  show ?case
  proof (cases "n < 10")
    case False
    with Suc.prems have "n div 10 < 10 ^ k" "0 < k"
      by (auto simp: div_less_iff_less_mult mult.commute intro: Nat.gr0I)
    with Suc.IH [of "n div 10"] False show ?thesis by (subst dec.simps) simp
  qed (subst dec.simps, simp)
qed simp

lemma hd_dec_digit: "isdigit (hd (dec n))"
  by (rule dec_digits [OF hd_in_set [OF dec_not_Nil]])

lemma digit_val_isdigit: "isdigit c \<Longrightarrow> digit_val c = Some (unat c - 48) \<and> unat c - 48 < 10"
  by (simp add: isdigit_def digit_val_def word_le_nat_alt) arith

lemma digits_val_append:
  "list_all isdigit xs \<Longrightarrow> digits_val 10 acc (xs @ ys) = digits_val 10 (digits_val 10 acc xs) ys"
  by (induction xs arbitrary: acc) (auto simp: digit_val_isdigit)

lemma digits_val_dec [simp]: "digits_val 10 0 (dec n) = n"
proof (induction n rule: dec.induct)
  case (1 n)
  show ?case
  proof (cases "n < 10")
    case True
    then show ?thesis by (subst dec.simps) (simp add: of_nat_byte_digit)
  next
    case False
    then show ?thesis
      using 1 by (subst dec.simps) (simp add: digits_val_append digits_of_dec of_nat_byte_digit)
  qed
qed

lemma isdigit_range: "isdigit c \<Longrightarrow> c \<noteq> 0 \<and> \<not> isspace c \<and> c \<noteq> 43 \<and> c \<noteq> 45 \<and> c \<noteq> 13 \<and> c \<noteq> 10"
  by (auto simp: isdigit_def isspace_def word_le_nat_alt)

lemma nul_not_in_dec [simp]: "0 \<notin> set (dec n)"
  using isdigit_range dec_digits by blast

lemma strtol_dec: "n < 2 ^ 63 \<Longrightarrow> strtol (dec n) 10 = int n"
proof -
  assume n: "n < 2 ^ 63"
  have "cstr (dec n) = dec n" by simp
  moreover have "dropWhile isspace (dec n) = dec n"
    using isdigit_range [OF hd_dec_digit [of n]] by (cases "dec n") auto
  moreover have "hd (dec n) \<noteq> 45 \<and> hd (dec n) \<noteq> 43"
    using isdigit_range [OF hd_dec_digit [of n]] by simp
  moreover have "saturate_long (int n) = int n"
    using n by (simp add: saturate_long_def)
  ultimately show ?thesis by (simp add: strtol_def Let_def)
qed

lemma atoi_dec: "n < 2 ^ 63 \<Longrightarrow> atoi (dec n) = of_nat n"
  by (simp add: atoi_def strtol_dec)

lemma atoi_fmt_u [simp]: "atoi (fmt_u w) = w"
proof -
  have "unat w < 2 ^ 63" using unsigned_less [of w, where ?'a = nat] by simp
  then show ?thesis by (simp add: fmt_u_def atoi_dec)
qed

end
