(* ===== verification/Hash_List.thy ===== *)
theory Hash_List
  imports C_Prelude
begin

text \<open>
  The container of the tracker (list.h, list.c): a tree of 256-way tables of depth 0 to 2,
  indexed by the first or the last bytes of a hash, whose leaves are chains of items sorted
  by hash. Torrents, the peers of a torrent, TCP sockets and websockets are all kept in it.

  A leaf's chain is the list of its items in chain order: the links of the chain are not
  modelled. The memory errors and exits of the code are results in Inl.
\<close>

section \<open>The data: struct item and struct list\<close>

datatype endian = LITTLE_ENDIAN | BIG_ENDIAN

text \<open>An item: its hash and its data pointer (None is NULL).\<close>

type_synonym 'a item = "bytes \<times> 'a option"

text \<open>
  struct list. A list of level 0 is a leaf and owns a chain of items; a list of a higher level
  owns an array of 256 lists. The semaphore is the value of the counting semaphore, None when
  the pointer is NULL.
\<close>

datatype 'a hlist = HList
  (subLists: "'a hlist list")
  (leafItems: "'a item list")
  (semaphore: "nat option")
  (endianness: endian)
  (hashLength: nat)
  (level: nat)
  (semaphoreEnabled: byte)

definition LIST_LIMIT_LEVEL :: nat where "LIST_LIMIT_LEVEL = 2"
definition LIST_BYTE_SIZE :: nat where "LIST_BYTE_SIZE = 256"
definition LIST_SEMAPHORE_DISABLE :: byte where "LIST_SEMAPHORE_DISABLE = 0"
definition LIST_SEMAPHORE_ENABLE_LEAF :: byte where "LIST_SEMAPHORE_ENABLE_LEAF = 1"
definition LIST_SEMAPHORE_ENABLE_GLOBAL :: byte where "LIST_SEMAPHORE_ENABLE_GLOBAL = 2"
definition EXIT_CODE_LIST_WRONG_LIMIT :: nat where "EXIT_CODE_LIST_WRONG_LIMIT = 233"
definition EXIT_CODE_LIST_WRONG_HASH_LENGTH :: nat where "EXIT_CODE_LIST_WRONG_HASH_LENGTH = 232"
definition EXIT_CODE_LIST_NOT_EMPTY :: nat where "EXIT_CODE_LIST_NOT_EMPTY = 231"

fun set_items :: "'a item list \<Rightarrow> 'a hlist \<Rightarrow> 'a hlist" where
  "set_items xs (HList ch _ sm en hl lv se) = HList ch xs sm en hl lv se"

fun set_subLists :: "'a hlist list \<Rightarrow> 'a hlist \<Rightarrow> 'a hlist" where
  "set_subLists ch (HList _ xs sm en hl lv se) = HList ch xs sm en hl lv se"

fun set_semaphore :: "nat option \<Rightarrow> 'a hlist \<Rightarrow> 'a hlist" where
  "set_semaphore sm (HList ch xs _ en hl lv se) = HList ch xs sm en hl lv se"

lemma set_fields [simp]:
  "subLists (set_items xs l) = subLists l" "leafItems (set_items xs l) = xs"
  "semaphore (set_items xs l) = semaphore l" "endianness (set_items xs l) = endianness l"
  "hashLength (set_items xs l) = hashLength l" "level (set_items xs l) = level l"
  "semaphoreEnabled (set_items xs l) = semaphoreEnabled l"
  "subLists (set_subLists ch l) = ch" "leafItems (set_subLists ch l) = leafItems l"
  "semaphore (set_subLists ch l) = semaphore l" "endianness (set_subLists ch l) = endianness l"
  "hashLength (set_subLists ch l) = hashLength l" "level (set_subLists ch l) = level l"
  "semaphoreEnabled (set_subLists ch l) = semaphoreEnabled l"
  "subLists (set_semaphore sm l) = subLists l" "leafItems (set_semaphore sm l) = leafItems l"
  "semaphore (set_semaphore sm l) = sm" "endianness (set_semaphore sm l) = endianness l"
  "hashLength (set_semaphore sm l) = hashLength l" "level (set_semaphore sm l) = level l"
  "semaphoreEnabled (set_semaphore sm l) = semaphoreEnabled l"
  by (cases l; simp)+

lemma size_subLists: "x \<in> set (subLists l) \<Longrightarrow> size x < size l"
  by (cases l) (auto simp: less_Suc_eq_le trans_le_add1 dest: size_list_estimation' [of _ _ _ size])

lemma size_subLists_nth: "i < length (subLists l) \<Longrightarrow> size (subLists l ! i) < size l"
  by (rule size_subLists) simp

section \<open>initList and freeList\<close>

text \<open>
  The array is filled by 256 calls of initList with the same arguments, so its entries are
  equal.
\<close>

definition hasSemaphore :: "nat \<Rightarrow> bool \<Rightarrow> byte \<Rightarrow> bool" where
  "hasSemaphore lev isTop se \<longleftrightarrow>
     (lev = 0 \<and> se AND LIST_SEMAPHORE_ENABLE_LEAF \<noteq> 0)
     \<or> (isTop \<and> se AND LIST_SEMAPHORE_ENABLE_GLOBAL \<noteq> 0)"

fun initList :: "nat \<Rightarrow> nat \<Rightarrow> nat \<Rightarrow> byte \<Rightarrow> endian \<Rightarrow> 'a hlist res" where
  "initList lev nest hl se en =
     (if lev > LIST_LIMIT_LEVEL then Inl (Exit EXIT_CODE_LIST_WRONG_LIMIT)
      else if lev > hl then Inl (Exit EXIT_CODE_LIST_WRONG_HASH_LENGTH)
      else bindR
        (if lev > 0
         then bindR (initList (lev - 1) (nest + 1) hl se en) (\<lambda>c. Inr (replicate LIST_BYTE_SIZE c))
         else Inr [])
        (\<lambda>ch. Inr (HList ch [] (if hasSemaphore lev (nest = 0) se then Some 1 else None)
                 en hl lev se)))"

declare initList.simps [simp del]

fun all_res :: "('k \<Rightarrow> unit res) \<Rightarrow> 'k list \<Rightarrow> unit res" where
  "all_res f [] = Inr ()"
| "all_res f (x # xs) = bindR (f x) (\<lambda>_. all_res f xs)"

lemma all_res_cong [fundef_cong]:
  "xs = ys \<Longrightarrow> (\<And>x. x \<in> set ys \<Longrightarrow> f x = g x) \<Longrightarrow> all_res f xs = all_res g ys"
  by (induction ys arbitrary: xs) (auto intro: bindR_cong)

lemma all_res_ok: "(\<And>x. x \<in> set xs \<Longrightarrow> f x = Inr ()) \<Longrightarrow> all_res f xs = Inr ()"
  by (induction xs) auto

function freeList :: "bool \<Rightarrow> 'a hlist \<Rightarrow> unit res" where
  "freeList firstRecursion l =
     (if leafItems l \<noteq> [] then Inl (Exit EXIT_CODE_LIST_NOT_EMPTY)
      else bindR (if level l > 0 then all_res (freeList False) (subLists l) else Inr ())
        (\<lambda>_. if hasSemaphore (level l) firstRecursion (semaphoreEnabled l) \<and> semaphore l = None
             then Inl Null_deref else Inr ()))"
  by pat_completeness auto
termination
  by (relation "measure (\<lambda>(b, l). size l)") (auto dest: size_subLists)

declare freeList.simps [simp del]

section \<open>Semaphores of a leaf\<close>

text \<open>
  The sequential reading of the wait and post of a leaf: a wait on a semaphore that is 0 does
  not return unless another thread posts it.
\<close>

definition waitSemaphoreLeaf :: "'a hlist \<Rightarrow> 'a hlist res" where
  "waitSemaphoreLeaf leaf =
     (if semaphoreEnabled leaf \<noteq> 0
      then (case semaphore leaf of
              None \<Rightarrow> Inl Null_deref
            | Some v \<Rightarrow> if v = 0 then Inl Blocked else Inr (set_semaphore (Some (v - 1)) leaf))
      else Inr leaf)"

definition postSemaphoreLeaf :: "'a hlist \<Rightarrow> 'a hlist res" where
  "postSemaphoreLeaf leaf =
     (if semaphoreEnabled leaf \<noteq> 0
      then (case semaphore leaf of
              None \<Rightarrow> Inl Null_deref
            | Some v \<Rightarrow> Inr (set_semaphore (Some (v + 1)) leaf))
      else Inr leaf)"

section \<open>Finding a leaf\<close>

text \<open>The byte of the hash that selects the entry at a nesting depth.\<close>

definition leafIndex :: "endian \<Rightarrow> nat \<Rightarrow> nat \<Rightarrow> bytes \<Rightarrow> nat res" where
  "leafIndex en hl nest hash =
     bindR (nth_res hash (if en = BIG_ENDIAN then hl - 1 - nest else nest)) (\<lambda>b. Inr (unat b))"

text \<open>
  The loop of getLeaf: cur is currentList, nest counts the tables passed. updLeafFrom is the
  write through the pointer it returns: the same walk, rebuilding the tables on the way.
\<close>

function getLeafFrom :: "endian \<Rightarrow> nat \<Rightarrow> bytes \<Rightarrow> nat \<Rightarrow> 'a hlist \<Rightarrow> 'a hlist res" where
  "getLeafFrom en hl hash nest cur =
     (if level cur > 0
      then bindR (leafIndex en hl nest hash) (\<lambda>i.
             if i < length (subLists cur)
             then getLeafFrom en hl hash (nest + 1) (subLists cur ! i)
             else Inl Out_of_bounds)
      else Inr cur)"
  by pat_completeness auto
termination
  by (relation "measure (\<lambda>(en, hl, h, n, l). size l)") (auto intro: size_subLists_nth)

declare getLeafFrom.simps [simp del]

function updLeafFrom ::
  "endian \<Rightarrow> nat \<Rightarrow> bytes \<Rightarrow> nat \<Rightarrow> ('a hlist \<Rightarrow> 'a hlist) \<Rightarrow> 'a hlist \<Rightarrow> 'a hlist res" where
  "updLeafFrom en hl hash nest f cur =
     (if level cur > 0
      then bindR (leafIndex en hl nest hash) (\<lambda>i.
             if i < length (subLists cur)
             then bindR (updLeafFrom en hl hash (nest + 1) f (subLists cur ! i))
                    (\<lambda>c. Inr (set_subLists ((subLists cur)[i := c]) cur))
             else Inl Out_of_bounds)
      else Inr (f cur))"
  by pat_completeness auto
termination
  by (relation "measure (\<lambda>(en, hl, h, n, f, l). size l)") (auto intro: size_subLists_nth)

declare updLeafFrom.simps [simp del]

definition getLeaf :: "'a hlist \<Rightarrow> bytes \<Rightarrow> 'a hlist res" where
  "getLeaf l hash = getLeafFrom (endianness l) (hashLength l) hash 0 l"

definition updLeaf :: "'a hlist \<Rightarrow> bytes \<Rightarrow> ('a hlist \<Rightarrow> 'a hlist) \<Rightarrow> 'a hlist res" where
  "updLeaf l hash f = updLeafFrom (endianness l) (hashLength l) hash 0 f l"

section \<open>Items of a leaf\<close>

text \<open>
  The search loops of setHash and getHash stop at the first item whose hash is not smaller.
  setItems also returns the data of the item found or created.
\<close>

fun setItems :: "nat \<Rightarrow> bytes \<Rightarrow> 'a item list \<Rightarrow> 'a item list \<times> 'a option" where
  "setItems n hash [] = ([(take n hash, None)], None)"
| "setItems n hash ((k, d) # xs) =
     (let hashCompare = memcmp k hash n in
      if hashCompare = 0 then ((k, d) # xs, d)
      else if hashCompare > 0 then ((take n hash, None) # (k, d) # xs, None)
      else (case setItems n hash xs of (ys, e) \<Rightarrow> ((k, d) # ys, e)))"

fun getItems :: "nat \<Rightarrow> bytes \<Rightarrow> 'a item list \<Rightarrow> 'a item option" where
  "getItems n hash [] = None"
| "getItems n hash ((k, d) # xs) =
     (let hashCompare = memcmp k hash n in
      if hashCompare = 0 then Some (k, d)
      else if hashCompare > 0 then None
      else getItems n hash xs)"

text \<open>Unlinking an item from the chain, and writing its data pointer.\<close>

fun delItem :: "bytes \<Rightarrow> 'a item list \<Rightarrow> 'a item list" where
  "delItem k [] = []"
| "delItem k ((k', d) # xs) = (if k' = k then xs else (k', d) # delItem k xs)"

fun putItem :: "bytes \<Rightarrow> 'a option \<Rightarrow> 'a item list \<Rightarrow> 'a item list" where
  "putItem k v [] = []"
| "putItem k v ((k', d) # xs) = (if k' = k then (k', v) # xs else (k', d) # putItem k v xs)"

section \<open>setHash, getHash, deleteItem, deleteHash\<close>

text \<open>
  An item pointer is the item's hash together with its list: setHash returns the list after
  the call and the data of the item, getHash the item found (None is NULL). putData is the
  assignment to the data field of an item, deleteItem the unlinking of an item.
\<close>

definition setHash :: "'a hlist \<Rightarrow> bytes \<Rightarrow> ('a hlist \<times> 'a option) res" where
  "setHash l hash =
     bindR (getLeaf l hash) (\<lambda>leaf.
       case setItems (hashLength leaf) hash (leafItems leaf) of (xs, d) \<Rightarrow>
         bindR (updLeaf l hash (set_items xs)) (\<lambda>l'. Inr (l', d)))"

definition getHash :: "'a hlist \<Rightarrow> bytes \<Rightarrow> 'a item option res" where
  "getHash l hash =
     bindR (getLeaf l hash) (\<lambda>leaf. Inr (getItems (hashLength leaf) hash (leafItems leaf)))"

definition deleteItem :: "'a hlist \<Rightarrow> bytes \<Rightarrow> 'a hlist res" where
  "deleteItem l k = updLeaf l k (\<lambda>leaf. set_items (delItem k (leafItems leaf)) leaf)"

definition putData :: "'a hlist \<Rightarrow> bytes \<Rightarrow> 'a option \<Rightarrow> 'a hlist res" where
  "putData l k v = updLeaf l k (\<lambda>leaf. set_items (putItem k v (leafItems leaf)) leaf)"

definition deleteHash :: "'a hlist \<Rightarrow> bytes \<Rightarrow> 'a hlist res" where
  "deleteHash l hash =
     bindR (getHash l hash) (\<lambda>it. case it of None \<Rightarrow> Inr l | Some (k, d) \<Rightarrow> deleteItem l k)"

definition getLeafSemaphore :: "'a hlist \<Rightarrow> bytes \<Rightarrow> nat option res" where
  "getLeafSemaphore l hash = bindR (getLeaf l hash) (\<lambda>leaf. Inr (semaphore leaf))"

section \<open>mapList\<close>

text \<open>
  A callback gets the leaf (as its path, which identifies it), the item and its argument
  block; it may change or delete the item it is called on and returns whether to stop.
\<close>

datatype 'a effect = Keep "'a option" | Remove

type_synonym ('a, 's) callback =
  "nat list \<Rightarrow> bytes \<Rightarrow> 'a option \<Rightarrow> 's \<Rightarrow> ('a effect \<times> 's \<times> bool) res"

fun effect_items :: "bytes \<Rightarrow> 'a effect \<Rightarrow> 'a item list" where
  "effect_items k (Keep d) = [(k, d)]"
| "effect_items k Remove = []"

text \<open>The loop over the chain of a leaf: the next item is read before the callback runs.\<close>

fun mapItems ::
  "('a, 's) callback \<Rightarrow> nat list \<Rightarrow> 's \<Rightarrow> 'a item list \<Rightarrow> ('a item list \<times> 's \<times> bool) res" where
  "mapItems cb path s [] = Inr ([], s, False)"
| "mapItems cb path s ((k, d) # xs) =
     bindR (cb path k d s) (\<lambda>(e, s', brk).
       if brk then Inr (effect_items k e @ xs, s', True)
       else bindR (mapItems cb path s' xs) (\<lambda>(ys, s'', b). Inr (effect_items k e @ ys, s'', b)))"

text \<open>The loop over the 256 entries of a table, left when a call breaks.\<close>

fun mapSubLists ::
  "(nat \<Rightarrow> 's \<Rightarrow> 'k \<Rightarrow> ('k \<times> 's \<times> bool) res) \<Rightarrow> nat \<Rightarrow> 's \<Rightarrow> 'k list \<Rightarrow> ('k list \<times> 's \<times> bool) res" where
  "mapSubLists f i s [] = Inr ([], s, False)"
| "mapSubLists f i s (x # xs) =
     bindR (f i s x) (\<lambda>(x', s', brk).
       if brk then Inr (x' # xs, s', True)
       else bindR (mapSubLists f (Suc i) s' xs) (\<lambda>(ys, s'', b). Inr (x' # ys, s'', b)))"

lemma mapSubLists_cong [fundef_cong]:
  "i = j \<Longrightarrow> s = t \<Longrightarrow> xs = ys \<Longrightarrow> (\<And>m u x. x \<in> set ys \<Longrightarrow> f m u x = g m u x)
   \<Longrightarrow> mapSubLists f i s xs = mapSubLists g j t ys"
  by (induction ys arbitrary: xs i j s t) (auto intro!: bindR_cong)

function mapList ::
  "('a, 's) callback \<Rightarrow> nat list \<Rightarrow> 's \<Rightarrow> 'a hlist \<Rightarrow> ('a hlist \<times> 's \<times> bool) res" where
  "mapList cb path s l =
     (if level l > 0
      then bindR (mapSubLists (\<lambda>i u c. mapList cb (path @ [i]) u c) 0 s (subLists l))
             (\<lambda>(ch, s', b). Inr (set_subLists ch l, s', b))
      else if leafItems l = [] then Inr (l, s, False)
      else bindR (waitSemaphoreLeaf l) (\<lambda>l1.
             bindR (mapItems cb path s (leafItems l1)) (\<lambda>(xs, s', b).
               bindR (postSemaphoreLeaf (set_items xs l1)) (\<lambda>l2. Inr (l2, s', b)))))"
  by pat_completeness auto
termination
  by (relation "measure (\<lambda>(cb, p, s, l). size l)") (auto dest: size_subLists)

declare mapList.simps [simp del]

text \<open>mapList on a list pointer that may be NULL.\<close>

definition mapListPtr ::
  "('a, 's) callback \<Rightarrow> 's \<Rightarrow> 'a hlist option \<Rightarrow> ('a hlist option \<times> 's \<times> bool) res" where
  "mapListPtr cb s lp =
     (case lp of
        None \<Rightarrow> Inr (None, s, False)
      | Some l \<Rightarrow> bindR (mapList cb [] s l) (\<lambda>(l', s', b). Inr (Some l', s', b)))"

section \<open>reInitList\<close>

text \<open>
  Every item of the old list is set in the new one and takes its data along; the old item is
  deleted, so the old list is empty when it is freed.
\<close>

definition reInitListCallback :: "('a, 'a hlist) callback" where
  "reInitListCallback path k d resultList =
     bindR (setHash resultList k) (\<lambda>(r, _).
       bindR (putData r k d) (\<lambda>r'. Inr (Remove, r', False)))"

definition reInitList :: "'a hlist \<Rightarrow> nat \<Rightarrow> 'a hlist res" where
  "reInitList l lev =
     bindR (initList lev 0 (hashLength l) (semaphoreEnabled l) (endianness l)) (\<lambda>resultList.
       bindR (mapList reInitListCallback [] resultList l) (\<lambda>(l', result', _).
         bindR (freeList True l') (\<lambda>_. Inr result')))"

end
