(* ===== verification/Hash_List_Laws.thy ===== *)
theory Hash_List_Laws
  imports Hash_List
begin

text \<open>
  What keeps a list of list.c well formed (wf\_hlist) and what its operations do to the
  sequence of its items (allItems): every operation touches the chain of one leaf, the leaf
  the hash selects, and leaves the rest of the sequence as it is. mapList gets an invariant
  rule in the style of a loop rule. The laws are stated once, as a locale (hash\_store), and
  the operations of Hash\_List are its interpretation.
\<close>

section \<open>Items in the order of mapList\<close>

fun allItems :: "'a hlist \<Rightarrow> 'a item list" where
  "allItems (HList ch xs sm en hl lv se) = (if lv > 0 then concat (map allItems ch) else xs)"

lemma allItems_node: "level l > 0 \<Longrightarrow> allItems l = concat (map allItems (subLists l))"
  by (cases l) simp

lemma allItems_leaf: "level l = 0 \<Longrightarrow> allItems l = leafItems l"
  by (cases l) simp

declare allItems.simps [simp del]

abbreviation keys :: "'a item list \<Rightarrow> bytes set" where
  "keys xs \<equiv> fst ` set xs"

section \<open>Well-formed lists\<close>

text \<open>
  Every node of a list carries the parameters of the list and the semaphore they ask for; a
  leaf is sorted strictly by hash and its hashes have the list's length; a table has 256
  entries, and the hashes below entry i select entry i at this depth.
\<close>

definition header :: "nat \<Rightarrow> endian \<Rightarrow> nat \<Rightarrow> byte \<Rightarrow> 'a hlist \<Rightarrow> bool" where
  "header nest en hl se l \<longleftrightarrow>
     endianness l = en \<and> hashLength l = hl \<and> semaphoreEnabled l = se \<and>
     (semaphore l \<noteq> None \<longleftrightarrow> hasSemaphore (level l) (nest = 0) se)"

definition route :: "endian \<Rightarrow> nat \<Rightarrow> nat \<Rightarrow> bytes \<Rightarrow> nat" where
  "route en hl nest k = unat (k ! (if en = BIG_ENDIAN then hl - 1 - nest else nest))"

fun wf_node :: "nat \<Rightarrow> nat \<Rightarrow> endian \<Rightarrow> nat \<Rightarrow> byte \<Rightarrow> 'a hlist \<Rightarrow> bool" where
  "wf_node 0 nest en hl se l \<longleftrightarrow>
     header nest en hl se l \<and> level l = 0 \<and> subLists l = [] \<and>
     sorted_wrt (<) (map fst (leafItems l)) \<and> (\<forall>k \<in> keys (leafItems l). length k = hl)"
| "wf_node (Suc n) nest en hl se l \<longleftrightarrow>
     header nest en hl se l \<and> level l = Suc n \<and> leafItems l = [] \<and>
     length (subLists l) = LIST_BYTE_SIZE \<and>
     (\<forall>i < LIST_BYTE_SIZE. wf_node n (nest + 1) en hl se (subLists l ! i) \<and>
        (\<forall>k \<in> keys (allItems (subLists l ! i)). route en hl nest k = i))"

lemma wf_node_level: "wf_node n nest en hl se l \<Longrightarrow> level l = n"
  by (cases n) auto

lemma leafIndex_route:
  "length h = hl \<Longrightarrow> nest < hl \<Longrightarrow> leafIndex en hl nest h = Inr (route en hl nest h)"
  by (simp add: leafIndex_def route_def)

lemma route_less: "route en hl nest h < LIST_BYTE_SIZE"
  unfolding route_def LIST_BYTE_SIZE_def
  by (rule order_less_le_trans [OF unsigned_less]) simp

lemma concat_map_nth:
  assumes "i < length xs"
  shows "concat (map f xs) = concat (map f (take i xs)) @ f (xs ! i) @ concat (map f (drop (Suc i) xs))"
proof -
  have "xs = take i xs @ xs ! i # drop (Suc i) xs"
    using assms by (rule id_take_nth_drop)
  then have "concat (map f xs) = concat (map f (take i xs @ xs ! i # drop (Suc i) xs))" by simp
  then show ?thesis by simp
qed

lemma wf_node_lengths:
  "wf_node n nest en hl se l \<Longrightarrow> k \<in> keys (allItems l) \<Longrightarrow> length k = hl"
proof (induction n arbitrary: nest l)
  case 0
  then show ?case by (auto simp: allItems_leaf)
next
  case (Suc n)
  then have "k \<in> keys (concat (map allItems (subLists l)))" by (simp add: allItems_node)
  then obtain c where "c \<in> set (subLists l)" "k \<in> keys (allItems c)" by auto
  moreover from this(1) Suc.prems obtain i where "i < LIST_BYTE_SIZE" "c = subLists l ! i"
    by (auto simp: in_set_conv_nth)
  ultimately show ?case using Suc by auto
qed

lemma in_take_drop_nth:
  assumes "x \<in> set (take i xs) \<union> set (drop (Suc i) xs)"
  obtains j where "j < length xs" "j \<noteq> i" "x = xs ! j"
proof (cases "x \<in> set (take i xs)")
  case True
  then show ?thesis using that by (auto simp: in_set_conv_nth)
next
  case False
  with assms obtain m where "m < length (drop (Suc i) xs)" "x = drop (Suc i) xs ! m"
    by (auto simp: in_set_conv_nth)
  then show ?thesis using that [of "Suc i + m"] by simp
qed

text \<open>
  The focus of a hash: one leaf, whose chain is a segment of allItems that holds the hash if
  any segment does; writing that leaf rewrites that segment and nothing else.
\<close>

lemma leaf_focus:
  assumes "wf_node n nest en hl se l" "length h = hl" "n + nest \<le> hl"
  shows "\<exists>leaf A B. getLeafFrom en hl h nest l = Inr leaf \<and> wf_node 0 (nest + n) en hl se leaf \<and>
    allItems l = A @ leafItems leaf @ B \<and> h \<notin> keys A \<and> h \<notin> keys B \<and>
    (\<forall>f. wf_node 0 (nest + n) en hl se (f leaf) \<longrightarrow>
         keys (leafItems (f leaf)) \<subseteq> insert h (keys (leafItems leaf)) \<longrightarrow>
         (\<exists>l'. updLeafFrom en hl h nest f l = Inr l' \<and> wf_node n nest en hl se l' \<and>
               allItems l' = A @ leafItems (f leaf) @ B))"
  using assms
proof (induction n arbitrary: nest l)
  case 0
  then show ?case
    by (intro exI [of _ l] exI [of _ "[]"])
      (auto simp: getLeafFrom.simps [of _ _ _ _ l] updLeafFrom.simps [of _ _ _ _ _ l] allItems_leaf)
next
  case (Suc n)
  let ?i = "route en hl nest h" and ?c = "subLists l ! route en hl nest h"
  have i: "?i < length (subLists l)" using Suc.prems(1) route_less by simp
  have c: "wf_node n (nest + 1) en hl se ?c" using Suc.prems(1) route_less by simp
  have ri: "route en hl nest k = ?i" if "k \<in> keys (allItems ?c)" for k
    using that Suc.prems(1) route_less [of en hl nest h] by auto
  have ix: "leafIndex en hl nest h = Inr ?i" using Suc.prems by (simp add: leafIndex_route)
  from Suc.IH [OF c] Suc.prems obtain leaf A B where IH:
    "getLeafFrom en hl h (nest + 1) ?c = Inr leaf" "wf_node 0 (nest + 1 + n) en hl se leaf"
    "allItems ?c = A @ leafItems leaf @ B" "h \<notin> keys A" "h \<notin> keys B"
    "\<And>f. wf_node 0 (nest + 1 + n) en hl se (f leaf) \<Longrightarrow>
         keys (leafItems (f leaf)) \<subseteq> insert h (keys (leafItems leaf)) \<Longrightarrow>
         \<exists>l'. updLeafFrom en hl h (nest + 1) f ?c = Inr l' \<and> wf_node n (nest + 1) en hl se l' \<and>
               allItems l' = A @ leafItems (f leaf) @ B" by fastforce
  let ?A = "concat (map allItems (take ?i (subLists l)))"
  let ?B = "concat (map allItems (drop (Suc ?i) (subLists l)))"
  have all: "allItems l = ?A @ allItems ?c @ ?B"
    using Suc.prems(1) i by (simp add: allItems_node concat_map_nth)
  have other: "h \<notin> keys (allItems (subLists l ! j))" if "j < length (subLists l)" "j \<noteq> ?i" for j
    using that Suc.prems(1) by fastforce
  have hA: "h \<notin> keys ?A"
  proof
    assume "h \<in> keys ?A"
    then obtain x where x: "x \<in> set (take ?i (subLists l))" "h \<in> keys (allItems x)" by auto
    then have "x \<in> set (take ?i (subLists l)) \<union> set (drop (Suc ?i) (subLists l))" by blast
    then obtain j where "j < length (subLists l)" "j \<noteq> ?i" "x = subLists l ! j"
      by (rule in_take_drop_nth)
    with x(2) other show False by blast
  qed
  have hB: "h \<notin> keys ?B"
  proof
    assume "h \<in> keys ?B"
    then obtain x where x: "x \<in> set (drop (Suc ?i) (subLists l))" "h \<in> keys (allItems x)" by auto
    then have "x \<in> set (take ?i (subLists l)) \<union> set (drop (Suc ?i) (subLists l))" by blast
    then obtain j where "j < length (subLists l)" "j \<noteq> ?i" "x = subLists l ! j"
      by (rule in_take_drop_nth)
    with x(2) other show False by blast
  qed
  have get: "getLeafFrom en hl h nest l = Inr leaf"
    using Suc.prems(1) i IH(1) ix by (simp add: getLeafFrom.simps [of _ _ _ _ l])
  have upd: "\<exists>l'. updLeafFrom en hl h nest f l = Inr l' \<and> wf_node (Suc n) nest en hl se l' \<and>
               allItems l' = (?A @ A) @ leafItems (f leaf) @ B @ ?B"
    if f: "wf_node 0 (nest + 1 + n) en hl se (f leaf)"
      "keys (leafItems (f leaf)) \<subseteq> insert h (keys (leafItems leaf))" for f
  proof -
    from IH(6) [of f, OF f] obtain c' where c': "updLeafFrom en hl h (nest + 1) f ?c = Inr c'"
      "wf_node n (nest + 1) en hl se c'" "allItems c' = A @ leafItems (f leaf) @ B" by blast
    let ?l = "set_subLists ((subLists l)[?i := c']) l"
    have u: "updLeafFrom en hl h nest f l = Inr ?l"
      using Suc.prems(1) i c'(1) ix by (simp add: updLeafFrom.simps [of _ _ _ _ _ l])
    have hd: "header nest en hl se ?l" using Suc.prems(1) by (simp add: header_def)
    have kc: "route en hl nest k = ?i" if "k \<in> keys (allItems c')" for k
    proof -
      from that f(2) have "k = h \<or> k \<in> keys (allItems ?c)"
        unfolding c'(3) IH(3) by (auto simp: image_Un)
      then show ?thesis using ri by blast
    qed
    have w: "wf_node (Suc n) nest en hl se ?l"
    proof -
      have "wf_node n (nest + 1) en hl se ((subLists l)[?i := c'] ! j) \<and>
          (\<forall>k \<in> keys (allItems ((subLists l)[?i := c'] ! j)). route en hl nest k = j)"
        if j: "j < LIST_BYTE_SIZE" for j
      proof (cases "j = ?i")
        case True
        then have "(subLists l)[?i := c'] ! j = c'" using i by simp
        with True c'(2) kc show ?thesis by auto
      next
        case False
        then have "(subLists l)[?i := c'] ! j = subLists l ! j" by simp
        with j Suc.prems(1) show ?thesis by simp
      qed
      with Suc.prems(1) hd show ?thesis
        unfolding wf_node.simps set_fields length_list_update by blast
    qed
    have "allItems ?l = ?A @ allItems c' @ ?B"
      using Suc.prems(1) i by (simp add: allItems_node concat_map_nth [of ?i])
    with c'(3) u w show ?thesis by auto
  qed
  show ?case
    by (intro exI [of _ leaf] exI [of _ "?A @ A"] exI [of _ "B @ ?B"])
      (use get IH(2,3,4,5) all hA hB upd in \<open>auto simp: image_Un\<close>)
qed


lemma wf_node_distinct:
  "wf_node n nest en hl se l \<Longrightarrow> distinct (map fst (allItems l))"
proof (induction n arbitrary: nest l)
  case 0
  then show ?case
    by (auto simp: allItems_leaf strict_sorted_iff)
next
  case (Suc n)
  have *: "distinct (map fst (concat (map allItems cs)))"
    if "\<forall>i < length cs. distinct (map fst (allItems (cs ! i))) \<and>
        (\<forall>k \<in> keys (allItems (cs ! i)). route en hl nest k = b + i)" for cs :: "'a hlist list" and b
    using that
  proof (induction cs arbitrary: b)
    case Nil
    then show ?case by simp
  next
    case (Cons c cs)
    have "distinct (map fst (concat (map allItems cs)))"
      by (rule Cons.IH [of "Suc b"]) (use Cons.prems in force)
    moreover have "keys (allItems c) \<inter> keys (concat (map allItems cs)) = {}"
    proof -
      have "route en hl nest k = b" if "k \<in> keys (allItems c)" for k
        using that Cons.prems by force
      moreover have "b < route en hl nest k" if k: "k \<in> keys (concat (map allItems cs))" for k
      proof -
        from k obtain c' where "c' \<in> set cs" "k \<in> keys (allItems c')" by auto
        then obtain i where "i < length cs" "k \<in> keys (allItems (cs ! i))"
          by (auto simp: in_set_conv_nth)
        with Cons.prems [rule_format, of "Suc i"] show ?thesis by auto
      qed
      ultimately show ?thesis by (metis disjoint_iff less_irrefl)
    qed
    moreover have "distinct (map fst (allItems c))" using Cons.prems by force
    ultimately show ?case by auto
  qed
  have "distinct (map fst (concat (map allItems (subLists l))))"
    by (rule * [of _ 0]) (use Suc in auto)
  with Suc.prems show ?case by (simp add: allItems_node)
qed


section \<open>One leaf\<close>

lemma setItems_found:
  assumes "sorted_wrt (<) (map fst (xs @ (h, d) # ys))"
    "\<forall>k \<in> keys (xs @ (h, d) # ys). length k = n"
  shows "setItems n h (xs @ (h, d) # ys) = (xs @ (h, d) # ys, d)"
  using assms
  by (induction xs) (auto simp: Let_def memcmp_eq_0 memcmp_gt_0 sorted_wrt_append)

lemma setItems_new:
  assumes "sorted_wrt (<) (map fst xs)" "\<forall>k \<in> keys xs. length k = n" "length h = n" "h \<notin> keys xs"
  shows "\<exists>A B. xs = A @ B \<and> setItems n h xs = (A @ (h, None) # B, None) \<and>
    sorted_wrt (<) (map fst (A @ (h, None) # B))"
  using assms
proof (induction xs)
  case Nil
  then show ?case by simp
next
  case (Cons x xs)
  obtain k d where x: "x = (k, d)" by (cases x)
  show ?case
  proof (cases "h < k")
    case True
    then show ?thesis
      by (intro exI [of _ "[]"] exI [of _ "x # xs"])
        (use Cons.prems x in \<open>force simp: Let_def memcmp_eq_0 memcmp_gt_0\<close>)
  next
    case False
    then have less: "k < h" using Cons.prems x by auto
    from Cons obtain A B where AB: "xs = A @ B" "setItems n h xs = (A @ (h, None) # B, None)"
      "sorted_wrt (<) (map fst (A @ (h, None) # B))" by auto
    show ?thesis
      by (intro exI [of _ "x # A"] exI [of _ B])
        (use Cons.prems x less AB in \<open>auto simp: Let_def memcmp_eq_0 memcmp_gt_0\<close>)
  qed
qed

lemma getItems_map_of:
  assumes "sorted_wrt (<) (map fst xs)" "\<forall>k \<in> keys xs. length k = n" "length h = n"
  shows "getItems n h xs = map_option (Pair h) (map_of xs h)"
  using assms
proof (induction xs)
  case Nil
  then show ?case by simp
next
  case (Cons x xs)
  obtain k d where x: "x = (k, d)" by (cases x)
  have "map_of xs h = None" if "h < k"
    using Cons.prems(1) that x by (force simp: map_of_eq_None_iff)
  with Cons x show ?case by (auto simp: Let_def memcmp_eq_0 memcmp_gt_0)
qed

lemma delItem_found:
  "h \<notin> keys xs \<Longrightarrow> delItem h (xs @ (h, d) # ys) = xs @ ys"
  by (induction xs) auto

lemma delItem_absent: "h \<notin> keys xs \<Longrightarrow> delItem h xs = xs"
  by (induction xs) auto

lemma putItem_found:
  "h \<notin> keys xs \<Longrightarrow> putItem h v (xs @ (h, d) # ys) = xs @ (h, v) # ys"
  by (induction xs) auto

lemma map_of_segment:
  "h \<notin> keys A \<Longrightarrow> h \<notin> keys B \<Longrightarrow> map_of (A @ xs @ B) h = map_of xs h"
proof -
  assume "h \<notin> keys A" "h \<notin> keys B"
  then have "map_of A h = None" "map_of B h = None" by (simp_all only: map_of_eq_None_iff not_False_eq_True)
  then show ?thesis by (simp add: map_add_def split: option.split)
qed

lemma not_in_keys: "h \<notin> keys xs \<Longrightarrow> (h, d) \<notin> set xs"
  by force

lemma in_segment:
  "(h, d) \<in> set (A @ xs @ B) \<Longrightarrow> h \<notin> keys A \<Longrightarrow> h \<notin> keys B \<Longrightarrow> (h, d) \<in> set xs"
  by force

lemma segment_split:
  assumes "A @ xs @ B = P @ (h, d) # Q" "distinct (map fst (P @ (h, d) # Q))"
    "h \<notin> keys A" "h \<notin> keys B"
  obtains C D where "xs = C @ (h, d) # D" "h \<notin> keys C" "P = A @ C" "Q = D @ B"
proof -
  have "(h, d) \<in> set (A @ xs @ B)" using assms(1) by simp
  then have "(h, d) \<in> set xs" using assms(3,4) by (rule in_segment)
  then obtain C D where CD: "xs = C @ (h, d) # D" by (meson split_list)
  with assms(1) have eq: "(A @ C) @ (h, d) # (D @ B) = P @ (h, d) # Q" by simp
  have d: "distinct (map fst ((A @ C) @ (h, d) # (D @ B)))" unfolding eq by (rule assms(2))
  then have "h \<notin> keys C" "h \<notin> keys (A @ C)" "h \<notin> keys (D @ B)" by auto
  then have "(h, d) \<notin> set (A @ C)" "(h, d) \<notin> set (D @ B)" by (blast dest: not_in_keys)+
  from iffD1 [OF append_Cons_eq_iff [OF this] eq] have PQ: "P = A @ C" "Q = D @ B" by simp_all
  show thesis by (rule that [OF CD \<open>h \<notin> keys C\<close> PQ])
qed

section \<open>The laws of the operations\<close>

definition wf_hlist :: "'a hlist \<Rightarrow> bool" where
  "wf_hlist l \<longleftrightarrow> level l \<le> hashLength l \<and>
     wf_node (level l) 0 (endianness l) (hashLength l) (semaphoreEnabled l) l"

text \<open>The parameters of a list, which no operation changes.\<close>

definition same_params :: "'a hlist \<Rightarrow> 'b hlist \<Rightarrow> bool" where
  "same_params l l' \<longleftrightarrow> endianness l' = endianness l \<and> hashLength l' = hashLength l \<and>
     level l' = level l \<and> semaphoreEnabled l' = semaphoreEnabled l"

lemma same_params_refl [simp]: "same_params l l"
  by (simp add: same_params_def)

lemma same_params_trans: "same_params a b \<Longrightarrow> same_params b c \<Longrightarrow> same_params a c"
  by (simp add: same_params_def)

lemma wf_node_params:
  "wf_node n nest en hl se l \<Longrightarrow> endianness l = en \<and> hashLength l = hl \<and> semaphoreEnabled l = se \<and> level l = n"
  by (cases n) (auto simp: header_def)

lemma updLeaf_rule:
  assumes wf: "wf_hlist l" and h: "length h = hashLength l"
  obtains leaf A B where
    "getLeaf l h = Inr leaf" "level leaf = 0" "hashLength leaf = hashLength l"
    "allItems l = A @ leafItems leaf @ B" "h \<notin> keys A" "h \<notin> keys B"
    "sorted_wrt (<) (map fst (leafItems leaf))" "\<forall>k \<in> keys (leafItems leaf). length k = hashLength l"
    "\<And>f xs. f leaf = set_items xs leaf \<Longrightarrow> sorted_wrt (<) (map fst xs) \<Longrightarrow>
       keys xs \<subseteq> insert h (keys (leafItems leaf)) \<Longrightarrow>
       \<exists>l'. updLeaf l h f = Inr l' \<and> wf_hlist l' \<and> same_params l l' \<and> allItems l' = A @ xs @ B"
proof -
  let ?P = "wf_node (level l) 0 (endianness l) (hashLength l) (semaphoreEnabled l)"
  have "?P l" "level l + 0 \<le> hashLength l" using wf by (auto simp: wf_hlist_def)
  from leaf_focus [OF this(1) h this(2)] obtain leaf A B where F:
    "getLeafFrom (endianness l) (hashLength l) h 0 l = Inr leaf"
    "wf_node 0 (0 + level l) (endianness l) (hashLength l) (semaphoreEnabled l) leaf"
    "allItems l = A @ leafItems leaf @ B" "h \<notin> keys A" "h \<notin> keys B"
    "\<And>f. wf_node 0 (0 + level l) (endianness l) (hashLength l) (semaphoreEnabled l) (f leaf) \<Longrightarrow>
         keys (leafItems (f leaf)) \<subseteq> insert h (keys (leafItems leaf)) \<Longrightarrow>
         \<exists>l'. updLeafFrom (endianness l) (hashLength l) h 0 f l = Inr l' \<and> ?P l' \<and>
               allItems l' = A @ leafItems (f leaf) @ B" by metis
  show thesis
  proof (rule that [of leaf A B])
    fix f :: "'a hlist \<Rightarrow> 'a hlist" and xs
    assume f: "f leaf = set_items xs leaf" "sorted_wrt (<) (map fst xs)"
      "keys xs \<subseteq> insert h (keys (leafItems leaf))"
    moreover have "length k = hashLength l" if "k \<in> keys xs" for k
    proof -
      have "k = h \<or> k \<in> keys (leafItems leaf)" using that f(3) by blast
      with F(2) h show ?thesis by auto
    qed
    ultimately have "wf_node 0 (0 + level l) (endianness l) (hashLength l) (semaphoreEnabled l) (f leaf)"
      using F(2) by (simp add: header_def)
    then obtain l' where l': "updLeafFrom (endianness l) (hashLength l) h 0 f l = Inr l'" "?P l'"
      "allItems l' = A @ leafItems (f leaf) @ B"
      using F(6) [of f] f by auto
    with wf_node_params [OF l'(2)] wf f
    show "\<exists>l'. updLeaf l h f = Inr l' \<and> wf_hlist l' \<and> same_params l l' \<and> allItems l' = A @ xs @ B"
      by (auto simp: updLeaf_def wf_hlist_def same_params_def)
  qed (use F(1-5) in \<open>auto simp: getLeaf_def header_def\<close>)
qed

lemma wf_hlist_distinct: "wf_hlist l \<Longrightarrow> distinct (map fst (allItems l))"
  unfolding wf_hlist_def by (blast intro: wf_node_distinct)

lemma wf_hlist_length: "wf_hlist l \<Longrightarrow> k \<in> keys (allItems l) \<Longrightarrow> length k = hashLength l"
  unfolding wf_hlist_def by (blast intro: wf_node_lengths)

lemma setHash_new:
  assumes "wf_hlist l" "length h = hashLength l" "h \<notin> keys (allItems l)"
  shows "\<exists>l' A B. setHash l h = Inr (l', None) \<and> wf_hlist l' \<and> same_params l l' \<and>
    allItems l = A @ B \<and> allItems l' = A @ (h, None) # B"
  using assms(1,2)
proof (rule updLeaf_rule)
  fix leaf A B
  assume F: "getLeaf l h = Inr leaf" "hashLength leaf = hashLength l"
    "allItems l = A @ leafItems leaf @ B" "sorted_wrt (<) (map fst (leafItems leaf))"
    "\<forall>k \<in> keys (leafItems leaf). length k = hashLength l"
    and U: "\<And>f xs. f leaf = set_items xs leaf \<Longrightarrow> sorted_wrt (<) (map fst xs) \<Longrightarrow>
       keys xs \<subseteq> insert h (keys (leafItems leaf)) \<Longrightarrow>
       \<exists>l'. updLeaf l h f = Inr l' \<and> wf_hlist l' \<and> same_params l l' \<and> allItems l' = A @ xs @ B"
  have "h \<notin> keys (leafItems leaf)" using F(3) assms(3) by auto
  from setItems_new [OF F(4,5) assms(2) this] obtain C D where CD: "leafItems leaf = C @ D"
    "setItems (hashLength l) h (leafItems leaf) = (C @ (h, None) # D, None)"
    "sorted_wrt (<) (map fst (C @ (h, None) # D))" by blast
  then obtain l' where "updLeaf l h (set_items (C @ (h, None) # D)) = Inr l'" "wf_hlist l'"
    "same_params l l'" "allItems l' = A @ (C @ (h, None) # D) @ B"
    using U [of "set_items (C @ (h, None) # D)" "C @ (h, None) # D"] by auto
  with F CD show ?thesis
    by (intro exI [of _ l'] exI [of _ "A @ C"] exI [of _ "D @ B"]) (simp add: setHash_def)
qed

lemma setHash_found:
  assumes "wf_hlist l" "(h, d) \<in> set (allItems l)"
  shows "\<exists>l'. setHash l h = Inr (l', d) \<and> wf_hlist l' \<and> same_params l l' \<and> allItems l' = allItems l"
  using assms(1)
proof (rule updLeaf_rule)
  show len: "length h = hashLength l"
    using wf_hlist_length [OF assms(1)] assms(2) by force
  fix leaf A B
  assume F: "getLeaf l h = Inr leaf" "hashLength leaf = hashLength l"
    "allItems l = A @ leafItems leaf @ B" "h \<notin> keys A" "h \<notin> keys B"
    "sorted_wrt (<) (map fst (leafItems leaf))"
    "\<forall>k \<in> keys (leafItems leaf). length k = hashLength l"
    and U: "\<And>f xs. f leaf = set_items xs leaf \<Longrightarrow> sorted_wrt (<) (map fst xs) \<Longrightarrow>
       keys xs \<subseteq> insert h (keys (leafItems leaf)) \<Longrightarrow>
       \<exists>l'. updLeaf l h f = Inr l' \<and> wf_hlist l' \<and> same_params l l' \<and> allItems l' = A @ xs @ B"
  have "(h, d) \<in> set (leafItems leaf)" using F(3-5) assms(2) in_segment by metis
  then obtain C D where CD: "leafItems leaf = C @ (h, d) # D" by (meson split_list)
  then have "setItems (hashLength l) h (leafItems leaf) = (leafItems leaf, d)"
    using setItems_found [of C h d D "hashLength l"] F(6,7) by simp
  moreover obtain l' where "updLeaf l h (set_items (leafItems leaf)) = Inr l'" "wf_hlist l'"
    "same_params l l'" "allItems l' = A @ leafItems leaf @ B"
    using U [of "set_items (leafItems leaf)" "leafItems leaf"] F(6) by auto
  ultimately show ?thesis using F(1-3) by (simp add: setHash_def)
qed

lemma getHash_map_of:
  assumes "wf_hlist l" "length h = hashLength l"
  shows "getHash l h = Inr (map_option (Pair h) (map_of (allItems l) h))"
  using assms
proof (rule updLeaf_rule)
  fix leaf A B
  assume F: "getLeaf l h = Inr leaf" "hashLength leaf = hashLength l"
    "allItems l = A @ leafItems leaf @ B" "h \<notin> keys A" "h \<notin> keys B"
    "sorted_wrt (<) (map fst (leafItems leaf))"
    "\<forall>k \<in> keys (leafItems leaf). length k = hashLength l"
  have "map_of (allItems l) h = map_of (leafItems leaf) h"
    using F(3-5) by (metis map_of_segment)
  with F assms(2) show ?thesis by (simp add: getHash_def getItems_map_of)
qed

lemma deleteItem_found:
  assumes "wf_hlist l" "allItems l = P @ (h, d) # Q"
  shows "\<exists>l'. deleteItem l h = Inr l' \<and> wf_hlist l' \<and> same_params l l' \<and> allItems l' = P @ Q"
  using assms(1)
proof (rule updLeaf_rule)
  show len: "length h = hashLength l"
    using wf_hlist_length [OF assms(1)] assms(2) by force
  fix leaf A B
  assume F: "allItems l = A @ leafItems leaf @ B" "h \<notin> keys A" "h \<notin> keys B"
    "sorted_wrt (<) (map fst (leafItems leaf))"
    and U: "\<And>f xs. f leaf = set_items xs leaf \<Longrightarrow> sorted_wrt (<) (map fst xs) \<Longrightarrow>
       keys xs \<subseteq> insert h (keys (leafItems leaf)) \<Longrightarrow>
       \<exists>l'. updLeaf l h f = Inr l' \<and> wf_hlist l' \<and> same_params l l' \<and> allItems l' = A @ xs @ B"
  have dist: "distinct (map fst (P @ (h, d) # Q))"
    using wf_hlist_distinct [OF assms(1)] assms(2) by simp
  have "A @ leafItems leaf @ B = P @ (h, d) # Q" using F(1) assms(2) by simp
  then obtain C D where CD: "leafItems leaf = C @ (h, d) # D" and nC: "h \<notin> keys C"
    and "P = A @ C" "Q = D @ B"
    using dist F(2,3) by (rule segment_split)
  moreover have "sorted_wrt (<) (map fst (C @ D))" using F(4) CD by (simp add: sorted_wrt_append)
  ultimately show ?thesis
    using U [of "\<lambda>lf. set_items (delItem h (leafItems lf)) lf" "C @ D"] CD nC
    by (auto simp: deleteItem_def delItem_found)
qed

lemma putData_found:
  assumes "wf_hlist l" "allItems l = P @ (h, d) # Q"
  shows "\<exists>l'. putData l h v = Inr l' \<and> wf_hlist l' \<and> same_params l l' \<and> allItems l' = P @ (h, v) # Q"
  using assms(1)
proof (rule updLeaf_rule)
  show len: "length h = hashLength l"
    using wf_hlist_length [OF assms(1)] assms(2) by force
  fix leaf A B
  assume F: "allItems l = A @ leafItems leaf @ B" "h \<notin> keys A" "h \<notin> keys B"
    "sorted_wrt (<) (map fst (leafItems leaf))"
    and U: "\<And>f xs. f leaf = set_items xs leaf \<Longrightarrow> sorted_wrt (<) (map fst xs) \<Longrightarrow>
       keys xs \<subseteq> insert h (keys (leafItems leaf)) \<Longrightarrow>
       \<exists>l'. updLeaf l h f = Inr l' \<and> wf_hlist l' \<and> same_params l l' \<and> allItems l' = A @ xs @ B"
  have dist: "distinct (map fst (P @ (h, d) # Q))"
    using wf_hlist_distinct [OF assms(1)] assms(2) by simp
  have "A @ leafItems leaf @ B = P @ (h, d) # Q" using F(1) assms(2) by simp
  then obtain C D where CD: "leafItems leaf = C @ (h, d) # D" and nC: "h \<notin> keys C"
    and "P = A @ C" "Q = D @ B"
    using dist F(2,3) by (rule segment_split)
  moreover have "sorted_wrt (<) (map fst (C @ (h, v) # D))" using F(4) CD by (simp add: sorted_wrt_append)
  ultimately show ?thesis
    using U [of "\<lambda>lf. set_items (putItem h v (leafItems lf)) lf" "C @ (h, v) # D"] CD nC
    by (auto simp: putData_def putItem_found)
qed

section \<open>mapList\<close>

text \<open>No leaf is locked: whoever waits for its semaphore gets it.\<close>

fun leaves_free :: "'a hlist \<Rightarrow> bool" where
  "leaves_free (HList ch xs sm en hl lv se) \<longleftrightarrow>
     (if lv > 0 then (\<forall>c \<in> set ch. leaves_free c)
      else se = 0 \<or> (case sm of None \<Rightarrow> False | Some v \<Rightarrow> 0 < v))"

lemma leaves_free_node: "level l > 0 \<Longrightarrow> leaves_free l \<longleftrightarrow> (\<forall>c \<in> set (subLists l). leaves_free c)"
  by (cases l) auto

lemma leaves_free_leaf:
  "level l = 0 \<Longrightarrow> leaves_free l \<longleftrightarrow>
     semaphoreEnabled l = 0 \<or> (case semaphore l of None \<Rightarrow> False | Some v \<Rightarrow> 0 < v)"
  by (cases l) auto

declare leaves_free.simps [simp del]

lemma wait_post:
  assumes "level l = 0" "leaves_free l"
  obtains l1 where "waitSemaphoreLeaf l = Inr l1" "leafItems l1 = leafItems l"
    "\<And>xs. postSemaphoreLeaf (set_items xs l1) = Inr (set_items xs l)"
proof (cases "semaphoreEnabled l = 0")
  case True
  then show ?thesis
    using that [of l] by (simp add: waitSemaphoreLeaf_def postSemaphoreLeaf_def)
next
  case False
  with assms obtain v where v: "semaphore l = Some v" "0 < v"
    by (auto simp: leaves_free_leaf split: option.splits)
  have "set_semaphore (Some (v - 1 + 1)) (set_items xs (set_semaphore (Some (v - 1)) l)) = set_items xs l" for xs
    using v by (cases l) simp
  with False v show ?thesis
    using that [of "set_semaphore (Some (v - 1)) l"]
    by (simp add: waitSemaphoreLeaf_def postSemaphoreLeaf_def)
qed

text \<open>
  The invariant rule of mapList. The callback runs on the items in order; I relates its state
  to the items pre and to what they have become. A call that breaks ends with J.
\<close>

definition callback_ok ::
  "('a, 's) callback \<Rightarrow> 'a item list \<Rightarrow> ('s \<Rightarrow> 'a item list \<Rightarrow> 'a item list \<Rightarrow> bool) \<Rightarrow>
   ('s \<Rightarrow> 'a item list \<Rightarrow> 'a item list \<Rightarrow> bool) \<Rightarrow> bool" where
  "callback_ok cb T I J \<longleftrightarrow>
     (\<forall>p s pre acc k d rest. T = pre @ (k, d) # rest \<longrightarrow> I s pre acc \<longrightarrow>
        (\<exists>e s' b. cb p k d s = Inr (e, s', b) \<and>
           (if b then J s' (pre @ [(k, d)]) (acc @ effect_items k e)
            else I s' (pre @ [(k, d)]) (acc @ effect_items k e))))"

lemma effect_items_keys: "keys (effect_items k e) \<subseteq> {k}"
  by (cases e) auto

text \<open>The outcome of a call on a segment of the items: all of it, or a prefix when it breaks.\<close>

definition segment_post ::
  "('s \<Rightarrow> 'a item list \<Rightarrow> 'a item list \<Rightarrow> bool) \<Rightarrow> ('s \<Rightarrow> 'a item list \<Rightarrow> 'a item list \<Rightarrow> bool) \<Rightarrow>
   's \<Rightarrow> bool \<Rightarrow> 'a item list \<Rightarrow> 'a item list \<Rightarrow> 'a item list \<Rightarrow> 'a item list \<Rightarrow> bool" where
  "segment_post I J s b pre acc xs ys \<longleftrightarrow>
     (if b then \<exists>xs1 xs2 ys1. xs = xs1 @ xs2 \<and> ys = ys1 @ xs2 \<and> J s (pre @ xs1) (acc @ ys1)
      else I s (pre @ xs) (acc @ ys))"

lemma segment_post_stop:
  "segment_post I J s True pre acc xs ys \<Longrightarrow> segment_post I J s True pre acc (xs @ zs) (ys @ zs)"
  unfolding segment_post_def by (metis append.assoc)

lemma segment_post_append:
  "segment_post I J s b (pre @ xs) (acc @ ys) xs' ys' \<Longrightarrow>
   segment_post I J s b pre acc (xs @ xs') (ys @ ys')"
  unfolding segment_post_def by (cases b) (auto, metis append.assoc)

lemma segment_post_Cons:
  "segment_post I J s b (pre @ [x]) (acc @ zs) xs ys \<Longrightarrow> segment_post I J s b pre acc (x # xs) (zs @ ys)"
  using segment_post_append [of I J s b pre "[x]" acc zs xs ys] by simp

lemma mapItems_rule:
  assumes "callback_ok cb T I J" "T = pre @ xs @ rest" "I s pre acc"
  shows "\<exists>ys s' b. mapItems cb p s xs = Inr (ys, s', b) \<and>
    (sorted_wrt (<) (map fst xs) \<longrightarrow> sorted_wrt (<) (map fst ys)) \<and> keys ys \<subseteq> keys xs \<and>
    segment_post I J s' b pre acc xs ys"
  using assms(2,3)
proof (induction xs arbitrary: pre acc s)
  case Nil
  then show ?case
    by (intro exI [of _ "[]"] exI [of _ s] exI [of _ False]) (simp add: segment_post_def)
next
  case (Cons x xs)
  obtain k d where x: "x = (k, d)" by (cases x)
  from assms(1) Cons.prems x obtain e s1 b1 where e: "cb p k d s = Inr (e, s1, b1)"
    "if b1 then J s1 (pre @ [x]) (acc @ effect_items k e)
     else I s1 (pre @ [x]) (acc @ effect_items k e)"
    unfolding callback_ok_def by (metis append_Cons)
  show ?case
  proof (cases b1)
    case True
    then have "segment_post I J s1 True pre acc [x] (effect_items k e)"
      using e(2) unfolding segment_post_def by (metis append.right_neutral append_Nil2)
    from segment_post_stop [OF this, of xs] True e(1) x show ?thesis by (cases e) auto
  next
    case False
    then obtain ys s' b where IH: "mapItems cb p s1 xs = Inr (ys, s', b)"
      "sorted_wrt (<) (map fst xs) \<Longrightarrow> sorted_wrt (<) (map fst ys)" "keys ys \<subseteq> keys xs"
      "segment_post I J s' b (pre @ [x]) (acc @ effect_items k e) xs ys"
      using Cons.IH [of "pre @ [x]" s1 "acc @ effect_items k e"] Cons.prems e(2) by auto
    have run: "mapItems cb p s (x # xs) = Inr (effect_items k e @ ys, s', b)"
      using False e(1) IH(1) x by simp
    have ord: "sorted_wrt (<) (map fst (effect_items k e @ ys))" if "sorted_wrt (<) (map fst (x # xs))"
      using that IH(2,3) x by (cases e) force+
    moreover have "keys (effect_items k e @ ys) \<subseteq> keys (x # xs)"
      using IH(3) x by (cases e) auto
    ultimately show ?thesis using run segment_post_Cons [OF IH(4)] by blast
  qed
qed

lemma keys_concat: "keys (concat (map f xs)) = (\<Union>x \<in> set xs. keys (f x))"
  by auto

lemma mapSubLists_rule:
  assumes f: "\<And>c pre acc s m. c \<in> set cs \<Longrightarrow> \<exists>r. T = pre @ allItems c @ r \<Longrightarrow> I s pre acc \<Longrightarrow>
      \<exists>c' s' b. f m s c = Inr (c', s', b) \<and> P c c' \<and>
        segment_post I J s' b pre acc (allItems c) (allItems c')"
    and P: "\<And>c. c \<in> set cs \<Longrightarrow> P c c"
    and T: "T = pre @ concat (map allItems cs) @ rest" and I: "I s pre acc"
  shows "\<exists>ds s' b. mapSubLists f m s cs = Inr (ds, s', b) \<and> list_all2 P cs ds \<and>
    segment_post I J s' b pre acc (concat (map allItems cs)) (concat (map allItems ds))"
  using assms
proof (induction cs arbitrary: pre acc s m)
  case Nil
  then show ?case by (auto simp: segment_post_def)
next
  case (Cons c cs)
  have "\<exists>r. T = pre @ allItems c @ r" using Cons.prems(3) by simp
  with Cons.prems(1) [of c pre s acc m] Cons.prems(4) obtain c' s1 b1 where c':
    "f m s c = Inr (c', s1, b1)" "P c c'"
    "segment_post I J s1 b1 pre acc (allItems c) (allItems c')" by auto
  show ?case
  proof (cases b1)
    case True
    have "list_all2 P cs cs" using Cons.prems(2) by (simp add: list.rel_refl_strong)
    with True c' segment_post_stop [of I J s1 pre acc "allItems c" "allItems c'"] show ?thesis by auto
  next
    case False
    then have "I s1 (pre @ allItems c) (acc @ allItems c')" using c'(3) by (simp add: segment_post_def)
    moreover have "T = (pre @ allItems c) @ concat (map allItems cs) @ rest" using Cons.prems(3) by simp
    ultimately obtain ds s' b where "mapSubLists f (Suc m) s1 cs = Inr (ds, s', b)" "list_all2 P cs ds"
      "segment_post I J s' b (pre @ allItems c) (acc @ allItems c')
         (concat (map allItems cs)) (concat (map allItems ds))"
      using Cons.IH [of "pre @ allItems c" s1 "acc @ allItems c'" "Suc m"] Cons.prems(1,2) by auto
    with False c' show ?thesis by (auto intro: segment_post_append)
  qed
qed

lemma mapList_node_rule:
  assumes "callback_ok cb T I J" "wf_node n nest en hl se l" "leaves_free l"
    "T = pre @ allItems l @ rest" "I s pre acc"
  shows "\<exists>l' s' b. mapList cb p s l = Inr (l', s', b) \<and>
    (wf_node n nest en hl se l' \<and> leaves_free l' \<and> keys (allItems l') \<subseteq> keys (allItems l)) \<and>
    segment_post I J s' b pre acc (allItems l) (allItems l')"
  using assms(2-5)
proof (induction n arbitrary: nest l pre acc s p rest)
  case 0
  then have l0: "level l = 0" "allItems l = leafItems l" by (auto simp: allItems_leaf)
  show ?case
  proof (cases "leafItems l = []")
    case True
    with 0 l0 show ?thesis by (auto simp: mapList.simps [of _ _ _ l] segment_post_def)
  next
    case False
    obtain l1 where l1: "waitSemaphoreLeaf l = Inr l1" "leafItems l1 = leafItems l"
      "\<And>xs. postSemaphoreLeaf (set_items xs l1) = Inr (set_items xs l)"
      using wait_post [OF l0(1) \<open>leaves_free l\<close>] by blast
    obtain ys s' b where ys: "mapItems cb p s (leafItems l) = Inr (ys, s', b)"
      "sorted_wrt (<) (map fst ys)" "keys ys \<subseteq> keys (leafItems l)"
      "segment_post I J s' b pre acc (leafItems l) ys"
      using mapItems_rule [OF assms(1), of pre "leafItems l" rest s acc p] 0 l0
      unfolding segment_post_def by auto
    have "mapList cb p s l = Inr (set_items ys l, s', b)"
      using False l0 l1 ys(1) by (simp add: mapList.simps [of _ _ _ l])
    moreover have "wf_node 0 nest en hl se (set_items ys l)"
    proof -
      have "length k = hl" if "k \<in> keys ys" for k
      proof -
        have "k \<in> keys (leafItems l)" using that ys(3) by blast
        with 0(1) show ?thesis by auto
      qed
      with 0(1) ys(2) show ?thesis by (simp add: header_def)
    qed
    moreover have "leaves_free (set_items ys l)"
      using 0 l0 by (simp add: leaves_free_leaf)
    ultimately show ?thesis using ys l0 by (simp add: allItems_leaf)
  qed
next
  case (Suc n)
  let ?f = "\<lambda>i u c. mapList cb (p @ [i]) u c"
  let ?P = "\<lambda>c c'. wf_node n (nest + 1) en hl se c' \<and> leaves_free c' \<and> keys (allItems c') \<subseteq> keys (allItems c)"
  have lv: "level l = Suc n" using Suc.prems(1) by simp
  then have al: "allItems l = concat (map allItems (subLists l))" by (simp add: allItems_node)
  have sub: "wf_node n (nest + 1) en hl se c \<and> leaves_free c" if "c \<in> set (subLists l)" for c
    using that Suc.prems(1,2) lv by (auto simp: in_set_conv_nth leaves_free_node)
  obtain ds s' b where ds: "mapSubLists ?f 0 s (subLists l) = Inr (ds, s', b)"
    "list_all2 ?P (subLists l) ds"
    "segment_post I J s' b pre acc (concat (map allItems (subLists l))) (concat (map allItems ds))"
    using mapSubLists_rule [of "subLists l" T I ?f ?P J pre rest s acc 0] Suc.IH sub Suc.prems(3,4) al
    by (auto) blast
  let ?l = "set_subLists ds l"
  have run: "mapList cb p s l = Inr (?l, s', b)"
    using lv ds(1) by (simp add: mapList.simps [of _ _ _ l])
  have len: "length ds = LIST_BYTE_SIZE" using ds(2) Suc.prems(1) by (auto dest: list_all2_lengthD)
  have nth: "?P (subLists l ! i) (ds ! i)" if "i < LIST_BYTE_SIZE" for i
    using list_all2_nthD [OF ds(2)] that Suc.prems(1) by simp
  have rt: "\<forall>k \<in> keys (allItems (ds ! i)). route en hl nest k = i" if "i < LIST_BYTE_SIZE" for i
    using nth [OF that] that Suc.prems(1) unfolding wf_node.simps by blast
  have "header nest en hl se ?l" using Suc.prems(1) by (simp add: header_def)
  with Suc.prems(1) len nth rt have wf: "wf_node (Suc n) nest en hl se ?l"
    unfolding wf_node.simps set_fields by blast
  have free: "leaves_free ?l"
    using nth len lv by (auto simp: leaves_free_node in_set_conv_nth)
  have "keys (allItems ?l) \<subseteq> keys (allItems l)"
  proof -
    have "\<exists>c \<in> set (subLists l). keys (allItems d) \<subseteq> keys (allItems c)" if "d \<in> set ds" for d
    proof -
      from that len obtain i where i: "i < LIST_BYTE_SIZE" "d = ds ! i" by (auto simp: in_set_conv_nth)
      have "subLists l ! i \<in> set (subLists l)" using i(1) Suc.prems(1) by simp
      with nth [OF i(1)] i(2) show ?thesis by blast
    qed
    then have "keys (concat (map allItems ds)) \<subseteq> keys (concat (map allItems (subLists l)))"
      unfolding keys_concat by blast
    with lv show ?thesis by (simp add: allItems_node)
  qed
  with run wf free ds(3) lv al show ?case by (auto simp: allItems_node)
qed


lemma mapList_rule:
  assumes "wf_hlist l" "leaves_free l" "callback_ok cb (allItems l) I J" "I s [] []"
  shows "\<exists>l' s' b. mapList cb p s l = Inr (l', s', b) \<and> wf_hlist l' \<and> leaves_free l' \<and>
    same_params l l' \<and> segment_post I J s' b [] [] (allItems l) (allItems l')"
proof -
  let ?P = "wf_node (level l) 0 (endianness l) (hashLength l) (semaphoreEnabled l)"
  have l: "?P l" "level l \<le> hashLength l" using assms(1) by (auto simp: wf_hlist_def)
  from mapList_node_rule [OF assms(3) l(1) assms(2), of "[]" "[]" s "[]" p] assms(4) obtain l' s' b where
    r: "mapList cb p s l = Inr (l', s', b)" "?P l'" "leaves_free l'"
    "segment_post I J s' b [] [] (allItems l) (allItems l')" by auto
  from wf_node_params [OF r(2)] l have "wf_hlist l'" "same_params l l'"
    using r(2) by (auto simp: wf_hlist_def same_params_def)
  with r show ?thesis by blast
qed

corollary mapList_all:
  assumes "wf_hlist l" "leaves_free l" "callback_ok cb (allItems l) I (\<lambda>_ _ _. False)" "I s [] []"
  obtains l' s' where "mapList cb p s l = Inr (l', s', False)" "wf_hlist l'" "leaves_free l'"
    "same_params l l'" "I s' (allItems l) (allItems l')"
proof -
  obtain l' s' b where r: "mapList cb p s l = Inr (l', s', b)" "wf_hlist l'" "leaves_free l'"
    "same_params l l'" "segment_post I (\<lambda>_ _ _. False) s' b [] [] (allItems l) (allItems l')"
    using mapList_rule [OF assms] by blast
  then show thesis using that [of l' s'] by (cases b) (auto simp: segment_post_def)
qed

section \<open>initList, freeList and reInitList\<close>

lemma initList_wf_node:
  assumes "lev \<le> LIST_LIMIT_LEVEL" "lev \<le> hl"
  shows "\<exists>l :: 'a hlist. initList lev nest hl se en = Inr l \<and> wf_node lev nest en hl se l \<and> allItems l = [] \<and>
    (se = 0 \<or> se AND LIST_SEMAPHORE_ENABLE_LEAF \<noteq> 0 \<longrightarrow> leaves_free l)"
  using assms
proof (induction lev arbitrary: nest)
  case 0
  then show ?case
    by (auto simp: initList.simps header_def allItems_leaf leaves_free_leaf hasSemaphore_def)
next
  case (Suc n)
  then have "n \<le> LIST_LIMIT_LEVEL" "n \<le> hl" by simp_all
  from Suc.IH [OF this, of "nest + 1"]
  obtain c :: "'a hlist" where c: "initList n (nest + 1) hl se en = Inr c" "wf_node n (nest + 1) en hl se c"
    "allItems c = []" "se = 0 \<or> se AND LIST_SEMAPHORE_ENABLE_LEAF \<noteq> 0 \<longrightarrow> leaves_free c"
    by blast
  let ?l = "HList (replicate LIST_BYTE_SIZE c) []
    (if hasSemaphore (Suc n) (nest = 0) se then Some 1 else None) en hl (Suc n) se"
  have "initList (Suc n) nest hl se en = Inr ?l"
    using c(1) Suc.prems by (simp add: initList.simps [of "Suc n"])
  moreover have "wf_node (Suc n) nest en hl se ?l"
    using c by (simp add: header_def)
  moreover have "allItems ?l = []" using c(3) by (simp add: allItems.simps)
  moreover have "se = 0 \<or> se AND LIST_SEMAPHORE_ENABLE_LEAF \<noteq> 0 \<longrightarrow> leaves_free ?l"
    using c(4) by (simp add: leaves_free.simps)
  ultimately show ?case by blast
qed

lemma initList_ok:
  assumes "lev \<le> LIST_LIMIT_LEVEL" "lev \<le> hl"
  obtains l :: "'a hlist" where "initList lev 0 hl se en = Inr l" "wf_hlist l" "allItems l = []"
    "level l = lev" "hashLength l = hl" "endianness l = en" "semaphoreEnabled l = se"
    "se = 0 \<or> se AND LIST_SEMAPHORE_ENABLE_LEAF \<noteq> 0 \<longrightarrow> leaves_free l"
proof -
  from initList_wf_node [OF assms, of 0 se en] obtain l :: "'a hlist" where l: "initList lev 0 hl se en = Inr l"
    "wf_node lev 0 en hl se l" "allItems l = []"
    "se = 0 \<or> se AND LIST_SEMAPHORE_ENABLE_LEAF \<noteq> 0 \<longrightarrow> leaves_free l" by blast
  with wf_node_params [OF l(2)] assms show thesis
    by (intro that [of l]) (auto simp: wf_hlist_def)
qed

lemma freeList_node:
  assumes "wf_node n nest en hl se l"
  shows "freeList (nest = 0) l =
    (if allItems l = [] then Inr () else Inl (Exit EXIT_CODE_LIST_NOT_EMPTY))"
  using assms
proof (induction n arbitrary: nest l)
  case 0
  then show ?case by (auto simp: freeList.simps [of _ l] header_def allItems_leaf)
next
  case (Suc n)
  have kids: "all_res (freeList False) cs =
      (if concat (map allItems cs) = [] then Inr () else Inl (Exit EXIT_CODE_LIST_NOT_EMPTY))"
    if "\<forall>c \<in> set cs. wf_node n (nest + 1) en hl se c" for cs :: "'a hlist list"
    using that Suc.IH [of "nest + 1"] by (induction cs) auto
  have "\<forall>c \<in> set (subLists l). wf_node n (nest + 1) en hl se c"
    using Suc.prems by (auto simp: in_set_conv_nth)
  from kids [OF this] Suc.prems show ?case
    by (auto simp: freeList.simps [of _ l] header_def allItems_node)
qed

lemma freeList_wf:
  "wf_hlist l \<Longrightarrow>
   freeList True l = (if allItems l = [] then Inr () else Inl (Exit EXIT_CODE_LIST_NOT_EMPTY))"
  using freeList_node [of "level l" 0 "endianness l" "hashLength l" "semaphoreEnabled l" l]
  by (simp add: wf_hlist_def)

section \<open>The interface the clients rely on\<close>

text \<open>
  What data.c, data\_garbage.c, socket\_garbage.c and websocket.c rely on: a store of items by
  hash, in some order, of which an operation touches the item of its hash and no other.
\<close>

locale hash_store =
  fixes its :: "'l \<Rightarrow> 'a item list"
    and invar :: "'l \<Rightarrow> bool"
    and klen :: "'l \<Rightarrow> nat"
    and same :: "'l \<Rightarrow> 'l \<Rightarrow> bool"
    and ins :: "'l \<Rightarrow> bytes \<Rightarrow> ('l \<times> 'a option) res"
    and get :: "'l \<Rightarrow> bytes \<Rightarrow> 'a item option res"
    and put :: "'l \<Rightarrow> bytes \<Rightarrow> 'a option \<Rightarrow> 'l res"
    and del :: "'l \<Rightarrow> bytes \<Rightarrow> 'l res"
  assumes its_distinct: "invar l \<Longrightarrow> distinct (map fst (its l))"
    and its_length: "invar l \<Longrightarrow> k \<in> keys (its l) \<Longrightarrow> length k = klen l"
    and same_trans: "same a b \<Longrightarrow> same b c \<Longrightarrow> same a c"
    and same_refl: "same a a"
    and same_klen: "same a b \<Longrightarrow> klen b = klen a"
    and ins_new: "invar l \<Longrightarrow> length k = klen l \<Longrightarrow> k \<notin> keys (its l) \<Longrightarrow>
      \<exists>l' A B. ins l k = Inr (l', None) \<and> invar l' \<and> same l l' \<and> its l = A @ B \<and> its l' = A @ (k, None) # B"
    and ins_found: "invar l \<Longrightarrow> (k, d) \<in> set (its l) \<Longrightarrow>
      \<exists>l'. ins l k = Inr (l', d) \<and> invar l' \<and> same l l' \<and> its l' = its l"
    and get_map_of: "invar l \<Longrightarrow> length k = klen l \<Longrightarrow> get l k = Inr (map_option (Pair k) (map_of (its l) k))"
    and put_found: "invar l \<Longrightarrow> its l = P @ (k, d) # Q \<Longrightarrow>
      \<exists>l'. put l k v = Inr l' \<and> invar l' \<and> same l l' \<and> its l' = P @ (k, v) # Q"
    and del_found: "invar l \<Longrightarrow> its l = P @ (k, d) # Q \<Longrightarrow>
      \<exists>l'. del l k = Inr l' \<and> invar l' \<and> same l l' \<and> its l' = P @ Q"
begin

lemma its_split:
  assumes "map_of (its l) k = Some d"
  obtains P Q where "its l = P @ (k, d) # Q"
  using map_of_SomeD [OF assms] by (auto dest: split_list)

lemma split_map_of:
  assumes "invar l" "its l = P @ (k, d) # Q"
  shows "map_of P k = None" "map_of Q k = None" "map_of (its l) k = Some d"
proof -
  have "distinct (map fst (P @ (k, d) # Q))" using its_distinct [OF assms(1)] assms(2) by simp
  then have nP: "k \<notin> keys P" and nQ: "k \<notin> keys Q" by auto
  then show "map_of P k = None" "map_of Q k = None"
    by (simp_all only: map_of_eq_None_iff not_False_eq_True)
  then show "map_of (its l) k = Some d" using assms(2) by (simp add: map_add_def)
qed

text \<open>Setting the item of a hash and then its data: the other items stay, in place.\<close>

lemma upsert_new:
  assumes "invar l" "length k = klen l" "map_of (its l) k = None"
  obtains l1 l2 P Q where "ins l k = Inr (l1, None)" "put l1 k v = Inr l2" "invar l1" "invar l2"
    "same l l1" "same l l2" "its l = P @ Q" "its l1 = P @ (k, None) # Q" "its l2 = P @ (k, v) # Q"
    "map_of (its l2) = (map_of (its l))(k \<mapsto> v)"
proof -
  have "k \<notin> keys (its l)" using assms(3) by (simp add: map_of_eq_None_iff)
  from ins_new [OF assms(1,2) this] obtain l1 P Q where l1: "ins l k = Inr (l1, None)" "invar l1"
    "same l l1" "its l = P @ Q" "its l1 = P @ (k, None) # Q" by blast
  from put_found [OF l1(2,5)] obtain l2 where l2: "put l1 k v = Inr l2" "invar l2" "same l1 l2"
    "its l2 = P @ (k, v) # Q" by blast
  have "map_of P k = None" "map_of Q k = None"
    using assms(3) l1(4) by (auto simp: map_add_def split: option.splits)
  then have "map_of (its l2) = (map_of (its l))(k \<mapsto> v)"
    unfolding l2(4) l1(4) by (auto simp: map_add_def fun_eq_iff split: option.splits)
  with l1 l2 same_trans [OF l1(3) l2(3)] show thesis by (rule_tac that)
qed

lemma upsert_found:
  assumes "invar l" "map_of (its l) k = Some d"
  obtains l1 l2 P Q where "ins l k = Inr (l1, d)" "put l1 k v = Inr l2" "invar l1" "invar l2"
    "same l l1" "same l l2" "its l = P @ (k, d) # Q" "its l1 = its l" "its l2 = P @ (k, v) # Q"
    "map_of (its l2) = (map_of (its l))(k \<mapsto> v)"
proof -
  from ins_found [OF assms(1) map_of_SomeD [OF assms(2)]] obtain l1 where l1: "ins l k = Inr (l1, d)"
    "invar l1" "same l l1" "its l1 = its l" by blast
  from assms(2) obtain P Q where PQ: "its l = P @ (k, d) # Q" by (rule its_split)
  with l1(4) have "its l1 = P @ (k, d) # Q" by simp
  from put_found [OF l1(2) this] obtain l2 where l2: "put l1 k v = Inr l2" "invar l2" "same l1 l2"
    "its l2 = P @ (k, v) # Q" by blast
  have "map_of (its l2) = (map_of (its l))(k \<mapsto> v)"
    using split_map_of [OF assms(1) PQ] unfolding l2(4) PQ
    by (auto simp: map_add_def fun_eq_iff split: option.splits)
  with l1 l2 PQ same_trans [OF l1(3) l2(3)] show thesis by (rule_tac that)
qed

lemma delete_lookup:
  assumes "invar l" "map_of (its l) k = Some d"
  obtains l' P Q where "del l k = Inr l'" "invar l'" "same l l'" "its l = P @ (k, d) # Q" "its l' = P @ Q"
    "map_of (its l') = (map_of (its l))(k := None)"
proof -
  from assms(2) obtain P Q where PQ: "its l = P @ (k, d) # Q" by (rule its_split)
  from del_found [OF assms(1) PQ] obtain l' where l': "del l k = Inr l'" "invar l'" "same l l'"
    "its l' = P @ Q" by blast
  have "map_of (P @ Q) = (map_of (its l))(k := None)"
    using split_map_of [OF assms(1) PQ] unfolding PQ
    by (auto simp: map_add_def fun_eq_iff split: option.splits)
  with l' PQ show thesis by (intro that) auto
qed

end

interpretation hl: hash_store allItems wf_hlist hashLength same_params setHash getHash putData deleteItem
  by unfold_locales
    ((rule wf_hlist_distinct wf_hlist_length setHash_new setHash_found getHash_map_of putData_found
       deleteItem_found same_params_refl; assumption?) | simp add: same_params_def)+


section \<open>reInitList keeps the contents\<close>

lemma reInitListCallback_ok:
  fixes T :: "'a item list"
  assumes "distinct (map fst T)" "\<forall>k \<in> keys T. length k = n"
  shows "callback_ok reInitListCallback T
    (\<lambda>r pre acc. wf_hlist r \<and> same_params r0 r \<and> hashLength r = n \<and>
       set (allItems r) = set pre \<and> acc = []) (\<lambda>_ _ _. False)"
  unfolding callback_ok_def
proof (intro allI impI)
  fix p :: "nat list" and r :: "'a hlist" and pre and acc :: "'a item list" and k d rest
  assume T: "T = pre @ (k, d) # rest"
    and I: "wf_hlist r \<and> same_params r0 r \<and> hashLength r = n \<and>
       set (allItems r) = set pre \<and> acc = []"
  have new: "k \<notin> keys pre" using assms(1) T by auto
  then have nk: "map_of (allItems r) k = None"
    using I by (simp add: map_of_eq_None_iff)
  have len: "length k = hashLength r" using assms(2) T I by simp
  have wr: "wf_hlist r" using I by simp
  obtain r1 r2 P Q where "setHash r k = Inr (r1, None)" "putData r1 k d = Inr r2" "wf_hlist r2"
    "same_params r r2" "allItems r2 = P @ (k, d) # Q" "allItems r = P @ Q"
    using hl.upsert_new [OF wr len nk, of d] by metis
  with I show "\<exists>e s' b. reInitListCallback p k d r = Inr (e, s', b) \<and>
      (if b then False else wf_hlist s' \<and> same_params r0 s' \<and> hashLength s' = n \<and>
         set (allItems s') = set (pre @ [(k, d)]) \<and>
        acc @ effect_items k e = [])"
    by (auto simp: reInitListCallback_def same_params_def)
qed


lemma reInitList_keeps:
  assumes "wf_hlist l" "leaves_free l" "lev \<le> LIST_LIMIT_LEVEL" "lev \<le> hashLength l"
  obtains l' where "reInitList l lev = Inr l'" "wf_hlist l'" "level l' = lev"
    "hashLength l' = hashLength l" "endianness l' = endianness l"
    "semaphoreEnabled l' = semaphoreEnabled l" "set (allItems l') = set (allItems l)"
    "map_of (allItems l') = map_of (allItems l)"
proof -
  let ?T = "allItems l"
  obtain r0 :: "'a hlist" where r0: "initList lev 0 (hashLength l) (semaphoreEnabled l) (endianness l) = Inr r0"
    "wf_hlist r0" "allItems r0 = []" "level r0 = lev" "hashLength r0 = hashLength l"
    "endianness r0 = endianness l" "semaphoreEnabled r0 = semaphoreEnabled l"
    using initList_ok [OF assms(3,4)] by blast
  let ?I = "\<lambda>r pre acc. wf_hlist r \<and> same_params r0 r \<and> hashLength r = hashLength l \<and>
       set (allItems r) = set pre \<and> acc = []"
  have cb: "callback_ok reInitListCallback ?T ?I (\<lambda>_ _ _. False)"
    by (rule reInitListCallback_ok) (use hl.its_distinct hl.its_length assms(1) in blast)+
  have "?I r0 [] []" using r0 by simp
  from mapList_all [OF assms(1,2) cb this, of "[]"] obtain l1 r where run: "mapList reInitListCallback [] r0 l = Inr (l1, r, False)"
    "wf_hlist l1" "?I r ?T (allItems l1)" by blast
  have "freeList True l1 = Inr ()" using run by (simp add: freeList_wf)
  then have "reInitList l lev = Inr r" using r0(1) run(1) by (simp add: reInitList_def)
  moreover have "map_of (allItems r) = map_of ?T"
    using run(3) hl.its_distinct [OF assms(1)] hl.its_distinct [of r]
    by (intro map_of_inject_set [THEN iffD2]) auto
  ultimately show thesis using that [of r] run(3) r0 by (simp add: same_params_def)
qed

section \<open>Properties\<close>

definition sample_list :: "nat hlist" where
  "sample_list = HList [] [([1, 2], Some 5), ([3, 4], None)] (Some 1) BIG_ENDIAN 2 0 1"

lemma sample_list_ok: "wf_hlist sample_list" "leaves_free sample_list"
  by (simp_all add: sample_list_def wf_hlist_def header_def hasSemaphore_def
      LIST_SEMAPHORE_ENABLE_LEAF_def leaves_free.simps)

text \<open>C24: setHash followed by the assignment of the item's data behaves as a map update: the
call returns the data the hash had (None for a new item), the list stays well formed, and
afterwards getHash finds the new data at this hash and what it found before at any other.\<close>

theorem setHash_is_map_update:
  assumes "wf_hlist l" "length h = hashLength l"
  shows "\<exists>l1 l2. setHash l h = Inr (l1, case map_of (allItems l) h of Some d \<Rightarrow> d | None \<Rightarrow> None) \<and>
    putData l1 h v = Inr l2 \<and> wf_hlist l2 \<and> same_params l l2 \<and>
    (\<forall>k. length k = hashLength l \<longrightarrow>
       getHash l2 k = (if k = h then Inr (Some (h, v)) else getHash l k))"
proof -
  have *: "getHash l2 k = (if k = h then Inr (Some (h, v)) else getHash l k)"
    if "wf_hlist l2" "same_params l l2" "map_of (allItems l2) = (map_of (allItems l))(h \<mapsto> v)"
      "length k = hashLength l" for k l2
    using that assms(1) by (simp add: getHash_map_of same_params_def)
  show ?thesis
  proof (cases "map_of (allItems l) h")
    case None
    from assms None obtain l1 l2 where "setHash l h = Inr (l1, None)" "putData l1 h v = Inr l2"
      "wf_hlist l2" "same_params l l2" "map_of (allItems l2) = (map_of (allItems l))(h \<mapsto> v)"
      by (rule hl.upsert_new)
    with None * show ?thesis by auto
  next
    case (Some d)
    from assms(1) Some obtain l1 l2 where "setHash l h = Inr (l1, d)" "putData l1 h v = Inr l2"
      "wf_hlist l2" "same_params l l2" "map_of (allItems l2) = (map_of (allItems l))(h \<mapsto> v)"
      by (rule hl.upsert_found)
    with Some * show ?thesis by auto
  qed
qed

theorem setHash_is_map_update_witness:
  "\<exists>l1 l2. setHash sample_list [2, 2] = Inr (l1, None) \<and> putData l1 [2, 2] (Some 9) = Inr l2 \<and>
     getHash l2 [2, 2] = Inr (Some ([2, 2], Some 9)) \<and> getHash l2 [1, 2] = Inr (Some ([1, 2], Some 5))"
proof -
  have g: "getHash sample_list [1, 2] = Inr (Some ([1, 2], Some 5))"
    by (simp add: sample_list_def getHash_def getLeaf_def getLeafFrom.simps)
  show ?thesis
    using setHash_is_map_update [OF sample_list_ok(1), of "[2, 2]" "Some 9"] g
    by (auto simp: sample_list_def allItems.simps)
qed

text \<open>deleteHash removes the item of the hash and nothing else: the sequence of the other
items, their order included, is what it was, and an absent hash is no error.\<close>

theorem deleteHash_removes_one:
  assumes "wf_hlist l" "length h = hashLength l"
  shows "\<exists>l'. deleteHash l h = Inr l' \<and> wf_hlist l' \<and> same_params l l' \<and>
    allItems l' = filter (\<lambda>(k, d). k \<noteq> h) (allItems l)"
proof (cases "map_of (allItems l) h")
  case None
  then have "h \<notin> keys (allItems l)" by (simp add: map_of_eq_None_iff)
  then have "filter (\<lambda>(k, d). k \<noteq> h) (allItems l) = allItems l"
    by (auto simp: filter_id_conv image_iff split_beta)
  with None assms show ?thesis by (simp add: deleteHash_def getHash_map_of)
next
  case (Some d)
  from assms(1) Some obtain l' P Q where l': "deleteItem l h = Inr l'" "wf_hlist l'"
    "same_params l l'" "allItems l = P @ (h, d) # Q" "allItems l' = P @ Q"
    by (rule hl.delete_lookup)
  have "h \<notin> keys P \<and> h \<notin> keys Q"
    using wf_hlist_distinct [OF assms(1)] unfolding l'(4) by auto
  then have "filter (\<lambda>(k, d). k \<noteq> h) P = P" "filter (\<lambda>(k, d). k \<noteq> h) Q = Q"
    by (auto simp: filter_id_conv image_iff split_beta)
  with Some assms l' show ?thesis by (simp add: deleteHash_def getHash_map_of)
qed

theorem deleteHash_removes_one_witness:
  "\<exists>l'. deleteHash sample_list [1, 2] = Inr l' \<and> allItems l' = [([3, 4], None)]"
  using deleteHash_removes_one [OF sample_list_ok(1), of "[1, 2]"]
  by (auto simp: sample_list_def allItems.simps)

text \<open>C26: reInitList, at every level the container supports, returns a well-formed list of the
new level with the same parameters in which every hash is found with the same data as
before; the old list is emptied, so the free of it does not exit.\<close>

theorem reInitList_keeps_lookups:
  assumes "wf_hlist l" "leaves_free l" "lev \<le> LIST_LIMIT_LEVEL" "lev \<le> hashLength l"
  shows "\<exists>l'. reInitList l lev = Inr l' \<and> wf_hlist l' \<and> level l' = lev \<and>
    hashLength l' = hashLength l \<and> endianness l' = endianness l \<and>
    semaphoreEnabled l' = semaphoreEnabled l \<and>
    (\<forall>h. length h = hashLength l \<longrightarrow> getHash l' h = getHash l h)"
proof -
  from reInitList_keeps [OF assms] obtain l' where "reInitList l lev = Inr l'" "wf_hlist l'"
    "level l' = lev" "hashLength l' = hashLength l" "endianness l' = endianness l"
    "semaphoreEnabled l' = semaphoreEnabled l" "map_of (allItems l') = map_of (allItems l)" by metis
  with assms(1) show ?thesis by (auto simp: getHash_map_of)
qed

theorem reInitList_keeps_lookups_witness:
  "\<exists>l'. reInitList sample_list 1 = Inr l' \<and> level l' = 1 \<and>
     getHash l' [1, 2] = Inr (Some ([1, 2], Some 5)) \<and> getHash l' [7, 7] = Inr None"
proof -
  have g: "getHash sample_list [1, 2] = Inr (Some ([1, 2], Some 5))" "getHash sample_list [7, 7] = Inr None"
    by (simp_all add: sample_list_def getHash_def getLeaf_def getLeafFrom.simps)
  show ?thesis
    using reInitList_keeps_lookups [OF sample_list_ok, of 1] g
    by (auto simp: sample_list_def LIST_LIMIT_LEVEL_def)
qed

text \<open>freeList of a well-formed list exits with EXIT\_CODE\_LIST\_NOT\_EMPTY exactly when an
item is left somewhere in it, whatever its level; otherwise it returns.\<close>

theorem freeList_exits_iff_not_empty:
  assumes "wf_hlist l"
  shows "freeList True l =
    (if allItems l = [] then Inr () else Inl (Exit EXIT_CODE_LIST_NOT_EMPTY))"
  by (rule freeList_wf [OF assms])

theorem freeList_exits_iff_not_empty_witness:
  "freeList True sample_list = Inl (Exit 231)"
  using freeList_exits_iff_not_empty [OF sample_list_ok(1)]
  by (simp add: sample_list_def allItems.simps EXIT_CODE_LIST_NOT_EMPTY_def)

lemma mapItems_append:
  "mapItems cb p s (xs @ ys) =
     bindR (mapItems cb p s xs) (\<lambda>(as, s', b).
       if b then Inr (as @ ys, s', True)
       else bindR (mapItems cb p s' ys) (\<lambda>(bs, s'', c). Inr (as @ bs, s'', c)))"
proof (induction xs arbitrary: s)
  case Nil
  show ?case by (cases "mapItems cb p s ys") auto
next
  case (Cons x xs)
  then show ?case
    by (cases x; cases "cb p (fst x) (snd x) s")
      (auto simp: bindR_assoc split_beta intro!: bindR_cong)
qed

lemma mapList_flat:
  assumes "wf_hlist l" "leaves_free l"
    and "\<And>q k d u. cb q k d u = cb [] k d u"
    and "mapItems cb [] s (allItems l) = Inr (ys, s', b)"
  shows "\<exists>l'. mapList cb p s l = Inr (l', s', b) \<and> allItems l' = ys \<and> wf_hlist l' \<and>
    leaves_free l' \<and> same_params l l'"
proof -
  let ?I = "\<lambda>c u pre acc. mapItems cb [] s pre = Inr (acc, u, c)"
  have "callback_ok cb (allItems l) (?I False) (?I True)"
    unfolding callback_ok_def
  proof (intro allI impI)
    fix q u pre acc k d rest
    assume T: "allItems l = pre @ (k, d) # rest" and I: "?I False u pre acc"
    with assms(4) have "bindR (mapItems cb [] u ((k, d) # rest)) (\<lambda>(bs, s'', c). Inr (acc @ bs, s'', c))
        = Inr (ys, s', b)"
      by (simp add: mapItems_append)
    then obtain r where r: "cb [] k d u = Inr r" by (auto simp: bindR_Inr_iff)
    obtain e u' c where "r = (e, u', c)" by (cases r)
    with r I assms(3) [of q k d u] show "\<exists>e s' b. cb q k d u = Inr (e, s', b) \<and>
        (if b then ?I True s' (pre @ [(k, d)]) (acc @ effect_items k e)
         else ?I False s' (pre @ [(k, d)]) (acc @ effect_items k e))"
      by (cases c) (auto simp: mapItems_append)
  qed
  moreover have "?I False s [] []" by simp
  ultimately obtain l' t c where r: "mapList cb p s l = Inr (l', t, c)" "wf_hlist l'"
    "leaves_free l'" "same_params l l'"
    "segment_post (?I False) (?I True) t c [] [] (allItems l) (allItems l')"
    using mapList_rule [OF assms(1,2), of cb "?I False" "?I True" s p] by metis
  show ?thesis
  proof (cases c)
    case False
    with r(5) assms(4) have "allItems l' = ys \<and> t = s' \<and> c = b" by (auto simp: segment_post_def)
    with r show ?thesis by blast
  next
    case True
    with r(5) obtain xs1 xs2 ys1 where x: "allItems l = xs1 @ xs2" "allItems l' = ys1 @ xs2"
      "mapItems cb [] s xs1 = Inr (ys1, t, True)" unfolding segment_post_def by auto
    with assms(4) True have "allItems l' = ys \<and> t = s' \<and> c = b" by (simp add: mapItems_append)
    with r show ?thesis by blast
  qed
qed

text \<open>mapList over a tree of any level is mapList over the one sequence of its items: the
callback runs on the same items, in the same order, with the same early break, and when it
is over the items are those the callback left and every leaf semaphore is released.\<close>

theorem mapList_is_a_sequence:
  assumes "wf_hlist l" "leaves_free l"
    and "\<And>q k d u. cb q k d u = cb [] k d u"
    and "mapItems cb [] s (allItems l) = Inr (ys, s', b)"
  shows "\<exists>l'. mapList cb p s l = Inr (l', s', b) \<and> allItems l' = ys \<and> wf_hlist l' \<and>
    leaves_free l' \<and> same_params l l'"
  by (rule mapList_flat [OF assms])

theorem mapList_is_a_sequence_witness:
  "\<exists>l'. mapList (\<lambda>p k d u. Inr (if d = None then Remove else Keep d, u + (1::nat), False)) [] 0 sample_list
     = Inr (l', 2, False) \<and> allItems l' = [([1, 2], Some 5)]"
  using mapList_is_a_sequence [OF sample_list_ok,
      where cb = "\<lambda>p k d u. Inr (if d = None then Remove else Keep d, u + (1::nat), False)" and s = 0
        and p = "[]" and ys = "[([1, 2], Some 5)]" and s' = 2 and b = False]
  by (auto simp: sample_list_def allItems.simps)

section \<open>Operations and semaphores\<close>

lemma wf_node_unlocked: "wf_node n nest en hl 0 l \<Longrightarrow> leaves_free l"
proof (induction n arbitrary: nest l)
  case 0
  then show ?case by (simp add: leaves_free_leaf header_def)
next
  case (Suc n)
  have "leaves_free c" if "c \<in> set (subLists l)" for c
    using that Suc by (auto simp: in_set_conv_nth)
  with Suc.prems show ?case by (simp add: leaves_free_node)
qed

text \<open>A list without semaphores is never locked.\<close>

lemma wf_hlist_unlocked: "wf_hlist l \<Longrightarrow> semaphoreEnabled l = 0 \<Longrightarrow> leaves_free l"
  unfolding wf_hlist_def using wf_node_unlocked by metis

lemma leaves_free_set_items: "level l = 0 \<Longrightarrow> leaves_free (set_items xs l) = leaves_free l"
  by (simp add: leaves_free_leaf)

lemma updLeafFrom_leaves_free:
  assumes "updLeafFrom en hl h nest f l = Inr l'" "leaves_free l" "\<And>x. \<exists>xs. f x = set_items xs x"
  shows "leaves_free l'"
  using assms
proof (induction en hl h nest f l arbitrary: l' rule: updLeafFrom.induct)
  case (1 en hl h nest f cur)
  show ?case
  proof (cases "level cur > 0")
    case False
    with 1(2) have "l' = f cur" by (simp add: updLeafFrom.simps)
    moreover obtain xs where "f cur = set_items xs cur" using 1(4) by blast
    ultimately show ?thesis using 1(3) False by (simp add: leaves_free_set_items)
  next
    case True
    with 1(2) obtain i c where ic: "leafIndex en hl nest h = Inr i" "i < length (subLists cur)"
      "updLeafFrom en hl h (nest + 1) f (subLists cur ! i) = Inr c"
      "l' = set_subLists ((subLists cur)[i := c]) cur"
      unfolding updLeafFrom.simps [of _ _ _ _ _ cur] by (auto simp: bindR_Inr_iff split: if_splits)
    have sub: "leaves_free x" if "x \<in> set (subLists cur)" for x
      using that 1(3) True by (simp add: leaves_free_node)
    have "leaves_free c"
      by (rule 1(1) [OF True ic(1) ic(2) ic(3)]) (use sub ic(2) 1(4) in auto)
    then have "leaves_free x" if "x \<in> set ((subLists cur)[i := c])" for x
      using that sub set_update_subset_insert [of "subLists cur" i c] by auto
    with True show ?thesis unfolding ic(4) by (simp add: leaves_free_node)
  qed
qed

lemma setHash_leaves_free: "setHash l h = Inr (l', d) \<Longrightarrow> leaves_free l \<Longrightarrow> leaves_free l'"
  by (auto simp: setHash_def updLeaf_def bindR_Inr_iff split_beta elim!: updLeafFrom_leaves_free)

lemma putData_leaves_free: "putData l h v = Inr l' \<Longrightarrow> leaves_free l \<Longrightarrow> leaves_free l'"
  by (auto simp: putData_def updLeaf_def elim!: updLeafFrom_leaves_free)

lemma deleteItem_leaves_free: "deleteItem l h = Inr l' \<Longrightarrow> leaves_free l \<Longrightarrow> leaves_free l'"
  by (auto simp: deleteItem_def updLeaf_def elim!: updLeafFrom_leaves_free)

end
