(* ===== verification/Leaf_Lock.thy ===== *)
theory Leaf_Lock
  imports Hash_List_Laws
begin

text \<open>
  The semaphores of a list in use: the leaf of a hash locked and unlocked in place, as
  waitSemaphoreLeaf(getLeaf(list, hash)) and its post do, and what the operations of list.c do to
  a list whose leaf is held. The laws are a locale (guarded\_store) that extends the contract of a
  store; the operations of Hash\_List are its interpretation.
\<close>

section \<open>Locking the leaf of a hash\<close>

definition lockLeaf :: "'a hlist \<Rightarrow> bytes \<Rightarrow> 'a hlist res" where
  "lockLeaf l h =
     bindR (getLeaf l h) (\<lambda>leaf. bindR (waitSemaphoreLeaf leaf) (\<lambda>leaf1. updLeaf l h (\<lambda>_. leaf1)))"

definition unlockLeaf :: "'a hlist \<Rightarrow> bytes \<Rightarrow> 'a hlist res" where
  "unlockLeaf l h =
     bindR (getLeaf l h) (\<lambda>leaf. bindR (postSemaphoreLeaf leaf) (\<lambda>leaf1. updLeaf l h (\<lambda>_. leaf1)))"

section \<open>Successive writes to one leaf\<close>

lemma set_subLists_twice [simp]: "set_subLists a (set_subLists b l) = set_subLists a l"
  by (cases l) simp

lemma leafFrom_0 [simp]:
  "level l = 0 \<Longrightarrow> getLeafFrom en hl h nest l = Inr l"
  "level l = 0 \<Longrightarrow> updLeafFrom en hl h nest f l = Inr (f l)"
  by (simp_all add: getLeafFrom.simps [of _ _ _ _ l] updLeafFrom.simps [of _ _ _ _ _ l])

lemma getLeafFrom_node:
  assumes "level l > 0" "getLeafFrom en hl h nest l = Inr leaf"
  obtains i where "leafIndex en hl nest h = Inr i" "i < length (subLists l)"
    "getLeafFrom en hl h (nest + 1) (subLists l ! i) = Inr leaf"
    "\<forall>f. updLeafFrom en hl h nest f l = bindR (updLeafFrom en hl h (nest + 1) f (subLists l ! i))
       (\<lambda>c. Inr (set_subLists ((subLists l)[i := c]) l))"
  using assms that
  by (auto simp: getLeafFrom.simps [of _ _ _ _ l] updLeafFrom.simps [of _ _ _ _ _ l] bindR_Inr_iff split: if_splits)

text \<open>What a write to a leaf leaves as it is: the fields the way to the leaf depends on.\<close>

definition keeps_params :: "('a hlist \<Rightarrow> 'a hlist) \<Rightarrow> 'a hlist \<Rightarrow> bool" where
  "keeps_params f leaf \<longleftrightarrow> level (f leaf) = level leaf \<and> endianness (f leaf) = endianness leaf \<and>
     hashLength (f leaf) = hashLength leaf \<and> semaphoreEnabled (f leaf) = semaphoreEnabled leaf"

lemma updLeafFrom_read:
  "getLeafFrom en hl h nest l = Inr leaf \<Longrightarrow> level (f leaf) = 0 \<Longrightarrow>
   \<exists>l'. updLeafFrom en hl h nest f l = Inr l' \<and> getLeafFrom en hl h nest l' = Inr (f leaf) \<and>
     (\<forall>g. updLeafFrom en hl h nest g l' = updLeafFrom en hl h nest (\<lambda>x. g (f x)) l) \<and>
     (level l > 0 \<longrightarrow> level l' = level l \<and> endianness l' = endianness l \<and> hashLength l' = hashLength l) \<and>
     (level l = 0 \<longrightarrow> l' = f l)"
proof (induction en hl h nest l rule: getLeafFrom.induct)
  case (1 en hl h nest cur)
  show ?case
  proof (cases "level cur > 0")
    case False
    with 1(2,3) show ?thesis by auto
  next
    case True
    from True 1(2) obtain i where i: "leafIndex en hl nest h = Inr i" "i < length (subLists cur)"
      "getLeafFrom en hl h (nest + 1) (subLists cur ! i) = Inr leaf"
      and u: "\<forall>f. updLeafFrom en hl h nest f cur = bindR (updLeafFrom en hl h (nest + 1) f (subLists cur ! i))
        (\<lambda>c. Inr (set_subLists ((subLists cur)[i := c]) cur))" by (rule getLeafFrom_node)
    from 1(1) [OF True i 1(3)] obtain c where c: "updLeafFrom en hl h (nest + 1) f (subLists cur ! i) = Inr c"
      "getLeafFrom en hl h (nest + 1) c = Inr (f leaf)"
      "\<And>g. updLeafFrom en hl h (nest + 1) g c = updLeafFrom en hl h (nest + 1) (\<lambda>x. g (f x)) (subLists cur ! i)"
      by blast
    let ?l = "set_subLists ((subLists cur)[i := c]) cur"
    show ?thesis
      using True i c(1,2)
      by (intro exI [of _ ?l])
        (simp add: getLeafFrom.simps [of _ _ _ _ ?l] updLeafFrom.simps [of _ _ _ _ _ ?l] u c(3) [unfolded Suc_eq_plus1 [symmetric]])
  qed
qed

lemma getLeafFrom_level0: "getLeafFrom en hl h nest l = Inr leaf \<Longrightarrow> level leaf = 0"
proof (induction en hl h nest l rule: getLeafFrom.induct)
  case (1 en hl h nest cur)
  show ?case
  proof (cases "level cur > 0")
    case True
    from True 1(2) obtain i where "leafIndex en hl nest h = Inr i" "i < length (subLists cur)"
      "getLeafFrom en hl h (nest + 1) (subLists cur ! i) = Inr leaf" by (rule getLeafFrom_node)
    with 1(1) [OF True] show ?thesis by blast
  qed (use 1(2) in simp)
qed

lemma getLeaf_level0: "getLeaf l h = Inr leaf \<Longrightarrow> level leaf = 0"
  unfolding getLeaf_def by (rule getLeafFrom_level0)

lemma updLeaf_then:
  assumes "getLeaf l h = Inr leaf" "keeps_params f leaf"
  shows "\<exists>l'. updLeaf l h f = Inr l' \<and> getLeaf l' h = Inr (f leaf) \<and>
    (\<forall>g. updLeaf l' h g = updLeaf l h (\<lambda>x. g (f x)))"
proof -
  have l0: "level l = 0 \<Longrightarrow> l = leaf" using assms(1) by (simp add: getLeaf_def)
  have "level (f leaf) = 0" using assms(2) getLeaf_level0 [OF assms(1)] by (simp add: keeps_params_def)
  from updLeafFrom_read [where f = f, OF assms(1) [unfolded getLeaf_def] this] obtain l' where l':
    "updLeafFrom (endianness l) (hashLength l) h 0 f l = Inr l' \<and>
     getLeafFrom (endianness l) (hashLength l) h 0 l' = Inr (f leaf) \<and>
     (\<forall>g. updLeafFrom (endianness l) (hashLength l) h 0 g l' = updLeafFrom (endianness l) (hashLength l) h 0 (\<lambda>x. g (f x)) l) \<and>
     (level l > 0 \<longrightarrow> level l' = level l \<and> endianness l' = endianness l \<and> hashLength l' = hashLength l) \<and>
     (level l = 0 \<longrightarrow> l' = f l)" by (rule exE)
  note rest = l' [THEN conjunct2, THEN conjunct2, THEN conjunct2]
  have e: "endianness l' = endianness l \<and> hashLength l' = hashLength l"
  proof (cases "level l = 0")
    case True
    with rest l0 assms(2) show ?thesis by (simp add: keeps_params_def)
  qed (use rest in simp)
  show ?thesis
    unfolding getLeaf_def updLeaf_def
    by (intro exI [of _ l'] conjI)
      (use e l' [THEN conjunct1] l' [THEN conjunct2, THEN conjunct1] l' [THEN conjunct2, THEN conjunct2, THEN conjunct1] in simp_all)
qed

lemma updLeaf_after:
  assumes "getLeaf l h = Inr leaf" "keeps_params f leaf" "updLeaf l h f = Inr l'"
  shows "getLeaf l' h = Inr (f leaf)" "updLeaf l' h g = updLeaf l h (\<lambda>x. g (f x))"
proof -
  from updLeaf_then [OF assms(1,2)] assms(3) have
    "getLeaf l' h = Inr (f leaf) \<and> (\<forall>g. updLeaf l' h g = updLeaf l h (\<lambda>x. g (f x)))" by (elim exE conjE) simp
  then show "getLeaf l' h = Inr (f leaf)" "updLeaf l' h g = updLeaf l h (\<lambda>x. g (f x))" by simp_all
qed

lemma updLeaf_same:
  assumes "getLeaf l h = Inr leaf" "f leaf = leaf"
  shows "updLeaf l h f = Inr l"
proof -
  have "getLeafFrom en hl h nest l = Inr leaf \<Longrightarrow> updLeafFrom en hl h nest f l = Inr l" for en hl nest l
  proof (induction en hl h nest l rule: getLeafFrom.induct)
    case (1 en hl h nest cur)
    show ?case
    proof (cases "level cur > 0")
      case False
      with 1(2) assms(2) show ?thesis by simp
    next
      case True
      from True 1(2) obtain i where i: "leafIndex en hl nest h = Inr i" "i < length (subLists cur)"
      "getLeafFrom en hl h (nest + 1) (subLists cur ! i) = Inr leaf"
      and u: "\<forall>f. updLeafFrom en hl h nest f cur = bindR (updLeafFrom en hl h (nest + 1) f (subLists cur ! i))
        (\<lambda>c. Inr (set_subLists ((subLists cur)[i := c]) cur))" by (rule getLeafFrom_node)
      have "set_subLists (subLists cur) cur = cur" by (cases cur) simp
      with 1(1) [OF True i] i show ?thesis by (simp add: u)
    qed
  qed
  then show ?thesis using assms(1) by (simp add: getLeaf_def updLeaf_def)
qed

lemma updLeafFrom_cong:
  "getLeafFrom en hl h nest l = Inr leaf \<Longrightarrow> f leaf = g leaf \<Longrightarrow>
   updLeafFrom en hl h nest f l = updLeafFrom en hl h nest g l"
proof (induction en hl h nest l rule: getLeafFrom.induct)
  case (1 en hl h nest cur)
  show ?case
  proof (cases "level cur > 0")
    case False
    with 1(2,3) show ?thesis by simp
  next
    case True
    from True 1(2) obtain i where i: "leafIndex en hl nest h = Inr i" "i < length (subLists cur)"
      "getLeafFrom en hl h (nest + 1) (subLists cur ! i) = Inr leaf"
      and u: "\<forall>f. updLeafFrom en hl h nest f cur = bindR (updLeafFrom en hl h (nest + 1) f (subLists cur ! i))
        (\<lambda>c. Inr (set_subLists ((subLists cur)[i := c]) cur))" by (rule getLeafFrom_node)
    with 1(1) [OF True i 1(3)] show ?thesis by (simp add: u)
  qed
qed

lemma updLeaf_cong: "getLeaf l h = Inr leaf \<Longrightarrow> f leaf = g leaf \<Longrightarrow> updLeaf l h f = updLeaf l h g"
  unfolding getLeaf_def updLeaf_def by (rule updLeafFrom_cong)

section \<open>A locked leaf\<close>

lemma wait_keeps:
  assumes "waitSemaphoreLeaf leaf = Inr leaf1"
  shows "keeps_params (\<lambda>_. leaf1) leaf" "keeps_params (\<lambda>_. set_items xs leaf1) leaf"
    "leafItems leaf1 = leafItems leaf" "hashLength leaf1 = hashLength leaf"
    "waitSemaphoreLeaf (set_items xs leaf) = Inr (set_items xs leaf1)" "postSemaphoreLeaf leaf1 = Inr leaf"
  using assms by (cases leaf; force simp: waitSemaphoreLeaf_def postSemaphoreLeaf_def keeps_params_def
      split: if_splits option.splits)+

lemma keeps_set_items [simp]: "keeps_params (set_items xs) leaf"
  by (simp add: keeps_params_def)

lemma lockLeaf_iff:
  "lockLeaf l h = Inr l1 \<longleftrightarrow>
   (\<exists>leaf leaf1. getLeaf l h = Inr leaf \<and> waitSemaphoreLeaf leaf = Inr leaf1 \<and> updLeaf l h (\<lambda>_. leaf1) = Inr l1)"
  by (auto simp: lockLeaf_def bindR_Inr_iff)

text \<open>
  What is known of the list l1 that is l with the leaf of h locked: a write to that leaf that
  sets its items gives, on l1, what it gives on l, locked.
\<close>

lemma locked_write:
  assumes "lockLeaf l h = Inr l1" "getLeaf l h = Inr leaf" "updLeaf l h (set_items xs) = Inr l'"
  shows "\<exists>l1'. updLeaf l1 h (set_items xs) = Inr l1' \<and> lockLeaf l' h = Inr l1'"
proof -
  obtain leaf1 where l1: "waitSemaphoreLeaf leaf = Inr leaf1" "updLeaf l h (\<lambda>_. leaf1) = Inr l1"
    using assms(1,2) by (auto simp: lockLeaf_iff)
  obtain l1' where l1': "updLeaf l h (\<lambda>_. set_items xs leaf1) = Inr l1'"
    using updLeaf_then [OF assms(2) wait_keeps(2) [OF l1(1)]] by blast
  show ?thesis
    unfolding lockLeaf_iff
    by (intro exI [of _ l1'] conjI exI [of _ "set_items xs leaf"] exI [of _ "set_items xs leaf1"])
      (simp_all only: l1' wait_keeps(5) [OF l1(1)] updLeaf_after [OF assms(2) wait_keeps(1) [OF l1(1)] l1(2)]
        updLeaf_after [OF assms(2) keeps_set_items assms(3)])
qed

lemma locked_read:
  assumes "lockLeaf l h = Inr l1"
  obtains leaf leaf1 where "getLeaf l h = Inr leaf" "getLeaf l1 h = Inr leaf1" "leafItems leaf1 = leafItems leaf"
    "hashLength leaf1 = hashLength leaf" "waitSemaphoreLeaf leaf = Inr leaf1"
    "\<And>g. updLeaf l1 h g = updLeaf l h (\<lambda>_. g leaf1)"
proof -
  obtain leaf leaf1 where l1: "getLeaf l h = Inr leaf" "waitSemaphoreLeaf leaf = Inr leaf1" "updLeaf l h (\<lambda>_. leaf1) = Inr l1"
    using assms by (auto simp: lockLeaf_iff)
  note k = wait_keeps [OF l1(2)]
  show thesis
    by (rule that [OF l1(1) _ k(3,4) l1(2)])
      (simp_all only: updLeaf_after [OF l1(1) k(1) l1(3)])
qed

lemma locked_unlock:
  assumes "lockLeaf l h = Inr l1"
  shows "unlockLeaf l1 h = Inr l"
proof -
  from locked_read [OF assms] obtain leaf leaf1 where r: "getLeaf l h = Inr leaf" "getLeaf l1 h = Inr leaf1"
    "waitSemaphoreLeaf leaf = Inr leaf1" "\<And>g. updLeaf l1 h g = updLeaf l h (\<lambda>_. g leaf1)" by metis
  with wait_keeps(6) [OF r(3)] updLeaf_same [OF r(1), of "\<lambda>_. leaf"] show ?thesis by (simp add: unlockLeaf_def)
qed

lemma locked_getHash: "lockLeaf l h = Inr l1 \<Longrightarrow> getHash l1 h = getHash l h"
  by (elim locked_read) (simp add: getHash_def)

lemma locked_setHash:
  assumes "lockLeaf l h = Inr l1" "setHash l h = Inr (l', d)"
  shows "\<exists>l1'. setHash l1 h = Inr (l1', d) \<and> lockLeaf l' h = Inr l1'"
proof -
  from locked_read [OF assms(1)] obtain leaf leaf1 where r: "getLeaf l h = Inr leaf" "getLeaf l1 h = Inr leaf1"
    "leafItems leaf1 = leafItems leaf" "hashLength leaf1 = hashLength leaf" by metis
  obtain xs where xs: "setItems (hashLength leaf) h (leafItems leaf) = (xs, d)" "updLeaf l h (set_items xs) = Inr l'"
    using assms(2) r(1) by (auto simp: setHash_def bindR_Inr_iff split: prod.splits)
  from locked_write [OF assms(1) r(1) xs(2)] r xs(1) show ?thesis by (auto simp: setHash_def)
qed

lemma locked_update:
  assumes "lockLeaf l h = Inr l1" "updLeaf l h (\<lambda>x. set_items (f (leafItems x)) x) = Inr l'"
  shows "\<exists>l1'. updLeaf l1 h (\<lambda>x. set_items (f (leafItems x)) x) = Inr l1' \<and> lockLeaf l' h = Inr l1'"
proof -
  from locked_read [OF assms(1)] obtain leaf leaf1 where r: "getLeaf l h = Inr leaf" "getLeaf l1 h = Inr leaf1"
    "leafItems leaf1 = leafItems leaf" by metis
  have "updLeaf l h (set_items (f (leafItems leaf))) = Inr l'"
    using assms(2) updLeaf_cong [OF r(1), of "\<lambda>x. set_items (f (leafItems x)) x" "set_items (f (leafItems leaf))"] by simp
  from locked_write [OF assms(1) r(1) this]
  show ?thesis
    using updLeaf_cong [OF r(2), of "\<lambda>x. set_items (f (leafItems x)) x" "set_items (f (leafItems leaf))"] r(3) by simp
qed

lemma locked_putData:
  "lockLeaf l h = Inr l1 \<Longrightarrow> putData l h v = Inr l' \<Longrightarrow> \<exists>l1'. putData l1 h v = Inr l1' \<and> lockLeaf l' h = Inr l1'"
  unfolding putData_def by (rule locked_update)

lemma locked_deleteItem:
  "lockLeaf l h = Inr l1 \<Longrightarrow> deleteItem l h = Inr l' \<Longrightarrow> \<exists>l1'. deleteItem l1 h = Inr l1' \<and> lockLeaf l' h = Inr l1'"
  unfolding deleteItem_def by (rule locked_update)

text \<open>The leaf of a hash of a list without a locked leaf can be locked.\<close>

lemma getLeafFrom_free:
  "getLeafFrom en hl h nest l = Inr leaf \<Longrightarrow> leaves_free l \<Longrightarrow> leaves_free leaf"
proof (induction en hl h nest l rule: getLeafFrom.induct)
  case (1 en hl h nest cur)
  show ?case
  proof (cases "level cur > 0")
    case False
    with 1(2,3) show ?thesis by simp
  next
    case True
    from True 1(2) obtain i where i: "leafIndex en hl nest h = Inr i" "i < length (subLists cur)"
      "getLeafFrom en hl h (nest + 1) (subLists cur ! i) = Inr leaf" by (rule getLeafFrom_node)
    have "leaves_free (subLists cur ! i)" using 1(3) True i(2) by (simp add: leaves_free_node)
    with 1(1) [OF True i] show ?thesis .
  qed
qed

lemma lockable_leaf:
  assumes "wf_hlist l" "leaves_free l" "length h = hashLength l"
  obtains leaf leaf1 leaf2 where "getLeaf l h = Inr leaf" "waitSemaphoreLeaf leaf = Inr leaf1"
    "postSemaphoreLeaf leaf1 = Inr leaf2"
proof -
  from assms(1,3) obtain leaf where leaf: "getLeaf l h = Inr leaf" by (rule updLeaf_rule)
  have "leaves_free leaf" "level leaf = 0"
    using getLeafFrom_free [OF leaf [unfolded getLeaf_def] assms(2)] getLeaf_level0 [OF leaf] .
  then obtain leaf1 where l1: "waitSemaphoreLeaf leaf = Inr leaf1" using wait_post by blast
  with wait_keeps(6) [OF l1] leaf show thesis by (intro that)
qed

lemma lockLeaf_ok:
  assumes "wf_hlist l" "leaves_free l" "length h = hashLength l"
  shows "\<exists>l1. lockLeaf l h = Inr l1"
proof -
  from assms obtain leaf leaf1 where l: "getLeaf l h = Inr leaf" "waitSemaphoreLeaf leaf = Inr leaf1"
    by (rule lockable_leaf)
  from updLeaf_then [OF l(1) wait_keeps(1) [OF l(2)]] l show ?thesis by (auto simp: lockLeaf_iff)
qed

section \<open>The contract of a guarded store\<close>

text \<open>
  A store whose operations on a hash commute with holding the lock of the hash: what is done
  under the lock is, after the unlock, what would have been done without it.
\<close>

locale guarded_store = hash_store its invar klen same ins get put del
  for its :: "'l \<Rightarrow> 'a item list" and invar :: "'l \<Rightarrow> bool" and klen :: "'l \<Rightarrow> nat"
    and same :: "'l \<Rightarrow> 'l \<Rightarrow> bool" and ins :: "'l \<Rightarrow> bytes \<Rightarrow> ('l \<times> 'a option) res"
    and get :: "'l \<Rightarrow> bytes \<Rightarrow> 'a item option res" and put :: "'l \<Rightarrow> bytes \<Rightarrow> 'a option \<Rightarrow> 'l res"
    and del :: "'l \<Rightarrow> bytes \<Rightarrow> 'l res" +
  fixes unlocked :: "'l \<Rightarrow> bool"
    and lock :: "'l \<Rightarrow> bytes \<Rightarrow> 'l res"
    and unlock :: "'l \<Rightarrow> bytes \<Rightarrow> 'l res"
  assumes lock_ok: "invar l \<Longrightarrow> unlocked l \<Longrightarrow> length k = klen l \<Longrightarrow> \<exists>l1. lock l k = Inr l1"
    and unlock_locked: "lock l k = Inr l1 \<Longrightarrow> unlock l1 k = Inr l"
    and get_locked: "lock l k = Inr l1 \<Longrightarrow> get l1 k = get l k"
    and ins_locked: "lock l k = Inr l1 \<Longrightarrow> ins l k = Inr (l', d) \<Longrightarrow> \<exists>l1'. ins l1 k = Inr (l1', d) \<and> lock l' k = Inr l1'"
    and put_locked: "lock l k = Inr l1 \<Longrightarrow> put l k v = Inr l' \<Longrightarrow> \<exists>l1'. put l1 k v = Inr l1' \<and> lock l' k = Inr l1'"
    and del_locked: "lock l k = Inr l1 \<Longrightarrow> del l k = Inr l' \<Longrightarrow> \<exists>l1'. del l1 k = Inr l1' \<and> lock l' k = Inr l1'"
    and ins_unlocked: "ins l k = Inr (l', d) \<Longrightarrow> unlocked l \<Longrightarrow> unlocked l'"
    and put_unlocked: "put l k v = Inr l' \<Longrightarrow> unlocked l \<Longrightarrow> unlocked l'"
    and del_unlocked: "del l k = Inr l' \<Longrightarrow> unlocked l \<Longrightarrow> unlocked l'"
begin

lemma upsert_locked:
  assumes "invar l" "unlocked l" "length k = klen l" "lock l k = Inr l1"
  obtains l1' l1'' l' where "ins l1 k = Inr (l1', case map_of (its l) k of None \<Rightarrow> None | Some d \<Rightarrow> d)"
    "put l1' k v = Inr l1''" "lock l' k = Inr l1''" "invar l'" "unlocked l'" "same l l'"
    "map_of (its l') = (map_of (its l))(k \<mapsto> v)"
proof -
  let ?d = "case map_of (its l) k of None \<Rightarrow> None | Some d \<Rightarrow> d"
  obtain m1 m2 where m: "ins l k = Inr (m1, ?d)" "put m1 k v = Inr m2" "invar m2" "same l m2"
    "map_of (its m2) = (map_of (its l))(k \<mapsto> v)"
  proof (cases "map_of (its l) k")
    case None
    from upsert_new [OF assms(1,3) None] that None show thesis by (metis option.simps(4))
  next
    case (Some d)
    from upsert_found [OF assms(1) Some] that Some show thesis by (metis option.simps(5))
  qed
  from ins_locked [OF assms(4) m(1)] obtain l1' where l1': "ins l1 k = Inr (l1', ?d)" "lock m1 k = Inr l1'" by blast
  from put_locked [OF l1'(2) m(2)] obtain l1'' where "put l1' k v = Inr l1''" "lock m2 k = Inr l1''" by blast
  with l1' m put_unlocked [OF m(2) ins_unlocked [OF m(1) assms(2)]] show thesis by (intro that)
qed

lemma guarded_upsert:
  assumes "invar l" "unlocked l" "length k = klen l"
  obtains l1 l2 l3 l' where "lock l k = Inr l1"
    "ins l1 k = Inr (l2, case map_of (its l) k of None \<Rightarrow> None | Some d \<Rightarrow> d)"
    "put l2 k v = Inr l3" "unlock l3 k = Inr l'" "invar l'" "unlocked l'" "same l l'"
    "map_of (its l') = (map_of (its l))(k \<mapsto> v)"
proof -
  from lock_ok [OF assms] obtain l1 where l1: "lock l k = Inr l1" ..
  from upsert_locked [OF assms l1] obtain l2 l3 l' where "ins l1 k = Inr (l2, case map_of (its l) k of None \<Rightarrow> None | Some d \<Rightarrow> d)"
    "put l2 k v = Inr l3" "lock l' k = Inr l3" "invar l'" "unlocked l'" "same l l'"
    "map_of (its l') = (map_of (its l))(k \<mapsto> v)" .
  with l1 unlock_locked show thesis by (intro that)
qed

lemma guarded_delete:
  assumes "invar l" "unlocked l" "map_of (its l) k = Some d"
  obtains l1 l2 l' where "lock l k = Inr l1" "get l1 k = Inr (Some (k, d))" "del l1 k = Inr l2"
    "unlock l2 k = Inr l'" "invar l'" "unlocked l'" "same l l'"
    "its l' = filter (\<lambda>x. fst x \<noteq> k) (its l)"
proof -
  have k: "length k = klen l" by (rule its_length [OF assms(1)]) (metis assms(3) map_of_SomeD fst_conv imageI)
  from lock_ok [OF assms(1,2) k] obtain l1 where l1: "lock l k = Inr l1" ..
  obtain l' P Q where l': "del l k = Inr l'" "invar l'" "same l l'" "its l = P @ (k, d) # Q" "its l' = P @ Q"
    using delete_lookup [OF assms(1,3)] by metis
  from del_locked [OF l1 l'(1)] obtain l2 where l2: "del l1 k = Inr l2" "lock l' k = Inr l2" by blast
  have "distinct (map fst (its l))" by (rule its_distinct [OF assms(1)])
  then have "k \<notin> keys P" "k \<notin> keys Q" unfolding l'(4) by auto
  then have "filter (\<lambda>x. fst x \<noteq> k) P = P" "filter (\<lambda>x. fst x \<noteq> k) Q = Q" by (force intro!: filter_True)+
  then have "its l' = filter (\<lambda>x. fst x \<noteq> k) (its l)" by (simp add: l'(4,5))
  moreover have "get l1 k = Inr (Some (k, d))"
    using get_locked [OF l1] get_map_of [OF assms(1) k] assms(3) by simp
  ultimately show thesis
    using l1 l2 l' unlock_locked del_unlocked [OF l'(1) assms(2)] by (intro that)
qed

lemma guarded_absent:
  assumes "invar l" "unlocked l" "length k = klen l" "map_of (its l) k = None"
  obtains l1 where "lock l k = Inr l1" "get l1 k = Inr None" "unlock l1 k = Inr l"
proof -
  from lock_ok [OF assms(1-3)] obtain l1 where l1: "lock l k = Inr l1" ..
  with get_locked [OF l1] get_map_of [OF assms(1,3)] assms(4) unlock_locked [OF l1] show thesis by (intro that) simp_all
qed

end

interpretation gl: guarded_store allItems wf_hlist hashLength same_params setHash getHash putData deleteItem
  leaves_free lockLeaf unlockLeaf
  by unfold_locales
    (rule lockLeaf_ok locked_unlock locked_getHash locked_setHash locked_putData locked_deleteItem
      setHash_leaves_free putData_leaves_free deleteItem_leaves_free; assumption)+

section \<open>The semaphore of the whole list\<close>

text \<open>The wait for the semaphore at the top of a table, and the post that gives it back.\<close>

lemma top_semaphore:
  assumes "wf_hlist l" "level l > 0" "semaphoreEnabled l \<noteq> 0" "semaphore l = Some (Suc v)"
  obtains l1 where "waitSemaphoreLeaf l = Inr l1" "wf_hlist l1" "leaves_free l1 = leaves_free l" "same_params l l1"
    "allItems l1 = allItems l" "semaphore l1 = Some v" "postSemaphoreLeaf l1 = Inr l"
proof -
  let ?l = "set_semaphore (Some v) l"
  obtain n where n: "level l = Suc n" using assms(2) by (cases "level l") auto
  have "wf_hlist ?l" using assms(1,4) n by (auto simp: wf_hlist_def header_def)
  moreover have "leaves_free ?l = leaves_free l" "allItems ?l = allItems l"
    using assms(2) by (simp_all add: leaves_free_node allItems_node)
  moreover have "postSemaphoreLeaf ?l = Inr l"
    using assms(3,4) by (cases l) (simp add: postSemaphoreLeaf_def)
  ultimately show thesis
    using assms(3,4) by (intro that [of ?l]) (simp_all add: waitSemaphoreLeaf_def same_params_def)
qed

end
