(* ===== verification/Base64.thy ===== *)
theory Base64
  imports C_Prelude
begin

unbundle bit_operations_syntax

text \<open>
  The Base64 encoder (base64.h, base64.c), which renders the accept key of a websocket. A block
  is the bytes it holds. The shifts of the code are on int; the mask keeps the six lower bits,
  which are the same on bytes. The decoder below is the inverse the encoding is meant to have.
\<close>

definition symbols :: bytes where
  "symbols = lit ''ABCDEFGHIJKLMNOPQRSTUVWXYZabcdefghijklmnopqrstuvwxyz0123456789+/=''"

definition endSymbolIndex :: byte where "endSymbolIndex = 64"

definition getIndex :: "bytes \<Rightarrow> nat \<Rightarrow> byte" where
  "getIndex block index = (if index \<ge> length block then 0 else block ! index)"

text \<open>The index into the symbols of the resultIndex-th character of the group at offset.\<close>

definition indexString :: "bytes \<Rightarrow> nat \<Rightarrow> nat \<Rightarrow> byte" where
  "indexString input offset resultIndex =
     (if resultIndex = 0 then drop_bit 2 (input ! offset)
      else if resultIndex = 1 then
        (push_bit 4 (input ! offset) OR drop_bit 4 (getIndex input (offset + 1))) AND 63
      else if resultIndex = 2 then
        (if offset + 2 > length input then endSymbolIndex
         else (push_bit 2 (getIndex input (offset + 1)) OR drop_bit 6 (getIndex input (offset + 2))) AND 63)
      else
        (if offset + 3 > length input then endSymbolIndex
         else getIndex input (offset + 2) AND 63))"

definition base64_group :: "bytes \<Rightarrow> nat \<Rightarrow> bytes" where
  "base64_group input sourceBlockIndex =
     map (\<lambda>resultIndex. symbols ! unat (indexString input (sourceBlockIndex * 3) resultIndex)) [0..<4]"

definition base64_encode :: "bytes \<Rightarrow> bytes" where
  "base64_encode input = concat (map (base64_group input) [0..<(length input + 2) div 3])"

section \<open>The encoding group by group\<close>

definition low6 :: "byte \<Rightarrow> byte" where "low6 x = x AND 63"

fun groups :: "bytes \<Rightarrow> bytes" where
  "groups [] = []"
| "groups [a] = [drop_bit 2 a, low6 (push_bit 4 a), endSymbolIndex, endSymbolIndex]"
| "groups [a, b] = [drop_bit 2 a, low6 (push_bit 4 a OR drop_bit 4 b), low6 (push_bit 2 b), endSymbolIndex]"
| "groups (a # b # c # xs) =
     [drop_bit 2 a, low6 (push_bit 4 a OR drop_bit 4 b), low6 (push_bit 2 b OR drop_bit 6 c), low6 c]
     @ groups xs"

lemma indexString_Cons3: "indexString (a # b # c # xs) (offset + 3) r = indexString xs offset r"
  by (simp add: indexString_def getIndex_def numeral_3_eq_3)

lemma upt4: "[0..<4] = [0, 1, 2, 3 :: nat]"
  by (simp add: upt_rec)

lemma base64_group_Suc: "base64_group (a # b # c # xs) (Suc s) = base64_group xs s"
proof -
  have "Suc s * 3 = s * 3 + 3" by simp
  then show ?thesis unfolding base64_group_def by (simp only: indexString_Cons3)
qed

lemma base64_encode_Cons3:
  "base64_encode (a # b # c # xs) = base64_group (a # b # c # xs) 0 @ base64_encode xs"
proof -
  have n: "(length (a # b # c # xs) + 2) div 3 = Suc ((length xs + 2) div 3)" by simp
  have "map (base64_group (a # b # c # xs)) (map Suc ns) = map (base64_group xs) ns" for ns
    by (simp add: base64_group_Suc)
  then show ?thesis
    unfolding base64_encode_def n by (simp only: upt_conv_Cons zero_less_Suc map_Suc_upt [symmetric] list.map concat.simps)
qed

lemma base64_encode_groups: "base64_encode xs = map (\<lambda>i. symbols ! unat i) (groups xs)"
proof (induction xs rule: groups.induct)
  case (4 a b c xs)
  have "base64_group (a # b # c # xs) 0 = map (\<lambda>i. symbols ! unat i)
      [drop_bit 2 a, low6 (push_bit 4 a OR drop_bit 4 b), low6 (push_bit 2 b OR drop_bit 6 c), low6 c]"
    by (simp add: base64_group_def upt4) (simp add: indexString_def getIndex_def low6_def)
  then show ?case by (simp add: base64_encode_Cons3 4 del: list.map(2)) simp
qed (simp_all add: base64_encode_def base64_group_def upt4 indexString_def getIndex_def low6_def)

section \<open>The decoder\<close>

definition symbolIndex :: "byte \<Rightarrow> byte" where
  "symbolIndex c = of_nat (length (takeWhile (\<lambda>x. x \<noteq> c) symbols))"

fun ungroup :: "bytes \<Rightarrow> bytes" where
  "ungroup (p # q # r # s # xs) =
     (if r = endSymbolIndex then [push_bit 2 p OR drop_bit 4 q]
      else if s = endSymbolIndex then [push_bit 2 p OR drop_bit 4 q, push_bit 4 q OR drop_bit 2 r]
      else [push_bit 2 p OR drop_bit 4 q, push_bit 4 q OR drop_bit 2 r, push_bit 6 r OR s] @ ungroup xs)"
| "ungroup _ = []"

definition base64_decode :: "bytes \<Rightarrow> bytes" where
  "base64_decode s = ungroup (map symbolIndex s)"

lemma length_takeWhile_nth:
  "distinct xs \<Longrightarrow> i < length xs \<Longrightarrow> length (takeWhile (\<lambda>x. x \<noteq> xs ! i) xs) = i"
proof (induction xs arbitrary: i)
  case (Cons y ys)
  then show ?case by (cases i) auto
qed simp

lemma length_symbols: "length symbols = 65"
  by (simp add: symbols_def)

lemma distinct_symbols: "distinct symbols"
  unfolding symbols_def by code_simp

lemma symbolIndex_symbols: "unat i \<le> 64 \<Longrightarrow> symbolIndex (symbols ! unat i) = i"
  using length_takeWhile_nth [OF distinct_symbols, of "unat i"] length_symbols
  by (simp add: symbolIndex_def)

lemma and63: "unat (low6 x) \<le> 63"
  using word_and_le1 [of x 63] by (simp add: word_le_nat_alt low6_def)

lemma drop2: "unat (drop_bit 2 a :: byte) \<le> 63"
proof -
  have "unat a div 4 < 64" by (rule less_mult_imp_div_less) simp
  then show ?thesis unfolding unat_drop_bit_eq by (simp add: drop_bit_eq_div)
qed

lemma groups_le: "i \<in> set (groups xs) \<Longrightarrow> unat i \<le> 64"
proof (induction xs rule: groups.induct)
  case 1 then show ?case by simp
qed (auto simp: endSymbolIndex_def intro: le_trans [OF and63] le_trans [OF drop2])

lemma sextet_not_end [simp]: "low6 x \<noteq> endSymbolIndex"
proof
  assume "low6 x = endSymbolIndex"
  with and63 [of x] show False by (simp add: endSymbolIndex_def)
qed

lemma bit_low6: "bit (low6 x) n \<longleftrightarrow> bit x n \<and> n < 6"
proof -
  have "(63 :: byte) = mask 6" by (simp add: mask_eq_exp_minus_1)
  show ?thesis unfolding low6_def \<open>63 = mask 6\<close> by (auto simp: bit_simps dest: bit_imp_le_length)
qed

lemma less8: "n < 8 \<Longrightarrow> n \<in> {0, Suc 0, Suc (Suc 0), Suc (Suc (Suc 0)), 4, 5, 6, 7}"
  by auto

lemma octets:
  fixes a b c :: byte
  shows "push_bit 2 (drop_bit 2 a) OR drop_bit 4 (low6 (push_bit 4 a OR drop_bit 4 b)) = a"
    "push_bit 4 (low6 (push_bit 4 a OR drop_bit 4 b)) OR drop_bit 2 (low6 (push_bit 2 b OR drop_bit 6 c)) = b"
    "push_bit 6 (low6 (push_bit 2 b OR drop_bit 6 c)) OR low6 c = c"
    "push_bit 2 (drop_bit 2 a) OR drop_bit 4 (low6 (push_bit 4 a)) = a"
    "push_bit 4 (low6 (push_bit 4 a OR drop_bit 4 b)) OR drop_bit 2 (low6 (push_bit 2 b)) = b"
  by (rule bit_word_eqI, simp, drule less8, auto simp: bit_simps bit_low6
      dest: bit_imp_le_length)+

lemma ungroup_groups: "ungroup (groups xs) = xs"
  by (induction xs rule: groups.induct) (simp_all add: octets)

lemma base64_inverse: "base64_decode (base64_encode xs) = xs" "length (base64_encode xs) = 4 * ((length xs + 2) div 3)"
proof -
  have "map symbolIndex (base64_encode xs) = groups xs"
    unfolding base64_encode_groups using groups_le [of _ xs]
    by (simp add: symbolIndex_symbols map_idI)
  then show "base64_decode (base64_encode xs) = xs"
    by (simp add: base64_decode_def ungroup_groups)
  show "length (base64_encode xs) = 4 * ((length xs + 2) div 3)"
    by (simp add: base64_encode_def length_concat base64_group_def comp_def sum_list_triv)
qed

text \<open>C33: The encoder is reversible: decoding the characters it renders gives back the bytes, and
there are four characters for each three bytes begun.\<close>

theorem base64_roundtrip:
  "base64_decode (base64_encode xs) = xs \<and> length (base64_encode xs) = 4 * ((length xs + 2) div 3)"
  using base64_inverse by blast

end
