(* ===== verification/Sha1.thy ===== *)
theory Sha1
  imports C_Prelude
begin

unbundle bit_operations_syntax

text \<open>
  The SHA-1 digest (sha1.h, sha1.c, with htonll of socket.h), used for the accept key of a
  websocket. A block is the bytes it holds, before and after. The second half of the theory is
  the digest as its standard defines it, to which the code is proved equal.
\<close>

section \<open>The code\<close>

definition leftRotate :: "u32 \<Rightarrow> nat \<Rightarrow> u32" where
  "leftRotate input n = push_bit n input OR drop_bit (32 - n) input"

definition htonll :: "u64 \<Rightarrow> u64" where
  "htonll x = push_bit 32 (ucast (htonl (ucast (x AND 0xFFFFFFFF)))) + ucast (htonl (ucast (drop_bit 32 x)))"

text \<open>The block with the appended bit, the zeros and the size.\<close>

definition padded :: "bytes \<Rightarrow> bytes" where
  "padded block =
     (let size = htonll (of_nat (length block) * 8);
          b1 = block @ [0x80];
          left = length b1 mod 64;
          b2 = (if left < 56 then b1 @ replicate (56 - left) 0
                else if left > 56 then b1 @ replicate (64 - left) 0 @ replicate 56 0
                else b1)
      in b2 @ mem64 size)"

text \<open>The 80 words of a chunk: its own 16, each further one computed from the array so far.\<close>

definition chunk_words :: "bytes \<Rightarrow> nat \<Rightarrow> u32 list" where
  "chunk_words data index =
     foldl (\<lambda>w i. w @ [leftRotate (w ! (i - 3) XOR w ! (i - 8) XOR w ! (i - 14) XOR w ! (i - 16)) 1])
       (map (\<lambda>i. htonl (rd32 data (index * 64 + i * 4))) [0..<16]) [16..<80]"

type_synonym hash5 = "u32 \<times> u32 \<times> u32 \<times> u32 \<times> u32"

definition round_step :: "u32 list \<Rightarrow> hash5 \<Rightarrow> nat \<Rightarrow> hash5" where
  "round_step w h i =
     (case h of (a, b, c, d, e) \<Rightarrow>
        (let (f, k) =
           (if i < 20 then ((b AND c) OR (NOT b AND d), 0x5A827999)
            else if i < 40 then (b XOR c XOR d, 0x6ED9EBA1)
            else if i < 60 then ((b AND c) OR (b AND d) OR (c AND d), 0x8F1BBCDC)
            else (b XOR c XOR d, 0xCA62C1D6));
           temp = leftRotate a 5 + f + e + k + w ! i
         in (temp, a, leftRotate b 30, c, d)))"

definition chunk_step :: "bytes \<Rightarrow> hash5 \<Rightarrow> nat \<Rightarrow> hash5" where
  "chunk_step data h index =
     (case (h, foldl (round_step (chunk_words data index)) h [0..<80]) of
        ((h0, h1, h2, h3, h4), (a, b, c, d, e)) \<Rightarrow> (h0 + a, h1 + b, h2 + c, h3 + d, h4 + e))"

definition sha1 :: "bytes \<Rightarrow> bytes" where
  "sha1 block =
     (let data = padded block;
          (h0, h1, h2, h3, h4) =
            foldl (chunk_step data) (0x67452301, 0xEFCDAB89, 0x98BADCFE, 0x10325476, 0xC3D2E1F0)
              [0..<length data div 64]
      in concat (map (\<lambda>h. mem32 (htonl h)) [h0, h1, h2, h3, h4]))"

section \<open>The standard\<close>

text \<open>Words are read and written most significant byte first; ROTL, Ch, Parity and Maj are the
standard's functions, and the message schedule its recurrence.\<close>

definition be_word :: "bytes \<Rightarrow> nat \<Rightarrow> u32" where
  "be_word m i = push_bit 24 (ucast (m ! i)) OR push_bit 16 (ucast (m ! (i + 1)))
     OR push_bit 8 (ucast (m ! (i + 2))) OR ucast (m ! (i + 3))"

definition std_f :: "nat \<Rightarrow> u32 \<Rightarrow> u32 \<Rightarrow> u32 \<Rightarrow> u32" where
  "std_f t x y z =
     (if t \<le> 19 then (x AND y) XOR (NOT x AND z)
      else if t \<le> 39 then x XOR y XOR z
      else if t \<le> 59 then (x AND y) XOR (x AND z) XOR (y AND z)
      else x XOR y XOR z)"

definition std_K :: "nat \<Rightarrow> u32" where
  "std_K t = (if t \<le> 19 then 0x5A827999 else if t \<le> 39 then 0x6ED9EBA1
     else if t \<le> 59 then 0x8F1BBCDC else 0xCA62C1D6)"

fun std_W :: "(nat \<Rightarrow> u32) \<Rightarrow> nat \<Rightarrow> u32" where
  "std_W M t =
     (if t < 16 then M t
      else word_rotl 1 (std_W M (t - 3) XOR std_W M (t - 8) XOR std_W M (t - 14) XOR std_W M (t - 16)))"

declare std_W.simps [simp del]

definition std_round :: "(nat \<Rightarrow> u32) \<Rightarrow> hash5 \<Rightarrow> nat \<Rightarrow> hash5" where
  "std_round M h t =
     (case h of (a, b, c, d, e) \<Rightarrow>
        (word_rotl 5 a + std_f t b c d + e + std_K t + std_W M t, a, word_rotl 30 b, c, d))"

definition std_block :: "bytes \<Rightarrow> hash5 \<Rightarrow> nat \<Rightarrow> hash5" where
  "std_block m h i =
     (case (h, foldl (std_round (\<lambda>t. be_word m (64 * i + 4 * t))) h [0..<80]) of
        ((h0, h1, h2, h3, h4), (a, b, c, d, e)) \<Rightarrow> (a + h0, b + h1, c + h2, d + h3, e + h4))"

text \<open>The padding: a one bit, as few zeros as leave 8 bytes to the end of a block of 64, and the
length in bits as a 64-bit number.\<close>

definition std_padding :: "nat \<Rightarrow> bytes" where
  "std_padding n = 0x80 # replicate ((119 - n mod 64) mod 64) 0 @ rev (mem64 (of_nat (8 * n)))"

definition std_sha1 :: "bytes \<Rightarrow> bytes" where
  "std_sha1 msg =
     (let m = msg @ std_padding (length msg);
          (h0, h1, h2, h3, h4) =
            foldl (std_block m) (0x67452301, 0xEFCDAB89, 0x98BADCFE, 0x10325476, 0xC3D2E1F0)
              [0..<length m div 64]
      in rev (mem32 h0) @ rev (mem32 h1) @ rev (mem32 h2) @ rev (mem32 h3) @ rev (mem32 h4))"

section \<open>The code implements the standard\<close>

lemma leftRotate_rotl: "0 < n \<Longrightarrow> n < 32 \<Longrightarrow> leftRotate x n = word_rotl n x"
proof (rule bit_word_eqI)
  fix m
  assume n: "0 < n" "n < 32" and m: "m < LENGTH(32)"
  show "bit (leftRotate x n) m \<longleftrightarrow> bit (word_rotl n x) m"
  proof (cases "n \<le> m")
    case True
    then have "m + (32 - n) = (m - n) + 32" using n by simp
    then have "(m + (32 - n)) mod 32 = m - n" using m by (simp only: mod_add_self2) simp
    moreover have "\<not> bit x (32 - n + m)" using True n by (auto dest: bit_imp_le_length)
    ultimately show ?thesis
      using True n m by (simp add: leftRotate_def bit_simps bit_word_rotl_iff)
  next
    case False
    then have "(m + (32 - n)) mod 32 = 32 - n + m" using n by simp
    then show ?thesis
      using False n m by (simp add: leftRotate_def bit_simps bit_word_rotl_iff)
  qed
qed

lemma Ch_or: "(x AND y) OR (NOT x AND z) = (x AND y) XOR (NOT x AND (z :: u32))"
  by (rule bit_word_eqI) (auto simp: bit_simps)

lemma Maj_or: "(x AND y) OR (x AND z) OR (y AND z) = (x AND y) XOR (x AND z) XOR (y AND (z :: u32))"
  by (rule bit_word_eqI) (auto simp: bit_simps)

lemma mem64_htonll: "mem64 (htonll x) = rev (mem64 x)"
proof -
  let ?lo = "ucast x :: u32" and ?hi = "ucast (drop_bit 32 x) :: u32"
  have m: "(0xFFFFFFFF :: u64) = mask 32" by (simp add: mask_eq_exp_minus_1)
  have lo: "ucast (x AND 0xFFFFFFFF) = ?lo"
    unfolding m by (rule bit_word_eqI) (auto simp: bit_simps)
  have "push_bit 32 (ucast (htonl ?lo) :: u64) AND ucast (htonl ?hi) = 0"
    by (rule bit_word_eqI) (auto simp: bit_simps dest: bit_imp_le_length)
  then have h: "htonll x = push_bit 32 (ucast (htonl ?lo)) OR ucast (htonl ?hi)"
    unfolding htonll_def lo by (rule disjunctive_add_eq_or)
  have "ucast (htonll x) = htonl ?hi"
    unfolding h by (rule bit_word_eqI) (auto simp: bit_simps)
  moreover have "ucast (drop_bit 32 (htonll x)) = htonl ?lo"
    unfolding h by (rule bit_word_eqI) (auto simp: bit_simps dest: bit_imp_le_length)
  ultimately show ?thesis
    unfolding mem64_split [of "htonll x"] mem64_split [of x] by simp
qed

lemma padded_standard: "padded m = m @ std_padding (length m)"
proof -
  let ?l = "Suc (length m) mod 64" and ?n = "(119 - length m mod 64) mod 64"
  have z: "(if ?l < 56 then replicate (56 - ?l) 0
      else if ?l > 56 then replicate (64 - ?l) 0 @ replicate 56 0 else []) = replicate ?n (0 :: byte)"
  proof -
    have l: "?l = (if length m mod 64 = 63 then 0 else Suc (length m mod 64))" by (simp add: mod_Suc)
    consider "length m mod 64 < 55" | "length m mod 64 = 55" | "55 < length m mod 64" "length m mod 64 < 63"
      | "length m mod 64 = 63" using mod_less_divisor [of 64 "length m"] by linarith
    then show ?thesis
    proof cases
      case 1
      then have "?n = 56 - ?l" using l by (simp add: mod_if)
      with 1 l show ?thesis by simp
    next
      case 2
      with l show ?thesis by simp
    next
      case 3
      then have n: "?n = (64 - ?l) + 56" and "?l > 56" using l by simp_all
      then show ?thesis unfolding n replicate_add by simp
    next
      case 4
      with l show ?thesis by simp
    qed
  qed
  show ?thesis
    unfolding std_padding_def z [symmetric] by (simp add: padded_def Let_def mem64_htonll mult.commute)
qed

lemma length_padded: "64 dvd length (padded m)"
proof -
  have "(r + ((119 - r) mod 64 + 9)) mod 64 = 0" if "r < 64" for r :: nat
  proof (cases "r \<le> 55")
    case True
    then have "119 - r = (55 - r) + 64" by simp
    then have "(119 - r) mod 64 = 55 - r" by (simp only: mod_add_self2) simp
    with True show ?thesis by simp
  next
    case False
    then have "(119 - r) mod 64 = 119 - r" by simp
    moreover have "r + (119 - r + 9) = 128" using that by simp
    ultimately show ?thesis by simp
  qed
  from this [of "length m mod 64"]
  have "((length m mod 64) + ((119 - length m mod 64) mod 64 + 9)) mod 64 = 0" by simp
  then have "(length m + ((119 - length m mod 64) mod 64 + 9)) mod 64 = 0"
    by (simp only: mod_add_left_eq)
  then show ?thesis
    by (auto simp: padded_standard std_padding_def add.commute add.left_commute)
qed

lemma be_word_htonl: "htonl (rd32 m i) = be_word m i"
proof -
  have "rd32 m i = rd32 [m ! i, m ! (i + 1), m ! (i + 2), m ! (i + 3)] 0" by (simp add: rd32_def)
  then have "htonl (rd32 m i) = rd32 [m ! (i + 3), m ! (i + 2), m ! (i + 1), m ! i] 0"
    by (simp add: htonl_def)
  then show ?thesis by (simp add: rd32_def be_word_def ac_simps)
qed

lemma snoc_prefix:
  "length v = n \<Longrightarrow> \<forall>t < n. v ! t = W t \<Longrightarrow> length (v @ [W n]) = Suc n \<and> (\<forall>t < Suc n. (v @ [W n]) ! t = W t)"
  by (auto simp: nth_append less_Suc_eq)

lemma chunk_words_standard:
  assumes "t < 80"
  shows "chunk_words data index ! t = std_W (\<lambda>t. be_word data (64 * index + 4 * t)) t"
proof -
  let ?M = "\<lambda>t. be_word data (64 * index + 4 * t)"
  let ?f = "\<lambda>w i. w @ [leftRotate (w ! (i - 3) XOR w ! (i - 8) XOR w ! (i - 14) XOR w ! (i - 16)) 1]"
  let ?w = "\<lambda>n. foldl ?f (map (\<lambda>i. htonl (rd32 data (index * 64 + i * 4))) [0..<16]) [16..<n]"
  have "length (?w (16 + k)) = 16 + k \<and> (\<forall>t < 16 + k. ?w (16 + k) ! t = std_W ?M t)" for k
  proof (induction k)
    case 0
    have "std_W ?M t = htonl (rd32 data (index * 64 + t * 4))" if "t < 16" for t
      using that by (simp add: std_W.simps be_word_htonl mult.commute)
    then show ?case by (simp del: upt_Suc)
  next
    case (Suc k)
    let ?t = "16 + k"
    obtain v where v: "?w ?t = v" "length v = ?t" "\<forall>t < ?t. v ! t = std_W ?M t" using Suc by blast
    have "[16..<16 + Suc k] = [16..<?t] @ [?t]" by (simp only: add_Suc_right upt_Suc_append le_add1)
    then have e: "?w (16 + Suc k) = ?f v ?t" by (simp only: foldl_append foldl.simps v(1))
    have "std_W ?M ?t = word_rotl 1 (std_W ?M (?t - 3) XOR std_W ?M (?t - 8) XOR std_W ?M (?t - 14) XOR std_W ?M (?t - 16))"
      by (subst std_W.simps) simp
    also have "\<dots> = leftRotate (v ! (?t - 3) XOR v ! (?t - 8) XOR v ! (?t - 14) XOR v ! (?t - 16)) 1"
      using v(3) by (subst leftRotate_rotl) simp_all
    finally have n: "std_W ?M ?t = leftRotate (v ! (?t - 3) XOR v ! (?t - 8) XOR v ! (?t - 14) XOR v ! (?t - 16)) 1" .
    show ?case
      unfolding e n [symmetric] unfolding add_Suc_right by (rule snoc_prefix [OF v(2,3)])
  qed
  note w80 = this [of 64, THEN conjunct2, THEN spec, THEN mp]
  have t: "t < 16 + 64" and e: "(80 :: nat) = 16 + 64" using assms by simp_all
  show ?thesis unfolding chunk_words_def e by (rule w80 [OF t])
qed

lemma round_standard:
  "i < 80 \<Longrightarrow> round_step (chunk_words data index) h i = std_round (\<lambda>t. be_word data (64 * index + 4 * t)) h i"
proof -
  assume i: "i < 80"
  obtain a b c d e where h: "h = (a, b, c, d, e)" by (cases h) auto
  show ?thesis
    unfolding round_step_def std_round_def h
    using chunk_words_standard [OF i, of data index]
    by (simp add: leftRotate_rotl std_f_def std_K_def Ch_or Maj_or less_Suc_eq_le numeral_eq_Suc Let_def)
qed


lemma chunk_standard: "chunk_step data h index = std_block data h index"
proof -
  have "foldl (round_step (chunk_words data index)) h [0..<80] =
      foldl (std_round (\<lambda>t. be_word data (64 * index + 4 * t))) h [0..<80]"
    by (rule foldl_cong [OF refl refl]) (simp add: round_standard)
  then show ?thesis
    unfolding chunk_step_def std_block_def by (simp add: add.commute split: prod.split)
qed

lemma sha1_standard: "sha1 m = std_sha1 m" "length (sha1 m) = 20"
proof -
  show s: "sha1 m = std_sha1 m"
    unfolding sha1_def std_sha1_def padded_standard [symmetric] Let_def
    by (simp add: chunk_standard [abs_def] split: prod.split)
  show "length (sha1 m) = 20"
    unfolding s by (simp add: std_sha1_def Let_def split: prod.split)
qed

text \<open>C34: The digest is SHA-1: for every message the code's padding, schedule, rounds and byte orders
give the value of the standard's definition, and the padded message is a whole number of
blocks of 64 bytes.\<close>

theorem sha1_is_standard:
  "sha1 m = std_sha1 m \<and> 64 dvd length (padded m) \<and> length (sha1 m) = 20"
  using sha1_standard length_padded by blast

end
