(* ===== verification/Geoip.thy ===== *)
theory Geoip
  imports C_Prelude
begin

text \<open>
  The location of an IPv4 address (geoip.h, geoip.c): the table, its loading from the lines of
  a CSV file, and the search. A float is its 32-bit pattern; the conversion of libc's atof is an
  argument. A pointer into the table is an index, and a use of an index outside it an error.
\<close>

definition GEOIP_FILE_LINES :: nat where "GEOIP_FILE_LINES = 2912124"
definition GEOIP_POSITION_START_IP_GEOIP :: byte where "GEOIP_POSITION_START_IP_GEOIP = 1"
definition GEOIP_POSITION_END_IP_GEOIP :: byte where "GEOIP_POSITION_END_IP_GEOIP = 2"
definition GEOIP_POSITION_LAT_GEOIP :: byte where "GEOIP_POSITION_LAT_GEOIP = 7"
definition GEOIP_POSITION_LON_GEOIP :: byte where "GEOIP_POSITION_LON_GEOIP = 8"
definition GEOIP_MAX_ITERATION :: nat where "GEOIP_MAX_ITERATION = 50"
definition EXIT_CODE_GEOIP_WRONG_DATA :: nat where "EXIT_CODE_GEOIP_WRONG_DATA = 226"

text \<open>The pattern of the float 1000.\<close>

definition GEOIP_NOT_LOADING :: u32 where "GEOIP_NOT_LOADING = 0x447A0000"

record geoip =
  g_startIp :: u32
  g_endIp :: u32
  g_lat :: u32
  g_lon :: u32

definition geoip0 :: geoip where
  "geoip0 = \<lparr>g_startIp = 0, g_endIp = 0, g_lat = 0, g_lon = 0\<rparr>"

definition initGeoip :: "bool \<Rightarrow> geoip list" where
  "initGeoip noLocations =
     (if noLocations then [geoip0]
      else (replicate GEOIP_FILE_LINES geoip0)[GEOIP_FILE_LINES - 1 := geoip0\<lparr>g_lat := GEOIP_NOT_LOADING\<rparr>])"

section \<open>Loading\<close>

text \<open>strtok with the delimiters comma and quote: the cells of a line, empty ones left out.\<close>

definition delim :: "byte \<Rightarrow> bool" where
  "delim c \<longleftrightarrow> c = 44 \<or> c = 34"

function cells :: "bytes \<Rightarrow> bytes list" where
  "cells line =
     (let s = dropWhile delim line in
      if s = [] then [] else takeWhile (\<lambda>c. \<not> delim c) s # cells (dropWhile (\<lambda>c. \<not> delim c) s))"
  by pat_completeness auto
termination
proof (relation "measure length")
  fix line s :: bytes
  assume s: "s = dropWhile delim line" "s \<noteq> []"
  then have "\<not> delim (hd s)" using hd_dropWhile [of delim line] by simp
  then have "length (dropWhile (\<lambda>c. \<not> delim c) s) < length s"
    using s(2) by (cases s) (auto simp: le_imp_less_Suc length_dropWhile_le)
  moreover have "length s \<le> length line" unfolding s(1) by (rule length_dropWhile_le)
  ultimately show "(dropWhile (\<lambda>c. \<not> delim c) s, line) \<in> measure length" by simp
qed simp

declare cells.simps [simp del]

text \<open>A cell is written to the field its position stands for; startIp is the last one read.\<close>

definition loadCell :: "(bytes \<Rightarrow> u32) \<Rightarrow> byte \<Rightarrow> bytes \<Rightarrow> geoip \<times> u32 \<Rightarrow> (geoip \<times> u32) res" where
  "loadCell atof position cell s =
     (case s of (g, startIp) \<Rightarrow>
        if position = GEOIP_POSITION_START_IP_GEOIP then
          (if startIp > atoi cell then Inl (Exit EXIT_CODE_GEOIP_WRONG_DATA)
           else Inr (g\<lparr>g_startIp := atoi cell\<rparr>, atoi cell))
        else if position = GEOIP_POSITION_END_IP_GEOIP then Inr (g\<lparr>g_endIp := atoi cell\<rparr>, startIp)
        else if position = GEOIP_POSITION_LAT_GEOIP then Inr (g\<lparr>g_lat := atof cell\<rparr>, startIp)
        else if position = GEOIP_POSITION_LON_GEOIP then Inr (g\<lparr>g_lon := atof cell\<rparr>, startIp)
        else Inr (g, startIp))"

fun loadCells :: "(bytes \<Rightarrow> u32) \<Rightarrow> byte \<Rightarrow> bytes list \<Rightarrow> geoip \<times> u32 \<Rightarrow> (geoip \<times> u32) res" where
  "loadCells atof position [] s = Inr s"
| "loadCells atof position (c # cs) s =
     bindR (loadCell atof (position + 1) c s) (loadCells atof (position + 1) cs)"

text \<open>The lines of the file from lineNumber on; a line without cells writes nothing.\<close>

fun loadLines :: "(bytes \<Rightarrow> u32) \<Rightarrow> bytes list \<Rightarrow> nat \<Rightarrow> u32 \<Rightarrow> geoip list \<Rightarrow> geoip list res" where
  "loadLines atof [] lineNumber startIp table = Inr table"
| "loadLines atof (l # ls) lineNumber startIp table =
     (if cells l = [] then loadLines atof ls (lineNumber + 1) startIp table
      else
        bindR (nth_res table lineNumber) (\<lambda>g.
        bindR (loadCells atof 0 (cells l) (g, startIp)) (\<lambda>(g', startIp').
          loadLines atof ls (lineNumber + 1) startIp' (table[lineNumber := g']))))"

text \<open>None is a file that is not found.\<close>

definition loadGeoipHandler :: "(bytes \<Rightarrow> u32) \<Rightarrow> bytes list option \<Rightarrow> geoip list \<Rightarrow> geoip list res" where
  "loadGeoipHandler atof file table =
     (case file of None \<Rightarrow> Inr table | Some ls \<Rightarrow> loadLines atof ls 0 0 table)"

section \<open>The search\<close>

text \<open>One turn of the loop: the delimiter doubles, the index moves by the quotient or by one.\<close>

definition findMove :: "geoip \<Rightarrow> u32 \<Rightarrow> u64 \<Rightarrow> u32 \<Rightarrow> u64 \<times> u32" where
  "findMove middle ip delimiter index =
     (let d = delimiter * 2;
          q = ucast (of_nat GEOIP_FILE_LINES div d)
      in if g_startIp middle > ip
         then (let newIndex = index - q in (d, if index \<noteq> newIndex then newIndex else newIndex - 1))
         else (let newIndex = index + q in (d, if index \<noteq> newIndex then newIndex else newIndex + 1)))"

text \<open>left is what current\_iterations lacks to the break.\<close>

fun findLoop :: "geoip list \<Rightarrow> u32 \<Rightarrow> nat \<Rightarrow> u64 \<Rightarrow> u32 \<Rightarrow> nat res" where
  "findLoop table ip left delimiter index =
     bindR (nth_res table (unat index)) (\<lambda>middle.
       if g_startIp middle > ip \<or> g_endIp middle < ip then
         (case findMove middle ip delimiter index of (d, i) \<Rightarrow>
            (case left of
               0 \<Rightarrow> Inr (unat i)
             | Suc n \<Rightarrow> findLoop table ip n d i))
       else Inr (unat index))"

declare findLoop.simps [simp del]

definition findGeoip :: "geoip list \<Rightarrow> u32 \<Rightarrow> nat res" where
  "findGeoip table ip =
     bindR (nth_res table 0) (\<lambda>first.
       if g_endIp first = 0 then Inr 0
       else bindR (nth_res table (GEOIP_FILE_LINES - 1)) (\<lambda>lst.
         if g_lat lst = GEOIP_NOT_LOADING then Inr 0
         else findLoop table ip GEOIP_MAX_ITERATION 2 (of_nat GEOIP_FILE_LINES div 2)))"

section \<open>The search finds the range\<close>

text \<open>A loaded table: the ranges are in order, leave no gap, and cover all addresses.\<close>

definition covers :: "geoip list \<Rightarrow> bool" where
  "covers table \<longleftrightarrow> length table = GEOIP_FILE_LINES \<and> g_startIp (table ! 0) = 0 \<and>
     (\<forall>i. i < length table \<longrightarrow> g_startIp (table ! i) \<le> g_endIp (table ! i)) \<and>
     (\<forall>i. i + 1 < length table \<longrightarrow> unat (g_startIp (table ! (i + 1))) = unat (g_endIp (table ! i)) + 1) \<and>
     g_endIp (table ! (length table - 1)) = - 1"

definition in_range :: "geoip \<Rightarrow> u32 \<Rightarrow> bool" where
  "in_range g ip \<longleftrightarrow> g_startIp g \<le> ip \<and> ip \<le> g_endIp g"

lemma covers_mono:
  assumes "covers table" "i < j" "j < length table"
  shows "g_endIp (table ! i) < g_startIp (table ! j)"
  using assms(2,3)
proof (induction j)
  case (Suc j)
  have s: "unat (g_startIp (table ! Suc j)) = unat (g_endIp (table ! j)) + 1"
    using assms(1) Suc.prems(2) by (simp add: covers_def)
  show ?case
  proof (cases "i = j")
    case True
    with s show ?thesis by (simp add: word_less_nat_alt)
  next
    case False
    with Suc have "g_endIp (table ! i) < g_startIp (table ! j)" by simp
    moreover have "g_startIp (table ! j) \<le> g_endIp (table ! j)" using assms(1) Suc.prems(2) by (simp add: covers_def)
    ultimately show ?thesis using s by (simp add: word_less_nat_alt word_le_nat_alt)
  qed
qed simp

lemma covers_target:
  assumes "covers table"
  shows "\<exists>t < length table. in_range (table ! t) ip"
proof -
  have "\<exists>t \<le> k. in_range (table ! t) ip" if "k < length table" "ip \<le> g_endIp (table ! k)" for k
    using that
  proof (induction k)
    case 0
    with assms show ?case by (auto simp: covers_def in_range_def)
  next
    case (Suc k)
    show ?case
    proof (cases "ip \<le> g_endIp (table ! k)")
      case True
      with Suc show ?thesis by (metis Suc_lessD le_SucI)
    next
      case False
      have "unat (g_startIp (table ! Suc k)) = unat (g_endIp (table ! k)) + 1"
        using assms Suc.prems(1) by (simp add: covers_def)
      with False have "g_startIp (table ! Suc k) \<le> ip" by (simp add: word_le_nat_alt)
      with Suc.prems(2) show ?thesis by (auto simp: in_range_def)
    qed
  qed
  moreover have e: "length table = GEOIP_FILE_LINES" "g_endIp (table ! (length table - 1)) = - 1"
    using assms by (auto simp: covers_def)
  then have "length table - 1 < length table" by (simp add: GEOIP_FILE_LINES_def)
  moreover have "ip \<le> g_endIp (table ! (length table - 1))" unfolding e(2) by simp
  ultimately show ?thesis by (meson le_less_trans)
qed

text \<open>A miss says on which side of the index the target is.\<close>

lemma covers_side:
  assumes "covers table" "i < length table" "t < length table" "in_range (table ! t) ip"
  shows "g_startIp (table ! i) > ip \<longleftrightarrow> t < i" "g_endIp (table ! i) < ip \<longleftrightarrow> i < t"
proof -
  have le: "g_startIp (table ! k) \<le> g_endIp (table ! k)" if "k < length table" for k
    using assms(1) that by (simp add: covers_def)
  have r: "g_startIp (table ! t) \<le> ip" "ip \<le> g_endIp (table ! t)" using assms(4) by (simp_all add: in_range_def)
  have a: "ip < g_startIp (table ! i)" if "t < i"
    using covers_mono [OF assms(1) that assms(2)] r(2) by (rule le_less_trans [rotated])
  have b: "g_endIp (table ! i) < ip" if "i < t"
    using covers_mono [OF assms(1) that assms(3)] r(1) by (rule less_le_trans)
  have c: "\<not> ip < g_startIp (table ! i)" if "i \<le> t"
    using that b le [OF assms(2)] r by (cases "i = t") (auto simp: not_less intro: order_trans)
  have d: "\<not> g_endIp (table ! i) < ip" if "t \<le> i"
    using that a le [OF assms(2)] r by (cases "i = t") (auto simp: not_less intro: order_trans)
  show "g_startIp (table ! i) > ip \<longleftrightarrow> t < i" using a c not_less by blast
  show "g_endIp (table ! i) < ip \<longleftrightarrow> i < t" using b d not_less by blast
qed

text \<open>The step width after k turns, how far the target can be then, and the move on numbers.\<close>

definition width :: "nat \<Rightarrow> nat" where
  "width k = GEOIP_FILE_LINES div 2 ^ (k + 1)"

definition far :: "nat \<Rightarrow> nat" where
  "far k = (if k \<le> 21 then width k + k else 42 - k)"

definition move :: "bool \<Rightarrow> nat \<Rightarrow> nat \<Rightarrow> nat" where
  "move left q i = (let w = if q = 0 then 1 else q in if left then i - w else i + w)"

definition search_inv :: "nat \<Rightarrow> nat \<Rightarrow> nat \<Rightarrow> bool" where
  "search_inv k t i \<longleftrightarrow> i < GEOIP_FILE_LINES \<and> width k \<le> i \<and> i + width k \<le> GEOIP_FILE_LINES \<and>
     i - t \<le> far k \<and> t - i \<le> far k"

lemma width_Suc: "2 * width (Suc k) \<le> width k" "width k \<le> 2 * width (Suc k) + 1"
proof -
  have "width (Suc k) = width k div 2"
    unfolding width_def by (simp add: div_mult2_eq [symmetric] mult.commute)
  then show "2 * width (Suc k) \<le> width k" "width k \<le> 2 * width (Suc k) + 1" by linarith+
qed

lemma width_0: "21 \<le> k \<Longrightarrow> width k = 0"
proof -
  assume "21 \<le> k"
  then have "(2 :: nat) ^ 22 \<le> 2 ^ (k + 1)" by (intro power_increasing) simp_all
  moreover have "GEOIP_FILE_LINES < 2 ^ 22" by (simp add: GEOIP_FILE_LINES_def)
  ultimately have "GEOIP_FILE_LINES < 2 ^ (k + 1)" by (rule less_le_trans [rotated])
  then show ?thesis unfolding width_def by (rule div_less)
qed

lemma search_inv_step:
  assumes "search_inv k t i" "t < GEOIP_FILE_LINES" "i \<noteq> t"
  shows "search_inv (Suc k) t (move (t < i) (width (Suc k)) i)"
proof -
  let ?q = "width (Suc k)"
  have i: "i < GEOIP_FILE_LINES" "width k \<le> i" "i + width k \<le> GEOIP_FILE_LINES" "i - t \<le> far k" "t - i \<le> far k"
    using assms(1) by (auto simp: search_inv_def)
  note w = width_Suc [of k]
  show ?thesis
  proof (cases "?q = 0")
    case True
    have "far k \<le> far (Suc k) + 1"
    proof (cases "k \<le> 20")
      case True
      then show ?thesis using w \<open>?q = 0\<close> by (simp add: far_def)
    next
      case False
      then show ?thesis using width_0 [of k] by (auto simp: far_def)
    qed
    then show ?thesis
      using True i assms(2,3) by (auto simp: search_inv_def move_def Let_def)
  next
    case False
    then have "k < 20" using width_0 [of "Suc k"] by (cases "20 \<le> k") auto
    then have "far k = width k + k" "far (Suc k) = ?q + k + 1" by (simp_all add: far_def)
    then show ?thesis
      using False i w assms(3) by (auto simp: search_inv_def move_def Let_def)
  qed
qed

lemma search_inv_start:
  assumes "t < GEOIP_FILE_LINES"
  shows "search_inv 0 t (GEOIP_FILE_LINES div 2)"
  using assms by (simp add: search_inv_def width_def far_def) (simp add: GEOIP_FILE_LINES_def)

text \<open>The words of the code stay in range and carry those numbers.\<close>

lemma findMove_width:
  assumes "k \<le> GEOIP_MAX_ITERATION" "unat index < GEOIP_FILE_LINES" "g_startIp m > ip \<Longrightarrow> 0 < unat index"
    "width k \<le> unat index"
  shows "findMove m ip (2 ^ (k + 1)) index =
    (2 ^ (Suc k + 1), of_nat (move (g_startIp m > ip) (width (Suc k)) (unat index)))"
proof -
  let ?q = "ucast (of_nat GEOIP_FILE_LINES div (2 ^ (k + 2) :: u64)) :: u32"
  have w: "width (Suc k) \<le> unat index" using width_Suc(1) [of k] assms(4) by linarith
  have small: "width (Suc k) < 2 ^ 32" using w assms(2) by (simp add: GEOIP_FILE_LINES_def)
  have p: "unat (2 ^ (k + 2) :: u64) = 2 ^ (k + 2)"
  proof -
    have "(2 :: nat) ^ (k + 2) < 2 ^ 64"
      using assms(1) by (intro power_strict_increasing) (simp_all add: GEOIP_MAX_ITERATION_def)
    then have "unat (of_nat (2 ^ (k + 2)) :: u64) = 2 ^ (k + 2)"
      unfolding unat_of_nat by (intro mod_less) simp
    then show ?thesis by (simp only: of_nat_power of_nat_numeral)
  qed
  have "unat (of_nat GEOIP_FILE_LINES div (2 ^ (k + 2) :: u64)) = width (Suc k)"
    unfolding unat_div p by (simp add: width_def GEOIP_FILE_LINES_def)
  then have q: "?q = of_nat (width (Suc k))"
    by (metis of_nat_unat ucast_eq unat_eq_nat_uint uint_nat of_int_of_nat_eq)
  have qi: "?q \<noteq> 0 \<longleftrightarrow> width (Suc k) \<noteq> 0"
    unfolding q using small by (cases "width (Suc k) = 0") (auto simp: word_of_nat_eq_0_iff dest: dvd_imp_le)
  have d: "(2 ^ (k + 1) * 2 :: u64) = 2 ^ (k + 2)" by simp
  have idx: "index = of_nat (unat index)" by simp
  show ?thesis
  proof (cases "g_startIp m > ip")
    case True
    have "index - ?q = of_nat (unat index - width (Suc k))"
      unfolding q using w by (subst idx) (simp only: of_nat_diff)
    moreover have "index - 1 = of_nat (unat index - 1)"
      using assms(3) [OF True] by (subst idx) (simp add: of_nat_diff)
    ultimately show ?thesis
      using True qi unfolding findMove_def d Let_def move_def by auto
  next
    case False
    have "index + ?q = of_nat (unat index + width (Suc k))" unfolding q by simp
    then show ?thesis
      using False qi unfolding findMove_def d Let_def move_def by auto
  qed
qed

lemma findLoop_finds:
  assumes "covers table" "t < GEOIP_FILE_LINES" "in_range (table ! t) ip"
  shows "left + k = GEOIP_MAX_ITERATION \<Longrightarrow> search_inv k t (unat index) \<Longrightarrow>
    findLoop table ip left (2 ^ (k + 1)) index = Inr t"
proof (induction left arbitrary: k index)
  case (0 k)
  then have "unat index = t" by (simp add: search_inv_def far_def GEOIP_MAX_ITERATION_def)
  with assms show ?case
    by (auto simp: findLoop.simps covers_def in_range_def)
next
  case (Suc left)
  have len: "length table = GEOIP_FILE_LINES" using assms(1) by (simp add: covers_def)
  have i: "unat index < GEOIP_FILE_LINES" "width k \<le> unat index" using Suc.prems(2) by (simp_all add: search_inv_def)
  note side = covers_side [OF assms(1) _ _ assms(3), unfolded len, OF i(1) assms(2)]
  show ?case
  proof (cases "unat index = t")
    case True
    with assms show ?thesis by (auto simp: findLoop.simps len in_range_def)
  next
    case False
    let ?m = "table ! unat index"
    let ?i = "move (t < unat index) (width (Suc k)) (unat index)"
    have s: "search_inv (Suc k) t ?i" by (rule search_inv_step [OF Suc.prems(2) assms(2) False])
    then have u: "unat (of_nat ?i :: u32) = ?i"
      by (simp add: search_inv_def GEOIP_FILE_LINES_def unat_of_nat)
    have "findMove ?m ip (2 ^ (k + 1)) index = (2 ^ (Suc k + 1), of_nat ?i)"
      using findMove_width [of k index ip ?m] Suc.prems(1) i side(1) by simp
    then have "findLoop table ip (Suc left) (2 ^ (k + 1)) index = findLoop table ip left (2 ^ (Suc k + 1)) (of_nat ?i)"
      using False side i(1) by (subst findLoop.simps) (auto simp: len)
    also have "\<dots> = Inr t"
      by (rule Suc.IH) (use Suc.prems(1) s u in simp_all)
    finally show ?thesis .
  qed
qed

text \<open>C35: On a loaded table (2912124 ranges in order, without gaps, covering all addresses) the search
always ends within its 51 turns, never leaves the table, and finds the one range that holds
the address.\<close>

theorem findGeoip_finds_the_range:
  assumes "covers table" "g_lat (table ! (GEOIP_FILE_LINES - 1)) \<noteq> GEOIP_NOT_LOADING" "g_endIp (table ! 0) \<noteq> 0"
  shows "\<exists>t < GEOIP_FILE_LINES. findGeoip table ip = Inr t \<and> in_range (table ! t) ip \<and>
    (\<forall>i < GEOIP_FILE_LINES. in_range (table ! i) ip \<longrightarrow> i = t)"
proof -
  have len: "length table = GEOIP_FILE_LINES" using assms(1) by (simp add: covers_def)
  from covers_target [OF assms(1), of ip] obtain t where t: "t < GEOIP_FILE_LINES" "in_range (table ! t) ip"
    by (auto simp: len)
  have "unat (of_nat GEOIP_FILE_LINES div 2 :: u32) = GEOIP_FILE_LINES div 2"
    by (simp add: GEOIP_FILE_LINES_def)
  then have "findLoop table ip GEOIP_MAX_ITERATION (2 ^ (0 + 1)) (of_nat GEOIP_FILE_LINES div 2) = Inr t"
    using search_inv_start [OF t(1)] by (intro findLoop_finds [OF assms(1) t]) simp_all
  then have "findGeoip table ip = Inr t"
    using assms(2,3) len by (simp add: findGeoip_def) (simp add: GEOIP_FILE_LINES_def)
  moreover have "i = t" if "i < GEOIP_FILE_LINES" "in_range (table ! i) ip" for i
    using covers_side [OF assms(1), of i t ip] t that by (auto simp: len in_range_def not_less)
  ultimately show ?thesis using t by blast
qed

text \<open>Two addresses per range, the last range takes the rest.\<close>

definition sample_geoip :: "nat \<Rightarrow> geoip" where
  "sample_geoip i = \<lparr>g_startIp = of_nat (2 * i),
     g_endIp = (if i + 1 = GEOIP_FILE_LINES then - 1 else of_nat (2 * i + 1)), g_lat = 0, g_lon = 0\<rparr>"

definition sample_table :: "geoip list" where
  "sample_table = map sample_geoip [0..<GEOIP_FILE_LINES]"

lemma sample_table_covers: "covers sample_table"
proof -
  have u: "unat (of_nat i :: u32) = i" if "i < 2 * GEOIP_FILE_LINES" for i
    using that by (simp add: unat_of_nat GEOIP_FILE_LINES_def)
  have len: "length sample_table = GEOIP_FILE_LINES" by (simp add: sample_table_def)
  have pos: "0 < GEOIP_FILE_LINES" by (simp add: GEOIP_FILE_LINES_def)
  have nth: "sample_table ! i = sample_geoip i" if "i < GEOIP_FILE_LINES" for i
    using that by (simp add: sample_table_def)
  have "g_startIp (sample_geoip i) \<le> g_endIp (sample_geoip i)" if "i < GEOIP_FILE_LINES" for i
  proof (cases "i + 1 = GEOIP_FILE_LINES")
    case True
    then show ?thesis by (simp add: sample_geoip_def)
  next
    case False
    then show ?thesis
      using that u [of "2 * i"] u [of "2 * i + 1"]
      by (simp add: sample_geoip_def word_le_nat_alt del: of_nat_mult of_nat_add of_nat_Suc)
  qed
  moreover have "unat (g_startIp (sample_geoip (i + 1))) = unat (g_endIp (sample_geoip i)) + 1"
    if "i + 1 < GEOIP_FILE_LINES" for i
    using that u [of "2 * (i + 1)"] u [of "2 * i + 1"]
    by (simp add: sample_geoip_def del: of_nat_mult of_nat_add of_nat_Suc)
  moreover have "g_endIp (sample_geoip (GEOIP_FILE_LINES - 1)) = - 1" "g_startIp (sample_geoip 0) = 0"
    using pos by (simp_all add: sample_geoip_def)
  ultimately show ?thesis
    unfolding covers_def len using pos nth by (simp add: Suc_lessD)
qed

theorem findGeoip_finds_the_range_witness: "findGeoip sample_table 11 = Inr 5"
proof -
  have nth: "sample_table ! i = sample_geoip i" if "i < GEOIP_FILE_LINES" for i
    using that by (simp add: sample_table_def)
  have "g_lat (sample_table ! (GEOIP_FILE_LINES - 1)) \<noteq> GEOIP_NOT_LOADING"
    using nth [of "GEOIP_FILE_LINES - 1"]
    by (simp add: sample_geoip_def GEOIP_NOT_LOADING_def GEOIP_FILE_LINES_def)
  moreover have "g_endIp (sample_table ! 0) \<noteq> 0"
    using nth [of 0] by (simp add: sample_geoip_def GEOIP_FILE_LINES_def)
  ultimately obtain t where t: "findGeoip sample_table 11 = Inr t"
      "\<forall>i < GEOIP_FILE_LINES. in_range (sample_table ! i) 11 \<longrightarrow> i = t"
    using findGeoip_finds_the_range [OF sample_table_covers, of 11] by blast
  have "5 < GEOIP_FILE_LINES" by (simp add: GEOIP_FILE_LINES_def)
  moreover have "in_range (sample_table ! 5) 11"
    using nth [of 5] by (simp add: in_range_def sample_geoip_def GEOIP_FILE_LINES_def)
  ultimately show ?thesis using t by auto
qed

section \<open>Loading\<close>

text \<open>startIp follows the first cells of the lines.\<close>

lemma loadCells_startIp:
  "loadCells atof position cs (g, s) = Inr (g', s') \<Longrightarrow> 0 < position \<Longrightarrow>
   unat position + length cs < 256 \<Longrightarrow> g_startIp g' = g_startIp g \<and> s' = s"
proof (induction cs arbitrary: position g s)
  case (Cons c cs)
  have "unat position < 255" using Cons.prems(3) by simp
  then have p: "unat (position + 1) = unat position + 1" by (simp add: unat_word_ariths)
  then have ne: "position + 1 \<noteq> GEOIP_POSITION_START_IP_GEOIP"
    using Cons.prems(2) by (auto simp: GEOIP_POSITION_START_IP_GEOIP_def word_less_nat_alt)
  from Cons.prems(1) obtain g1 s1 where s1: "loadCell atof (position + 1) c (g, s) = Inr (g1, s1)"
    "loadCells atof (position + 1) cs (g1, s1) = Inr (g', s')" by (auto simp: bindR_Inr_iff)
  from s1(1) ne have "g_startIp g1 = g_startIp g" "s1 = s" by (auto simp: loadCell_def split: if_splits)
  moreover have "0 < position + 1" using p by (simp add: word_less_nat_alt)
  ultimately show ?case using Cons.IH [OF s1(2)] Cons.prems(3) p by simp
qed simp

lemma loadLine_startIp:
  assumes "loadCells atof 0 cs (g, s) = Inr (g', s')" "cs \<noteq> []" "length cs < 256"
  shows "s \<le> g_startIp g' \<and> s' = g_startIp g' \<and> g_startIp g' = atoi (hd cs)"
proof -
  from assms(1,2) obtain c rest g1 s1 where s1: "cs = c # rest" "loadCell atof 1 c (g, s) = Inr (g1, s1)"
    "loadCells atof 1 rest (g1, s1) = Inr (g', s')" by (cases cs) (auto simp: bindR_Inr_iff)
  have "g_startIp g' = g_startIp g1 \<and> s' = s1"
    by (rule loadCells_startIp [OF s1(3)]) (use assms(3) s1(1) in simp_all)
  with s1(1,2) show ?thesis by (auto simp: loadCell_def GEOIP_POSITION_START_IP_GEOIP_def split: if_splits)
qed

text \<open>A file that is loaded without an exit leaves its lines in the table in their order with
ascending first addresses, touches no entry behind them, and has no more lines than the table
has entries: a line too many is a write outside the table.\<close>

theorem loadGeoip_keeps_order:
  assumes "loadLines atof ls n start table = Inr table'" "\<forall>l \<in> set ls. cells l \<noteq> [] \<and> length (cells l) < 256"
  shows "length table' = length table \<and> (ls = [] \<or> n + length ls \<le> length table) \<and>
    (\<forall>i < length ls. g_startIp (table' ! (n + i)) = atoi (hd (cells (ls ! i)))) \<and>
    sorted (start # map (\<lambda>l. atoi (hd (cells l))) ls) \<and>
    (\<forall>i. i < n \<or> n + length ls \<le> i \<longrightarrow> table' ! i = table ! i)"
  using assms
proof (induction ls arbitrary: n start table)
  case (Cons l ls)
  from Cons.prems obtain g1 s1 where s1: "n < length table" "loadCells atof 0 (cells l) (table ! n, start) = Inr (g1, s1)"
    "loadLines atof ls (n + 1) s1 (table[n := g1]) = Inr table'"
    by (auto simp: bindR_Inr_iff nth_res_def split: if_splits)
  have l: "start \<le> g_startIp g1" "s1 = g_startIp g1" "g_startIp g1 = atoi (hd (cells l))"
    using loadLine_startIp [OF s1(2)] Cons.prems(2) by auto
  note ih = Cons.IH [OF s1(3)]
  have "table' ! n = g1" using ih Cons.prems(2) s1(1) by simp
  then have "g_startIp (table' ! (n + i)) = atoi (hd (cells ((l # ls) ! i)))" if "i < length (l # ls)" for i
    using ih Cons.prems(2) l(3) that by (cases i) auto
  moreover have "table' ! i = table ! i" if "i < n \<or> n + length (l # ls) \<le> i" for i
    using ih Cons.prems(2) that by auto
  moreover have "sorted (start # map (\<lambda>l. atoi (hd (cells l))) (l # ls))"
    using ih Cons.prems(2) l by auto
  ultimately show ?case using ih Cons.prems(2) s1(1) by auto
qed auto

theorem loadGeoip_keeps_order_witness:
  "\<exists>table'. loadLines (\<lambda>_. 0) [[34, 48, 34, 44, 34, 57, 34], [34, 49, 48, 34]] 0 0 [geoip0, geoip0, geoip0] = Inr table' \<and>
     g_startIp (table' ! 1) = 10 \<and> table' ! 2 = geoip0"
proof -
  have c: "cells [34, 48, 34, 44, 34, 57, 34] = [[48], [57]]" "cells [34, 49, 48, 34] = [[49, 48]]"
    by (simp_all add: cells.simps delim_def)
  have a: "atoi [48] = 0" "atoi [57] = 9" "atoi [49, 48] = 10"
    by code_simp+
  obtain table' where t: "loadLines (\<lambda>_. 0) [[34, 48, 34, 44, 34, 57, 34], [34, 49, 48, 34]] 0 0
      [geoip0, geoip0, geoip0] = Inr table'"
    by (simp add: c loadCell_def a GEOIP_POSITION_START_IP_GEOIP_def GEOIP_POSITION_END_IP_GEOIP_def)
  have "\<forall>l \<in> set [[34, 48, 34, 44, 34, 57, 34], [34, 49, 48, 34]]. cells l \<noteq> [] \<and> length (cells l) < 256"
    by (simp add: c)
  note k = loadGeoip_keeps_order [OF t this]
  have "g_startIp (table' ! 1) = 10"
    using k [THEN conjunct2, THEN conjunct2, THEN conjunct1, THEN spec, of 1] by (simp add: c a)
  moreover have "table' ! 2 = geoip0"
    using k [THEN conjunct2, THEN conjunct2, THEN conjunct2, THEN conjunct2, THEN spec, of 2] by simp
  ultimately show ?thesis using t by blast
qed

section \<open>Tables the program searches\<close>

text \<open>
  The table as it is before and during the load (the search answers with the first entry), and
  a loaded one without gaps.
\<close>

definition geoip_ready :: "geoip list \<Rightarrow> bool" where
  "geoip_ready table \<longleftrightarrow> table \<noteq> [] \<and> g_endIp (table ! 0) = 0 \<or>
     length table = GEOIP_FILE_LINES \<and> g_lat (table ! (GEOIP_FILE_LINES - 1)) = GEOIP_NOT_LOADING \<or>
     covers table"

lemma GEOIP_FILE_LINES_pos: "0 < GEOIP_FILE_LINES" "GEOIP_FILE_LINES - 1 < GEOIP_FILE_LINES"
  by (simp_all add: GEOIP_FILE_LINES_def)

lemma findGeoip_ready:
  assumes "geoip_ready table"
  shows "\<exists>i < length table. findGeoip table ip = Inr i"
proof -
  consider (empty) "table \<noteq> []" "g_endIp (table ! 0) = 0"
    | (loading) "length table = GEOIP_FILE_LINES" "g_lat (table ! (GEOIP_FILE_LINES - 1)) = GEOIP_NOT_LOADING"
        "g_endIp (table ! 0) \<noteq> 0"
    | (loaded) "covers table" "length table = GEOIP_FILE_LINES"
        "g_lat (table ! (GEOIP_FILE_LINES - 1)) \<noteq> GEOIP_NOT_LOADING" "g_endIp (table ! 0) \<noteq> 0"
  proof -
    have "table \<noteq> []" if "length table = GEOIP_FILE_LINES" using that GEOIP_FILE_LINES_pos(1) by auto
    moreover have "length table = GEOIP_FILE_LINES" if "covers table" using that by (simp add: covers_def)
    ultimately show thesis using assms empty loading loaded unfolding geoip_ready_def by blast
  qed
  then show ?thesis
  proof cases
    case empty
    then show ?thesis by (intro exI [of _ 0]) (simp add: findGeoip_def nth_res_def)
  next
    case loading
    then show ?thesis
      using GEOIP_FILE_LINES_pos by (intro exI [of _ 0]) (simp add: findGeoip_def nth_res_def)
  next
    case loaded
    from covers_target [OF loaded(1), of ip] obtain t where t: "t < GEOIP_FILE_LINES" "in_range (table ! t) ip"
      by (auto simp: loaded(2))
    have "unat (of_nat GEOIP_FILE_LINES div 2 :: u32) = GEOIP_FILE_LINES div 2"
      by (simp add: GEOIP_FILE_LINES_def)
    then have "findLoop table ip GEOIP_MAX_ITERATION (2 ^ (0 + 1)) (of_nat GEOIP_FILE_LINES div 2) = Inr t"
      using search_inv_start [OF t(1)] by (intro findLoop_finds [OF loaded(1) t]) simp_all
    then have "findGeoip table ip = Inr t"
      using loaded GEOIP_FILE_LINES_pos by (simp add: findGeoip_def nth_res_def)
    with t(1) loaded(2) show ?thesis by auto
  qed
qed

lemma initGeoip_ready: "geoip_ready (initGeoip noLocations)"
  using GEOIP_FILE_LINES_pos by (simp add: geoip_ready_def initGeoip_def geoip0_def nth_list_update)

end
