(* ===== verification/Stats.thy ===== *)
theory Stats
  imports C_Prelude
begin

text \<open>
  The counters of the tracker (stats.h, stats.c). Every atomic counter of struct stats is a
  constructor of stat\_counter and every errno array one of errno\_array, so that the structure
  is a record of three tables. The page that reads it out is in Stats\_Page.
\<close>

definition STATS_ERRNO_MAX_INDEX :: int where "STATS_ERRNO_MAX_INDEX = 256"
definition STATS_MAX_DELAY_BETWEEN_UPDATE_S :: u32 where "STATS_MAX_DELAY_BETWEEN_UPDATE_S = 3667"

datatype stat_counter =
    Http_101 | Http_200 | Http_400 | Http_401 | Http_403 | Http_404 | Http_405 | Http_408
  | Http_413 | Http_507
  | Close_failed | Send_skips | Send_failed | Recv_failed | Recv_failed_read_0
  | Recv_failed_read_sub_0 | Recv_failed_read_not_equal | Accept_failed
  | Close_pass | Send_pass | Recv_pass | Accept_pass
  | Send_failed_udp | Recv_failed_udp | Send_pass_udp | Recv_pass_udp
  | Keep_alive | No_keep_alive
  | Recv_bytes | Sent_bytes | Recv_bytes_udp | Sent_bytes_udp
  | Announce | Scrape | Connect_udp | Announce_udp | Scrape_udp

datatype errno_array =
  Close_errno | Send_errno | Recv_errno | Accept_errno | Send_errno_udp | Recv_errno_udp

record stats =
  st_time :: int
  st_failed :: int
  st_count :: "stat_counter \<Rightarrow> u64"
  st_errno :: "errno_array \<Rightarrow> u64 list"
  st_update_peer :: "u64 list"

text \<open>The structure as main allocates it, all zero but the start time.\<close>

definition stats0 :: "int \<Rightarrow> stats" where
  "stats0 t = \<lparr>st_time = t, st_failed = 0, st_count = (\<lambda>_. 0),
     st_errno = (\<lambda>_. replicate (nat STATS_ERRNO_MAX_INDEX + 1) 0),
     st_update_peer = replicate (unat STATS_MAX_DELAY_BETWEEN_UPDATE_S + 1) 0\<rparr>"

text \<open>The increment of a counter, and the addition of a byte count.\<close>

definition addStat :: "stat_counter \<Rightarrow> u64 \<Rightarrow> stats \<Rightarrow> stats" where
  "addStat c n st = st\<lparr>st_count := (st_count st)(c := st_count st c + n)\<rparr>"

definition incStat :: "stat_counter \<Rightarrow> stats \<Rightarrow> stats" where
  "incStat c = addStat c 1"

text \<open>An increment at an index of an array.\<close>

definition incAt :: "int \<Rightarrow> u64 list \<Rightarrow> u64 list res" where
  "incAt i xs =
     (if 0 \<le> i \<and> i < int (length xs) then Inr (xs[nat i := xs ! nat i + 1]) else Inl Out_of_bounds)"

definition incErrno :: "int \<Rightarrow> u64 list \<Rightarrow> u64 list res" where
  "incErrno errno statErrno =
     incAt (if errno > STATS_ERRNO_MAX_INDEX then STATS_ERRNO_MAX_INDEX else errno) statErrno"

definition incErrnoOf :: "errno_array \<Rightarrow> int \<Rightarrow> stats \<Rightarrow> stats res" where
  "incErrnoOf a errno st =
     bindR (incErrno errno (st_errno st a)) (\<lambda>xs. Inr (st\<lparr>st_errno := (st_errno st)(a := xs)\<rparr>))"

definition updatePeerStat :: "stats \<Rightarrow> u32 \<Rightarrow> stats res" where
  "updatePeerStat st delay =
     bindR (incAt (uint (if delay \<ge> STATS_MAX_DELAY_BETWEEN_UPDATE_S then 0 else delay)) (st_update_peer st))
       (\<lambda>xs. Inr (st\<lparr>st_update_peer := xs\<rparr>))"

section \<open>No write outside an array\<close>

definition wf_stats :: "stats \<Rightarrow> bool" where
  "wf_stats st \<longleftrightarrow> length (st_update_peer st) = unat STATS_MAX_DELAY_BETWEEN_UPDATE_S + 1 \<and>
     (\<forall>a. length (st_errno st a) = nat STATS_ERRNO_MAX_INDEX + 1)"

lemma wf_stats0: "wf_stats (stats0 t)"
  by (simp add: wf_stats_def stats0_def)

lemma wf_addStat [simp]: "wf_stats (addStat c n st) = wf_stats st" "wf_stats (incStat c st) = wf_stats st"
  by (simp_all add: wf_stats_def addStat_def incStat_def)

lemma updatePeerStat_ok:
  assumes "wf_stats st"
  obtains xs where "updatePeerStat st d = Inr (st\<lparr>st_update_peer := xs\<rparr>)"
    "wf_stats (st\<lparr>st_update_peer := xs\<rparr>)"
proof -
  let ?d = "if d \<ge> STATS_MAX_DELAY_BETWEEN_UPDATE_S then 0 else d"
  have "uint ?d < int (length (st_update_peer st))"
    using assms by (auto simp: wf_stats_def STATS_MAX_DELAY_BETWEEN_UPDATE_S_def word_le_def)
  then have "updatePeerStat st d = Inr (st\<lparr>st_update_peer :=
      (st_update_peer st)[nat (uint ?d) := st_update_peer st ! nat (uint ?d) + 1]\<rparr>)"
    unfolding updatePeerStat_def incAt_def by simp
  with assms show thesis by (intro that) (auto simp: wf_stats_def)
qed

lemma incErrnoOf_ok:
  assumes "wf_stats st" "0 \<le> e"
  obtains xs where "incErrnoOf a e st = Inr (st\<lparr>st_errno := (st_errno st)(a := xs)\<rparr>)"
    "wf_stats (st\<lparr>st_errno := (st_errno st)(a := xs)\<rparr>)"
proof -
  let ?e = "if e > STATS_ERRNO_MAX_INDEX then STATS_ERRNO_MAX_INDEX else e"
  have "0 \<le> ?e" "?e < int (length (st_errno st a))"
    using assms by (auto simp: wf_stats_def STATS_ERRNO_MAX_INDEX_def)
  then have "incErrnoOf a e st = Inr (st\<lparr>st_errno := (st_errno st)(a :=
      (st_errno st a)[nat ?e := st_errno st a ! nat ?e + 1])\<rparr>)"
    by (simp only: incErrnoOf_def incErrno_def incAt_def) simp
  with assms show thesis by (intro that) (auto simp: wf_stats_def)
qed

end
