(* ===== verification/Uri.thy ===== *)
theory Uri
  imports C_Prelude
begin

text \<open>
  The request line of an HTTP request (uri.h, uri.c): the query structure, the parser of the
  URI with its percent decoding into fixed buffers, the parameters it knows, and the address
  taken from an X-Forwarded-For header. inet\_pton is a function of the system and an argument
  of the model.
\<close>

section \<open>struct query\<close>

definition URI_EVENT_ID_NONE :: byte where "URI_EVENT_ID_NONE = 0"
definition URI_EVENT_ID_COMPLETED :: byte where "URI_EVENT_ID_COMPLETED = 1"
definition URI_EVENT_ID_STARTED :: byte where "URI_EVENT_ID_STARTED = 2"
definition URI_EVENT_ID_STOPPED :: byte where "URI_EVENT_ID_STOPPED = 3"
definition URI_EVENT_ID_PAUSED :: byte where "URI_EVENT_ID_PAUSED = 4"
definition URI_EVENT_ID_CONTINUE :: byte where "URI_EVENT_ID_CONTINUE = 5"
definition URI_PARAM_VALUE_LENGTH :: nat where "URI_PARAM_VALUE_LENGTH = 20"
definition URI_DEFAULT_NUM_WANT :: u32 where "URI_DEFAULT_NUM_WANT = 50"
definition URI_PATH_LENGTH :: nat where "URI_PATH_LENGTH = 200"
definition URI_QUERY_PROTOCOL_TCP :: byte where "URI_QUERY_PROTOCOL_TCP = 0"
definition URI_QUERY_PROTOCOL_UDP :: byte where "URI_QUERY_PROTOCOL_UDP = 1"
definition SOCKET_VERSION_IPV4_BIT :: byte where "SOCKET_VERSION_IPV4_BIT = 1"
definition SOCKET_VERSION_IPV6_BIT :: byte where "SOCKET_VERSION_IPV6_BIT = 2"

lemmas event_defs = URI_EVENT_ID_NONE_def URI_EVENT_ID_COMPLETED_def URI_EVENT_ID_STARTED_def
  URI_EVENT_ID_STOPPED_def URI_EVENT_ID_PAUSED_def URI_EVENT_ID_CONTINUE_def

text \<open>
  The path is the string the char array holds; info\_hash, peer\_id and ip are the bytes of the
  arrays; xForwardedFor is the configured header name, None for NULL.
\<close>

record query =
  q_path :: bytes
  q_has_info_hash :: byte
  q_info_hash :: bytes
  q_event :: byte
  q_port :: u16
  q_ip :: bytes
  q_peer_id :: bytes
  q_protocol :: byte
  q_compact :: bool
  q_no_peer_id :: bool
  q_numwant :: u32
  q_threadNumber :: int
  q_transaction_id :: u32
  q_interval :: u32
  q_max_peers_per_response :: u32
  q_socket_timeout :: u16
  q_keep_alive :: byte
  q_ipVersion :: byte
  q_xForwardedFor :: "bytes option"

text \<open>The structure as \<open>{}\<close> initialises it.\<close>

definition query0 :: query where
  "query0 = \<lparr>q_path = [], q_has_info_hash = 0, q_info_hash = replicate 20 0, q_event = 0,
     q_port = 0, q_ip = replicate 16 0, q_peer_id = replicate 20 0, q_protocol = 0,
     q_compact = False, q_no_peer_id = False, q_numwant = 0, q_threadNumber = 0,
     q_transaction_id = 0, q_interval = 0, q_max_peers_per_response = 0, q_socket_timeout = 0,
     q_keep_alive = 0, q_ipVersion = 0, q_xForwardedFor = None\<rparr>"

section \<open>getParam\<close>

text \<open>
  The value is the 21-byte buffer of parseUri. The block collects the hashes of a scrape; None
  is a NULL block.
\<close>

definition getParam :: "query \<Rightarrow> bytes option \<Rightarrow> bytes \<Rightarrow> bytes \<Rightarrow> query \<times> bytes option" where
  "getParam q block param value =
     (if strcmp_eq param (lit ''info_hash'') then
        (let h = take URI_PARAM_VALUE_LENGTH value in
         (q\<lparr>q_info_hash := h, q_has_info_hash := 1\<rparr>,
          case block of None \<Rightarrow> None | Some b \<Rightarrow> Some (b @ h)))
      else if strcmp_eq param (lit ''event'') then
        (if strcmp_eq value (lit ''completed'') then q\<lparr>q_event := URI_EVENT_ID_COMPLETED\<rparr>
         else if strcmp_eq value (lit ''started'') then q\<lparr>q_event := URI_EVENT_ID_STARTED\<rparr>
         else if strcmp_eq value (lit ''stopped'') then q\<lparr>q_event := URI_EVENT_ID_STOPPED\<rparr>
         else if strcmp_eq value (lit ''paused'') then q\<lparr>q_event := URI_EVENT_ID_PAUSED\<rparr>
         else q\<lparr>q_event := URI_EVENT_ID_CONTINUE\<rparr>, block)
      else if strcmp_eq param (lit ''port'') then (q\<lparr>q_port := htons (ucast (atoi value))\<rparr>, block)
      else if strcmp_eq param (lit ''peer_id'') then
        (q\<lparr>q_peer_id := take URI_PARAM_VALUE_LENGTH value\<rparr>, block)
      else if strcmp_eq param (lit ''compact'') then (q\<lparr>q_compact := (atoi value \<noteq> 0)\<rparr>, block)
      else if strcmp_eq param (lit ''no_peer_id'') then (q\<lparr>q_no_peer_id := True\<rparr>, block)
      else if strcmp_eq param (lit ''numwant'') then (q\<lparr>q_numwant := atoi value\<rparr>, block)
      else if strcmp_eq param (lit ''interval'') then (q\<lparr>q_interval := atoi value\<rparr>, block)
      else if strcmp_eq param (lit ''max_peers_response'') then
        (q\<lparr>q_max_peers_per_response := atoi value\<rparr>, block)
      else if strcmp_eq param (lit ''socket_timeout'') then
        (q\<lparr>q_socket_timeout := ucast (atoi value)\<rparr>, block)
      else if strcmp_eq param (lit ''keep_alive'') then (q\<lparr>q_keep_alive := ucast (atoi value)\<rparr>, block)
      else (q, block))"

section \<open>parseUri\<close>

datatype uri_status = URI_STATUS_PATH | URI_STATUS_PARAM | URI_STATUS_VALUE

text \<open>
  The local variables of parseUri. param is the string the buffer holds (its 21st byte is
  never written), value the whole buffer, u\_pc the three bytes of percentChars.
\<close>

record uri_state =
  u_query :: query
  u_block :: "bytes option"
  u_param :: bytes
  u_value :: bytes
  u_status :: uri_status
  u_len :: nat
  u_percent :: nat
  u_pc :: bytes

definition uri_state0 :: "query \<Rightarrow> bytes option \<Rightarrow> uri_state" where
  "uri_state0 q block = \<lparr>u_query = q, u_block = block, u_param = [], u_value = replicate 21 0,
     u_status = URI_STATUS_PATH, u_len = 0, u_percent = 0, u_pc = [0, 0, 0]\<rparr>"

definition callGetParam :: "uri_state \<Rightarrow> uri_state" where
  "callGetParam s =
     (case getParam (u_query s) (u_block s) (u_param s) (u_value s) of (q, b) \<Rightarrow>
        s\<lparr>u_query := q, u_block := b\<rparr>)"

text \<open>memset of the first 20 bytes of value.\<close>

definition clearValue :: "bytes \<Rightarrow> bytes" where
  "clearValue v = replicate URI_PARAM_VALUE_LENGTH 0 @ drop URI_PARAM_VALUE_LENGTH v"

text \<open>The body of the value state when len is below 20.\<close>

definition uriValueChar :: "byte \<Rightarrow> uri_state \<Rightarrow> uri_state" where
  "uriValueChar current s =
     (if current = 37 then s\<lparr>u_percent := 1\<rparr>
      else if u_percent s = 1 then s\<lparr>u_pc := (u_pc s)[0 := current], u_percent := 2\<rparr>
      else if u_percent s = 2 then
        (let pc = (u_pc s)[1 := current] in
         s\<lparr>u_percent := 0, u_pc := pc,
           u_value := (u_value s)[u_len s := of_int (strtol pc 16)], u_len := u_len s + 1\<rparr>)
      else s\<lparr>u_value := (u_value s)[u_len s := current], u_len := u_len s + 1\<rparr>)"

text \<open>One turn of the loop for a character that is not the space that ends the URI.\<close>

definition uriChar :: "byte \<Rightarrow> uri_state \<Rightarrow> uri_state" where
  "uriChar current s =
     (if u_status s = URI_STATUS_PATH then
        (if current = 63 then s\<lparr>u_status := URI_STATUS_PARAM\<rparr>
         else (let len = length (q_path (u_query s)); s1 = s\<lparr>u_len := len\<rparr> in
               if len < URI_PATH_LENGTH \<and> (len \<noteq> 0 \<or> current \<noteq> 47)
               then s1\<lparr>u_query := (u_query s)\<lparr>q_path := q_path (u_query s) @ [current]\<rparr>\<rparr>
               else s1))
      else if current = 61 then
        s\<lparr>u_value := clearValue (u_value s), u_status := URI_STATUS_VALUE, u_len := 0\<rparr>
      else if current = 38 then
        (callGetParam s)\<lparr>u_param := [], u_status := URI_STATUS_PARAM\<rparr>
      else if u_status s = URI_STATUS_PARAM then
        (let len = length (u_param s); s1 = s\<lparr>u_len := len\<rparr> in
         if len < URI_PARAM_VALUE_LENGTH then s1\<lparr>u_param := u_param s @ [current]\<rparr> else s1)
      else if u_len s < URI_PARAM_VALUE_LENGTH then uriValueChar current s
      else s)"

fun uriLoop :: "uri_state \<Rightarrow> bytes \<Rightarrow> uri_state" where
  "uriLoop s [] = s"
| "uriLoop s (c # r) = (if c = 32 then callGetParam s else uriLoop (uriChar c s) r)"

section \<open>parseXForwardedFor\<close>

text \<open>The loop that keeps the last token of the header's value.\<close>

fun forwardedLoop :: "bool \<Rightarrow> bytes \<Rightarrow> bytes \<Rightarrow> bytes" where
  "forwardedLoop nice blk [] = blk"
| "forwardedLoop nice blk (c # r) =
     (if c = 32 \<or> c = 44 then forwardedLoop False blk r
      else forwardedLoop True ((if nice then blk else []) @ [c]) r)"

text \<open>
  The bounds of the value of the header, as offsets in the message: the checks of
  parseXForwardedFor up to the loop, in their order. None is an early return; a missing end of
  headers is a NULL pointer, which compares below every other.
\<close>

definition CRLF :: bytes where "CRLF = [13, 10]"

definition forwardedBounds :: "bytes \<Rightarrow> bytes \<Rightarrow> (nat \<times> nat) option" where
  "forwardedBounds message xff =
     (let m = cstr message in
      case strstr m CRLF of None \<Rightarrow> None | Some endOfFirstLine \<Rightarrow>
      case strstr m xff of None \<Rightarrow> None | Some hdr \<Rightarrow>
      if hdr < endOfFirstLine then None else
      case strstr m (CRLF @ CRLF) of None \<Rightarrow> None | Some endOfHeaders \<Rightarrow>
      if endOfHeaders < hdr then None else
      case strstr (drop hdr m) [58] of None \<Rightarrow> None | Some colon \<Rightarrow>
      case strstr (drop hdr m) CRLF of None \<Rightarrow> None | Some eol \<Rightarrow>
      if hdr + eol < hdr + colon + 1 then None
      else Some (hdr + colon + 1, hdr + eol))"

text \<open>
  pton af6 s is inet\_pton for AF\_INET6 (af6) or AF\_INET: its return value and the first 16
  bytes of the zero-initialised buffer ip after the call.
\<close>

definition forwardedAddress ::
  "(bool \<Rightarrow> bytes \<Rightarrow> int \<times> bytes) \<Rightarrow> query \<Rightarrow> bytes \<Rightarrow> query \<times> bytes" where
  "forwardedAddress pton q token =
     (if strstr token [58] = None then
        (case pton False token of (r, ip) \<Rightarrow>
           if r < 0 then (q, [])
           else if take 4 ip \<noteq> [0, 0, 0, 0] then
             (let b = replicate 10 0 @ [255, 255] @ take 4 ip in
              (q\<lparr>q_ip := b, q_ipVersion := SOCKET_VERSION_IPV4_BIT\<rparr>, b))
           else (q, []))
      else
        (case pton True token of (r, ip) \<Rightarrow>
           if r < 0 then (q, [])
           else (q\<lparr>q_ip := take 16 ip, q_ipVersion := SOCKET_VERSION_IPV6_BIT\<rparr>, take 16 ip)))"

definition parseXForwardedFor ::
  "(bool \<Rightarrow> bytes \<Rightarrow> int \<times> bytes) \<Rightarrow> query \<Rightarrow> bytes \<Rightarrow> bytes option \<Rightarrow> query \<times> bytes option" where
  "parseXForwardedFor pton q message block =
     (case block of None \<Rightarrow> (q, None) | Some b \<Rightarrow>
      case q_xForwardedFor q of None \<Rightarrow> (q, block) | Some xff \<Rightarrow>
      case forwardedBounds message xff of None \<Rightarrow> (q, block) | Some (start, stop) \<Rightarrow>
        (let token = forwardedLoop False [] (take (stop - start) (drop start message));
             (q', b') = forwardedAddress pton q token
         in (q', Some b')))"

definition parseUri ::
  "(bool \<Rightarrow> bytes \<Rightarrow> int \<times> bytes) \<Rightarrow> query \<Rightarrow> bytes option \<Rightarrow> bytes option \<Rightarrow> bytes
   \<Rightarrow> query \<times> bytes option \<times> bytes option" where
  "parseUri pton q hashesBlock forwardedForBlock message =
     (let s = uriLoop (uri_state0 q hashesBlock) (drop 4 (cstr message));
          (q', fb) = parseXForwardedFor pton (u_query s) message forwardedForBlock
      in (q', u_block s, fb))"

section \<open>The bounds of the parser\<close>

text \<open>What holds between two characters: no index is outside its buffer.\<close>

definition uri_inv :: "uri_state \<Rightarrow> bool" where
  "uri_inv s \<longleftrightarrow>
     length (q_path (u_query s)) \<le> URI_PATH_LENGTH \<and>
     length (q_info_hash (u_query s)) = URI_PARAM_VALUE_LENGTH \<and>
     length (q_peer_id (u_query s)) = URI_PARAM_VALUE_LENGTH \<and>
     length (q_ip (u_query s)) = 16 \<and>
     length (u_param s) \<le> URI_PARAM_VALUE_LENGTH \<and>
     length (u_value s) = URI_PARAM_VALUE_LENGTH + 1 \<and>
     length (u_pc s) = 3 \<and>
     (case u_block s of None \<Rightarrow> True | Some b \<Rightarrow> URI_PARAM_VALUE_LENGTH dvd length b)"

lemma getParam_inv:
  assumes "getParam q b p v = (q', b')" "length v = URI_PARAM_VALUE_LENGTH + 1"
    "length (q_path q) \<le> URI_PATH_LENGTH" "length (q_info_hash q) = URI_PARAM_VALUE_LENGTH"
    "length (q_peer_id q) = URI_PARAM_VALUE_LENGTH"
    "case b of None \<Rightarrow> True | Some b \<Rightarrow> URI_PARAM_VALUE_LENGTH dvd length b"
  shows "length (q_path q') \<le> URI_PATH_LENGTH \<and> length (q_info_hash q') = URI_PARAM_VALUE_LENGTH \<and>
    length (q_peer_id q') = URI_PARAM_VALUE_LENGTH \<and>
    (case b' of None \<Rightarrow> True | Some b \<Rightarrow> URI_PARAM_VALUE_LENGTH dvd length b) \<and>
    q_ip q' = q_ip q \<and> q_xForwardedFor q' = q_xForwardedFor q \<and> q_ipVersion q' = q_ipVersion q"
  using assms unfolding getParam_def Let_def
  by (auto split: if_splits option.splits)

lemma callGetParam_inv: "uri_inv s \<Longrightarrow> uri_inv (callGetParam s)"
  unfolding uri_inv_def callGetParam_def
  by (auto split: prod.splits dest!: getParam_inv)

lemma uriValueChar_inv: "uri_inv s \<Longrightarrow> uri_inv (uriValueChar c s)"
  by (auto simp: uri_inv_def uriValueChar_def Let_def split: option.splits)

lemma uriChar_inv: "uri_inv s \<Longrightarrow> uri_inv (uriChar c s)"
proof -
  assume s: "uri_inv s"
  have "uri_inv ((callGetParam s)\<lparr>u_param := [], u_status := URI_STATUS_PARAM\<rparr>)"
    using callGetParam_inv [OF s] by (simp add: uri_inv_def)
  with s uriValueChar_inv [OF s, of c] show ?thesis
    by (auto simp: uriChar_def uri_inv_def clearValue_def Let_def split: option.splits)
qed

lemma uriLoop_inv: "uri_inv s \<Longrightarrow> uri_inv (uriLoop s m)"
  by (induction s m rule: uriLoop.induct) (auto simp: uriChar_inv callGetParam_inv)

lemma uriLoop_append:
  "32 \<notin> set a \<Longrightarrow> uriLoop s (a @ b) = uriLoop (uriLoop s a) b"
  by (induction a arbitrary: s) auto

section \<open>The last token of the header's value\<close>

definition is_sep :: "byte \<Rightarrow> bool" where
  "is_sep c \<longleftrightarrow> c = 32 \<or> c = 44"

definition last_token :: "bytes \<Rightarrow> bytes" where
  "last_token v = rev (takeWhile (Not \<circ> is_sep) (dropWhile is_sep (rev v)))"

text \<open>The loop as a fold over the characters, and what it keeps.\<close>

definition forwardedStep :: "bool \<times> bytes \<Rightarrow> byte \<Rightarrow> bool \<times> bytes" where
  "forwardedStep s c = (if is_sep c then (False, snd s) else (True, (if fst s then snd s else []) @ [c]))"

lemma forwardedLoop_fold: "forwardedLoop nice blk v = snd (foldl forwardedStep (nice, blk) v)"
  by (induction nice blk v rule: forwardedLoop.induct) (auto simp: forwardedStep_def is_sep_def)

lemma last_token_snoc:
  "last_token (v @ [c]) =
     (if is_sep c then last_token v
      else (if v \<noteq> [] \<and> \<not> is_sep (last v) then last_token v else []) @ [c])"
proof (cases "rev v")
  case Nil
  then show ?thesis by (simp add: last_token_def)
next
  case (Cons a as)
  then have v: "v = rev as @ [a]" by (simp add: rev_eq_Cons_iff)
  then have "last v = a" "v \<noteq> []" by simp_all
  with Cons show ?thesis by (auto simp: last_token_def)
qed

lemma forwardedLoop_last_token: "forwardedLoop False [] v = last_token v"
proof -
  have "foldl forwardedStep (False, []) v = (v \<noteq> [] \<and> \<not> is_sep (last v), last_token v)"
  proof (induction v rule: rev_induct)
    case Nil
    then show ?case by (simp add: last_token_def)
  next
    case (snoc c v)
    then show ?case by (auto simp: forwardedStep_def last_token_snoc)
  qed
  then show ?thesis by (simp add: forwardedLoop_fold)
qed

section \<open>Percent encoding\<close>

definition hexdig :: "nat \<Rightarrow> byte" where
  "hexdig n = (if n < 10 then of_nat (48 + n) else of_nat (55 + n))"

definition pct :: "byte \<Rightarrow> bytes" where
  "pct b = [37, hexdig (unat b div 16), hexdig (unat b mod 16)]"

text \<open>An encoder that writes the bytes of P raw and the others as a percent triple.\<close>

definition encodeValue :: "(byte \<Rightarrow> bool) \<Rightarrow> bytes \<Rightarrow> bytes" where
  "encodeValue P h = concat (map (\<lambda>b. if P b then [b] else pct b) h)"

lemma hexdig_facts:
  assumes "n < 16"
  shows "digit_val (hexdig n) = Some n" "\<not> isspace (hexdig n)"
    "hexdig n \<notin> {0, 32, 37, 38, 43, 45, 61}"
proof -
  have "\<forall>n < 16. digit_val (hexdig n) = Some n \<and> \<not> isspace (hexdig n) \<and>
    hexdig n \<notin> {0, 32, 37, 38, 43, 45, 61}"
    by code_simp
  with assms show "digit_val (hexdig n) = Some n" "\<not> isspace (hexdig n)"
    "hexdig n \<notin> {0, 32, 37, 38, 43, 45, 61}" by auto
qed

lemma saturate_long_id: "n < 256 \<Longrightarrow> saturate_long (int n) = int n"
  by (simp add: saturate_long_def)

lemma strtol_pct: "of_int (strtol [hexdig (unat b div 16), hexdig (unat b mod 16), 0] 16) = (b :: byte)"
proof -
  let ?x = "unat b div 16" and ?y = "unat b mod 16"
  have "unat b < 256" by simp
  then have x: "?x < 16" by (simp add: div_less_iff_less_mult)
  have y: "?y < 16" by simp
  note f = hexdig_facts [OF x] hexdig_facts [OF y]
  have "cstr [hexdig ?x, hexdig ?y, 0] = [hexdig ?x, hexdig ?y]"
    using f(3,6) by (simp add: cstr_def)
  moreover have "digits_val 16 0 [hexdig ?x, hexdig ?y] = ?x * 16 + ?y"
    using f(1,4) x y by simp
  ultimately have "strtol [hexdig ?x, hexdig ?y, 0] 16 = saturate_long (int (unat b))"
    using f(2,3) by (simp add: strtol_def skip_0x_def Let_def div_mult_mod_eq)
  also have "\<dots> = int (unat b)" using \<open>unat b < 256\<close>
    by (rule saturate_long_id)
  finally show ?thesis by simp
qed


lemma uriValueChar_pct:
  assumes "u_percent s = 0" "length (u_pc s) = 3" "u_pc s ! 2 = 0" "u_status s = URI_STATUS_VALUE"
    "u_len s < URI_PARAM_VALUE_LENGTH"
  shows "\<exists>pc. length pc = 3 \<and> pc ! 2 = 0 \<and> uriLoop s (pct b @ r) =
    uriLoop (s\<lparr>u_pc := pc, u_value := (u_value s)[u_len s := b], u_len := u_len s + 1\<rparr>) r"
proof -
  let ?x = "hexdig (unat b div 16)" and ?y = "hexdig (unat b mod 16)"
  have "unat b div 16 < 16" by (simp add: div_less_iff_less_mult)
  note hx = hexdig_facts(3) [OF this]
  have "unat b mod 16 < 16" by simp
  note hy = hexdig_facts(3) [OF this]
  obtain p0 p1 where pc: "u_pc s = [p0, p1, 0]"
    using assms(2,3) by (auto simp: length_Suc_conv eval_nat_numeral)
  show ?thesis
    by (rule exI [of _ "[?x, ?y, 0]"])
      (use assms hx hy pc strtol_pct [of b] in
        \<open>cases s; simp add: pct_def uriChar_def uriValueChar_def Let_def\<close>)
qed

definition raw_ok :: "(byte \<Rightarrow> bool) \<Rightarrow> bool" where
  "raw_ok P \<longleftrightarrow> (\<forall>b \<in> {0, 32, 37, 38, 61}. \<not> P b)"

lemma uriLoop_encodeValue:
  assumes "raw_ok P" "u_percent s = 0" "length (u_pc s) = 3" "u_pc s ! 2 = 0"
    "u_status s = URI_STATUS_VALUE" "length (u_value s) = URI_PARAM_VALUE_LENGTH + 1"
    "u_len s + length h \<le> URI_PARAM_VALUE_LENGTH"
  shows "\<exists>pc. length pc = 3 \<and> pc ! 2 = 0 \<and> uriLoop s (encodeValue P h @ r) =
    uriLoop (s\<lparr>u_pc := pc,
      u_value := take (u_len s) (u_value s) @ h @ drop (u_len s + length h) (u_value s),
      u_len := u_len s + length h\<rparr>) r"
  using assms(2-)
proof (induction h arbitrary: s)
  case Nil
  then show ?case by (intro exI [of _ "u_pc s"]) (simp add: encodeValue_def)
next
  case (Cons b h)
  have step: "\<exists>pc. length pc = 3 \<and> pc ! 2 = 0 \<and> uriLoop s (encodeValue P (b # h) @ r) =
    uriLoop (s\<lparr>u_pc := pc, u_value := (u_value s)[u_len s := b], u_len := u_len s + 1\<rparr>)
      (encodeValue P h @ r)"
  proof (cases "P b")
    case True
    then have "b \<notin> {0, 32, 37, 38, 61}" using assms(1) by (auto simp: raw_ok_def)
    then show ?thesis
      by (intro exI [of _ "u_pc s"])
        (use Cons.prems True in \<open>simp add: encodeValue_def uriChar_def uriValueChar_def Let_def\<close>)
  next
    case False
    with uriValueChar_pct [of s b "encodeValue P h @ r"] Cons.prems show ?thesis
      by (auto simp: encodeValue_def)
  qed
  then obtain pc where pc: "length pc = 3" "pc ! 2 = 0" "uriLoop s (encodeValue P (b # h) @ r) =
    uriLoop (s\<lparr>u_pc := pc, u_value := (u_value s)[u_len s := b], u_len := u_len s + 1\<rparr>)
      (encodeValue P h @ r)" by blast
  let ?s = "s\<lparr>u_pc := pc, u_value := (u_value s)[u_len s := b], u_len := u_len s + 1\<rparr>"
  have val: "take (u_len ?s) (u_value ?s) @ h @ drop (u_len ?s + length h) (u_value ?s) =
    take (u_len s) (u_value s) @ (b # h) @ drop (u_len s + length (b # h)) (u_value s)"
    using Cons.prems by (simp add: upd_conv_take_nth_drop ac_simps)
  have "\<exists>pc. length pc = 3 \<and> pc ! 2 = 0 \<and> uriLoop ?s (encodeValue P h @ r) =
    uriLoop (?s\<lparr>u_pc := pc,
      u_value := take (u_len ?s) (u_value ?s) @ h @ drop (u_len ?s + length h) (u_value ?s),
      u_len := u_len ?s + length h\<rparr>) r"
    by (rule Cons.IH) (use Cons.prems pc in auto)
  then show ?case unfolding pc(3) val by (auto simp: add.commute)
qed


lemma cstr_Cons: "c \<noteq> 0 \<Longrightarrow> cstr (c # r) = c # cstr r"
  by (simp add: cstr_def)

lemma uriLoop_path:
  assumes "u_status s = URI_STATUS_PATH" "{32, 63} \<inter> set p = {}"
    "length (q_path (u_query s)) + length p \<le> URI_PATH_LENGTH"
    "q_path (u_query s) \<noteq> [] \<or> take 1 p \<noteq> [47]"
  shows "\<exists>n. uriLoop s (p @ r) =
    uriLoop (s\<lparr>u_query := (u_query s)\<lparr>q_path := q_path (u_query s) @ p\<rparr>, u_len := n\<rparr>) r"
  using assms
proof (induction p arbitrary: s)
  case Nil
  then show ?case by (intro exI [of _ "u_len s"]) simp
next
  case (Cons c p)
  let ?s = "s\<lparr>u_query := (u_query s)\<lparr>q_path := q_path (u_query s) @ [c]\<rparr>,
    u_len := length (q_path (u_query s))\<rparr>"
  have "uriChar c s = ?s"
    using Cons.prems by (cases s) (auto simp: uriChar_def Let_def)
  moreover have "\<exists>n. uriLoop ?s (p @ r) =
    uriLoop (?s\<lparr>u_query := (u_query ?s)\<lparr>q_path := q_path (u_query ?s) @ p\<rparr>, u_len := n\<rparr>) r"
    by (rule Cons.IH) (use Cons.prems in auto)
  ultimately show ?case using Cons.prems by auto
qed

lemma uriLoop_param:
  assumes "u_status s = URI_STATUS_PARAM" "{32, 38, 61} \<inter> set p = {}"
    "length (u_param s) + length p \<le> URI_PARAM_VALUE_LENGTH"
  shows "\<exists>n. uriLoop s (p @ r) = uriLoop (s\<lparr>u_param := u_param s @ p, u_len := n\<rparr>) r"
  using assms
proof (induction p arbitrary: s)
  case Nil
  then show ?case by (intro exI [of _ "u_len s"]) simp
next
  case (Cons c p)
  let ?s = "s\<lparr>u_param := u_param s @ [c], u_len := length (u_param s)\<rparr>"
  have "uriChar c s = ?s"
    using Cons.prems by (cases s) (auto simp: uriChar_def Let_def)
  moreover have "\<exists>n. uriLoop ?s (p @ r) = uriLoop (?s\<lparr>u_param := u_param ?s @ p, u_len := n\<rparr>) r"
    by (rule Cons.IH) (use Cons.prems in auto)
  ultimately show ?case using Cons.prems by auto
qed

text \<open>One parameter of a URI, from its name to the last byte of its value.\<close>

lemma uriLoop_parameter:
  assumes "raw_ok P" "u_status s = URI_STATUS_PARAM" "u_param s = []" "u_percent s = 0"
    "length (u_pc s) = 3" "u_pc s ! 2 = 0" "length (u_value s) = URI_PARAM_VALUE_LENGTH + 1"
    "{32, 38, 61} \<inter> set name = {}" "length name \<le> URI_PARAM_VALUE_LENGTH"
    "length h \<le> URI_PARAM_VALUE_LENGTH"
  shows "\<exists>pc. length pc = 3 \<and> pc ! 2 = 0 \<and> uriLoop s (name @ [61] @ encodeValue P h @ r) =
    uriLoop (s\<lparr>u_param := name, u_status := URI_STATUS_VALUE, u_pc := pc, u_len := length h,
      u_value := h @ replicate (URI_PARAM_VALUE_LENGTH - length h) 0
        @ drop URI_PARAM_VALUE_LENGTH (u_value s)\<rparr>) r"
proof -
  obtain n where n: "uriLoop s (name @ [61] @ encodeValue P h @ r) =
      uriLoop (s\<lparr>u_param := name, u_len := n\<rparr>) ([61] @ encodeValue P h @ r)"
    using uriLoop_param [OF assms(2,8), of "[61] @ encodeValue P h @ r"] assms(3,9) by auto
  let ?s = "s\<lparr>u_param := name, u_len := 0, u_value := clearValue (u_value s), u_status := URI_STATUS_VALUE\<rparr>"
  have e: "uriLoop (s\<lparr>u_param := name, u_len := n\<rparr>) ([61] @ encodeValue P h @ r) =
      uriLoop ?s (encodeValue P h @ r)"
    using assms(2) by (cases s) (simp add: uriChar_def)
  have "\<exists>pc. length pc = 3 \<and> pc ! 2 = 0 \<and> uriLoop ?s (encodeValue P h @ r) =
      uriLoop (?s\<lparr>u_pc := pc,
        u_value := take (u_len ?s) (u_value ?s) @ h @ drop (u_len ?s + length h) (u_value ?s),
        u_len := u_len ?s + length h\<rparr>) r"
    by (rule uriLoop_encodeValue) (use assms in \<open>auto simp: clearValue_def\<close>)
  then obtain pc where pc: "length pc = 3" "pc ! 2 = 0" "uriLoop ?s (encodeValue P h @ r) =
      uriLoop (?s\<lparr>u_pc := pc,
        u_value := take (u_len ?s) (u_value ?s) @ h @ drop (u_len ?s + length h) (u_value ?s),
        u_len := u_len ?s + length h\<rparr>) r" by blast
  show ?thesis
    by (rule exI [of _ pc], unfold n e pc(3)) (use pc assms(10) in \<open>cases s; simp add: clearValue_def\<close>)
qed

section \<open>Properties\<close>

lemma cstr_encodeValue: "raw_ok P \<Longrightarrow> 0 \<notin> set (encodeValue P h)"
proof -
  assume P: "raw_ok P"
  have "0 \<notin> set (pct b)" for b
    using hexdig_facts(3) [of "unat b div 16"] hexdig_facts(3) [of "unat b mod 16"]
    by (simp add: pct_def div_less_iff_less_mult)
  with P show ?thesis by (auto simp: encodeValue_def raw_ok_def)
qed

text \<open>C27: Percent decoding inverts percent encoding: whatever bytes a client chooses to send
raw (never NUL, space, percent, ampersand or equals), the info\_hash of the URI it builds for a
20-byte hash, under any path of at most 200 characters, is parsed to exactly these 20 bytes;
the path and the hashes block get exactly the path and the hash, and no other field of the
query changes.\<close>

theorem parseUri_decodes_info_hash:
  assumes "raw_ok P" "length h = URI_PARAM_VALUE_LENGTH" "q_path q = []"
    "{0, 32, 63} \<inter> set path = {}" "length path \<le> URI_PATH_LENGTH" "take 1 path \<noteq> [47]"
  shows "parseUri pton q (Some hashes) None
      (lit ''GET /'' @ path @ lit ''?info_hash='' @ encodeValue P h @ [32] @ rest)
    = (q\<lparr>q_path := path, q_info_hash := h, q_has_info_hash := 1\<rparr>, Some (hashes @ h), None)"
proof -
  let ?tail = "lit ''info_hash'' @ [61] @ encodeValue P h @ 32 # cstr rest"
  have msg: "drop 4 (cstr (lit ''GET /'' @ path @ lit ''?info_hash='' @ encodeValue P h @ [32] @ rest))
      = 47 # path @ 63 # ?tail"
    using cstr_encodeValue [OF assms(1), of h] assms(4)
    by (simp add: cstr_append cstr_Cons lit_def)
  let ?s0 = "uri_state0 q (Some hashes)"
  have "\<exists>n. uriLoop (uriChar 47 ?s0) (path @ 63 # ?tail) =
      uriLoop ((uriChar 47 ?s0)\<lparr>u_query := (u_query (uriChar 47 ?s0))\<lparr>q_path :=
          q_path (u_query (uriChar 47 ?s0)) @ path\<rparr>, u_len := n\<rparr>) (63 # ?tail)"
    by (rule uriLoop_path) (use assms in \<open>auto simp: uri_state0_def uriChar_def Let_def\<close>)
  then obtain n where n: "uriLoop ?s0 (47 # path @ 63 # ?tail) =
      uriLoop (?s0\<lparr>u_query := q\<lparr>q_path := path\<rparr>, u_len := n, u_status := URI_STATUS_PARAM\<rparr>) ?tail"
    using assms(3) by (auto simp: uri_state0_def uriChar_def Let_def)
  let ?s1 = "?s0\<lparr>u_query := q\<lparr>q_path := path\<rparr>, u_len := n, u_status := URI_STATUS_PARAM\<rparr>"
  have "\<exists>pc. length pc = 3 \<and> pc ! 2 = 0 \<and> uriLoop ?s1 ?tail =
    uriLoop (?s1\<lparr>u_param := lit ''info_hash'', u_status := URI_STATUS_VALUE, u_pc := pc, u_len := length h,
      u_value := h @ replicate (URI_PARAM_VALUE_LENGTH - length h) 0
        @ drop URI_PARAM_VALUE_LENGTH (u_value ?s1)\<rparr>) (32 # cstr rest)"
    by (rule uriLoop_parameter)
      (use assms in \<open>auto simp: uri_state0_def URI_PARAM_VALUE_LENGTH_def lit_def\<close>)
  with n assms(2) show ?thesis
    unfolding parseUri_def msg
    by (auto simp: callGetParam_def getParam_def strcmp_eq_def uri_state0_def parseXForwardedFor_def)
qed

theorem parseUri_decodes_info_hash_witness:
  "fst (parseUri (\<lambda>_ _. (0, [])) query0 (Some []) None
     (lit ''GET /'' @ lit ''announce'' @ lit ''?info_hash=''
        @ encodeValue (\<lambda>b. b = 65) (37 # 65 # replicate 18 0) @ [32] @ []))
   = query0\<lparr>q_path := lit ''announce'', q_info_hash := 37 # 65 # replicate 18 0, q_has_info_hash := 1\<rparr>"
  using parseUri_decodes_info_hash [of "\<lambda>b. b = 65" "37 # 65 # replicate 18 0" query0
      "lit ''announce''" "\<lambda>_ _. (0, [])" "[]" "[]"]
  by (simp add: raw_ok_def URI_PARAM_VALUE_LENGTH_def URI_PATH_LENGTH_def query0_def lit_def)

text \<open>Whatever the request is, the parser stays within its fixed buffers: the path keeps
at most 200 characters, info\_hash, peer\_id and ip keep their sizes, and the hashes block grows
by whole hashes.\<close>

lemma parseUri_bounds:
  assumes "length (q_path q) \<le> URI_PATH_LENGTH" "length (q_info_hash q) = URI_PARAM_VALUE_LENGTH"
    "length (q_peer_id q) = URI_PARAM_VALUE_LENGTH" "length (q_ip q) = 16"
    "case hashes of None \<Rightarrow> True | Some b \<Rightarrow> URI_PARAM_VALUE_LENGTH dvd length b"
    and pton: "\<And>af s. length (snd (pton af s)) = 16"
    and run: "parseUri pton q hashes fb message = (q', hashes', fb')"
  shows "length (q_path q') \<le> URI_PATH_LENGTH \<and> length (q_info_hash q') = URI_PARAM_VALUE_LENGTH \<and>
    length (q_peer_id q') = URI_PARAM_VALUE_LENGTH \<and> length (q_ip q') = 16 \<and>
    (case hashes' of None \<Rightarrow> True | Some b \<Rightarrow> URI_PARAM_VALUE_LENGTH dvd length b)"
proof -
  let ?s = "uriLoop (uri_state0 q hashes) (drop 4 (cstr message))"
  have "uri_inv (uri_state0 q hashes)"
    using assms(1-5) by (simp add: uri_inv_def uri_state0_def URI_PARAM_VALUE_LENGTH_def)
  then have inv: "uri_inv ?s" by (rule uriLoop_inv)
  have ip: "length (take 4 (snd (pton af t))) = 4" for af t using pton by simp
  have fa: "length (q_ip (fst (forwardedAddress pton (u_query ?s) t))) = 16 \<and>
     q_path (fst (forwardedAddress pton (u_query ?s) t)) = q_path (u_query ?s) \<and>
     q_info_hash (fst (forwardedAddress pton (u_query ?s) t)) = q_info_hash (u_query ?s) \<and>
     q_peer_id (fst (forwardedAddress pton (u_query ?s) t)) = q_peer_id (u_query ?s)" for t
    using inv pton [of True t] ip [of False t]
    by (auto simp: forwardedAddress_def uri_inv_def Let_def split: prod.split)
  have "length (q_ip q') = 16 \<and> q_path q' = q_path (u_query ?s) \<and>
     q_info_hash q' = q_info_hash (u_query ?s) \<and> q_peer_id q' = q_peer_id (u_query ?s)"
    using run inv fa
    by (auto simp: parseUri_def parseXForwardedFor_def uri_inv_def Let_def split_beta
        split: option.splits)
  moreover have "hashes' = u_block ?s" using run by (auto simp: parseUri_def Let_def split: prod.splits)
  ultimately show ?thesis using inv by (auto simp: uri_inv_def)
qed

lemma find_sub_least:
  "find_sub n s = Some i \<Longrightarrow> take (length n) (drop j s) = n \<Longrightarrow> j \<le> length s \<Longrightarrow> i \<le> j"
proof (induction s arbitrary: i j)
  case Nil
  then show ?case by (auto split: if_splits)
next
  case (Cons x xs)
  then show ?case by (cases j) (auto split: if_splits)
qed

lemma strstr_cstr [simp]: "strstr (cstr m) n = strstr m n"
  by (simp add: strstr_def)

lemma cstr_drop_cstr [simp]: "cstr (drop i (cstr m)) = drop i (cstr m)"
  by (rule cstr_no_nul) (meson in_set_dropD nul_not_in_cstr)

lemma cstr_nth: "i < length (cstr m) \<Longrightarrow> cstr m ! i = m ! i"
  by (simp add: cstr_def takeWhile_nth)

lemma length_CRLF: "length CRLF = 2"
  by (simp add: CRLF_def)

lemma forwardedBounds_sound:
  assumes "forwardedBounds message xff = Some (start, stop)"
  shows "\<exists>line hdr fin. strstr message CRLF = Some line \<and> strstr message xff = Some hdr \<and>
     strstr message (CRLF @ CRLF) = Some fin \<and> line \<le> hdr \<and> hdr \<le> fin \<and>
     hdr < start \<and> start \<le> stop \<and> stop \<le> fin \<and> message ! (start - 1) = 58"
proof -
  let ?m = "cstr message"
  have n: "cstr CRLF = CRLF" "cstr (CRLF @ CRLF) = CRLF @ CRLF" "cstr [58 :: byte] = [58]"
    by (simp_all add: CRLF_def cstr_def)
  from assms obtain line hdr fin colon eol where b: "strstr message CRLF = Some line"
    "strstr message xff = Some hdr" "strstr message (CRLF @ CRLF) = Some fin"
    "strstr (drop hdr ?m) [58] = Some colon" "strstr (drop hdr ?m) CRLF = Some eol"
    "line \<le> hdr" "hdr \<le> fin" "start = hdr + colon + 1" "stop = hdr + eol" "start \<le> stop"
    unfolding forwardedBounds_def Let_def by (auto split: option.splits if_splits)
  from b(4) have "find_sub [58] (drop hdr ?m) = Some colon" by (simp add: strstr_def n)
  from find_sub_Some [OF this] have c: "colon + 1 \<le> length (drop hdr ?m)"
    "take 1 (drop colon (drop hdr ?m)) = [58]" by simp_all
  then have "hdr + colon < length ?m" by simp
  with c(2) have "?m ! (hdr + colon) = 58"
    by (simp add: take_Suc_conv_app_nth add.commute)
  with \<open>hdr + colon < length ?m\<close> have "message ! (start - 1) = 58"
    using b(8) by (simp add: cstr_nth)
  moreover have "stop \<le> fin"
  proof -
    have "find_sub (CRLF @ CRLF) ?m = Some fin" using b(3) by (simp add: strstr_def n)
    from find_sub_Some [OF this] have f: "fin + 4 \<le> length ?m" "take 4 (drop fin ?m) = CRLF @ CRLF"
      by (simp_all add: CRLF_def eval_nat_numeral)
    have "take 2 (drop fin ?m) = take 2 (take 4 (drop fin ?m))" by (simp only: take_take) simp
    also have "\<dots> = CRLF" unfolding f(2) by (simp add: CRLF_def)
    finally have "take (length CRLF) (drop fin ?m) = CRLF"
      unfolding length_CRLF .
    then have at: "take (length CRLF) (drop (fin - hdr) (drop hdr ?m)) = CRLF"
      unfolding drop_drop using b(7) by (simp only: le_add_diff_inverse2)
    have eol: "find_sub CRLF (drop hdr ?m) = Some eol" using b(5) by (simp add: strstr_def n)
    have "fin - hdr \<le> length (drop hdr ?m)" using f(1) by simp
    with eol at have "eol \<le> fin - hdr" by (rule find_sub_least)
    then show ?thesis unfolding b(9) using b(7) by arith
  qed
  moreover have "hdr < start" unfolding b(8) by simp
  ultimately show ?thesis
    using b(1,2,3,6,7,10) by (intro exI [of _ line] exI [of _ hdr] exI [of _ fin] conjI)
qed

text \<open>The client address of a request behind a proxy is the last address of the header:
when forwardedBounds delimits a value, the query gets the address of its last token, the one
the proxy nearest to the tracker wrote, whatever comes before it; and the value is delimited
only when the header stands after the request line and not after the end of the headers.\<close>

theorem parseXForwardedFor_last_address:
  assumes "q_xForwardedFor q = Some xff"
  shows "case forwardedBounds message xff of
      None \<Rightarrow> parseXForwardedFor pton q message (Some b) = (q, Some b)
    | Some (start, stop) \<Rightarrow>
        parseXForwardedFor pton q message (Some b) =
          map_prod id Some (forwardedAddress pton q (last_token (take (stop - start) (drop start message)))) \<and>
        (\<exists>line hdr fin. strstr message CRLF = Some line \<and> strstr message xff = Some hdr \<and>
           strstr message (CRLF @ CRLF) = Some fin \<and> line \<le> hdr \<and> hdr \<le> fin \<and>
           hdr < start \<and> start \<le> stop \<and> stop \<le> fin \<and> message ! (start - 1) = 58)"
  using assms forwardedBounds_sound [of message xff]
  by (auto simp: parseXForwardedFor_def forwardedLoop_last_token split_beta map_prod_def Let_def
      split: option.splits)

theorem parseXForwardedFor_last_address_witness:
  "parseXForwardedFor (\<lambda>af s. (1, (if s = [55] then [7, 0, 0, 1] else [9, 9, 9, 9]) @ replicate 12 0))
     (query0\<lparr>q_xForwardedFor := Some [88]\<rparr>)
     ([71] @ CRLF @ [88, 58, 32, 57, 44, 32, 55, 32] @ CRLF @ CRLF) (Some [])
   = (query0\<lparr>q_xForwardedFor := Some [88], q_ip := replicate 10 0 @ [255, 255, 7, 0, 0, 1],
        q_ipVersion := 1\<rparr>, Some (replicate 10 0 @ [255, 255, 7, 0, 0, 1]))"
proof -
  have "forwardedBounds ([71] @ CRLF @ [88, 58, 32, 57, 44, 32, 55, 32] @ CRLF @ CRLF) [88] = Some (5, 11)"
    by (simp add: forwardedBounds_def CRLF_def cstr_def strstr_def)
  then show ?thesis
    using parseXForwardedFor_last_address [where q = "query0\<lparr>q_xForwardedFor := Some [88]\<rparr>"
        and xff = "[88]" and message = "[71] @ CRLF @ [88, 58, 32, 57, 44, 32, 55, 32] @ CRLF @ CRLF"
        and pton = "\<lambda>af s. (1, (if s = [55] then [7, 0, 0, 1] else [9, 9, 9, 9]) @ replicate 12 0)"
        and b = "[]"]
    by (simp add: CRLF_def last_token_def is_sep_def forwardedAddress_def strstr_def cstr_def
        SOCKET_VERSION_IPV4_BIT_def query0_def Let_def)
qed

section \<open>The protocol of a query\<close>

lemma getParam_protocol: "q_protocol (fst (getParam q b p v)) = q_protocol q"
  by (simp add: getParam_def Let_def split: option.split)

lemma callGetParam_protocol: "q_protocol (u_query (callGetParam s)) = q_protocol (u_query s)"
  using getParam_protocol [of "u_query s" "u_block s" "u_param s" "u_value s"]
  by (simp add: callGetParam_def split_beta)

lemma uriChar_protocol: "q_protocol (u_query (uriChar c s)) = q_protocol (u_query s)"
  by (auto simp: uriChar_def uriValueChar_def Let_def callGetParam_protocol)

lemma uriLoop_protocol: "q_protocol (u_query (uriLoop s m)) = q_protocol (u_query s)"
  by (induction s m rule: uriLoop.induct) (simp_all add: callGetParam_protocol uriChar_protocol)

lemma forwardedAddress_protocol: "q_protocol (fst (forwardedAddress pton q t)) = q_protocol q"
  by (simp add: forwardedAddress_def Let_def split_beta)

lemma parseXForwardedFor_protocol: "q_protocol (fst (parseXForwardedFor pton q m b)) = q_protocol q"
  using forwardedAddress_protocol [of pton q]
  by (auto simp: parseXForwardedFor_def Let_def split_beta split: option.splits)

lemma parseUri_protocol: "q_protocol (fst (parseUri pton q h f m)) = q_protocol q"
  using uriLoop_protocol [of "uri_state0 q h" "drop 4 (cstr m)"]
  by (simp add: parseUri_def Let_def split_beta parseXForwardedFor_protocol uri_state0_def)

end
