(* ===== verification/Socket_Http.thy ===== *)
theory Socket_Http
  imports Stats Uri
begin

text \<open>
  socket.h and socket.c: the IP version of an address, the HTTP message with its head and its
  bencoded failure body, and the delivery of a message through a non-blocking socket. The
  block is the bytes appended to it; the results of send are an input of the model.
\<close>

section \<open>getIpVersion\<close>

definition getIpVersion :: "bytes \<Rightarrow> byte" where
  "getIpVersion addr =
     (if take 12 addr = replicate 10 0 @ [255, 255] then SOCKET_VERSION_IPV4_BIT else SOCKET_VERSION_IPV6_BIT)"

lemma getIpVersion_cases: "getIpVersion a = SOCKET_VERSION_IPV4_BIT \<or> getIpVersion a = SOCKET_VERSION_IPV6_BIT"
  by (simp add: getIpVersion_def)

section \<open>renderHttpMessage\<close>

record render =
  h_block :: bytes
  h_code :: nat
  h_message :: bytes
  h_size :: u64
  h_canKeepAlive :: bool
  h_socketTimeout :: u16
  h_charset :: "bytes option"
  h_contentType :: "bytes option"
  h_websocketKey :: "bytes option"

text \<open>The first lines of the head and the counter they are counted with.\<close>

definition statusLine :: "nat \<Rightarrow> bytes option \<Rightarrow> (stat_counter \<times> bytes) res" where
  "statusLine code key =
     (if code = 101 then
        (case key of None \<Rightarrow> Inl Null_deref
         | Some k \<Rightarrow> Inr (Http_101,
             lit ''HTTP/1.1 101 Switching Protocols'' @ CRLF @ lit ''Upgrade: websocket'' @ CRLF @
             lit ''Connection: Upgrade'' @ CRLF @ lit ''Sec-WebSocket-Accept: '' @ k @ CRLF))
      else if code = 400 then Inr (Http_400, lit ''HTTP/1.0 400 Invalid Request'' @ CRLF)
      else if code = 401 then Inr (Http_401, lit ''HTTP/1.0 401 Unauthorized'' @ CRLF @
             lit ''WWW-Authenticate: Basic realm='' @ [34] @ lit ''etracker'' @ [34] @ CRLF)
      else if code = 403 then Inr (Http_403, lit ''HTTP/1.0 403 Forbidden'' @ CRLF)
      else if code = 404 then Inr (Http_404, lit ''HTTP/1.0 404 Not Found'' @ CRLF)
      else if code = 405 then Inr (Http_405, lit ''HTTP/1.0 405 Method Not Allowed'' @ CRLF)
      else if code = 408 then Inr (Http_408, lit ''HTTP/1.0 408 Request Timeout'' @ CRLF)
      else if code = 413 then Inr (Http_413, lit ''HTTP/1.0 413 Request Entity Too Large'' @ CRLF)
      else if code = 507 then Inr (Http_507, lit ''HTTP/1.0 507 Insufficient Storage'' @ CRLF)
      else Inr (Http_200, lit ''HTTP/1.1 200 OK'' @ CRLF))"

text \<open>The failure body: the size is printed as given, the message up to its NUL.\<close>

definition failureBody :: "u64 \<Rightarrow> bytes \<Rightarrow> bytes" where
  "failureBody sz message =
     lit ''d14:failure reason'' @ dec (unat sz) @ lit '':'' @ cstr message @ lit ''e''"

definition connectionLines :: "render \<Rightarrow> bytes" where
  "connectionLines r =
     (if h_websocketKey r = None then
        (if h_canKeepAlive r
         then lit ''Connection: Keep-Alive'' @ CRLF @
              lit ''Keep-Alive: timeout='' @ dec (unat (h_socketTimeout r)) @ lit '', max=1000'' @ CRLF
         else lit ''Connection: Close'' @ CRLF)
      else [])"

definition contentTypeLine :: "render \<Rightarrow> bytes" where
  "contentTypeLine r =
     (case (h_charset r, h_contentType r) of
        (None, None) \<Rightarrow> lit ''Content-Type: text/plain'' @ CRLF
      | (None, Some t) \<Rightarrow> lit ''Content-Type: '' @ t @ CRLF
      | (Some c, None) \<Rightarrow> lit ''Content-Type: text/plain; charset='' @ c @ CRLF
      | (Some c, Some t) \<Rightarrow> lit ''Content-Type: '' @ t @ lit ''; charset='' @ c @ CRLF)"

text \<open>
  A message of code 200 or 101 is the size first bytes of h\_message; h\_message must have that
  many. Any other code gets the failure body, whose length becomes the size.
\<close>

definition renderHttpMessage :: "render \<Rightarrow> stats \<Rightarrow> (render \<times> stats) res" where
  "renderHttpMessage r st =
     bindR (statusLine (h_code r) (h_websocketKey r)) (\<lambda>(c, first).
       let body = failureBody (h_size r) (h_message r);
           sz = (if h_code r \<noteq> 200 \<and> h_code r \<noteq> 101 then of_nat (length body) else h_size r);
           head = first @ connectionLines r @ contentTypeLine r @
             lit ''Content-Length: '' @ dec (unat sz) @ CRLF @
             lit ''Server: github.com/truekenny/etracker'' @ CRLF @ CRLF
       in if h_code r = 200 \<or> h_code r = 101
          then (if unat (h_size r) \<le> length (h_message r)
                then Inr (r\<lparr>h_block := h_block r @ head @ take (unat (h_size r)) (h_message r)\<rparr>, incStat c st)
                else Inl Out_of_bounds)
          else Inr (r\<lparr>h_block := h_block r @ head @ body, h_size := sz\<rparr>, incStat c st))"

section \<open>send\<close>

text \<open>
  One answer of the kernel to send: an errno, or the number of bytes it took. The loop of send\_
  works through a list of answers; it returns the answers it used, the bytes still to send,
  and the counters. errorLimit is errorLimitCount. None means that the answers ran out.
\<close>

datatype send_result = Send_error int | Sent nat

definition EAGAIN :: int where "EAGAIN = 11"

fun sendLoop :: "bool \<Rightarrow> nat \<Rightarrow> send_result list \<Rightarrow> bytes \<Rightarrow> stats \<Rightarrow> (bytes \<times> bool \<times> stats) option res" where
  "sendLoop sentOnce errorLimit [] message st = Inr None"
| "sendLoop sentOnce errorLimit (Send_error e # rs) message st =
     bindR (incErrnoOf Send_errno e st) (\<lambda>st1.
       let st2 = incStat Send_failed st1 in
       if e \<noteq> EAGAIN \<or> sentOnce then Inr (Some (message, False, st2))
       else if errorLimit \<le> 1 then Inr (Some (message, False, incStat Send_skips st2))
       else if message = [] then Inr (Some (message, False, st2))
       else sendLoop sentOnce (errorLimit - 1) rs message st2)"
| "sendLoop sentOnce errorLimit (Sent n # rs) message st =
     (let st1 = addStat Sent_bytes (of_nat n) (incStat Send_pass st);
          rest = drop n message in
      if rest = [] then Inr (Some (rest, True, st1))
      else sendLoop sentOnce errorLimit rs rest st1)"

definition sendMessage :: "bool \<Rightarrow> send_result list \<Rightarrow> bytes \<Rightarrow> stats \<Rightarrow> (bytes \<times> bool \<times> stats) option res" where
  "sendMessage sentOnce rs message st = sendLoop sentOnce 1000000 rs message st"

section \<open>What send\_ delivers\<close>

text \<open>
  The bytes a list of answers took, and its errors. The kernel does not take more than it is
  given and its errnos are not negative; answers are enough for a message when they let the loop
  end: an error that is not EAGAIN, or enough bytes.
\<close>

fun bytes_taken :: "send_result list \<Rightarrow> nat" where
  "bytes_taken [] = 0"
| "bytes_taken (Sent n # rs) = n + bytes_taken rs"
| "bytes_taken (Send_error e # rs) = bytes_taken rs"

definition send_errors :: "send_result list \<Rightarrow> nat" where
  "send_errors rs = length (filter (\<lambda>r. case r of Send_error e \<Rightarrow> True | Sent n \<Rightarrow> False) rs)"

definition answers_end :: "bytes \<Rightarrow> send_result list \<Rightarrow> bool" where
  "answers_end message rs \<longleftrightarrow> (\<forall>e. Send_error e \<in> set rs \<longrightarrow> 0 \<le> e) \<and>
     ((\<exists>e. Send_error e \<in> set rs \<and> e \<noteq> EAGAIN) \<or> (rs \<noteq> [] \<and> length message \<le> bytes_taken rs))"

lemma send_errors_simps [simp]:
  "send_errors [] = 0" "send_errors (Sent n # rs) = send_errors rs"
  "send_errors (Send_error e # rs) = Suc (send_errors rs)"
  by (simp_all add: send_errors_def)

lemma sendLoop_ends:
  assumes "wf_stats st" "answers_end message rs"
  shows "\<exists>rest ok st'. sendLoop once limit rs message st = Inr (Some (rest, ok, st')) \<and> wf_stats st'"
  using assms
proof (induction once limit rs message st rule: sendLoop.induct)
  case (1 once limit message st)
  then show ?case by (simp add: answers_end_def)
next
  case (2 once limit e rs message st)
  have "0 \<le> e" using 2(3) by (simp add: answers_end_def)
  from incErrnoOf_ok [OF 2(2) this, of Send_errno] obtain xs where
    i: "incErrnoOf Send_errno e st = Inr (st\<lparr>st_errno := (st_errno st)(Send_errno := xs)\<rparr>)"
    "wf_stats (st\<lparr>st_errno := (st_errno st)(Send_errno := xs)\<rparr>)" by blast
  show ?case
  proof (cases "e \<noteq> EAGAIN \<or> once \<or> limit \<le> 1 \<or> message = []")
    case True
    then show ?thesis using i by (auto simp: Let_def)
  next
    case False
    have "rs \<noteq> []" using 2(3) False by (auto simp: answers_end_def)
    with False 2(3) have "answers_end message rs" by (auto simp: answers_end_def)
    with False 2(1) [OF i(1) refl] i show ?thesis by (simp add: Let_def)
  qed
next
  case (3 once limit n rs message st)
  show ?case
  proof (cases "drop n message = []")
    case True
    then show ?thesis using 3(2) by (simp add: Let_def) blast
  next
    case False
    then have "rs \<noteq> []" "length (drop n message) \<le> bytes_taken rs \<or> (\<exists>e. Send_error e \<in> set rs \<and> e \<noteq> EAGAIN)"
      using 3(3) by (auto simp: answers_end_def)
    then have "answers_end (drop n message) rs" using 3(3) by (auto simp: answers_end_def)
    with False 3(1) [OF refl refl] 3(2) show ?thesis by (simp add: Let_def)
  qed
qed

lemma st_count_add [simp]: "st_count (addStat c n st) d = st_count st d + (if d = c then n else 0)"
  by (simp add: addStat_def)

lemma st_count_inc [simp]: "st_count (incStat c st) d = st_count st d + (if d = c then 1 else 0)"
  by (simp add: incStat_def)

lemma st_count_errno: "incErrnoOf a e st = Inr st' \<Longrightarrow> st_count st' = st_count st"
  by (auto simp: incErrnoOf_def bindR_Inr_iff)

lemma sendLoop_prefix:
  assumes "sendLoop once limit rs message st = Inr (Some (rest, ok, st'))"
  shows "\<exists>used left. rs = used @ left \<and> rest = drop (bytes_taken used) message \<and>
    st_count st' Sent_bytes = st_count st Sent_bytes + of_nat (bytes_taken used) \<and>
    st_count st' Send_failed = st_count st Send_failed + of_nat (send_errors used) \<and>
    (ok \<longrightarrow> rest = []) \<and> (once \<longrightarrow> send_errors used \<le> 1) \<and> send_errors used \<le> max limit 1"
  using assms
proof (induction once limit rs message st rule: sendLoop.induct)
  case (1 once limit message st)
  then show ?case by simp
next
  case (2 once limit e rs message st)
  from 2(2) obtain st1 where st1: "incErrnoOf Send_errno e st = Inr st1" by (auto simp: bindR_Inr_iff)
  note c = st_count_errno [OF st1]
  show ?case
  proof (cases "e \<noteq> EAGAIN \<or> once \<or> limit \<le> 1 \<or> message = []")
    case True
    then have "rest = message \<and> \<not> ok \<and> st_count st' Sent_bytes = st_count st Sent_bytes \<and>
        st_count st' Send_failed = st_count st Send_failed + 1"
      using 2(2) st1 c by (auto simp: Let_def split: if_splits)
    then show ?thesis by (intro exI [of _ "[Send_error e]"] exI [of _ rs]) simp
  next
    case False
    then have "sendLoop once (limit - 1) rs message (incStat Send_failed st1) = Inr (Some (rest, ok, st'))"
      using 2(2) st1 by (simp add: Let_def)
    with 2(1) [OF st1 refl] False obtain used left where u: "rs = used @ left" "rest = drop (bytes_taken used) message"
      "st_count st' Sent_bytes = st_count (incStat Send_failed st1) Sent_bytes + of_nat (bytes_taken used)"
      "st_count st' Send_failed = st_count (incStat Send_failed st1) Send_failed + of_nat (send_errors used)"
      "ok \<longrightarrow> rest = []" "send_errors used \<le> max (limit - 1) 1" by auto
    have "send_errors (Send_error e # used) \<le> max limit 1" using u(6) False by (simp add: max_def split: if_splits)
    with u c False show ?thesis by (intro exI [of _ "Send_error e # used"] exI [of _ left]) simp
  qed
next
  case (3 once limit n rs message st)
  show ?case
  proof (cases "drop n message = []")
    case True
    then show ?thesis using 3(2) by (intro exI [of _ "[Sent n]"] exI [of _ rs]) (auto simp: Let_def)
  next
    case False
    then have "sendLoop once limit rs (drop n message) (addStat Sent_bytes (of_nat n) (incStat Send_pass st)) =
        Inr (Some (rest, ok, st'))"
      using 3(2) by (simp add: Let_def)
    with 3(1) [OF refl refl] False obtain used left where "rs = used @ left" "rest = drop (bytes_taken used) (drop n message)"
      "st_count st' Sent_bytes = st_count st Sent_bytes + of_nat n + of_nat (bytes_taken used)"
      "st_count st' Send_failed = st_count st Send_failed + of_nat (send_errors used)"
      "ok \<longrightarrow> rest = []" "once \<longrightarrow> send_errors used \<le> 1" "send_errors used \<le> max limit 1" by auto
    then show ?thesis by (intro exI [of _ "Sent n # used"] exI [of _ left]) (simp add: add.commute)
  qed
qed

text \<open>C39: send\_ delivers a prefix of its message: with answers of the kernel that let it end, it ends,
what it has not delivered is exactly the message behind the bytes the kernel took, those bytes and
the errors are counted, it has delivered everything when it reports success, and it gives up after
one error when asked to try once and after at most a million errors otherwise.\<close>

theorem send_delivers_prefix:
  assumes "wf_stats st" "answers_end message rs"
  shows "\<exists>rest ok st' used left. sendMessage once rs message st = Inr (Some (rest, ok, st')) \<and> wf_stats st' \<and>
    rs = used @ left \<and> rest = drop (bytes_taken used) message \<and>
    st_count st' Sent_bytes = st_count st Sent_bytes + of_nat (bytes_taken used) \<and>
    st_count st' Send_failed = st_count st Send_failed + of_nat (send_errors used) \<and>
    (ok \<longrightarrow> rest = []) \<and> (once \<longrightarrow> send_errors used \<le> 1) \<and> send_errors used \<le> 1000000"
proof -
  obtain rest ok st' where r: "sendLoop once 1000000 rs message st = Inr (Some (rest, ok, st'))" "wf_stats st'"
    using sendLoop_ends [OF assms] by blast
  from sendLoop_prefix [OF r(1)] r show ?thesis unfolding sendMessage_def by auto
qed

theorem send_delivers_prefix_witness:
  "\<exists>rest ok st' used left. sendMessage False [Sent 1, Send_error 11, Sent 1] [1, 2] (stats0 0) =
     Inr (Some (rest, ok, st')) \<and> [Sent 1, Send_error 11, Sent 1] = used @ left \<and> rest = drop (bytes_taken used) [1, 2]"
proof -
  have "answers_end [1, 2] [Sent 1, Send_error 11, Sent 1]" by (simp add: answers_end_def)
  from send_delivers_prefix [OF wf_stats0 [of 0] this, of False] show ?thesis by blast
qed


text \<open>
  A call of send\_ for a socket: answers gives, for every socket and message, what the kernel
  answers. The loop that runs out of answers does not return.
\<close>

definition deliver :: "(u32 \<Rightarrow> bytes \<Rightarrow> send_result list) \<Rightarrow> bool \<Rightarrow> u32 \<Rightarrow> bytes \<Rightarrow> stats \<Rightarrow> stats res" where
  "deliver answers sentOnce socket message st =
     bindR (sendMessage sentOnce (answers socket message) message st) (\<lambda>r.
       case r of None \<Rightarrow> Inl Blocked | Some (rest, ok, st') \<Rightarrow> Inr st')"

definition kernel_sends :: "(u32 \<Rightarrow> bytes \<Rightarrow> send_result list) \<Rightarrow> bool" where
  "kernel_sends answers \<longleftrightarrow> (\<forall>s m. answers_end m (answers s m))"

lemma kernel_sends_all: "kernel_sends (\<lambda>s m. [Sent (length m)])"
  by (simp add: kernel_sends_def answers_end_def)

lemma deliver_ok:
  assumes "wf_stats st" "kernel_sends answers"
  shows "\<exists>st'. deliver answers once s m st = Inr st' \<and> wf_stats st'"
proof -
  have "answers_end m (answers s m)" using assms(2) by (simp add: kernel_sends_def)
  from sendLoop_ends [OF assms(1) this, of once 1000000] show ?thesis
    by (auto simp: deliver_def sendMessage_def)
qed

section \<open>The framing of a message\<close>

text \<open>
  A client finds the end of the head at the first empty line. The values that go into the head
  (the charset, the content type, the websocket key) have no carriage return.
\<close>

definition header_values_ok :: "render \<Rightarrow> bool" where
  "header_values_ok r \<longleftrightarrow>
     (\<forall>v \<in> set_option (h_charset r) \<union> set_option (h_contentType r) \<union> set_option (h_websocketKey r). 13 \<notin> set v \<and> 10 \<notin> set v)"

text \<open>A head made of lines: none of them empty, and no other carriage return or line feed.\<close>

definition plain_line :: "bytes \<Rightarrow> bool" where
  "plain_line l \<longleftrightarrow> l \<noteq> [] \<and> 13 \<notin> set l \<and> 10 \<notin> set l"

definition join_lines :: "bytes list \<Rightarrow> bytes" where
  "join_lines ls = concat (map (\<lambda>l. l @ CRLF) ls)"

lemma join_lines_simps [simp]:
  "join_lines [] = []" "join_lines (l # ls) = l @ CRLF @ join_lines ls" "join_lines (a @ b) = join_lines a @ join_lines b"
  by (simp_all add: join_lines_def)

lemma find_sub_skip:
  assumes "hd n \<notin> set xs" "n \<noteq> []"
  shows "find_sub n (xs @ ys) = map_option (\<lambda>i. length xs + i) (find_sub n ys)"
  using assms
proof (induction xs)
  case (Cons x xs)
  have "take (length n) (x # xs @ ys) \<noteq> n" using Cons.prems by (cases n) auto
  with Cons show ?case by (simp add: option.map_comp comp_def)
next
  case Nil
  show ?case by (cases "find_sub n ys") simp_all
qed

lemma find_sub_empty_line:
  assumes "\<forall>l \<in> set ls. plain_line l" "ls \<noteq> []"
  shows "find_sub (CRLF @ CRLF) (join_lines ls @ CRLF @ body) = Some (length (join_lines ls) - 2)"
  using assms
proof (induction ls)
  case (Cons l ls)
  have l: "plain_line l" using Cons.prems by simp
  have skip: "find_sub (CRLF @ CRLF) (l @ ys) = map_option (\<lambda>i. length l + i) (find_sub (CRLF @ CRLF) ys)" for ys
    by (rule find_sub_skip) (use l in \<open>simp_all add: plain_line_def CRLF_def\<close>)
  show ?case
  proof (cases ls)
    case Nil
    then show ?thesis by (simp add: skip) (simp add: CRLF_def)
  next
    case (Cons m ms)
    have m: "plain_line m" using Cons.prems Cons by simp
    then obtain c t where ct: "m = c # t" "c \<noteq> 13" "c \<noteq> 10" by (cases m) (auto simp: plain_line_def)
    have two: "find_sub (CRLF @ CRLF) (CRLF @ m @ ys) = map_option (\<lambda>i. 2 + i) (find_sub (CRLF @ CRLF) (m @ ys))" for ys
      using ct by (simp add: CRLF_def option.map_comp comp_def)
    have IH: "find_sub (CRLF @ CRLF) (join_lines ls @ CRLF @ body) = Some (length (join_lines ls) - 2)"
      using Cons.IH Cons.prems Cons by simp
    have "length (join_lines ls) \<ge> 2" unfolding Cons by (simp add: CRLF_def)
    with IH show ?thesis unfolding Cons by (simp add: skip two) (simp add: CRLF_def)
  qed
qed simp


lemma length_failureBody: "length (failureBody sz message) \<le> 40 + length message"
proof -
  have "unat sz < 10 ^ 20" using unsigned_less [of sz, where ?'a = nat] by simp
  then have "length (dec (unat sz)) \<le> 20" by (rule length_dec) simp
  moreover have "length (cstr message) \<le> length message" using strlen_le [of message] by (simp add: strlen_def)
  ultimately show ?thesis by (simp add: failureBody_def)
qed

lemma plain_dec: "plain_line (lit a @ dec n @ lit b)" if "13 \<notin> set (lit a @ lit b)" "10 \<notin> set (lit a @ lit b)"
proof -
  have "13 \<notin> set (dec n)" "10 \<notin> set (dec n)" using isdigit_range dec_digits by blast+
  with that show ?thesis by (simp add: plain_line_def)
qed

lemma statusLine_lines:
  assumes "statusLine code key = Inr (c, first)" "\<forall>k. key = Some k \<longrightarrow> 13 \<notin> set k \<and> 10 \<notin> set k"
  shows "\<exists>ls. first = join_lines ls \<and> (\<forall>l \<in> set ls. plain_line l) \<and> ls \<noteq> []"
proof -
  let ?one = "\<lambda>s. first = join_lines [lit s]"
  have that: ?thesis if "first = join_lines ls" "\<forall>l \<in> set ls. plain_line l" "ls \<noteq> []" for ls
    using that by blast
  consider (switch) k where "key = Some k" "first = join_lines [lit ''HTTP/1.1 101 Switching Protocols'',
      lit ''Upgrade: websocket'', lit ''Connection: Upgrade'', lit ''Sec-WebSocket-Accept: '' @ k]"
    | (unauthorized) "first = join_lines [lit ''HTTP/1.0 401 Unauthorized'',
        lit ''WWW-Authenticate: Basic realm='' @ [34] @ lit ''etracker'' @ [34]]"
    | (one) s where "s \<in> {''HTTP/1.0 400 Invalid Request'', ''HTTP/1.0 403 Forbidden'', ''HTTP/1.0 404 Not Found'',
        ''HTTP/1.0 405 Method Not Allowed'', ''HTTP/1.0 408 Request Timeout'', ''HTTP/1.0 413 Request Entity Too Large'',
        ''HTTP/1.0 507 Insufficient Storage'', ''HTTP/1.1 200 OK''}" "?one s"
    using assms(1) unfolding statusLine_def by (auto split: if_splits option.splits)
  then show ?thesis
  proof cases
    case switch
    show ?thesis by (rule that [OF switch(2)]) (use switch assms(2) in \<open>auto simp: plain_line_def lit_def\<close>)
  next
    case unauthorized
    show ?thesis by (rule that [OF unauthorized]) (auto simp: plain_line_def lit_def)
  next
    case one
    show ?thesis by (rule that [OF one(2)]) (use one(1) in \<open>auto simp: plain_line_def lit_def\<close>)
  qed
qed

lemma connectionLines_lines: "\<exists>ls. connectionLines r = join_lines ls \<and> (\<forall>l \<in> set ls. plain_line l)"
proof (cases "h_websocketKey r = None")
  case False
  then show ?thesis by (intro exI [of _ "[]"]) (auto simp: connectionLines_def)
next
  case key: True
  let ?k = "lit ''Keep-Alive: timeout='' @ dec (unat (h_socketTimeout r)) @ lit '', max=1000''"
  have k: "plain_line ?k" by (rule plain_dec) (simp_all add: lit_def)
  have c: "plain_line (lit ''Connection: Keep-Alive'')" "plain_line (lit ''Connection: Close'')"
    by (simp_all add: plain_line_def lit_def)
  show ?thesis
  proof (cases "h_canKeepAlive r")
    case True
    with key k c show ?thesis
      by (intro exI [of _ "[lit ''Connection: Keep-Alive'', ?k]"]) (simp add: connectionLines_def)
  next
    case False
    with key c show ?thesis
      by (intro exI [of _ "[lit ''Connection: Close'']"]) (simp add: connectionLines_def)
  qed
qed

lemma contentTypeLine_line:
  assumes "header_values_ok r"
  shows "\<exists>l. contentTypeLine r = join_lines [l] \<and> plain_line l"
proof -
  let ?l = "case (h_charset r, h_contentType r) of
        (None, None) \<Rightarrow> lit ''Content-Type: text/plain''
      | (None, Some t) \<Rightarrow> lit ''Content-Type: '' @ t
      | (Some c, None) \<Rightarrow> lit ''Content-Type: text/plain; charset='' @ c
      | (Some c, Some t) \<Rightarrow> lit ''Content-Type: '' @ t @ lit ''; charset='' @ c"
  have "contentTypeLine r = join_lines [?l]" by (simp add: contentTypeLine_def split: option.split)
  moreover have "plain_line ?l"
    using assms by (auto simp: header_values_ok_def plain_line_def lit_def split: option.splits)
  ultimately show ?thesis by blast
qed

lemma renderHttpMessage_lines:
  assumes "renderHttpMessage r st = Inr (r', st')" "header_values_ok r" "length (h_message r) < 2 ^ 32"
  obtains a b body where "\<forall>l \<in> set (a @ b). plain_line l"
    "plain_line (lit ''Content-Length: '' @ dec (length body))"
    "h_block r' = h_block r @ join_lines (a @ [lit ''Content-Length: '' @ dec (length body)] @ b) @ CRLF @ body"
    "body = (if h_code r = 200 \<or> h_code r = 101 then take (unat (h_size r)) (h_message r)
             else failureBody (h_size r) (h_message r))"
    "unat (h_size r') = length body"
proof -
  let ?fb = "failureBody (h_size r) (h_message r)" and ?ok = "h_code r = 200 \<or> h_code r = 101"
  let ?body = "if ?ok then take (unat (h_size r)) (h_message r) else ?fb"
  have len: "unat (of_nat (length ?fb) :: u64) = length ?fb"
    using length_failureBody [of "h_size r" "h_message r"] assms(3) by (simp add: unsigned_of_nat take_bit_nat_eq_self)
  from assms(1) obtain c first where first: "statusLine (h_code r) (h_websocketKey r) = Inr (c, first)"
    by (auto simp: renderHttpMessage_def bindR_Inr_iff)
  obtain la where la: "first = join_lines la" "\<forall>l \<in> set la. plain_line l"
    using statusLine_lines [OF first] assms(2) by (auto simp: header_values_ok_def)
  obtain lb where lb: "connectionLines r = join_lines lb" "\<forall>l \<in> set lb. plain_line l"
    using connectionLines_lines by blast
  obtain lc where lc: "contentTypeLine r = join_lines [lc]" "plain_line lc"
    using contentTypeLine_line [OF assms(2)] by blast
  let ?d = "lit ''Server: github.com/truekenny/etracker''"
  have d: "plain_line ?d" by (simp add: plain_line_def lit_def)
  have l: "plain_line (lit ''Content-Length: '' @ dec (length ?body))"
    using plain_dec [of "''Content-Length: ''" "[]" "length ?body"] by (simp add: lit_def)
  have "h_block r' = h_block r @ join_lines ((la @ lb @ [lc]) @ [lit ''Content-Length: '' @ dec (length ?body)] @ [?d])
      @ CRLF @ ?body \<and> unat (h_size r') = length ?body"
    using assms(1) len
    by (auto simp: renderHttpMessage_def first Let_def la(1) lb(1) lc(1) min_absorb2 split: if_splits)
  then show thesis using la(2) lb(2) lc(2) d l by (intro that [of "la @ lb @ [lc]" "[?d]" ?body]) auto
qed

text \<open>A message that is a head of lines, an empty line and the body, whose length a line states.\<close>

definition framed :: "bytes \<Rightarrow> bytes \<Rightarrow> bool" where
  "framed message body \<longleftrightarrow> (\<exists>ls n. message = join_lines ls @ CRLF @ body \<and>
     find_sub (CRLF @ CRLF) message = Some n \<and> drop (n + 4) message = body \<and>
     lit ''Content-Length: '' @ dec (length body) \<in> set ls)"

lemma http_framed:
  assumes "renderHttpMessage r st = Inr (r', st')" "h_block r = []" "header_values_ok r"
    "length (h_message r) < 2 ^ 32"
    "body = (if h_code r = 200 \<or> h_code r = 101 then take (unat (h_size r)) (h_message r)
             else failureBody (h_size r) (h_message r))"
  shows "framed (h_block r') body \<and> unat (h_size r') = length body"
proof -
  from renderHttpMessage_lines [OF assms(1,3,4)] obtain a b where m:
    "\<forall>l \<in> set (a @ b). plain_line l" "plain_line (lit ''Content-Length: '' @ dec (length body))"
    "h_block r' = h_block r @ join_lines (a @ [lit ''Content-Length: '' @ dec (length body)] @ b) @ CRLF @ body"
    "unat (h_size r') = length body" using assms(5) by metis
  let ?ls = "a @ [lit ''Content-Length: '' @ dec (length body)] @ b"
  have ls: "\<forall>l \<in> set ?ls. plain_line l" "?ls \<noteq> []" using m(1,2) by auto
  have two: "2 \<le> length (join_lines ?ls)" by (simp add: CRLF_def)
  have blk: "h_block r' = join_lines ?ls @ CRLF @ body" using m(3) assms(2) by simp
  have f: "find_sub (CRLF @ CRLF) (h_block r') = Some (length (join_lines ?ls) - 2)"
    unfolding blk by (rule find_sub_empty_line [OF ls])
  have "drop (length xs - 2 + 4) (xs @ CRLF @ body) = body" if "2 \<le> length xs" for xs :: bytes
    using that by (simp add: CRLF_def)
  from this [OF two] have d: "drop (length (join_lines ?ls) - 2 + 4) (h_block r') = body"
    unfolding blk .
  have "lit ''Content-Length: '' @ dec (length body) \<in> set ?ls" by simp
  with blk f d m(4) show ?thesis unfolding framed_def by blast
qed

text \<open>Every message has the framing of HTTP: when the values put into the head have no line ends, the
first empty line is the end of the head, behind it is exactly the body, and one line of the head
states the body's length; the body is the message of a 200 or 101 and the failure dictionary of
any other code.\<close>

theorem http_message_framing:
  assumes "renderHttpMessage r st = Inr (r', st')" "h_block r = []" "header_values_ok r"
    "length (h_message r) < 2 ^ 32"
  shows "\<exists>ls body n. h_block r' = join_lines ls @ CRLF @ body \<and>
    find_sub (CRLF @ CRLF) (h_block r') = Some n \<and> drop (n + 4) (h_block r') = body \<and>
    lit ''Content-Length: '' @ dec (length body) \<in> set ls \<and> unat (h_size r') = length body \<and>
    body = (if h_code r = 200 \<or> h_code r = 101 then take (unat (h_size r)) (h_message r)
            else failureBody (h_size r) (h_message r))"
  using http_framed [OF assms refl] unfolding framed_def by blast

definition sample_render :: render where
  "sample_render = \<lparr>h_block = [], h_code = 200, h_message = [65, 66], h_size = 2, h_canKeepAlive = True,
     h_socketTimeout = 3, h_charset = None, h_contentType = None, h_websocketKey = None\<rparr>"

theorem http_message_framing_witness:
  "\<exists>r' st' n. renderHttpMessage sample_render (stats0 0) = Inr (r', st') \<and>
     find_sub (CRLF @ CRLF) (h_block r') = Some n \<and> drop (n + 4) (h_block r') = [65, 66]"
proof -
  obtain r' st' where r: "renderHttpMessage sample_render (stats0 0) = Inr (r', st')"
    by (simp add: renderHttpMessage_def sample_render_def statusLine_def Let_def)
  from http_message_framing [OF r] show ?thesis
    using r by (auto simp: sample_render_def header_values_ok_def)
qed

end
