(* ===== verification/Websocket.thy ===== *)
theory Websocket
  imports Base64 Sha1 Geoip Socket_Http Hash_List_Laws
begin

text \<open>
  Websockets (websocket.h, websocket.c): the accept key of a handshake, the removal of a closed
  socket from the list of websockets, and the frame with the location of a client that is sent
  to every websocket. The list is keyed by the four bytes of the socket number in memory. The
  calls of send\_ are the list of the messages handed to it, with their sockets.
\<close>

definition WEBSOCKET_HEADER_KEY :: bytes where "WEBSOCKET_HEADER_KEY = lit ''Sec-WebSocket-Key: ''"
definition WEBSOCKET_GUID :: bytes where "WEBSOCKET_GUID = lit ''258EAFA5-E914-47DA-95CA-C5AB0DC85B11''"
definition WEBSOCKET_RETURN_CODE :: byte where "WEBSOCKET_RETURN_CODE = 13"
definition WEBSOCKET_SPACE_CODE :: byte where "WEBSOCKET_SPACE_CODE = 32"
definition WEBSOCKET_SIZE_FRAME :: nat where "WEBSOCKET_SIZE_FRAME = 11"
definition WEBSOCKET_PROTOCOL_TCP :: byte where "WEBSOCKET_PROTOCOL_TCP = 0"
definition WEBSOCKET_PROTOCOL_UDP :: byte where "WEBSOCKET_PROTOCOL_UDP = 1"

text \<open>The key of the header: up to a return or a space, and before the last byte of the data.\<close>

definition websocketKey :: "bytes \<Rightarrow> nat \<Rightarrow> bytes option" where
  "websocketKey data sz =
     (case strstr data WEBSOCKET_HEADER_KEY of
        None \<Rightarrow> None
      | Some headerKey \<Rightarrow>
          (let offset = headerKey + length WEBSOCKET_HEADER_KEY;
               key = takeWhile (\<lambda>c. c \<noteq> WEBSOCKET_RETURN_CODE \<and> c \<noteq> WEBSOCKET_SPACE_CODE)
                       (drop offset (take (sz - 1) data))
           in if key = [] then None else Some key))"

definition websocketKey2Accept :: "bytes \<Rightarrow> nat \<Rightarrow> bytes option" where
  "websocketKey2Accept data sz =
     (case websocketKey data sz of
        None \<Rightarrow> None
      | Some key \<Rightarrow> Some (base64_encode (sha1 (key @ WEBSOCKET_GUID))))"

definition deleteWebsocket :: "unit hlist \<Rightarrow> u32 \<Rightarrow> unit hlist res" where
  "deleteWebsocket websockets socket =
     bindR (waitSemaphoreLeaf websockets) (\<lambda>ws1.
     bindR (getHash ws1 (mem32 socket)) (\<lambda>websocket.
     bindR (case websocket of None \<Rightarrow> Inr ws1 | Some (k, d) \<Rightarrow> deleteItem ws1 k) (\<lambda>ws2.
       postSemaphoreLeaf ws2)))"

text \<open>The frame, made on the first call: FIN and binary, size 9, latitude, longitude, protocol.\<close>

definition locationFrame :: "geoip list \<Rightarrow> bytes \<Rightarrow> byte \<Rightarrow> bytes res" where
  "locationFrame table ip protocol =
     bindR (findGeoip table (htonl (rd32 ip 12))) (\<lambda>i.
     bindR (nth_res table i) (\<lambda>geoipSingle.
       Inr ([0x82, 0x09] @ mem32 (g_lat geoipSingle) @ mem32 (g_lon geoipSingle) @ [protocol])))"

type_synonym frame_sends = "bytes \<times> (u32 \<times> bytes) list"

definition broadcastCallback :: "geoip list \<Rightarrow> bytes \<Rightarrow> byte \<Rightarrow> (unit, frame_sends) callback" where
  "broadcastCallback table ip protocol path hash d s =
     (case s of (data, sent) \<Rightarrow>
        bindR (if data ! 0 = 0 then locationFrame table ip protocol else Inr data) (\<lambda>data'.
          Inr (Keep d, (data', sent @ [(rd32 hash 0, data')]), False)))"

definition broadcast ::
  "unit hlist \<Rightarrow> geoip list \<Rightarrow> bytes \<Rightarrow> byte \<Rightarrow> (unit hlist \<times> (u32 \<times> bytes) list) res" where
  "broadcast websockets table ip protocol =
     bindR (mapList (broadcastCallback table ip protocol) [] (replicate WEBSOCKET_SIZE_FRAME 0, []) websockets)
       (\<lambda>(ws, (data, sent), b). Inr (ws, sent))"

section \<open>The handshake\<close>

lemma takeWhile_key:
  assumes "\<forall>x \<in> set key. P x" "\<not> P c" "length key \<le> n"
  shows "takeWhile P (take n (key @ c # rest)) = key"
  using assms by (cases "n - length key") (simp_all add: takeWhile_append2)

text \<open>The accept value of a handshake is the one the protocol asks for: the Base64 rendering (28
characters) of the SHA-1 digest, as the standard defines it, of the key of the request
followed by the protocol's GUID.\<close>

theorem websocket_accept_value:
  assumes "data = pre @ WEBSOCKET_HEADER_KEY @ key @ c # rest"
    "strstr data WEBSOCKET_HEADER_KEY = Some (length pre)"
    "key \<noteq> []" "13 \<notin> set key" "32 \<notin> set key" "c = 13 \<or> c = 32"
    "length pre + length WEBSOCKET_HEADER_KEY + length key < sz"
  shows "\<exists>v. websocketKey2Accept data sz = Some v \<and> length v = 28 \<and>
    base64_decode v = std_sha1 (key @ WEBSOCKET_GUID)"
proof -
  let ?o = "length pre + length WEBSOCKET_HEADER_KEY"
  have "drop ?o (take (sz - 1) data) = take (sz - 1 - ?o) (key @ c # rest)"
    unfolding drop_take assms(1) by simp
  moreover have "takeWhile (\<lambda>c. c \<noteq> WEBSOCKET_RETURN_CODE \<and> c \<noteq> WEBSOCKET_SPACE_CODE)
      (take (sz - 1 - ?o) (key @ c # rest)) = key"
    by (rule takeWhile_key) (use assms(4-7) in \<open>auto simp: WEBSOCKET_RETURN_CODE_def WEBSOCKET_SPACE_CODE_def\<close>)
  ultimately have k: "websocketKey data sz = Some key"
    using assms(2,3) by (simp add: websocketKey_def Let_def)
  have s: "sha1 (key @ WEBSOCKET_GUID) = std_sha1 (key @ WEBSOCKET_GUID)" "length (sha1 (key @ WEBSOCKET_GUID)) = 20"
    using sha1_standard by blast+
  show ?thesis
    using base64_inverse [of "sha1 (key @ WEBSOCKET_GUID)"] s by (simp add: websocketKey2Accept_def k)
qed

theorem websocket_accept_value_witness:
  "\<exists>v. websocketKey2Accept (WEBSOCKET_HEADER_KEY @ [97, 98, 13, 10]) 23 = Some v \<and> length v = 28"
proof -
  have "strstr (WEBSOCKET_HEADER_KEY @ [97, 98] @ 13 # [10]) WEBSOCKET_HEADER_KEY = Some (length ([] :: bytes))"
    unfolding WEBSOCKET_HEADER_KEY_def by code_simp
  moreover have "length ([] :: bytes) + length WEBSOCKET_HEADER_KEY + length [97, 98 :: byte] < 23"
    by (simp add: WEBSOCKET_HEADER_KEY_def)
  ultimately show ?thesis
    using websocket_accept_value [of "WEBSOCKET_HEADER_KEY @ [97, 98] @ 13 # [10]" "[]" "[97, 98]" 13 "[10]" 23]
    by auto
qed

section \<open>The list of websockets\<close>

lemma waitSemaphoreLeaf_params: "waitSemaphoreLeaf l = Inr l1 \<Longrightarrow> hashLength l1 = hashLength l \<and> level l1 = level l"
  by (auto simp: waitSemaphoreLeaf_def split: if_splits option.splits)

lemma level0_leaf: "level l = 0 \<Longrightarrow> getLeaf l h = Inr l" "level l = 0 \<Longrightarrow> updLeaf l h f = Inr (f l)"
  by (simp_all add: getLeaf_def updLeaf_def getLeafFrom.simps [of _ _ _ _ l] updLeafFrom.simps [of _ _ _ _ _ l])

lemma set_items_id: "set_items (leafItems l) l = l"
  by (cases l) simp

text \<open>Deleting a websocket removes the entry of its socket, if there is one, and nothing else, and
leaves the semaphore of the list as it was.\<close>

lemma deleteWebsocket_removes_the_socket:
  assumes "wf_hlist ws" "leaves_free ws" "level ws = 0" "hashLength ws = 4"
  shows "\<exists>ws'. deleteWebsocket ws s = Inr ws' \<and> wf_hlist ws' \<and> leaves_free ws' \<and> same_params ws ws' \<and>
    allItems ws' = filter (\<lambda>(k, d). k \<noteq> mem32 s) (allItems ws)"
proof -
  let ?k = "mem32 s"
  from wait_post [OF assms(3,2)] obtain l1 where l1: "waitSemaphoreLeaf ws = Inr l1" "leafItems l1 = leafItems ws"
    "\<And>xs. postSemaphoreLeaf (set_items xs l1) = Inr (set_items xs ws)" by blast
  note p = waitSemaphoreLeaf_params [OF l1(1)]
  have "getHash ws ?k = Inr (map_option (Pair ?k) (map_of (allItems ws) ?k))"
    by (rule getHash_map_of [OF assms(1)]) (simp add: assms(4))
  then have g: "getHash l1 ?k = Inr (map_option (Pair ?k) (map_of (allItems ws) ?k))"
    using p assms(3) l1(2) by (simp add: getHash_def level0_leaf)
  show ?thesis
  proof (cases "map_of (allItems ws) ?k")
    case None
    then have "filter (\<lambda>(k, d). k \<noteq> ?k) (allItems ws) = allItems ws"
      by (force simp: map_of_eq_None_iff intro!: filter_True)
    moreover have "deleteWebsocket ws s = Inr ws"
      using l1(3) [of "leafItems ws"] None
      by (simp add: deleteWebsocket_def l1(1) g) (metis l1(2) set_items_id)
    ultimately show ?thesis using assms by auto
  next
    case (Some d)
    then obtain P Q where pq: "allItems ws = P @ (?k, d) # Q" by (meson map_of_SomeD split_list)
    from deleteItem_found [OF assms(1) pq] obtain l' where l': "deleteItem ws ?k = Inr l'" "wf_hlist l'"
      "same_params ws l'" "allItems l' = P @ Q" by blast
    have "distinct (map fst (allItems ws))" by (rule wf_hlist_distinct [OF assms(1)])
    then have "?k \<notin> keys P" "?k \<notin> keys Q" unfolding pq by auto
    then have "filter (\<lambda>(k, d). k \<noteq> ?k) P = P" "filter (\<lambda>(k, d). k \<noteq> ?k) Q = Q"
      by (force intro!: filter_True)+
    then have "filter (\<lambda>(k, d). k \<noteq> ?k) (allItems ws) = P @ Q" by (simp add: pq)
    moreover have "deleteWebsocket ws s = Inr l'"
      using l'(1) assms(3) p l1(2,3) Some
      by (simp add: deleteWebsocket_def l1(1) g deleteItem_def level0_leaf)
    ultimately show ?thesis
      using l' deleteItem_leaves_free [OF l'(1) assms(2)] by simp
  qed
qed

definition sample_websockets :: "unit hlist" where
  "sample_websockets = HList [] [([3, 0, 0, 0], None), ([5, 0, 0, 0], None)] (Some 1) BIG_ENDIAN 4 0 1"

lemma sample_websockets_ok: "wf_hlist sample_websockets" "leaves_free sample_websockets"
  "allItems sample_websockets = [([3, 0, 0, 0], None), ([5, 0, 0, 0], None)]"
  by (simp_all add: sample_websockets_def wf_hlist_def header_def hasSemaphore_def
      LIST_SEMAPHORE_ENABLE_LEAF_def leaves_free.simps allItems.simps)

section \<open>The broadcast\<close>

lemma broadcast_items:
  assumes "locationFrame table ip protocol = Inr f" "f ! 0 \<noteq> 0" "data = f \<or> data ! 0 = 0"
  shows "mapItems (broadcastCallback table ip protocol) p (data, sent) xs =
    Inr (xs, (if xs = [] then data else f, sent @ map (\<lambda>(k, d). (rd32 k 0, f)) xs), False)"
  using assms(3)
proof (induction xs arbitrary: data sent)
  case (Cons x xs)
  obtain k d where x: "x = (k, d)" by (cases x)
  have "(if data ! 0 = 0 then locationFrame table ip protocol else Inr data) = Inr f"
    using Cons.prems assms(1,2) by auto
  then show ?case using Cons.IH [of f] by (simp add: x broadcastCallback_def)
qed simp

lemma broadcast_ok:
  assumes "wf_hlist ws" "leaves_free ws" "findGeoip table (htonl (rd32 ip 12)) = Inr i" "i < length table"
  shows "\<exists>ws' f. broadcast ws table ip protocol = Inr (ws', map (\<lambda>(k, d). (rd32 k 0, f)) (allItems ws)) \<and>
    f = [0x82, 0x09] @ mem32 (g_lat (table ! i)) @ mem32 (g_lon (table ! i)) @ [protocol] \<and> length f = 11 \<and>
    allItems ws' = allItems ws \<and> wf_hlist ws' \<and> leaves_free ws' \<and> same_params ws ws'"
proof -
  let ?f = "[0x82, 0x09] @ mem32 (g_lat (table ! i)) @ mem32 (g_lon (table ! i)) @ [protocol]"
  have f: "locationFrame table ip protocol = Inr ?f"
    using assms(3,4) by (simp add: locationFrame_def)
  have items: "mapItems (broadcastCallback table ip protocol) [] (replicate WEBSOCKET_SIZE_FRAME 0, []) (allItems ws) =
      Inr (allItems ws, (if allItems ws = [] then replicate WEBSOCKET_SIZE_FRAME 0 else ?f,
        [] @ map (\<lambda>(k, d). (rd32 k 0, ?f)) (allItems ws)), False)"
    by (rule broadcast_items [OF f]) (simp_all add: WEBSOCKET_SIZE_FRAME_def)
  have cb: "broadcastCallback table ip protocol q k d u = broadcastCallback table ip protocol [] k d u" for q k d u
    by (simp add: broadcastCallback_def)
  from mapList_flat [OF assms(1,2) cb items, of "[]"]
  show ?thesis by (auto simp: broadcast_def)
qed

text \<open>C36: A broadcast hands the same frame, of 11 bytes, with the position and the protocol of the
client, to the socket of every websocket of the list exactly once and in the order of the
list, and leaves the list as it is.\<close>

theorem broadcast_reaches_every_websocket:
  assumes "wf_hlist ws" "leaves_free ws" "findGeoip table (htonl (rd32 ip 12)) = Inr i" "i < length table"
  shows "\<exists>ws' f. broadcast ws table ip protocol = Inr (ws', map (\<lambda>(k, d). (rd32 k 0, f)) (allItems ws)) \<and>
    f = [0x82, 0x09] @ mem32 (g_lat (table ! i)) @ mem32 (g_lon (table ! i)) @ [protocol] \<and> length f = 11 \<and>
    allItems ws' = allItems ws \<and> wf_hlist ws' \<and> leaves_free ws' \<and> same_params ws ws'"
  by (rule broadcast_ok [OF assms])

theorem broadcast_reaches_every_websocket_witness:
  "\<exists>ws'. broadcast sample_websockets [geoip0] (replicate 16 0) 1 =
     Inr (ws', [(3, [0x82, 9, 0, 0, 0, 0, 0, 0, 0, 0, 1]), (5, [0x82, 9, 0, 0, 0, 0, 0, 0, 0, 0, 1])])"
proof -
  have "findGeoip [geoip0] (htonl (rd32 (replicate 16 0) 12)) = Inr 0"
    by (simp add: findGeoip_def nth_res_def geoip0_def)
  moreover have "(0 :: nat) < length [geoip0]" by simp
  ultimately show ?thesis
    using broadcast_reaches_every_websocket [OF sample_websockets_ok(1,2), of "[geoip0]" "replicate 16 0" 0 1]
    by (auto simp: sample_websockets_ok(3) rd32_def geoip0_def mem32_def)
qed

end
