(* ===== verification/Socket_Garbage.thy ===== *)
theory Socket_Garbage
  imports Leaf_Lock Websocket Socket_Http
begin

text \<open>
  The open connections of a TCP worker (socket\_garbage.h, socket\_garbage.c), the collector of
  connections that were silent for too long (thread\_garbage.c) and the accept loop that deals new
  connections out to the workers (socket\_tcp.c). A socket is the int it is in the code, as 32
  bits; its memory image is its hash in the list. What a step does to the outside is a list of
  actions; what close and send return, and the clock, are inputs.
\<close>

section \<open>The data of a socket\<close>

record socketData =
  s_socket :: u32
  s_equeue :: u32
  s_time :: int

definition socketData0 :: socketData where
  "socketData0 = \<lparr>s_socket = 0, s_equeue = 0, s_time = 0\<rparr>"

datatype os_action =
  Watch u32 u32 | Set_nonblocking u32 | Unwatch u32 u32 | Close u32 | Send_to u32 bytes

text \<open>The socket is entered with the current time; the leaf is locked unless the caller holds it.\<close>

definition updateSocketL ::
  "int \<Rightarrow> socketData hlist \<Rightarrow> u32 \<Rightarrow> u32 \<Rightarrow> bool \<Rightarrow> socketData hlist res" where
  "updateSocketL now socketList socket equeue useSemaphore =
     (let pSocket = mem32 socket in
      bindR (getLeaf socketList pSocket) (\<lambda>leaf.
      bindR (if useSemaphore then lockLeaf socketList pSocket else Inr socketList) (\<lambda>sl1.
      bindR (setHash sl1 pSocket) (\<lambda>(sl2, d).
        let sd = (case d of None \<Rightarrow> socketData0 | Some s \<Rightarrow> s) in
      bindR (putData sl2 pSocket (Some (sd\<lparr>s_socket := socket, s_equeue := equeue, s_time := now\<rparr>))) (\<lambda>sl3.
        if useSemaphore then unlockLeaf sl3 pSocket else Inr sl3)))))"

text \<open>The socket leaves its equeue and is closed; closeErr is what close returns (None is success).\<close>

definition closeSocket ::
  "(u32 \<Rightarrow> int option) \<Rightarrow> socketData \<Rightarrow> stats \<Rightarrow> (stats \<times> os_action list) res" where
  "closeSocket closeErr sd st =
     (let acts = [Unwatch (s_equeue sd) (s_socket sd), Close (s_socket sd)] in
      case closeErr (s_socket sd) of
        Some e \<Rightarrow> bindR (incErrnoOf Close_errno e st) (\<lambda>st1. Inr (incStat Close_failed st1, acts))
      | None \<Rightarrow> Inr (incStat Close_pass st, acts))"

definition deleteSocketItemL ::
  "(u32 \<Rightarrow> int option) \<Rightarrow> socketData item option \<Rightarrow> socketData hlist \<Rightarrow> stats \<Rightarrow>
   (socketData hlist \<times> stats \<times> os_action list) res" where
  "deleteSocketItemL closeErr it sl st =
     (case it of
        None \<Rightarrow> Inr (sl, st, [])
      | Some (k, None) \<Rightarrow> Inl Null_deref
      | Some (k, Some sd) \<Rightarrow>
          bindR (closeSocket closeErr sd st) (\<lambda>(st1, acts).
          bindR (deleteItem sl k) (\<lambda>sl1. Inr (sl1, st1, acts))))"

definition deleteSocketL ::
  "(u32 \<Rightarrow> int option) \<Rightarrow> socketData hlist \<Rightarrow> u32 \<Rightarrow> stats \<Rightarrow>
   (socketData hlist \<times> stats \<times> os_action list) res" where
  "deleteSocketL closeErr socketList socket st =
     (let pSocket = mem32 socket in
      bindR (lockLeaf socketList pSocket) (\<lambda>sl1.
      bindR (getHash sl1 pSocket) (\<lambda>it.
      bindR (deleteSocketItemL closeErr it sl1 st) (\<lambda>(sl2, st1, acts).
      bindR (unlockLeaf sl2 pSocket) (\<lambda>sl3. Inr (sl3, st1, acts))))))"

section \<open>Sockets that time out\<close>

definition timeoutRender :: render where
  "timeoutRender = \<lparr>h_block = [], h_code = 408, h_message = lit ''Request Timeout'', h_size = 15,
     h_canKeepAlive = False, h_socketTimeout = 0, h_charset = None, h_contentType = None, h_websocketKey = None\<rparr>"

text \<open>The state of the callback: the counters, the websockets, and what it did to the outside.\<close>

type_synonym garbage_state = "stats \<times> unit hlist \<times> os_action list"

definition garbageSocketTimeoutCallback ::
  "(u32 \<Rightarrow> int option) \<Rightarrow> (u32 \<Rightarrow> bytes \<Rightarrow> send_result list) \<Rightarrow> int \<Rightarrow> (socketData, garbage_state) callback" where
  "garbageSocketTimeoutCallback closeErr answers maxTimeAllow path hash d s =
     (case s of (st, websockets, acts) \<Rightarrow>
        case d of
          None \<Rightarrow> Inl Null_deref
        | Some sd \<Rightarrow>
            if s_time sd < maxTimeAllow then
              bindR (renderHttpMessage timeoutRender st) (\<lambda>(r, st1).
              bindR (deliver answers True (s_socket sd) (h_block r) st1) (\<lambda>st2.
              bindR (deleteWebsocket websockets (s_socket sd)) (\<lambda>ws1.
              bindR (closeSocket closeErr sd st2) (\<lambda>(st3, closing).
                Inr (Remove, (st3, ws1, acts @ Send_to (s_socket sd) (h_block r) # closing), False)))))
            else Inr (Keep d, s, False))"

text \<open>The pass over the list of one worker, under the semaphore of the whole list.\<close>

definition garbageSocketPass ::
  "(u32 \<Rightarrow> int option) \<Rightarrow> (u32 \<Rightarrow> bytes \<Rightarrow> send_result list) \<Rightarrow> int \<Rightarrow> u16 \<Rightarrow> socketData hlist \<Rightarrow> garbage_state \<Rightarrow>
   (socketData hlist \<times> garbage_state) res" where
  "garbageSocketPass closeErr answers now socketTimeout socketList s =
     bindR (waitSemaphoreLeaf socketList) (\<lambda>sl1.
       let maxTimeAllow = now - uint socketTimeout - 1 in
       bindR (mapList (garbageSocketTimeoutCallback closeErr answers maxTimeAllow) [] s sl1) (\<lambda>(sl2, s', _).
       bindR (postSemaphoreLeaf sl2) (\<lambda>sl3. Inr (sl3, s'))))"

text \<open>One turn of the handler: the lists of all workers, each with the time it is read at.\<close>

fun garbageSocketTimeoutHandler ::
  "(u32 \<Rightarrow> int option) \<Rightarrow> (u32 \<Rightarrow> bytes \<Rightarrow> send_result list) \<Rightarrow> u16 \<Rightarrow> (int \<times> socketData hlist) list \<Rightarrow> garbage_state \<Rightarrow>
   (socketData hlist list \<times> garbage_state) res" where
  "garbageSocketTimeoutHandler closeErr answers socketTimeout [] s = Inr ([], s)"
| "garbageSocketTimeoutHandler closeErr answers socketTimeout ((now, sl) # rest) s =
     bindR (garbageSocketPass closeErr answers now socketTimeout sl s) (\<lambda>(sl', s').
     bindR (garbageSocketTimeoutHandler closeErr answers socketTimeout rest s') (\<lambda>(sls, s'').
       Inr (sl' # sls, s'')))"

section \<open>New connections\<close>

datatype accept_result = Accept_error int | Accepted u32

text \<open>
  The body of the loop of serverTcpHandler: the result of accept, counted; the connection goes
  to the next worker, is entered in its list and watched by its equeue.
\<close>

definition nextWorker :: "nat \<Rightarrow> nat \<Rightarrow> nat" where
  "nextWorker workers currentThread = (if currentThread + 1 = workers then 0 else currentThread + 1)"

definition acceptStep ::
  "int \<Rightarrow> u32 list \<Rightarrow> accept_result \<Rightarrow> stats \<Rightarrow> nat \<Rightarrow> socketData hlist list \<Rightarrow>
   (stats \<times> nat \<times> socketData hlist list \<times> os_action list) res" where
  "acceptStep now equeues ev st currentThread socketLists =
     (case ev of
        Accept_error e \<Rightarrow>
          bindR (incErrnoOf Accept_errno e st) (\<lambda>st1. Inr (incStat Accept_failed st1, currentThread, socketLists, []))
      | Accepted clientSocket \<Rightarrow>
          if clientSocket = 0 then Inr (incStat Accept_failed st, currentThread, socketLists, [])
          else (let t = nextWorker (length socketLists) currentThread in
            bindR (nth_res equeues t) (\<lambda>equeueThread.
            bindR (nth_res socketLists t) (\<lambda>sl.
            bindR (updateSocketL now sl clientSocket equeueThread True) (\<lambda>sl'.
              Inr (incStat Accept_pass st, t, socketLists[t := sl'],
                [Watch equeueThread clientSocket, Set_nonblocking clientSocket]))))))"

section \<open>The invariants\<close>

definition socket_item :: "socketData item \<Rightarrow> bool" where
  "socket_item x \<longleftrightarrow> (\<exists>sd. snd x = Some sd \<and> fst x = mem32 (s_socket sd))"

text \<open>
  A worker's list: its items are those of their sockets, its global semaphore has the value v;
  it is free between the steps.
\<close>

definition sockets_at :: "nat \<Rightarrow> socketData hlist \<Rightarrow> bool" where
  "sockets_at v sl \<longleftrightarrow> wf_hlist sl \<and> leaves_free sl \<and> hashLength sl = 4 \<and> 0 < level sl \<and>
     semaphoreEnabled sl \<noteq> 0 \<and> semaphore sl = Some v \<and> (\<forall>x \<in> set (allItems sl). socket_item x)"

definition wf_sockets :: "socketData hlist \<Rightarrow> bool" where
  "wf_sockets sl \<longleftrightarrow> (\<exists>v. sockets_at (Suc v) sl)"

definition wf_websockets :: "unit hlist \<Rightarrow> bool" where
  "wf_websockets ws \<longleftrightarrow> wf_hlist ws \<and> leaves_free ws \<and> level ws = 0 \<and> hashLength ws = 4"

text \<open>The sockets a list holds, as a map.\<close>

definition sockets :: "socketData hlist \<Rightarrow> u32 \<Rightarrow> socketData option" where
  "sockets sl s = (case map_of (allItems sl) (mem32 s) of None \<Rightarrow> None | Some d \<Rightarrow> d)"

text \<open>The semaphore at the top of a table is not touched by the operations on its leaves.\<close>

lemma updLeaf_top:
  "updLeaf l h f = Inr l' \<Longrightarrow> 0 < level l \<Longrightarrow> semaphore l' = semaphore l \<and> level l' = level l"
  unfolding updLeaf_def updLeafFrom.simps [of _ _ _ _ _ l]
  by (auto simp: bindR_Inr_iff split: if_splits)

lemma op_top:
  assumes "0 < level l"
  shows "lockLeaf l h = Inr l' \<Longrightarrow> semaphore l' = semaphore l \<and> level l' = level l"
    "unlockLeaf l h = Inr l' \<Longrightarrow> semaphore l' = semaphore l \<and> level l' = level l"
    "setHash l h = Inr (l', d) \<Longrightarrow> semaphore l' = semaphore l \<and> level l' = level l"
    "putData l h v = Inr l' \<Longrightarrow> semaphore l' = semaphore l \<and> level l' = level l"
    "deleteItem l h = Inr l' \<Longrightarrow> semaphore l' = semaphore l \<and> level l' = level l"
  using updLeaf_top [OF _ assms]
  by (auto simp: lockLeaf_def unlockLeaf_def setHash_def putData_def deleteItem_def bindR_Inr_iff split_beta)

lemma mapList_top: "mapList cb p s l = Inr (l', r) \<Longrightarrow> 0 < level l \<Longrightarrow> semaphore l' = semaphore l"
  by (cases r) (auto simp: mapList.simps [of _ _ _ l] bindR_Inr_iff)


lemma sockets_at_top:
  assumes "sockets_at v sl" "same_params sl l'" "semaphore l' = semaphore sl" "wf_hlist l'" "leaves_free l'"
    "\<forall>x \<in> set (allItems l'). socket_item x"
  shows "sockets_at v l'"
  using assms by (simp add: sockets_at_def same_params_def)

lemma sockets_at_store:
  assumes "sockets_at v sl"
  shows "wf_hlist sl" "leaves_free sl" "length (mem32 s) = hashLength sl" "0 < level sl"
  using assms by (simp_all add: sockets_at_def)

lemma sockets_Some:
  assumes "sockets_at v sl" "map_of (allItems sl) (mem32 s) = Some d"
  obtains sd where "d = Some sd" "s_socket sd = s" "sockets sl s = Some sd"
proof -
  have "(mem32 s, d) \<in> set (allItems sl)" by (rule map_of_SomeD [OF assms(2)])
  with assms(1) have "socket_item (mem32 s, d)" unfolding sockets_at_def by blast
  then obtain sd where "d = Some sd" "s_socket sd = s" by (auto simp: socket_item_def)
  with assms(2) that show thesis by (simp add: sockets_def)
qed

lemma socket_items_update:
  assumes "\<forall>x \<in> set (allItems sl). socket_item x" "wf_hlist sl'"
    "map_of (allItems sl') = (map_of (allItems sl))(mem32 s \<mapsto> Some sd)" "s_socket sd = s"
  shows "\<forall>x \<in> set (allItems sl'). socket_item x"
proof
  fix x
  assume "x \<in> set (allItems sl')"
  moreover obtain k d where kd: "x = (k, d)" by (cases x)
  ultimately have x: "x = (k, d)" "map_of (allItems sl') k = Some d"
    using wf_hlist_distinct [OF assms(2)] by (simp_all add: map_of_is_SomeI)
  show "socket_item x"
  proof (cases "k = mem32 s")
    case True
    with x assms(3,4) show ?thesis by (auto simp: socket_item_def)
  next
    case False
    with x assms(3) have "(k, d) \<in> set (allItems sl)" by (simp add: map_of_SomeD)
    with x assms(1) show ?thesis by blast
  qed
qed

section \<open>updateSocketL\<close>

lemma socketData_update [simp]:
  "sd\<lparr>s_socket := s, s_equeue := e, s_time := n\<rparr> = \<lparr>s_socket = s, s_equeue = e, s_time = n\<rparr>"
  by (cases sd) simp

text \<open>Under the lock of the caller: the list seen through the lock is updated.\<close>

lemma updateSocketL_held:
  assumes "sockets_at v sl" "lockLeaf sl (mem32 s) = Inr sl1"
  shows "\<exists>sl' sl2. updateSocketL now sl1 s e False = Inr sl2 \<and> lockLeaf sl' (mem32 s) = Inr sl2 \<and> sockets_at v sl' \<and>
    same_params sl sl' \<and> sockets sl' = (sockets sl)(s \<mapsto> \<lparr>s_socket = s, s_equeue = e, s_time = now\<rparr>)"
proof -
  let ?sd = "\<lparr>s_socket = s, s_equeue = e, s_time = now\<rparr>"
  from gl.upsert_locked [OF sockets_at_store(1-3) [OF assms(1)] assms(2), of "Some ?sd"] obtain a b sl' where u:
    "setHash sl1 (mem32 s) = Inr (a, case map_of (allItems sl) (mem32 s) of None \<Rightarrow> None | Some d \<Rightarrow> d)"
    "putData a (mem32 s) (Some ?sd) = Inr b" "lockLeaf sl' (mem32 s) = Inr b" "wf_hlist sl'" "leaves_free sl'"
    "same_params sl sl'" "map_of (allItems sl') = (map_of (allItems sl))(mem32 s \<mapsto> Some ?sd)" .
  obtain leaf where leaf: "getLeaf sl1 (mem32 s) = Inr leaf" by (rule locked_read [OF assms(2)]) blast
  have "updateSocketL now sl1 s e False = Inr b"
    using u(1,2) leaf by (simp add: updateSocketL_def Let_def)
  moreover have "semaphore sl' = semaphore sl"
  proof -
    have p: "0 < level sl" by (rule sockets_at_store(4) [OF assms(1)])
    note s1 = op_top(1) [OF p assms(2)]
    then have "0 < level sl1" using p by simp
    note s2 = op_top(3) [OF this u(1)]
    then have "0 < level a" using s1 p by simp
    note s3 = op_top(4) [OF this u(2)]
    have "0 < level sl'" using u(6) p by (simp add: same_params_def)
    note s4 = op_top(1) [OF this u(3)]
    show ?thesis by (simp only: s4 [THEN conjunct1, symmetric] s3 s2 s1)
  qed
  moreover have "\<forall>x \<in> set (allItems sl'). socket_item x"
    by (rule socket_items_update [OF _ u(4,7)]) (use assms(1) in \<open>simp_all add: sockets_at_def\<close>)
  moreover have "sockets sl' = (sockets sl)(s \<mapsto> ?sd)"
    by (auto simp: fun_eq_iff sockets_def u(7))
  ultimately show ?thesis using u sockets_at_top [OF assms(1) u(6)] by blast
qed


lemma updateSocketL_alone:
  assumes "sockets_at v sl"
  shows "\<exists>sl'. updateSocketL now sl s e True = Inr sl' \<and> sockets_at v sl' \<and> same_params sl sl' \<and>
    sockets sl' = (sockets sl)(s \<mapsto> \<lparr>s_socket = s, s_equeue = e, s_time = now\<rparr>)"
proof -
  from gl.lock_ok [OF sockets_at_store(1-3) [OF assms]] obtain sl1 where sl1: "lockLeaf sl (mem32 s) = Inr sl1" ..
  from updateSocketL_held [OF assms sl1] obtain sl' sl2 where u: "updateSocketL now sl1 s e False = Inr sl2"
    "lockLeaf sl' (mem32 s) = Inr sl2" "sockets_at v sl'" "same_params sl sl'"
    "sockets sl' = (sockets sl)(s \<mapsto> \<lparr>s_socket = s, s_equeue = e, s_time = now\<rparr>)" by blast
  have "updateSocketL now sl s e True = Inr sl'"
    using u(1) sl1 locked_unlock [OF u(2)]
    by (auto simp: updateSocketL_def Let_def bindR_Inr_iff lockLeaf_iff split_beta)
  with u show ?thesis by blast
qed

lemma updateSocketL_wf:
  assumes "wf_sockets sl"
  shows "\<exists>sl'. updateSocketL now sl s e True = Inr sl' \<and> wf_sockets sl' \<and> same_params sl sl' \<and>
    sockets sl' = (sockets sl)(s \<mapsto> \<lparr>s_socket = s, s_equeue = e, s_time = now\<rparr>)"
  using assms updateSocketL_alone unfolding wf_sockets_def by blast

section \<open>deleteSocketL\<close>

lemma closeSocket_ok:
  assumes "wf_stats st" "\<forall>s e. closeErr s = Some e \<longrightarrow> 0 \<le> e"
  shows "\<exists>st'. closeSocket closeErr sd st = Inr (st', [Unwatch (s_equeue sd) (s_socket sd), Close (s_socket sd)]) \<and> wf_stats st'"
proof (cases "closeErr (s_socket sd)")
  case None
  then show ?thesis using assms(1) by (simp add: closeSocket_def)
next
  case (Some e)
  then have "0 \<le> e" using assms(2) by blast
  from incErrnoOf_ok [OF assms(1) this, of Close_errno] obtain st1 where
    "incErrnoOf Close_errno e st = Inr st1" "wf_stats st1" by metis
  with Some show ?thesis by (simp add: closeSocket_def)
qed

lemma deleteSocketL_ok:
  assumes "sockets_at v sl" "wf_stats st" "\<forall>s e. closeErr s = Some e \<longrightarrow> 0 \<le> e"
  shows "\<exists>sl' st'. deleteSocketL closeErr sl s st = Inr (sl', st',
      case sockets sl s of None \<Rightarrow> [] | Some sd \<Rightarrow> [Unwatch (s_equeue sd) s, Close s]) \<and>
    sockets_at v sl' \<and> same_params sl sl' \<and> wf_stats st' \<and> allItems sl' = filter (\<lambda>x. fst x \<noteq> mem32 s) (allItems sl)"
proof (cases "map_of (allItems sl) (mem32 s)")
  case None
  from gl.guarded_absent [OF sockets_at_store(1-3) [OF assms(1)] None] obtain l1 where
    "lockLeaf sl (mem32 s) = Inr l1" "getHash l1 (mem32 s) = Inr None" "unlockLeaf l1 (mem32 s) = Inr sl" .
  moreover have "filter (\<lambda>x. fst x \<noteq> mem32 s) (allItems sl) = allItems sl"
    using None by (force simp: map_of_eq_None_iff intro!: filter_True)
  ultimately show ?thesis
    using assms None by (simp add: deleteSocketL_def deleteSocketItemL_def sockets_def)
next
  case (Some d)
  from assms(1) Some obtain sd where sd: "d = Some sd" "s_socket sd = s" "sockets sl s = Some sd" by (rule sockets_Some)
  from gl.guarded_delete [OF sockets_at_store(1,2) [OF assms(1)] Some] obtain l1 l2 l' where g:
    "lockLeaf sl (mem32 s) = Inr l1" "getHash l1 (mem32 s) = Inr (Some (mem32 s, d))" "deleteItem l1 (mem32 s) = Inr l2"
    "unlockLeaf l2 (mem32 s) = Inr l'" "wf_hlist l'" "leaves_free l'" "same_params sl l'"
    "allItems l' = filter (\<lambda>x. fst x \<noteq> mem32 s) (allItems sl)" .
  from closeSocket_ok [OF assms(2,3), of sd] obtain st' where st':
    "closeSocket closeErr sd st = Inr (st', [Unwatch (s_equeue sd) (s_socket sd), Close (s_socket sd)])" "wf_stats st'" by blast
  have "deleteSocketL closeErr sl s st = Inr (l', st', [Unwatch (s_equeue sd) s, Close s])"
    using g(1-4) st' sd by (simp add: deleteSocketL_def deleteSocketItemL_def)
  moreover have "sockets_at v l'"
  proof (rule sockets_at_top [OF assms(1) g(7) _ g(5,6)])
    have p: "0 < level sl" by (rule sockets_at_store(4) [OF assms(1)])
    note s1 = op_top(1) [OF p g(1)]
    then have "0 < level l1" using p by simp
    note s2 = op_top(5) [OF this g(3)]
    then have "0 < level l2" using s1 p by simp
    note s3 = op_top(2) [OF this g(4)]
    show "semaphore l' = semaphore sl" by (simp only: s3 s2 s1)
    show "\<forall>x \<in> set (allItems l'). socket_item x" using assms(1) g(8) by (simp add: sockets_at_def)
  qed
  ultimately show ?thesis using g st' sd by auto
qed


section \<open>The semaphore of a worker's list\<close>

lemma sockets_wait:
  assumes "sockets_at (Suc v) sl"
  shows "\<exists>l1. waitSemaphoreLeaf sl = Inr l1 \<and> sockets_at v l1 \<and> allItems l1 = allItems sl"
proof -
  have w: "wf_hlist sl" "level sl > 0" "semaphoreEnabled sl \<noteq> 0" "semaphore sl = Some (Suc v)"
    using assms by (simp_all add: sockets_at_def)
  from top_semaphore [OF w] obtain l1 where "waitSemaphoreLeaf sl = Inr l1" "wf_hlist l1"
    "leaves_free l1 = leaves_free sl" "same_params sl l1" "allItems l1 = allItems sl" "semaphore l1 = Some v" .
  with assms show ?thesis by (auto simp: sockets_at_def same_params_def)
qed

lemma sockets_post:
  assumes "sockets_at v sl"
  shows "\<exists>l1. postSemaphoreLeaf sl = Inr l1 \<and> sockets_at (Suc v) l1 \<and> allItems l1 = allItems sl"
proof -
  let ?l = "set_semaphore (Some (Suc v)) sl"
  have w: "wf_hlist sl" "level sl > 0" "semaphoreEnabled sl \<noteq> 0" "semaphore sl = Some v"
    using assms by (simp_all add: sockets_at_def)
  then obtain n where "level sl = Suc n" by (cases "level sl") auto
  with w have "wf_hlist ?l" by (auto simp: wf_hlist_def header_def)
  moreover have "leaves_free ?l = leaves_free sl" "allItems ?l = allItems sl"
    using w(2) by (simp_all add: leaves_free_node allItems_node)
  ultimately have "sockets_at (Suc v) ?l" using assms by (simp add: sockets_at_def)
  moreover have "postSemaphoreLeaf sl = Inr ?l" using w by (simp add: postSemaphoreLeaf_def)
  ultimately show ?thesis using \<open>allItems ?l = allItems sl\<close> by blast
qed

section \<open>A pass of the collector\<close>

text \<open>What a socket that timed out is sent.\<close>

definition timeoutMessage :: bytes where
  "timeoutMessage = lit ''HTTP/1.0 408 Request Timeout'' @ CRLF @ lit ''Connection: Close'' @ CRLF @
     lit ''Content-Type: text/plain'' @ CRLF @ lit ''Content-Length: 37'' @ CRLF @
     lit ''Server: github.com/truekenny/etracker'' @ CRLF @ CRLF @ lit ''d14:failure reason15:Request Timeoute''"

lemma timeout_rendered:
  "\<exists>r. renderHttpMessage timeoutRender st = Inr (r, incStat Http_408 st) \<and> h_block r = timeoutMessage"
proof -
  have d: "dec 15 = lit ''15''" "dec 37 = lit ''37''" by (simp_all add: dec.simps lit_def)
  have b: "failureBody 15 (lit ''Request Timeout'') = lit ''d14:failure reason15:Request Timeoute''"
    by (simp add: failureBody_def d) (simp add: lit_def)
  show ?thesis
    by (simp add: renderHttpMessage_def timeoutRender_def statusLine_def connectionLines_def contentTypeLine_def b d
        Let_def timeoutMessage_def) (simp add: lit_def)
qed

definition expired :: "int \<Rightarrow> socketData item \<Rightarrow> bool" where
  "expired limit x \<longleftrightarrow> (case snd x of None \<Rightarrow> False | Some sd \<Rightarrow> s_time sd < limit)"

fun timeout_actions :: "socketData item \<Rightarrow> os_action list" where
  "timeout_actions (k, None) = []"
| "timeout_actions (k, Some sd) = [Send_to (s_socket sd) timeoutMessage, Unwatch (s_equeue sd) (s_socket sd), Close (s_socket sd)]"

lemma deleteWebsocket_ok:
  assumes "wf_websockets ws"
  shows "\<exists>ws'. deleteWebsocket ws s = Inr ws' \<and> wf_websockets ws' \<and>
    allItems ws' = filter (\<lambda>x. fst x \<noteq> mem32 s) (allItems ws)"
proof -
  have "filter (\<lambda>(k, d). k \<noteq> mem32 s) (allItems ws) = filter (\<lambda>x. fst x \<noteq> mem32 s) (allItems ws)"
    by (rule filter_cong) auto
  with deleteWebsocket_removes_the_socket [of ws s] assms show ?thesis
    by (auto simp: wf_websockets_def same_params_def)
qed

lemma timeout_items:
  assumes "wf_stats st" "wf_websockets ws" "\<forall>x \<in> set xs. socket_item x" "kernel_sends answers"
    "\<forall>s e. closeErr s = Some e \<longrightarrow> 0 \<le> e"
  shows "\<exists>st' ws'. mapItems (garbageSocketTimeoutCallback closeErr answers limit) p (st, ws, acts) xs =
      Inr (filter (\<lambda>x. \<not> expired limit x) xs,
        (st', ws', acts @ concat (map timeout_actions (filter (expired limit) xs))), False) \<and>
    wf_stats st' \<and> wf_websockets ws' \<and>
    allItems ws' = filter (\<lambda>x. fst x \<notin> keys (filter (expired limit) xs)) (allItems ws)"
  using assms(1-3)
proof (induction xs arbitrary: st ws acts)
  case Nil
  then show ?case by (auto simp: filter_True)
next
  case (Cons x xs)
  obtain sd where x: "x = (mem32 (s_socket sd), Some sd)"
    using Cons.prems(3) by (cases x) (auto simp: socket_item_def)
  show ?case
  proof (cases "s_time sd < limit")
    case False
    have "\<forall>x \<in> set xs. socket_item x" using Cons.prems(3) by simp
    from Cons.IH [OF Cons.prems(1,2) this, of acts] obtain st' ws' where
      "mapItems (garbageSocketTimeoutCallback closeErr answers limit) p (st, ws, acts) xs =
      Inr (filter (\<lambda>x. \<not> expired limit x) xs,
        (st', ws', acts @ concat (map timeout_actions (filter (expired limit) xs))), False)" "wf_stats st'" "wf_websockets ws'"
      "allItems ws' = filter (\<lambda>x. fst x \<notin> keys (filter (expired limit) xs)) (allItems ws)" by blast
    moreover have "garbageSocketTimeoutCallback closeErr answers limit p (mem32 (s_socket sd)) (Some sd) (st, ws, acts) =
        Inr (Keep (Some sd), (st, ws, acts), False)"
      using False by (simp add: garbageSocketTimeoutCallback_def)
    moreover have "\<not> expired limit x" using False x by (simp add: expired_def)
    ultimately show ?thesis using x by simp
  next
    case True
    from timeout_rendered obtain r where r: "renderHttpMessage timeoutRender st = Inr (r, incStat Http_408 st)"
      "h_block r = timeoutMessage" by blast
    have "wf_stats (incStat Http_408 st)" using Cons.prems(1) by simp
    from deliver_ok [OF this assms(4)] obtain st2 where st2:
      "deliver answers True (s_socket sd) timeoutMessage (incStat Http_408 st) = Inr st2" "wf_stats st2" by blast
    from deleteWebsocket_ok [OF Cons.prems(2)] obtain ws1 where ws1: "deleteWebsocket ws (s_socket sd) = Inr ws1"
      "wf_websockets ws1" "allItems ws1 = filter (\<lambda>x. fst x \<noteq> mem32 (s_socket sd)) (allItems ws)" by blast
    from closeSocket_ok [OF st2(2) assms(5)] obtain st3 where st3: "closeSocket closeErr sd st2 =
      Inr (st3, [Unwatch (s_equeue sd) (s_socket sd), Close (s_socket sd)])" "wf_stats st3" by blast
    have cb: "garbageSocketTimeoutCallback closeErr answers limit p (mem32 (s_socket sd)) (Some sd) (st, ws, acts) =
        Inr (Remove, (st3, ws1, acts @ timeout_actions x), False)"
      using True r st2 ws1 st3 x by (simp add: garbageSocketTimeoutCallback_def)
    have "\<forall>x \<in> set xs. socket_item x" using Cons.prems(3) by simp
    from Cons.IH [OF st3(2) ws1(2) this, of "acts @ timeout_actions x"] obtain st' ws' where IH:
      "mapItems (garbageSocketTimeoutCallback closeErr answers limit) p (st3, ws1, acts @ timeout_actions x) xs =
      Inr (filter (\<lambda>x. \<not> expired limit x) xs,
        (st', ws', (acts @ timeout_actions x) @ concat (map timeout_actions (filter (expired limit) xs))), False)"
      "wf_stats st'" "wf_websockets ws'"
      "allItems ws' = filter (\<lambda>x. fst x \<notin> keys (filter (expired limit) xs)) (allItems ws1)" by blast
    have e: "expired limit x" using True x by (simp add: expired_def)
    have "allItems ws' = filter (\<lambda>y. fst y \<notin> keys (filter (expired limit) (x # xs))) (allItems ws)"
      unfolding IH(4) ws1(3) filter_filter using e x by (intro filter_cong) auto
    with IH e cb x show ?thesis by (intro exI [of _ st'] exI [of _ ws']) simp
  qed
qed

lemma garbageSocketPass_ok:
  assumes "wf_sockets sl" "wf_stats st" "wf_websockets ws" "kernel_sends answers"
    "\<forall>s e. closeErr s = Some e \<longrightarrow> 0 \<le> e" "limit = now - uint socketTimeout - 1"
  shows "\<exists>sl' st' ws'. garbageSocketPass closeErr answers now socketTimeout sl (st, ws, acts) =
      Inr (sl', (st', ws', acts @ concat (map timeout_actions (filter (expired limit) (allItems sl))))) \<and>
    wf_sockets sl' \<and> wf_stats st' \<and> wf_websockets ws' \<and>
    allItems sl' = filter (\<lambda>x. \<not> expired limit x) (allItems sl) \<and>
    allItems ws' = filter (\<lambda>x. fst x \<notin> keys (filter (expired limit) (allItems sl))) (allItems ws)"
proof -
  let ?cb = "garbageSocketTimeoutCallback closeErr answers limit"
  let ?acts = "acts @ concat (map timeout_actions (filter (expired limit) (allItems sl)))"
  from assms(1) obtain v where v: "sockets_at (Suc v) sl" by (auto simp: wf_sockets_def)
  from sockets_wait [OF v] obtain l1 where l1: "waitSemaphoreLeaf sl = Inr l1" "sockets_at v l1" "allItems l1 = allItems sl"
    by blast
  have w: "wf_hlist l1" "leaves_free l1" "0 < level l1" "\<forall>x \<in> set (allItems l1). socket_item x"
    using l1(2) by (simp_all add: sockets_at_def)
  from timeout_items [OF assms(2,3) w(4) assms(4,5), of limit "[]" acts] obtain st' ws' where it:
    "mapItems ?cb [] (st, ws, acts) (allItems l1) =
      Inr (filter (\<lambda>x. \<not> expired limit x) (allItems sl), (st', ws', ?acts), False)"
    "wf_stats st'" "wf_websockets ws'"
    "allItems ws' = filter (\<lambda>x. fst x \<notin> keys (filter (expired limit) (allItems sl))) (allItems ws)"
    unfolding l1(3) by blast
  have cb: "?cb q k d u = ?cb [] k d u" for q k d u by (simp add: garbageSocketTimeoutCallback_def)
  from mapList_flat [OF w(1,2) cb it(1), of "[]"] obtain l2 where
    l2: "mapList ?cb [] (st, ws, acts) l1 = Inr (l2, (st', ws', ?acts), False)"
    "allItems l2 = filter (\<lambda>x. \<not> expired limit x) (allItems sl)" "wf_hlist l2" "leaves_free l2" "same_params l1 l2" by blast
  have "sockets_at v l2"
    by (rule sockets_at_top [OF l1(2) l2(5) mapList_top [OF l2(1) w(3)] l2(3,4)]) (use w(4) l1(3) l2(2) in simp)
  from sockets_post [OF this] obtain l3 where l3: "postSemaphoreLeaf l2 = Inr l3" "sockets_at (Suc v) l3"
    "allItems l3 = allItems l2" by blast
  have "garbageSocketPass closeErr answers now socketTimeout sl (st, ws, acts) = Inr (l3, (st', ws', ?acts))"
    using l1(1) l2(1) l3(1) assms(6) by (simp add: garbageSocketPass_def Let_def)
  with it l2(2) l3(2,3) show ?thesis by (auto simp: wf_sockets_def)
qed


section \<open>Properties\<close>

definition sample_leaf :: "socketData item list \<Rightarrow> socketData hlist" where
  "sample_leaf xs = HList [] xs (Some 1) LITTLE_ENDIAN 4 0 3"

definition sample_sockets :: "socketData hlist" where
  "sample_sockets = HList (replicate 5 (sample_leaf []) @
      [sample_leaf [([5, 0, 0, 0], Some \<lparr>s_socket = 5, s_equeue = 9, s_time = 100\<rparr>)],
       sample_leaf [([6, 0, 0, 0], Some \<lparr>s_socket = 6, s_equeue = 9, s_time = 10\<rparr>)]] @
      replicate 249 (sample_leaf []))
     [] (Some 1) LITTLE_ENDIAN 4 1 3"

text \<open>An update enters the socket with its equeue and the current time, keeps every other socket of
the list, never fails, and gives back the semaphore it takes; the update under the caller's lock
does the same to the list behind the lock.\<close>

theorem updateSocketL_is_map_update:
  assumes "wf_sockets sl"
  shows "(\<exists>sl'. updateSocketL now sl s e True = Inr sl' \<and> wf_sockets sl' \<and>
      sockets sl' = (sockets sl)(s \<mapsto> \<lparr>s_socket = s, s_equeue = e, s_time = now\<rparr>)) \<and>
    (\<exists>sl1 sl2 sl'. lockLeaf sl (mem32 s) = Inr sl1 \<and> updateSocketL now sl1 s e False = Inr sl2 \<and>
      unlockLeaf sl2 (mem32 s) = Inr sl' \<and> updateSocketL now sl s e True = Inr sl')"
proof -
  from assms obtain v where v: "sockets_at (Suc v) sl" by (auto simp: wf_sockets_def)
  from gl.lock_ok [OF sockets_at_store(1-3) [OF v]] obtain sl1 where sl1: "lockLeaf sl (mem32 s) = Inr sl1" ..
  from updateSocketL_held [OF v sl1] obtain sl' sl2 where u: "updateSocketL now sl1 s e False = Inr sl2"
    "lockLeaf sl' (mem32 s) = Inr sl2" by blast
  have "updateSocketL now sl s e True = Inr sl'"
    using u(1) sl1 locked_unlock [OF u(2)]
    by (auto simp: updateSocketL_def Let_def bindR_Inr_iff lockLeaf_iff split_beta)
  with u sl1 locked_unlock [OF u(2)] updateSocketL_wf [OF assms, of now s e] show ?thesis by blast
qed


lemma sample_sockets_ok: "wf_sockets sample_sockets"
  "allItems sample_sockets = [([5, 0, 0, 0], Some \<lparr>s_socket = 5, s_equeue = 9, s_time = 100\<rparr>),
     ([6, 0, 0, 0], Some \<lparr>s_socket = 6, s_equeue = 9, s_time = 10\<rparr>)]"
proof -
  have leaf: "wf_node 0 (Suc 0) LITTLE_ENDIAN 4 3 (sample_leaf xs)" if "sorted_wrt (<) (map fst xs)" "\<forall>x \<in> set xs. length (fst x) = 4" for xs
    using that by (auto simp: sample_leaf_def header_def hasSemaphore_def LIST_SEMAPHORE_ENABLE_LEAF_def)
  have al: "allItems (sample_leaf xs) = xs" for xs by (simp add: sample_leaf_def allItems.simps)
  show items: "allItems sample_sockets = [([5, 0, 0, 0], Some \<lparr>s_socket = 5, s_equeue = 9, s_time = 100\<rparr>),
     ([6, 0, 0, 0], Some \<lparr>s_socket = 6, s_equeue = 9, s_time = 10\<rparr>)]"
    by (simp add: sample_sockets_def allItems_node al)
  let ?a = "sample_leaf [([5, 0, 0, 0], Some \<lparr>s_socket = 5, s_equeue = 9, s_time = 100\<rparr>)]"
  let ?b = "sample_leaf [([6, 0, 0, 0], Some \<lparr>s_socket = 6, s_equeue = 9, s_time = 10\<rparr>)]"
  have nth: "subLists sample_sockets ! i = (if i = 5 then ?a else if i = 6 then ?b else sample_leaf [])" if "i < 256" for i
    using that by (auto simp: sample_sockets_def nth_append nth_Cons')
  have node: "wf_node 0 1 LITTLE_ENDIAN 4 3 (subLists sample_sockets ! i) \<and>
      (\<forall>k \<in> keys (allItems (subLists sample_sockets ! i)). route LITTLE_ENDIAN 4 0 k = i)" if "i < 256" for i
    unfolding nth [OF that] by (simp add: leaf al route_def del: wf_node.simps)
  have "wf_node 1 0 LITTLE_ENDIAN 4 3 sample_sockets"
    using node by (simp add: sample_sockets_def header_def hasSemaphore_def LIST_SEMAPHORE_ENABLE_GLOBAL_def LIST_BYTE_SIZE_def)
  then have "wf_hlist sample_sockets" by (simp add: wf_hlist_def) (simp add: sample_sockets_def)
  moreover have "leaves_free sample_sockets"
    by (simp add: sample_sockets_def leaves_free.simps sample_leaf_def)
  moreover have "\<forall>x \<in> set (allItems sample_sockets). socket_item x"
    by (simp add: items socket_item_def mem32_def)
  ultimately show "wf_sockets sample_sockets"
    by (simp add: wf_sockets_def sockets_at_def) (simp add: sample_sockets_def)
qed

theorem updateSocketL_is_map_update_witness:
  "\<exists>sl'. updateSocketL 200 sample_sockets 6 9 True = Inr sl' \<and>
     sockets sl' 6 = Some \<lparr>s_socket = 6, s_equeue = 9, s_time = 200\<rparr> \<and> sockets sl' 5 = sockets sample_sockets 5"
  using updateSocketL_is_map_update [OF sample_sockets_ok(1), of 200 6 9] by auto



text \<open>The connections of a run of the accept loop, one after the other.\<close>

fun acceptLoop ::
  "u32 list \<Rightarrow> (int \<times> accept_result) list \<Rightarrow> stats \<Rightarrow> nat \<Rightarrow> socketData hlist list \<Rightarrow>
   (stats \<times> nat \<times> socketData hlist list \<times> os_action list) res" where
  "acceptLoop equeues [] st t sls = Inr (st, t, sls, [])"
| "acceptLoop equeues ((now, ev) # evs) st t sls =
     bindR (acceptStep now equeues ev st t sls) (\<lambda>(st1, t1, sls1, acts).
     bindR (acceptLoop equeues evs st1 t1 sls1) (\<lambda>(st2, t2, sls2, acts2). Inr (st2, t2, sls2, acts @ acts2)))"

text \<open>The sockets accepted in a run, in order.\<close>

definition accepted :: "(int \<times> accept_result) list \<Rightarrow> u32 list" where
  "accepted evs = concat (map (\<lambda>(now, ev). case ev of Accept_error e \<Rightarrow> [] | Accepted s \<Rightarrow> if s = 0 then [] else [s]) evs)"

lemma nextWorker_mod: "t < w \<Longrightarrow> nextWorker w t = Suc t mod w"
  by (cases "Suc t = w") (simp_all add: nextWorker_def)

lemma acceptStep_ok:
  assumes "wf_stats st" "t < length sls" "length equeues = length sls" "\<forall>sl \<in> set sls. wf_sockets sl"
    "\<forall>e. ev = Accept_error e \<longrightarrow> 0 \<le> e"
  shows "\<exists>st' sls'. acceptStep now equeues ev st t sls =
      Inr (st', (t + length (accepted [(now, ev)])) mod length sls, sls',
        concat (map (\<lambda>s. [Watch (equeues ! (Suc t mod length sls)) s, Set_nonblocking s]) (accepted [(now, ev)]))) \<and>
    wf_stats st' \<and> length sls' = length sls \<and> (\<forall>sl \<in> set sls'. wf_sockets sl)"
proof (cases ev)
  case (Accept_error e)
  then have "0 \<le> e" using assms(5) by simp
  from incErrnoOf_ok [OF assms(1) this, of Accept_errno] obtain st1 where "incErrnoOf Accept_errno e st = Inr st1" "wf_stats st1"
    by metis
  with Accept_error assms show ?thesis by (simp add: acceptStep_def accepted_def)
next
  case (Accepted s)
  show ?thesis
  proof (cases "s = 0")
    case True
    with Accepted assms show ?thesis by (simp add: acceptStep_def accepted_def)
  next
    case False
    let ?t = "Suc t mod length sls"
    have t: "?t < length sls" by (rule mod_less_divisor) (use assms(2) in linarith)
    have "wf_sockets (sls ! ?t)" using t assms(4) by simp
    from updateSocketL_wf [OF this, of now s "equeues ! ?t"] obtain sl' where
      sl': "updateSocketL now (sls ! ?t) s (equeues ! ?t) True = Inr sl'" "wf_sockets sl'" by blast
    have "\<forall>sl \<in> set (sls[?t := sl']). wf_sockets sl"
      using assms(4) sl'(2) set_update_subset_insert [of sls ?t sl'] by blast
    with Accepted False t assms(1-3) sl' show ?thesis
      by (auto simp: acceptStep_def accepted_def nextWorker_mod Let_def)
  qed
qed

text \<open>The accept loop deals the connections out to the workers in turn: after any run of accepts and
failures no step has failed, the list of every worker is well formed, and the i-th accepted socket
is watched by the equeue of the worker i + 1 places behind the one the run began at.\<close>

theorem accept_loop_round_robin:
  assumes "wf_stats st" "t < length sls" "length equeues = length sls" "\<forall>sl \<in> set sls. wf_sockets sl"
    "\<forall>(now, ev) \<in> set evs. \<forall>e. ev = Accept_error e \<longrightarrow> 0 \<le> e"
  shows "\<exists>st' sls'. acceptLoop equeues evs st t sls = Inr (st', (t + length (accepted evs)) mod length sls, sls',
      concat (map (\<lambda>(i, s). [Watch (equeues ! ((t + i + 1) mod length sls)) s, Set_nonblocking s])
        (enumerate 0 (accepted evs)))) \<and>
    wf_stats st' \<and> length sls' = length sls \<and> (\<forall>sl \<in> set sls'. wf_sockets sl)"
  using assms
proof (induction evs arbitrary: st t sls)
  case Nil
  then show ?case by (simp add: accepted_def)
next
  case (Cons x evs)
  obtain now ev where x: "x = (now, ev)" by (cases x)
  let ?n = "length sls" and ?new = "accepted [(now, ev)]"
  have ev: "\<forall>e. ev = Accept_error e \<longrightarrow> 0 \<le> e" using Cons.prems(5) x by simp
  from acceptStep_ok [OF Cons.prems(1-4) ev, of now] obtain st1 sls1 where s:
    "acceptStep now equeues ev st t sls = Inr (st1, (t + length ?new) mod ?n, sls1,
       concat (map (\<lambda>s. [Watch (equeues ! (Suc t mod ?n)) s, Set_nonblocking s]) ?new))"
    "wf_stats st1" "length sls1 = ?n" "\<forall>sl \<in> set sls1. wf_sockets sl" by blast
  let ?t = "(t + length ?new) mod ?n"
  have t1: "?t < length sls1" unfolding s(3) by (rule mod_less_divisor) (use Cons.prems(2) in linarith)
  have len: "length equeues = length sls1" using Cons.prems(3) s(3) by simp
  have evs: "\<forall>(now, ev) \<in> set evs. \<forall>e. ev = Accept_error e \<longrightarrow> 0 \<le> e" using Cons.prems(5) by simp
  from Cons.IH [OF s(2) t1 len s(4) evs, unfolded s(3)] obtain st2 sls2 where r:
    "acceptLoop equeues evs st1 ?t sls1 = Inr (st2, (?t + length (accepted evs)) mod ?n, sls2,
      concat (map (\<lambda>(i, s). [Watch (equeues ! ((?t + i + 1) mod ?n)) s, Set_nonblocking s]) (enumerate 0 (accepted evs))))"
    "wf_stats st2" "length sls2 = ?n" "\<forall>sl \<in> set sls2. wf_sockets sl" by blast
  have acc: "accepted (x # evs) = ?new @ accepted evs" by (simp add: accepted_def x)
  have new: "?new = [] \<or> (\<exists>s. ?new = [s])" by (auto simp: accepted_def split: accept_result.split)
  have m: "(?t + i + 1) mod ?n = (t + (length ?new + i) + 1) mod ?n" for i
    using mod_add_left_eq [of "t + length ?new" ?n "i + 1"] by (simp add: add.assoc)
  have e: "enumerate (length ?new) (accepted evs) = map (\<lambda>(i, s). (length ?new + i, s)) (enumerate 0 (accepted evs))"
    by (rule nth_equalityI) (auto simp: nth_enumerate_eq)
  let ?F = "\<lambda>(i, s). [Watch (equeues ! ((t + i + 1) mod ?n)) s, Set_nonblocking s]"
  let ?A = "concat (map (\<lambda>s. [Watch (equeues ! (Suc t mod ?n)) s, Set_nonblocking s]) ?new)"
  let ?B = "concat (map (\<lambda>(i, s). [Watch (equeues ! ((?t + i + 1) mod ?n)) s, Set_nonblocking s]) (enumerate 0 (accepted evs)))"
  have B: "?B = concat (map ?F (enumerate (length ?new) (accepted evs)))"
    unfolding e map_map by (intro arg_cong [where f = concat] map_cong refl) (auto simp: m [simplified])
  have A: "?A = concat (map ?F (enumerate 0 ?new))" using new by auto
  have "concat (map ?F (enumerate 0 (accepted (x # evs)))) = ?A @ ?B"
    unfolding A B acc enumerate_append_eq by simp
  moreover have "(?t + length (accepted evs)) mod ?n = (t + length (accepted (x # evs))) mod ?n"
    by (simp add: acc mod_add_left_eq add.assoc)
  moreover have "acceptLoop equeues (x # evs) st t sls = Inr (st2, (?t + length (accepted evs)) mod ?n, sls2, ?A @ ?B)"
    unfolding x acceptLoop.simps s(1) bindR.simps prod.case r(1) ..
  ultimately have "acceptLoop equeues (x # evs) st t sls =
      Inr (st2, (t + length (accepted (x # evs))) mod ?n, sls2, concat (map ?F (enumerate 0 (accepted (x # evs)))))" by argo
  with r(2-4) show ?case by blast
qed


theorem accept_loop_round_robin_witness:
  "\<exists>st' sls'. acceptLoop [7, 8] [(1, Accepted 4), (2, Accept_error 24), (3, Accepted 5)] (stats0 0) 0 [sample_sockets, sample_sockets]
     = Inr (st', 0, sls', [Watch 8 4, Set_nonblocking 4, Watch 7 5, Set_nonblocking 5])"
proof -
  have a: "accepted [(1, Accepted 4), (2, Accept_error 24), (3, Accepted 5)] = [4, 5]" by (simp add: accepted_def)
  have e: "enumerate 0 [4, 5 :: u32] = [(0, 4), (1, 5)]" by simp
  have "(0 :: nat) < length [sample_sockets, sample_sockets]" "length [7, 8 :: u32] = length [sample_sockets, sample_sockets]"
    "\<forall>sl \<in> set [sample_sockets, sample_sockets]. wf_sockets sl" using sample_sockets_ok(1) by simp_all
  from accept_loop_round_robin [OF wf_stats0 [of 0] this, of "[(1, Accepted 4), (2, Accept_error 24), (3, Accepted 5)]"]
  show ?thesis unfolding a e by (simp add: numeral_2_eq_2) blast
qed

end
