(* ===== verification/Interval_Ctl.thy ===== *)
theory Interval_Ctl
  imports C_Prelude Complex_Main
begin

text \<open>
  The announce interval (interval.h, interval.c): how the required interval follows the load
  average of the host and how the actual interval approaches it second by second. The load
  averages are what getloadavg returns (None when it fails); a double is the rational it denotes.
\<close>

definition INTERVAL_STEP_S :: u32 where "INTERVAL_STEP_S = 60"

record interval =
  i_interval :: u32
  i_requireInterval :: u32
  i_previousInterval :: u32
  i_maxInterval :: u32
  i_minInterval :: u32

definition niceInterval :: "interval \<Rightarrow> u32 \<Rightarrow> u32" where
  "niceInterval iv value = min (i_maxInterval iv) (max (i_minInterval iv) value)"

definition updateInterval :: "(rat \<times> rat \<times> rat) option \<Rightarrow> nat \<Rightarrow> rat \<Rightarrow> interval \<Rightarrow> interval" where
  "updateInterval load processors maxLoadAvg iv =
     (case load of
        None \<Rightarrow> iv
      | Some (l0, l1, l2) \<Rightarrow>
          (let maxAllow = (if maxLoadAvg = 0 then rat_of_nat processors - 1 / 2 else maxLoadAvg);
               req = i_requireInterval iv;
               local = (if l0 < maxAllow \<and> l1 < maxAllow \<and> l2 < maxAllow then req - INTERVAL_STEP_S
                        else if l0 > maxAllow \<and> l1 > maxAllow \<and> l2 > maxAllow then req + INTERVAL_STEP_S
                        else req)
           in iv\<lparr>i_previousInterval := req, i_requireInterval := niceInterval iv local\<rparr>))"

definition forceUpdateInterval :: "interval \<Rightarrow> u32 \<Rightarrow> interval" where
  "forceUpdateInterval iv value =
     (let v = niceInterval iv value in
      iv\<lparr>i_interval := v, i_requireInterval := v, i_previousInterval := v\<rparr>)"

text \<open>
  One step, and the seconds to sleep after it: round of the quotient by 60, at least 1 (the
  quotient of an unsigned int by 60 is exact enough in a double for round to be this).
\<close>

definition stepInterval :: "interval \<Rightarrow> interval \<times> u32" where
  "stepInterval iv =
     ((if i_interval iv < i_requireInterval iv then iv\<lparr>i_interval := i_interval iv + 1\<rparr>
       else if i_interval iv > i_requireInterval iv then iv\<lparr>i_interval := i_interval iv - 1\<rparr>
       else iv),
      of_nat (max ((unat (i_previousInterval iv) + 30) div 60) 1))"

section \<open>Bounds and convergence\<close>

definition in_bounds :: "interval \<Rightarrow> u32 \<Rightarrow> bool" where
  "in_bounds iv v \<longleftrightarrow> i_minInterval iv \<le> v \<and> v \<le> i_maxInterval iv"

lemma niceInterval_bounds:
  "i_minInterval iv \<le> i_maxInterval iv \<Longrightarrow> in_bounds iv (niceInterval iv v)"
  by (auto simp: in_bounds_def niceInterval_def min_def max_def)

lemma niceInterval_id: "in_bounds iv v \<Longrightarrow> niceInterval iv v = v"
  by (auto simp: in_bounds_def niceInterval_def min_def max_def)

definition distance :: "interval \<Rightarrow> nat" where
  "distance iv = nat \<bar>uint (i_interval iv) - uint (i_requireInterval iv)\<bar>"

lemma uint_inc: "a < b \<Longrightarrow> uint (a + 1 :: u32) = uint a + 1"
  using uint_bounded [of b] by (simp add: uint_plus_if' word_less_def)

lemma uint_dec: "b < a \<Longrightarrow> uint (a - 1 :: u32) = uint a - 1"
proof -
  assume "b < a"
  moreover have "0 \<le> uint b" by simp
  ultimately have "1 \<le> uint a" unfolding word_less_def by linarith
  then show ?thesis by (simp add: uint_sub_if')
qed

lemma stepInterval_distance: "distance (fst (stepInterval iv)) = distance iv - 1"
proof -
  let ?a = "i_interval iv" and ?r = "i_requireInterval iv"
  consider "?a < ?r" | "?a > ?r" | "?a = ?r" by fastforce
  then show ?thesis
  proof cases
    case 1
    with uint_inc [OF 1] show ?thesis by (simp add: stepInterval_def distance_def word_less_def)
  next
    case 2
    with uint_dec [OF 2] show ?thesis by (simp add: stepInterval_def distance_def word_less_def)
  next
    case 3
    then show ?thesis by (simp add: stepInterval_def distance_def)
  qed
qed

lemma stepInterval_params:
  "i_requireInterval (fst (stepInterval iv)) = i_requireInterval iv"
  "i_previousInterval (fst (stepInterval iv)) = i_previousInterval iv"
  "i_minInterval (fst (stepInterval iv)) = i_minInterval iv"
  "i_maxInterval (fst (stepInterval iv)) = i_maxInterval iv"
  by (simp_all add: stepInterval_def)

lemma stepInterval_between:
  assumes "a < (r :: u32)" shows "a \<le> a + 1" "a + 1 \<le> r"
  using assms uint_inc [OF assms] by (simp_all add: word_le_def word_less_def)

lemma stepInterval_between_down:
  assumes "r < (a :: u32)" shows "r \<le> a - 1" "a - 1 \<le> a"
  using assms uint_dec [OF assms] by (simp_all add: word_le_def word_less_def)

lemma niceInterval_uint:
  "uint (niceInterval iv v) = min (uint (i_maxInterval iv)) (max (uint (i_minInterval iv)) (uint v))"
  by (auto simp: niceInterval_def min_def max_def word_le_def)

section \<open>Properties\<close>

text \<open>The actual interval reaches the required one and stays: after n steps the distance
between them has shrunk by n (to 0 when n is at least the distance), and no step touches the
required interval or the limits.\<close>

theorem stepInterval_converges:
  "let iv' = ((\<lambda>v. fst (stepInterval v)) ^^ n) iv in
     distance iv' = distance iv - n \<and> i_requireInterval iv' = i_requireInterval iv \<and>
     i_previousInterval iv' = i_previousInterval iv \<and>
     i_minInterval iv' = i_minInterval iv \<and> i_maxInterval iv' = i_maxInterval iv"
  by (induction n) (simp_all add: Let_def stepInterval_distance stepInterval_params)

text \<open>When the limits are ordered, updateInterval (on a host that reports its load) and
forceUpdateInterval set a required interval within them, and a step between an interval and a
required interval within the limits stays within them; the sleep is at least a second.\<close>

lemma interval_within_limits:
  assumes "i_minInterval iv \<le> i_maxInterval iv"
  shows "in_bounds iv (i_requireInterval (updateInterval (Some load) cpus limit iv)) \<and>
    in_bounds iv (i_interval (forceUpdateInterval iv v)) \<and>
    in_bounds iv (i_requireInterval (forceUpdateInterval iv v)) \<and>
    (in_bounds iv (i_interval iv) \<and> in_bounds iv (i_requireInterval iv) \<longrightarrow>
       in_bounds iv (i_interval (fst (stepInterval iv)))) \<and>
    1 \<le> snd (stepInterval iv)"
proof -
  have "in_bounds iv (i_interval (fst (stepInterval iv)))"
    if "in_bounds iv (i_interval iv)" "in_bounds iv (i_requireInterval iv)"
  proof -
    consider "i_interval iv < i_requireInterval iv" | "i_requireInterval iv < i_interval iv"
      | "i_interval iv = i_requireInterval iv" by fastforce
    then show ?thesis
    proof cases
      case 1
      note stepInterval_between [OF 1]
      with 1 that show ?thesis by (auto simp: stepInterval_def in_bounds_def)
    next
      case 2
      note stepInterval_between_down [OF 2]
      with 2 that show ?thesis by (auto simp: stepInterval_def in_bounds_def)
    qed (use that in \<open>simp add: stepInterval_def\<close>)
  qed
  moreover have "1 \<le> snd (stepInterval iv)"
  proof -
    let ?n = "max ((unat (i_previousInterval iv) + 30) div 60) 1"
    have "unat (i_previousInterval iv) < 2 ^ 32" 
      by (rule order_less_le_trans [OF unsigned_less]) simp
    then have "?n < 2 ^ 32" "1 \<le> ?n" by auto
    then have "unat (of_nat ?n :: u32) = ?n" by (simp add: unsigned_of_nat take_bit_nat_eq_self)
    with \<open>1 \<le> ?n\<close> show ?thesis by (simp add: stepInterval_def word_le_nat_alt)
  qed
  moreover have "in_bounds iv (i_requireInterval (updateInterval (Some load) cpus limit iv))"
    using niceInterval_bounds [OF assms] by (cases load) (simp add: updateInterval_def Let_def)
  ultimately show ?thesis
    using niceInterval_bounds [OF assms] by (simp add: forceUpdateInterval_def Let_def)
qed

definition sample_interval :: interval where
  "sample_interval = \<lparr>i_interval = 30, i_requireInterval = 30, i_previousInterval = 30,
     i_maxInterval = 1799, i_minInterval = 239\<rparr>"

text \<open>The regulation: with limits of at least a step and a required interval within them,
a load below the limit in all three averages lowers the required interval by 60 seconds, down
to the minimum; a load above it raises it by 60 seconds, up to the maximum; a load that is
neither leaves it.\<close>

theorem updateInterval_regulates:
  assumes "INTERVAL_STEP_S \<le> i_minInterval iv" "in_bounds iv (i_requireInterval iv)"
    "i_maxInterval iv \<le> - INTERVAL_STEP_S - 1" "limit \<noteq> 0"
  shows "i_requireInterval (updateInterval (Some (l0, l1, l2)) cpus limit iv) =
    (let req = i_requireInterval iv in
     if max l0 (max l1 l2) < limit then max (i_minInterval iv) (req - INTERVAL_STEP_S)
     else if min l0 (min l1 l2) > limit then min (i_maxInterval iv) (req + INTERVAL_STEP_S)
     else req)"
proof -
  let ?r = "i_requireInterval iv"
  have le: "uint ?r + 60 < 2 ^ 32" "60 \<le> uint ?r"
    using assms(1-3) by (simp_all add: in_bounds_def word_le_def INTERVAL_STEP_S_def)
  have minus: "uint (?r - 60) = uint ?r - 60" using le by (simp add: uint_sub_if')
  have plus: "uint (?r + 60) = uint ?r + 60" using le by (simp add: uint_plus_if')
  have b: "uint (i_minInterval iv) \<le> uint ?r" "uint ?r \<le> uint (i_maxInterval iv)"
    using assms(2) by (simp_all add: in_bounds_def word_le_def)
  have down: "niceInterval iv (?r - 60) = max (i_minInterval iv) (?r - 60)"
    using b minus by (auto simp: niceInterval_def min_def max_def word_le_def word_uint_eq_iff)
  have up: "niceInterval iv (?r + 60) = min (i_maxInterval iv) (?r + 60)"
    using b plus by (auto simp: niceInterval_def min_def max_def word_le_def word_uint_eq_iff)
  show ?thesis
    using assms(4) niceInterval_id [OF assms(2)]
    by (auto simp: updateInterval_def Let_def INTERVAL_STEP_S_def down up)
qed

theorem updateInterval_regulates_witness:
  "i_requireInterval (updateInterval (Some (1, 2, 3)) 4 8 (sample_interval\<lparr>i_requireInterval := 300\<rparr>)) = 240"
  using updateInterval_regulates [of "sample_interval\<lparr>i_requireInterval := 300\<rparr>" 8 1 2 3 4]
  by (simp add: sample_interval_def INTERVAL_STEP_S_def in_bounds_def Let_def)

text \<open>Where the required interval is below a step, as main leaves it when -i asks for less
than 60 seconds, an idle host does not lower it: the subtraction wraps round and the required
interval becomes the maximum.\<close>

theorem updateInterval_wraps:
  assumes "i_requireInterval iv < INTERVAL_STEP_S" "i_minInterval iv \<le> i_maxInterval iv"
    "i_maxInterval iv \<le> - INTERVAL_STEP_S" "l0 < limit" "l1 < limit" "l2 < limit" "limit \<noteq> 0"
  shows "i_requireInterval (updateInterval (Some (l0, l1, l2)) cpus limit iv) = i_maxInterval iv"
proof -
  let ?r = "i_requireInterval iv"
  have "uint (?r - 60) = uint ?r - 60 + 2 ^ 32"
    using assms(1) by (simp add: uint_sub_if' word_less_def INTERVAL_STEP_S_def)
  moreover have "uint (i_maxInterval iv) \<le> 2 ^ 32 - 60"
    using assms(3) by (simp add: word_le_def INTERVAL_STEP_S_def)
  moreover have "0 \<le> uint ?r" by simp
  ultimately have "uint (i_maxInterval iv) \<le> uint (?r - 60)" by linarith
  then have "niceInterval iv (?r - 60) = i_maxInterval iv"
    by (auto simp: niceInterval_def min_def max_def word_le_def)
  with assms(4-) show ?thesis by (simp add: updateInterval_def Let_def INTERVAL_STEP_S_def)
qed

theorem updateInterval_wraps_witness:
  "i_requireInterval (updateInterval (Some (1, 2, 3)) 4 8 sample_interval) = 1799"
  using updateInterval_wraps [of sample_interval 1 8 2 3 4]
  by (simp add: sample_interval_def INTERVAL_STEP_S_def)

end
