(* ===== verification/Udp_Structure.thy ===== *)
theory Udp_Structure
  imports C_Prelude
begin

text \<open>
  The packed structures of the UDP protocol (socket\_udp\_structure.h). A request is read from
  the bytes of a datagram at the offsets of its structure; a response is the memory image of
  its structure. The fields keep the values the C fields hold, that is, network byte order
  where the code does not convert them.
\<close>

definition SOCKET_UDP_STRUCTURE_ACTION_CONNECT :: u32 where "SOCKET_UDP_STRUCTURE_ACTION_CONNECT = 0"
definition SOCKET_UDP_STRUCTURE_ACTION_ANNOUNCE :: u32 where "SOCKET_UDP_STRUCTURE_ACTION_ANNOUNCE = 1"
definition SOCKET_UDP_STRUCTURE_ACTION_SCRAPE :: u32 where "SOCKET_UDP_STRUCTURE_ACTION_SCRAPE = 2"
definition SOCKET_UDP_STRUCTURE_ACTION_ERROR :: u32 where "SOCKET_UDP_STRUCTURE_ACTION_ERROR = 3"
definition SOCKET_UDP_STRUCTURE_PROTOCOL_ID :: u64 where
  "SOCKET_UDP_STRUCTURE_PROTOCOL_ID = 0x8019102717040000"

section \<open>Requests\<close>

record connectRequest =
  cr_protocol_id :: u64
  cr_action :: u32
  cr_transaction_id :: u32

definition rd_connectRequest :: "bytes \<Rightarrow> connectRequest" where
  "rd_connectRequest m = \<lparr>cr_protocol_id = rd64 m 0, cr_action = rd32 m 8, cr_transaction_id = rd32 m 12\<rparr>"

record announceRequest =
  ar_connection_id :: u64
  ar_action :: u32
  ar_transaction_id :: u32
  ar_info_hash :: bytes
  ar_peer_id :: bytes
  ar_downloaded :: u64
  ar_left :: u64
  ar_uploaded :: u64
  ar_event :: u32
  ar_ip :: u32
  ar_key :: u32
  ar_num_want :: u32
  ar_port :: u16

definition rd_announceRequest :: "bytes \<Rightarrow> announceRequest" where
  "rd_announceRequest m = \<lparr>ar_connection_id = rd64 m 0, ar_action = rd32 m 8,
     ar_transaction_id = rd32 m 12, ar_info_hash = take 20 (drop 16 m),
     ar_peer_id = take 20 (drop 36 m), ar_downloaded = rd64 m 56, ar_left = rd64 m 64,
     ar_uploaded = rd64 m 72, ar_event = rd32 m 80, ar_ip = rd32 m 84, ar_key = rd32 m 88,
     ar_num_want = rd32 m 92, ar_port = rd16 m 96\<rparr>"

record scrapeRequest =
  sr_connection_id :: u64
  sr_action :: u32
  sr_transaction_id :: u32

definition rd_scrapeRequest :: "bytes \<Rightarrow> scrapeRequest" where
  "rd_scrapeRequest m = \<lparr>sr_connection_id = rd64 m 0, sr_action = rd32 m 8, sr_transaction_id = rd32 m 12\<rparr>"

definition sizeof_connectRequest :: nat where "sizeof_connectRequest = 16"
definition sizeof_announceRequest :: nat where "sizeof_announceRequest = 98"
definition sizeof_scrapeRequest :: nat where "sizeof_scrapeRequest = 16"

section \<open>Responses\<close>

definition connectResponse :: "u32 \<Rightarrow> u32 \<Rightarrow> u64 \<Rightarrow> bytes" where
  "connectResponse action transaction_id connection_id =
     mem32 action @ mem32 transaction_id @ mem64 connection_id"

definition announceHeadResponse :: "u32 \<Rightarrow> u32 \<Rightarrow> u32 \<Rightarrow> u32 \<Rightarrow> u32 \<Rightarrow> bytes" where
  "announceHeadResponse action transaction_id intv leechers seeders =
     mem32 action @ mem32 transaction_id @ mem32 intv @ mem32 leechers @ mem32 seeders"

definition scrapeHeadResponse :: "u32 \<Rightarrow> u32 \<Rightarrow> bytes" where
  "scrapeHeadResponse action transaction_id = mem32 action @ mem32 transaction_id"

definition scrapeTorrentResponse :: "u32 \<Rightarrow> u32 \<Rightarrow> u32 \<Rightarrow> bytes" where
  "scrapeTorrentResponse seeders completed leechers =
     mem32 seeders @ mem32 completed @ mem32 leechers"

lemma length_responses [simp]:
  "length (connectResponse a t n) = 16" "length (announceHeadResponse a t i l s) = 20"
  "length (scrapeHeadResponse a t) = 8" "length (scrapeTorrentResponse s c l) = 12"
  by (simp_all add: connectResponse_def announceHeadResponse_def scrapeHeadResponse_def
      scrapeTorrentResponse_def)

end
