(* ===== verification/Tracker_Data.thy ===== *)
theory Tracker_Data
  imports Hash_List_Laws Uri Stats Interval_Ctl Udp_Structure
begin

text \<open>
  The tracker's data (data.h, data\_structure.h, data.c): torrents with their peers and counters,
  the update of a peer on an announce, its removal on a stop, and the bodies of the announce and
  scrape answers. The torrents are an hlist of torrentDataL, the peers of a torrent an hlist of
  peerDataL; the answers are the bytes the code appends to its blocks. The clock and inet\_ntop
  are arguments.
\<close>

section \<open>struct peerDataL and struct torrentDataL\<close>

definition DATA_MAX_PACKET_SIZE :: nat where "DATA_MAX_PACKET_SIZE = 64000"
definition DATA_FULL_SCRAPE_ENABLE :: bool where "DATA_FULL_SCRAPE_ENABLE = False"
definition DATA_SEPARATE_TCP_AND_UDP_CLIENTS :: bool where "DATA_SEPARATE_TCP_AND_UDP_CLIENTS = False"
definition DATA_STRUCTURE_PEERS_FOR_LEVEL_0_LIMIT :: u32 where
  "DATA_STRUCTURE_PEERS_FOR_LEVEL_0_LIMIT = 256"
definition DATA_STRUCTURE_PEER_PROTOCOL_TCP_BIT :: byte where "DATA_STRUCTURE_PEER_PROTOCOL_TCP_BIT = 1"
definition DATA_STRUCTURE_PEER_PROTOCOL_UDP_BIT :: byte where "DATA_STRUCTURE_PEER_PROTOCOL_UDP_BIT = 2"

record peerDataL =
  p_updateTime :: int
  p_ip6 :: bytes
  p_ip4 :: bytes
  p_port :: u16
  p_event :: byte
  p_protocol :: byte
  p_ipVersion :: byte

definition peerDataL0 :: peerDataL where
  "peerDataL0 = \<lparr>p_updateTime = 0, p_ip6 = replicate 16 0, p_ip4 = replicate 16 0, p_port = 0,
     p_event = 0, p_protocol = 0, p_ipVersion = 0\<rparr>"

record torrentDataL =
  t_peerList :: "peerDataL hlist option"
  t_complete :: u32
  t_incomplete :: u32
  t_downloaded :: u32

definition torrentDataL0 :: torrentDataL where
  "torrentDataL0 = \<lparr>t_peerList = None, t_complete = 0, t_incomplete = 0, t_downloaded = 0\<rparr>"

text \<open>An item pointer of the torrent list: None is NULL, and the data may be NULL as well.\<close>

type_synonym torrent_ptr = "torrentDataL item option"

section \<open>Updating: setTorrentL, changeTorrentStatsL, setPeerPublic, deletePeerPublic\<close>

definition setTorrentL ::
  "torrentDataL hlist \<Rightarrow> bytes \<Rightarrow> (torrentDataL hlist \<times> torrentDataL) res" where
  "setTorrentL torrentList hash =
     bindR (setHash torrentList hash) (\<lambda>(tl1, d).
       case d of
         Some t \<Rightarrow> Inr (tl1, t)
       | None \<Rightarrow>
           bindR (initList 0 0 URI_PARAM_VALUE_LENGTH LIST_SEMAPHORE_DISABLE BIG_ENDIAN) (\<lambda>pl.
             let t = torrentDataL0\<lparr>t_peerList := Some pl\<rparr> in
             bindR (putData tl1 hash (Some t)) (\<lambda>tl2. Inr (tl2, t))))"

definition changeTorrentStatsL :: "torrentDataL \<Rightarrow> byte \<Rightarrow> byte \<Rightarrow> torrentDataL" where
  "changeTorrentStatsL t oldEvent newEvent =
     (if oldEvent = URI_EVENT_ID_NONE then
        (if newEvent = URI_EVENT_ID_COMPLETED
         then t\<lparr>t_downloaded := t_downloaded t + 1, t_complete := t_complete t + 1\<rparr>
         else t\<lparr>t_incomplete := t_incomplete t + 1\<rparr>)
      else if newEvent = URI_EVENT_ID_NONE then
        (if oldEvent = URI_EVENT_ID_COMPLETED
         then t\<lparr>t_complete := t_complete t - 1\<rparr>
         else t\<lparr>t_incomplete := t_incomplete t - 1\<rparr>)
      else if oldEvent \<noteq> newEvent \<and> newEvent \<noteq> URI_EVENT_ID_CONTINUE then
        (if oldEvent = URI_EVENT_ID_COMPLETED
         then t\<lparr>t_complete := t_complete t - 1, t_incomplete := t_incomplete t + 1\<rparr>
         else if newEvent = URI_EVENT_ID_COMPLETED
         then t\<lparr>t_downloaded := t_downloaded t + 1, t_complete := t_complete t + 1,
                t_incomplete := t_incomplete t - 1\<rparr>
         else t)
      else t)"

text \<open>The fields of the peer setPeerPublic writes, and the delay it reports.\<close>

definition updatedPeer :: "int \<Rightarrow> query \<Rightarrow> byte \<Rightarrow> peerDataL \<Rightarrow> peerDataL" where
  "updatedPeer now q protocol p =
     (let p1 = p\<lparr>p_port := q_port q\<rparr>;
          p2 = (if q_ipVersion q AND SOCKET_VERSION_IPV4_BIT \<noteq> 0
                then p1\<lparr>p_ip4 := q_ip q\<rparr> else p1\<lparr>p_ip6 := q_ip q\<rparr>)
      in p2\<lparr>p_updateTime := now, p_event := q_event q, p_protocol := p_protocol p OR protocol,
            p_ipVersion := p_ipVersion p OR q_ipVersion q\<rparr>)"

definition updateDelay :: "int \<Rightarrow> peerDataL \<Rightarrow> u32" where
  "updateDelay now p = (if p_updateTime p \<noteq> 0 then of_int (now - p_updateTime p) else 0)"

text \<open>The peer list the update works on: a list of level 0 that has grown is rebuilt.\<close>

definition grownPeerList :: "torrentDataL \<Rightarrow> peerDataL hlist res" where
  "grownPeerList t =
     (case t_peerList t of
        None \<Rightarrow> Inl Null_deref
      | Some pl \<Rightarrow>
          if t_complete t + t_incomplete t > DATA_STRUCTURE_PEERS_FOR_LEVEL_0_LIMIT \<and> level pl = 0
          then reInitList pl 1 else Inr pl)"

definition setPeerPublic ::
  "int \<Rightarrow> torrentDataL hlist \<Rightarrow> query \<Rightarrow> byte \<Rightarrow> stats \<Rightarrow> (torrentDataL hlist \<times> torrent_ptr \<times> stats) res" where
  "setPeerPublic now torrentList q protocol stats =
     bindR (setTorrentL torrentList (q_info_hash q)) (\<lambda>(tl1, t).
     bindR (grownPeerList t) (\<lambda>pl.
     bindR (setHash pl (q_peer_id q)) (\<lambda>(pl1, d).
       let p = (case d of None \<Rightarrow> peerDataL0 | Some p \<Rightarrow> p);
           oldEvent = (case d of None \<Rightarrow> URI_EVENT_ID_NONE | Some p \<Rightarrow> p_event p);
           t1 = changeTorrentStatsL t oldEvent (q_event q) in
     bindR (updatePeerStat stats (updateDelay now p)) (\<lambda>stats'.
     bindR (putData pl1 (q_peer_id q) (Some (updatedPeer now q protocol p))) (\<lambda>pl2.
       let t2 = t1\<lparr>t_peerList := Some pl2\<rparr> in
     bindR (putData tl1 (q_info_hash q) (Some t2)) (\<lambda>tl2.
       Inr (tl2, Some (q_info_hash q, Some t2), stats')))))))"

definition deletePeerPublic ::
  "torrentDataL hlist \<Rightarrow> query \<Rightarrow> (torrentDataL hlist \<times> torrent_ptr) res" where
  "deletePeerPublic torrentList q =
     bindR (getHash torrentList (q_info_hash q)) (\<lambda>torrent.
       case torrent of
         None \<Rightarrow> Inr (torrentList, None)
       | Some (k, None) \<Rightarrow> Inl Null_deref
       | Some (k, Some t) \<Rightarrow>
           (case t_peerList t of
              None \<Rightarrow> Inl Null_deref
            | Some pl \<Rightarrow>
                bindR (getHash pl (q_peer_id q)) (\<lambda>peer.
                  case peer of
                    None \<Rightarrow> Inr (torrentList, torrent)
                  | Some (pk, None) \<Rightarrow> Inl Null_deref
                  | Some (pk, Some p) \<Rightarrow>
                      bindR (deleteItem pl pk) (\<lambda>pl'.
                        let t' = (changeTorrentStatsL t (p_event p) URI_EVENT_ID_NONE)
                                   \<lparr>t_peerList := Some pl'\<rparr> in
                        bindR (putData torrentList k (Some t')) (\<lambda>tl'.
                          Inr (tl', Some (k, Some t')))))))"

end
