(* ===== verification/Tracker_Laws.thy ===== *)
theory Tracker_Laws
  imports Tracker_Data "HOL-Library.Multiset"
begin

text \<open>
  What setPeerPublic and deletePeerPublic do to the tracker: the invariant of the data
  (wf\_tracker), the map from torrent and peer id to peers they update (tracker\_map), and the
  two readings of the counters a torrent keeps, with the events under which each survives.
\<close>

section \<open>Well-formed data\<close>

text \<open>
  A torrent's peer list is a well-formed, unlocked list of 20-byte hashes without semaphores
  whose items all have data; the torrent list is a well-formed list of 20-byte hashes whose
  items all have data that is a well-formed torrent.
\<close>

definition wf_torrent :: "torrentDataL \<Rightarrow> bool" where
  "wf_torrent t \<longleftrightarrow> (case t_peerList t of None \<Rightarrow> False | Some pl \<Rightarrow>
     wf_hlist pl \<and> leaves_free pl \<and> hashLength pl = URI_PARAM_VALUE_LENGTH \<and>
     semaphoreEnabled pl = LIST_SEMAPHORE_DISABLE \<and> endianness pl = BIG_ENDIAN \<and>
     (\<forall>k. (k, None) \<notin> set (allItems pl)))"

definition wf_tracker :: "torrentDataL hlist \<Rightarrow> bool" where
  "wf_tracker ts \<longleftrightarrow> wf_hlist ts \<and> leaves_free ts \<and> hashLength ts = URI_PARAM_VALUE_LENGTH \<and>
     (\<forall>k d. (k, d) \<in> set (allItems ts) \<longrightarrow> (case d of None \<Rightarrow> False | Some t \<Rightarrow> wf_torrent t))"

text \<open>What a torrent and the tracker store, as maps.\<close>

definition peers_of :: "torrentDataL \<Rightarrow> bytes \<Rightarrow> peerDataL option" where
  "peers_of t k = (case t_peerList t of None \<Rightarrow> None
     | Some pl \<Rightarrow> (case map_of (allItems pl) k of None \<Rightarrow> None | Some d \<Rightarrow> d))"

definition torrent_of :: "torrentDataL hlist \<Rightarrow> bytes \<Rightarrow> torrentDataL option" where
  "torrent_of ts h = (case map_of (allItems ts) h of None \<Rightarrow> None | Some d \<Rightarrow> d)"

definition peer_list :: "torrentDataL \<Rightarrow> peerDataL list" where
  "peer_list t = (case t_peerList t of None \<Rightarrow> [] | Some pl \<Rightarrow> List.map_filter snd (allItems pl))"

definition peersM :: "torrentDataL \<Rightarrow> peerDataL multiset" where
  "peersM t = mset (peer_list t)"

definition tracker_map :: "torrentDataL hlist \<Rightarrow> bytes \<Rightarrow> bytes \<Rightarrow> peerDataL option" where
  "tracker_map ts h k = (case torrent_of ts h of None \<Rightarrow> None | Some t \<Rightarrow> peers_of t k)"

definition query_ok :: "query \<Rightarrow> bool" where
  "query_ok q \<longleftrightarrow> length (q_info_hash q) = URI_PARAM_VALUE_LENGTH \<and>
     length (q_peer_id q) = URI_PARAM_VALUE_LENGTH"

lemma in_allItems_put:
  assumes "allItems l2 = P @ (h, v) # Q" "allItems l = P @ Q \<or> allItems l = P @ (h, d) # Q"
    "(k, e) \<in> set (allItems l2)"
  shows "(k, e) = (h, v) \<or> (k, e) \<in> set (allItems l)"
  using assms by auto

text \<open>Storing a torrent: the tracker is as before but for this torrent.\<close>

lemma store_torrent:
  assumes "wf_tracker ts" "wf_torrent t" "map_of (allItems ts) h = Some d"
  obtains ts' where "putData ts h (Some t) = Inr ts'" "wf_tracker ts'" "same_params ts ts'"
    "torrent_of ts' = (torrent_of ts)(h \<mapsto> t)"
proof -
  have wf: "wf_hlist ts" using assms(1) by (simp add: wf_tracker_def)
  from hl.upsert_found [OF wf assms(3), of "Some t"] obtain l1 l2 P Q where
    l: "setHash ts h = Inr (l1, d)" "putData l1 h (Some t) = Inr l2" "allItems l1 = allItems ts" by metis
  from assms(3) obtain P Q where PQ: "allItems ts = P @ (h, d) # Q" by (rule hl.its_split)
  from hl.put_found [OF wf PQ, of "Some t"] obtain ts' where ts': "putData ts h (Some t) = Inr ts'"
    "wf_hlist ts'" "same_params ts ts'" "allItems ts' = P @ (h, Some t) # Q" by blast
  have "wf_tracker ts'"
    unfolding wf_tracker_def
  proof (intro conjI allI impI)
    fix k e assume "(k, e) \<in> set (allItems ts')"
    from in_allItems_put [OF ts'(4) disjI2 [OF PQ] this] assms(1,2)
    show "case e of None \<Rightarrow> False | Some t \<Rightarrow> wf_torrent t"
      by (auto simp: wf_tracker_def)
  qed (use ts' assms(1) putData_leaves_free [OF ts'(1)] in \<open>auto simp: wf_tracker_def same_params_def\<close>)
  moreover have "torrent_of ts' = (torrent_of ts)(h \<mapsto> t)"
  proof
    fix k
    show "torrent_of ts' k = ((torrent_of ts)(h \<mapsto> t)) k"
      using hl.split_map_of [OF ts'(2,4)] hl.split_map_of [OF wf PQ]
      unfolding torrent_of_def ts'(4) PQ
      by (auto simp: map_add_def split: option.splits)
  qed
  ultimately show thesis using ts' by (intro that)
qed

lemma empty_torrent:
  obtains pl where "initList 0 0 URI_PARAM_VALUE_LENGTH LIST_SEMAPHORE_DISABLE BIG_ENDIAN = Inr pl"
    "wf_torrent (torrentDataL0\<lparr>t_peerList := Some pl\<rparr>)" "allItems pl = []"
proof -
  obtain pl :: "peerDataL hlist" where pl: "initList 0 0 URI_PARAM_VALUE_LENGTH LIST_SEMAPHORE_DISABLE BIG_ENDIAN = Inr pl"
    "wf_hlist pl" "allItems pl = []" "hashLength pl = URI_PARAM_VALUE_LENGTH" "endianness pl = BIG_ENDIAN"
    "semaphoreEnabled pl = LIST_SEMAPHORE_DISABLE"
    "LIST_SEMAPHORE_DISABLE = 0 \<or> LIST_SEMAPHORE_DISABLE AND LIST_SEMAPHORE_ENABLE_LEAF \<noteq> 0 \<longrightarrow> leaves_free pl"
    by (rule initList_ok [of 0 URI_PARAM_VALUE_LENGTH LIST_SEMAPHORE_DISABLE BIG_ENDIAN]) auto
  then show thesis
    by (intro that [of pl]) (auto simp: wf_torrent_def torrentDataL0_def LIST_SEMAPHORE_DISABLE_def)
qed

text \<open>The torrent an announce works on: the stored one, or a new one without peers.\<close>

lemma setTorrentL_ok:
  assumes "wf_tracker ts" "length h = URI_PARAM_VALUE_LENGTH"
  obtains ts' t where "setTorrentL ts h = Inr (ts', t)" "wf_tracker ts'" "same_params ts ts'"
    "wf_torrent t" "torrent_of ts' = (torrent_of ts)(h \<mapsto> t)" "map_of (allItems ts') h = Some (Some t)"
    "case torrent_of ts h of Some t' \<Rightarrow> t = t'
       | None \<Rightarrow> peer_list t = [] \<and> peers_of t = Map.empty \<and> t_complete t = 0 \<and> t_incomplete t = 0"
proof (cases "map_of (allItems ts) h")
  case None
  have wf: "wf_hlist ts" "length h = hashLength ts" using assms by (auto simp: wf_tracker_def)
  obtain pl where pl: "initList 0 0 URI_PARAM_VALUE_LENGTH LIST_SEMAPHORE_DISABLE BIG_ENDIAN = Inr pl"
    "wf_torrent (torrentDataL0\<lparr>t_peerList := Some pl\<rparr>)" "allItems pl = []"
    by (rule empty_torrent)
  let ?t = "torrentDataL0\<lparr>t_peerList := Some pl\<rparr>"
  from wf None obtain l1 l2 P Q where l: "setHash ts h = Inr (l1, None)" "putData l1 h (Some ?t) = Inr l2"
    "wf_hlist l2" "same_params ts l2" "allItems ts = P @ Q" "allItems l2 = P @ (h, Some ?t) # Q"
    "map_of (allItems l2) = (map_of (allItems ts))(h \<mapsto> Some ?t)"
    by (rule hl.upsert_new)
  have "wf_tracker l2"
    unfolding wf_tracker_def
  proof (intro conjI allI impI)
    fix k e assume "(k, e) \<in> set (allItems l2)"
    from in_allItems_put [OF l(6) disjI1 [OF l(5)] this] assms(1) pl(2)
    show "case e of None \<Rightarrow> False | Some t \<Rightarrow> wf_torrent t"
      by (auto simp: wf_tracker_def)
  qed (use l assms(1) setHash_leaves_free [OF l(1)] putData_leaves_free [OF l(2)] in
      \<open>auto simp: wf_tracker_def same_params_def\<close>)
  moreover have "setTorrentL ts h = Inr (l2, ?t)" using l pl by (simp add: setTorrentL_def Let_def)
  moreover have "torrent_of l2 = (torrent_of ts)(h \<mapsto> ?t)"
    unfolding torrent_of_def l(7) by auto
  moreover have "peer_list ?t = [] \<and> peers_of ?t = Map.empty \<and> t_complete ?t = 0 \<and> t_incomplete ?t = 0"
    using pl(3) by (simp add: peer_list_def peers_of_def torrentDataL0_def fun_eq_iff map_filter_simps)
  moreover have "map_of (allItems l2) h = Some (Some ?t)" unfolding l(7) by simp
  moreover have "torrent_of ts h = None" using None by (simp add: torrent_of_def)
  ultimately show thesis
    using l(4) pl(2) by (intro that [of l2 ?t]) (simp_all only: option.case)
next
  case (Some d)
  have wf: "wf_hlist ts" using assms by (simp add: wf_tracker_def)
  from Some have "(h, d) \<in> set (allItems ts)" by (rule map_of_SomeD)
  with assms(1) have "case d of None \<Rightarrow> False | Some t \<Rightarrow> wf_torrent t" by (simp add: wf_tracker_def)
  then obtain t where t: "d = Some t" "wf_torrent t" by (cases d) auto
  from wf Some obtain l1 where l: "setHash ts h = Inr (l1, d)" "wf_hlist l1" "same_params ts l1"
    "allItems l1 = allItems ts"
    by (rule hl.upsert_found)
  with assms(1) setHash_leaves_free [OF l(1)] have "wf_tracker l1" by (simp add: wf_tracker_def same_params_def)
  moreover have "torrent_of l1 = (torrent_of ts)(h \<mapsto> t)"
    using Some t l(4) by (auto simp: torrent_of_def fun_eq_iff)
  ultimately show thesis
    using l t Some by (intro that [of l1 t]) (auto simp: setTorrentL_def torrent_of_def)
qed

lemma grownPeerList_ok:
  assumes "wf_torrent t" "t_peerList t = Some pl0"
  obtains pl where "grownPeerList t = Inr pl" "wf_torrent (t\<lparr>t_peerList := Some pl\<rparr>)"
    "map_of (allItems pl) = map_of (allItems pl0)" "mset (allItems pl) = mset (allItems pl0)"
proof (cases "t_complete t + t_incomplete t > DATA_STRUCTURE_PEERS_FOR_LEVEL_0_LIMIT \<and> level pl0 = 0")
  case False
  have "t\<lparr>t_peerList := Some pl0\<rparr> = t" using assms(2) by (cases t) simp
  with False assms show thesis by (intro that [of pl0]) (auto simp only: grownPeerList_def option.case if_False)
next
  case True
  have w: "wf_hlist pl0" "leaves_free pl0" "hashLength pl0 = URI_PARAM_VALUE_LENGTH"
    using assms by (auto simp: wf_torrent_def)
  have "1 \<le> LIST_LIMIT_LEVEL" "1 \<le> hashLength pl0"
    using w(3) by (simp_all add: LIST_LIMIT_LEVEL_def URI_PARAM_VALUE_LENGTH_def)
  from reInitList_keeps [OF w(1,2) this] obtain pl where pl: "reInitList pl0 1 = Inr pl" "wf_hlist pl"
    "hashLength pl = hashLength pl0" "endianness pl = endianness pl0"
    "semaphoreEnabled pl = semaphoreEnabled pl0" "set (allItems pl) = set (allItems pl0)"
    "map_of (allItems pl) = map_of (allItems pl0)" by metis
  moreover have "leaves_free pl"
    using assms pl(2,5) by (intro wf_hlist_unlocked) (auto simp: wf_torrent_def LIST_SEMAPHORE_DISABLE_def)
  moreover have "mset (allItems pl) = mset (allItems pl0)"
    using pl(6) hl.its_distinct [OF w(1)] hl.its_distinct [OF pl(2)]
    by (simp add: set_eq_iff_mset_eq_distinct [symmetric] distinct_map)
  ultimately show thesis using True assms
    by (intro that [of pl]) (auto simp: grownPeerList_def wf_torrent_def)
qed


lemma mset_map_filter: "mset (List.map_filter f xs) = image_mset (the \<circ> f) (filter_mset (\<lambda>x. f x \<noteq> None) (mset xs))"
  by (induction xs) (auto simp: map_filter_simps split: option.split)

lemma peersM_items:
  "t_peerList t = Some pl \<Longrightarrow>
   peersM t = image_mset (the \<circ> snd) (filter_mset (\<lambda>x. snd x \<noteq> None) (mset (allItems pl)))"
  by (simp add: peersM_def peer_list_def mset_map_filter)

text \<open>Storing a peer in a torrent whose list is pl.\<close>

lemma store_peer:
  assumes "wf_torrent t" "t_peerList t = Some pl" "length k = URI_PARAM_VALUE_LENGTH"
  obtains pl1 pl2 where "setHash pl k = Inr (pl1, peers_of t k)" "putData pl1 k (Some p) = Inr pl2"
    "wf_torrent (t\<lparr>t_peerList := Some pl2\<rparr>)"
    "peers_of (t\<lparr>t_peerList := Some pl2\<rparr>) = (peers_of t)(k \<mapsto> p)"
    "peersM (t\<lparr>t_peerList := Some pl2\<rparr>) = add_mset p
       (peersM t - (case peers_of t k of None \<Rightarrow> {#} | Some p0 \<Rightarrow> {#p0#}))"
    "case peers_of t k of None \<Rightarrow> True | Some p0 \<Rightarrow> p0 \<in># peersM t"
proof -
  have wf: "wf_hlist pl" "hashLength pl = URI_PARAM_VALUE_LENGTH" "length k = hashLength pl"
    and sm: "semaphoreEnabled pl = 0" "endianness pl = BIG_ENDIAN"
    and nn: "\<And>k. (k, None) \<notin> set (allItems pl)"
    using assms by (auto simp: wf_torrent_def LIST_SEMAPHORE_DISABLE_def)
  let ?t = "\<lambda>pl2. t\<lparr>t_peerList := Some pl2\<rparr>"
  have wft: "wf_torrent (?t pl2)"
    if "wf_hlist pl2" "same_params pl pl2" "allItems pl2 = P @ (k, Some p) # Q"
      "allItems pl = P @ Q \<or> allItems pl = P @ (k, d) # Q" for pl2 P Q d
  proof -
    have "leaves_free pl2" using that(1,2) sm by (intro wf_hlist_unlocked) (auto simp: same_params_def)
    moreover have "(k', None) \<notin> set (allItems pl2)" for k'
      using in_allItems_put [OF that(3,4)] nn by blast
    ultimately show ?thesis using that(1,2) wf sm
      by (simp add: wf_torrent_def same_params_def LIST_SEMAPHORE_DISABLE_def)
  qed
  show thesis
  proof (cases "map_of (allItems pl) k")
    case None
    with wf(1,3) obtain pl1 pl2 P Q where l: "setHash pl k = Inr (pl1, None)" "putData pl1 k (Some p) = Inr pl2"
      "wf_hlist pl2" "same_params pl pl2" "allItems pl = P @ Q" "allItems pl2 = P @ (k, Some p) # Q"
      "map_of (allItems pl2) = (map_of (allItems pl))(k \<mapsto> Some p)"
      by (rule hl.upsert_new)
    have none: "peers_of t k = None" using None assms(2) by (simp add: peers_of_def)
    have "peers_of (?t pl2) = (peers_of t)(k \<mapsto> p)"
      using l(7) assms(2) by (simp add: peers_of_def fun_eq_iff)
    moreover have "peersM (?t pl2) = add_mset p (peersM t)"
      using peersM_items [OF assms(2)] peersM_items [of "?t pl2" pl2] unfolding l(5,6) by simp
    ultimately show thesis using l wft [OF l(3,4,6) disjI1 [OF l(5)]] none by (intro that) auto
  next
    case (Some d)
    with nn obtain p0 where d: "d = Some p0" by (metis map_of_SomeD not_Some_eq)
    from wf(1) Some obtain pl1 pl2 P Q where l: "setHash pl k = Inr (pl1, d)" "putData pl1 k (Some p) = Inr pl2"
      "wf_hlist pl2" "same_params pl pl2" "allItems pl = P @ (k, d) # Q" "allItems pl2 = P @ (k, Some p) # Q"
      "map_of (allItems pl2) = (map_of (allItems pl))(k \<mapsto> Some p)"
      by (rule hl.upsert_found)
    have some: "peers_of t k = Some p0" using Some d assms(2) by (simp add: peers_of_def)
    have "peers_of (?t pl2) = (peers_of t)(k \<mapsto> p)"
      using l(7) assms(2) by (simp add: peers_of_def fun_eq_iff)
    moreover have "peersM (?t pl2) = add_mset p (peersM t - {#p0#})" "p0 \<in># peersM t"
      using peersM_items [OF assms(2)] peersM_items [of "?t pl2" pl2] unfolding l(5,6) d by simp_all
    ultimately show thesis using l d wft [OF l(3,4,6) disjI2 [OF l(5)]] some by (intro that) auto
  qed
qed

text \<open>Removing a peer.\<close>

lemma remove_peer:
  assumes "wf_torrent t" "t_peerList t = Some pl" "peers_of t k = Some p"
  obtains pl' where "deleteItem pl k = Inr pl'" "wf_torrent (t\<lparr>t_peerList := Some pl'\<rparr>)"
    "peers_of (t\<lparr>t_peerList := Some pl'\<rparr>) = (peers_of t)(k := None)"
    "peersM (t\<lparr>t_peerList := Some pl'\<rparr>) = peersM t - {#p#}" "p \<in># peersM t"
proof -
  have wf: "wf_hlist pl" "hashLength pl = URI_PARAM_VALUE_LENGTH"
    and sm: "semaphoreEnabled pl = 0" "endianness pl = BIG_ENDIAN"
    and nn: "\<And>k. (k, None) \<notin> set (allItems pl)"
    using assms by (auto simp: wf_torrent_def LIST_SEMAPHORE_DISABLE_def)
  have "map_of (allItems pl) k = Some (Some p)"
    using assms(2,3) by (auto simp: peers_of_def split: option.splits)
  with wf(1) obtain pl' P Q where l: "deleteItem pl k = Inr pl'" "wf_hlist pl'" "same_params pl pl'"
    "allItems pl = P @ (k, Some p) # Q" "allItems pl' = P @ Q"
    "map_of (allItems pl') = (map_of (allItems pl))(k := None)"
    by (rule hl.delete_lookup)
  let ?t = "t\<lparr>t_peerList := Some pl'\<rparr>"
  have "leaves_free pl'" using l(2,3) sm by (intro wf_hlist_unlocked) (auto simp: same_params_def)
  moreover have "(k', None) \<notin> set (allItems pl')" for k' using nn [of k'] l(4,5) by auto
  ultimately have "wf_torrent ?t"
    using l(2,3) wf sm by (simp add: wf_torrent_def same_params_def LIST_SEMAPHORE_DISABLE_def)
  moreover have "peers_of ?t = (peers_of t)(k := None)"
    using l(6) assms(2) by (simp add: peers_of_def fun_eq_iff)
  moreover have "peersM ?t = peersM t - {#p#}" "p \<in># peersM t"
    using peersM_items [OF assms(2)] peersM_items [of ?t pl'] unfolding l(4,5) by simp_all
  ultimately show thesis using l(1) by (intro that)
qed


lemma by_list:
  "peers_of (u\<lparr>t_peerList := x\<rparr>) = peers_of (t\<lparr>t_peerList := x\<rparr>)"
  "peersM (u\<lparr>t_peerList := x\<rparr>) = peersM (t\<lparr>t_peerList := x\<rparr>)"
  "wf_torrent (u\<lparr>t_peerList := x\<rparr>) = wf_torrent (t\<lparr>t_peerList := x\<rparr>)"
  by (simp_all add: peers_of_def peersM_def peer_list_def wf_torrent_def fun_eq_iff)

lemma changeTorrentStatsL_list [simp]: "t_peerList (changeTorrentStatsL t a b) = t_peerList t"
  by (simp add: changeTorrentStatsL_def)

text \<open>The torrent an announce finds, and the peer and the event it replaces.\<close>

definition torrent_before :: "torrentDataL hlist \<Rightarrow> bytes \<Rightarrow> torrentDataL \<Rightarrow> bool" where
  "torrent_before ts h t \<longleftrightarrow> wf_torrent t \<and>
     (case torrent_of ts h of
        Some t0 \<Rightarrow> t = t0
      | None \<Rightarrow> peers_of t = Map.empty \<and> peersM t = {#} \<and> t_complete t = 0 \<and> t_incomplete t = 0)"

definition old_peer :: "torrentDataL \<Rightarrow> query \<Rightarrow> peerDataL" where
  "old_peer t q = (case peers_of t (q_peer_id q) of None \<Rightarrow> peerDataL0 | Some p \<Rightarrow> p)"

definition old_event :: "torrentDataL \<Rightarrow> query \<Rightarrow> byte" where
  "old_event t q = (case peers_of t (q_peer_id q) of None \<Rightarrow> URI_EVENT_ID_NONE | Some p \<Rightarrow> p_event p)"

lemma setPeerPublic_ok:
  assumes "wf_tracker ts" "query_ok q" "wf_stats st"
  obtains ts' t t' st' where
    "setPeerPublic now ts q protocol st = Inr (ts', Some (q_info_hash q, Some t'), st')"
    "wf_tracker ts'" "same_params ts ts'" "wf_stats st'" "wf_torrent t'"
    "torrent_before ts (q_info_hash q) t" "torrent_of ts' = (torrent_of ts)(q_info_hash q \<mapsto> t')"
    "peers_of t' = (peers_of t)(q_peer_id q \<mapsto> updatedPeer now q protocol (old_peer t q))"
    "peersM t' = add_mset (updatedPeer now q protocol (old_peer t q))
       (peersM t - (case peers_of t (q_peer_id q) of None \<Rightarrow> {#} | Some p \<Rightarrow> {#p#}))"
    "case peers_of t (q_peer_id q) of None \<Rightarrow> True | Some p \<Rightarrow> p \<in># peersM t"
    "t_complete t' = t_complete (changeTorrentStatsL t (old_event t q) (q_event q))"
    "t_incomplete t' = t_incomplete (changeTorrentStatsL t (old_event t q) (q_event q))"
    "t_downloaded t' = t_downloaded (changeTorrentStatsL t (old_event t q) (q_event q))"
proof -
  let ?h = "q_info_hash q" and ?k = "q_peer_id q"
  have len: "length ?h = URI_PARAM_VALUE_LENGTH" "length ?k = URI_PARAM_VALUE_LENGTH"
    using assms(2) by (simp_all add: query_ok_def)
  from setTorrentL_ok [OF assms(1) len(1)] obtain ts1 t where t: "setTorrentL ts ?h = Inr (ts1, t)"
    "wf_tracker ts1" "same_params ts ts1" "wf_torrent t" "torrent_of ts1 = (torrent_of ts)(?h \<mapsto> t)"
    "map_of (allItems ts1) ?h = Some (Some t)"
    "case torrent_of ts ?h of Some t' \<Rightarrow> t = t'
       | None \<Rightarrow> peer_list t = [] \<and> peers_of t = Map.empty \<and> t_complete t = 0 \<and> t_incomplete t = 0"
    by blast
  from t(4) obtain pl0 where pl0: "t_peerList t = Some pl0" by (auto simp: wf_torrent_def split: option.splits)
  from grownPeerList_ok [OF t(4) pl0] obtain pl where pl: "grownPeerList t = Inr pl"
    "wf_torrent (t\<lparr>t_peerList := Some pl\<rparr>)" "map_of (allItems pl) = map_of (allItems pl0)"
    "mset (allItems pl) = mset (allItems pl0)" by blast
  let ?tg = "t\<lparr>t_peerList := Some pl\<rparr>"
  have g: "peers_of ?tg = peers_of t" "peersM ?tg = peersM t"
    using pl pl0 by (simp_all add: peers_of_def fun_eq_iff peersM_items)
  let ?p = "updatedPeer now q protocol (old_peer t q)"
  have "t_peerList ?tg = Some pl" by simp
  from store_peer [OF pl(2) this len(2), where p = ?p] obtain pl1 pl2 where
    s: "setHash pl ?k = Inr (pl1, peers_of t ?k)" "putData pl1 ?k (Some ?p) = Inr pl2"
    "wf_torrent (?tg\<lparr>t_peerList := Some pl2\<rparr>)"
    "peers_of (?tg\<lparr>t_peerList := Some pl2\<rparr>) = (peers_of t)(?k \<mapsto> ?p)"
    "peersM (?tg\<lparr>t_peerList := Some pl2\<rparr>) = add_mset ?p
       (peersM t - (case peers_of t ?k of None \<Rightarrow> {#} | Some p0 \<Rightarrow> {#p0#}))"
    "case peers_of t ?k of None \<Rightarrow> True | Some p0 \<Rightarrow> p0 \<in># peersM t"
    unfolding g by blast
  let ?t = "(changeTorrentStatsL t (old_event t q) (q_event q))\<lparr>t_peerList := Some pl2\<rparr>"
  note l = by_list [where u = "changeTorrentStatsL t (old_event t q) (q_event q)" and x = "Some pl2" and t = ?tg]
  have wt: "wf_torrent ?t" unfolding l by (rule s(3))
  from store_torrent [OF t(2) wt t(6)] obtain ts' where ts': "putData ts1 ?h (Some ?t) = Inr ts'"
    "wf_tracker ts'" "same_params ts1 ts'" "torrent_of ts' = (torrent_of ts1)(?h \<mapsto> ?t)" by blast
  from updatePeerStat_ok [OF assms(3), of "updateDelay now (old_peer t q)"] obtain xs where
    st: "updatePeerStat st (updateDelay now (old_peer t q)) = Inr (st\<lparr>st_update_peer := xs\<rparr>)"
    "wf_stats (st\<lparr>st_update_peer := xs\<rparr>)" by blast
  have "setPeerPublic now ts q protocol st = Inr (ts', Some (?h, Some ?t), st\<lparr>st_update_peer := xs\<rparr>)"
    using t(1) pl(1) s(1,2) ts'(1) st(1)
    by (simp add: setPeerPublic_def Let_def old_peer_def old_event_def)
  moreover have "torrent_before ts ?h t"
    using t(4,7) by (auto simp: torrent_before_def peersM_def split: option.splits)
  moreover have "torrent_of ts' = (torrent_of ts)(?h \<mapsto> ?t)" unfolding ts'(4) t(5) by simp
  moreover have "same_params ts ts'" using t(3) ts'(3) by (rule same_params_trans)
  ultimately show thesis
    using that [of ts' ?t "st\<lparr>st_update_peer := xs\<rparr>" t] ts'(2) st(2) wt s(4-6) unfolding l by simp
qed

lemma deletePeerPublic_ok:
  assumes "wf_tracker ts" "query_ok q"
  shows "case torrent_of ts (q_info_hash q) of
      None \<Rightarrow> deletePeerPublic ts q = Inr (ts, None)
    | Some t \<Rightarrow> (case peers_of t (q_peer_id q) of
          None \<Rightarrow> deletePeerPublic ts q = Inr (ts, Some (q_info_hash q, Some t))
        | Some p \<Rightarrow> \<exists>ts' t'. deletePeerPublic ts q = Inr (ts', Some (q_info_hash q, Some t')) \<and>
            wf_tracker ts' \<and> same_params ts ts' \<and> wf_torrent t' \<and>
            torrent_of ts' = (torrent_of ts)(q_info_hash q \<mapsto> t') \<and>
            peers_of t' = (peers_of t)(q_peer_id q := None) \<and>
            peersM t' = peersM t - {#p#} \<and> p \<in># peersM t \<and>
            t_complete t' = t_complete (changeTorrentStatsL t (p_event p) URI_EVENT_ID_NONE) \<and>
            t_incomplete t' = t_incomplete (changeTorrentStatsL t (p_event p) URI_EVENT_ID_NONE) \<and>
            t_downloaded t' = t_downloaded t)"
proof -
  let ?h = "q_info_hash q" and ?k = "q_peer_id q"
  have wf: "wf_hlist ts" "length ?h = hashLength ts" "length ?k = URI_PARAM_VALUE_LENGTH"
    using assms by (simp_all add: query_ok_def wf_tracker_def)
  show ?thesis
  proof (cases "map_of (allItems ts) ?h")
    case None
    then show ?thesis
      using wf by (simp add: deletePeerPublic_def torrent_of_def getHash_map_of)
  next
    case (Some d)
    then have "(?h, d) \<in> set (allItems ts)" by (rule map_of_SomeD)
    with assms(1) have "case d of None \<Rightarrow> False | Some t \<Rightarrow> wf_torrent t" by (simp add: wf_tracker_def)
    then obtain t where t: "d = Some t" "wf_torrent t" by (cases d) auto
    from t(2) obtain pl where pl: "t_peerList t = Some pl" by (auto simp: wf_torrent_def split: option.splits)
    then have wp: "wf_hlist pl" "length ?k = hashLength pl" "\<And>k. (k, None) \<notin> set (allItems pl)"
      using t(2) wf(3) by (auto simp: wf_torrent_def)
    have tor: "torrent_of ts ?h = Some t" using Some t(1) by (simp add: torrent_of_def)
    have get: "getHash ts ?h = Inr (Some (?h, Some t))" using wf Some t(1) by (simp add: getHash_map_of)
    show ?thesis
    proof (cases "peers_of t ?k")
      case None
      then have "map_of (allItems pl) ?k = None"
        using pl wp(3) map_of_SomeD [of "allItems pl" ?k None]
        by (auto simp: peers_of_def split: option.splits)
      with None tor get pl wp show ?thesis by (simp add: deletePeerPublic_def getHash_map_of)
    next
      case (Some p)
      then have mp: "map_of (allItems pl) ?k = Some (Some p)"
        using pl by (auto simp: peers_of_def split: option.splits)
      from remove_peer [OF t(2) pl Some] obtain pl' where r: "deleteItem pl ?k = Inr pl'"
        "wf_torrent (t\<lparr>t_peerList := Some pl'\<rparr>)"
        "peers_of (t\<lparr>t_peerList := Some pl'\<rparr>) = (peers_of t)(?k := None)"
        "peersM (t\<lparr>t_peerList := Some pl'\<rparr>) = peersM t - {#p#}" "p \<in># peersM t" by blast
      let ?t = "(changeTorrentStatsL t (p_event p) URI_EVENT_ID_NONE)\<lparr>t_peerList := Some pl'\<rparr>"
      note l = by_list [where u = "changeTorrentStatsL t (p_event p) URI_EVENT_ID_NONE" and x = "Some pl'" and t = t]
      have wt: "wf_torrent ?t" unfolding l by (rule r(2))
      from store_torrent [OF assms(1) wt \<open>map_of (allItems ts) ?h = Some d\<close>] obtain ts' where
        ts': "putData ts ?h (Some ?t) = Inr ts'" "wf_tracker ts'" "same_params ts ts'"
        "torrent_of ts' = (torrent_of ts)(?h \<mapsto> ?t)" by blast
      have "deletePeerPublic ts q = Inr (ts', Some (?h, Some ?t))"
        using get pl wp mp r(1) ts'(1) by (simp add: deletePeerPublic_def getHash_map_of Let_def)
      moreover have "t_downloaded ?t = t_downloaded t"
        by (simp add: changeTorrentStatsL_def event_defs)
      moreover have "peers_of ?t = (peers_of t)(?k := None)" "peersM ?t = peersM t - {#p#}"
        unfolding l by (rule r)+
      ultimately show ?thesis
        using tor Some ts' wt r(5) by auto
    qed
  qed
qed


lemma peers_of_in_peersM:
  assumes "wf_torrent t" "peers_of t k = Some p" shows "p \<in># peersM t"
proof -
  obtain pl where pl: "t_peerList t = Some pl" using assms(1) by (auto simp: wf_torrent_def split: option.splits)
  with assms(2) have "map_of (allItems pl) k = Some (Some p)" by (auto simp: peers_of_def split: option.splits)
  then have "(k, Some p) \<in> set (allItems pl)" by (rule map_of_SomeD)
  then have "(the \<circ> snd) (k, Some p) \<in># peersM t"
    unfolding peersM_items [OF pl] set_image_mset by (intro imageI) simp
  then show ?thesis by simp
qed

lemma wf_tracker_torrent: "wf_tracker ts \<Longrightarrow> torrent_of ts h = Some t \<Longrightarrow> wf_torrent t"
  by (auto simp: wf_tracker_def torrent_of_def dest!: map_of_SomeD split: option.splits)

section \<open>The update of an announce\<close>

text \<open>
  What both workers do with an announce, as a map: the entry of the peer is removed when it
  stopped and written otherwise; every other entry stays.
\<close>

definition announced ::
  "int \<Rightarrow> query \<Rightarrow> byte \<Rightarrow> (bytes \<Rightarrow> bytes \<Rightarrow> peerDataL option) \<Rightarrow> bytes \<Rightarrow> bytes \<Rightarrow> peerDataL option" where
  "announced now q protocol m =
     m(q_info_hash q := (m (q_info_hash q))(q_peer_id q :=
       (if q_event q = URI_EVENT_ID_STOPPED then None
        else Some (updatedPeer now q protocol
               (case m (q_info_hash q) (q_peer_id q) of None \<Rightarrow> peerDataL0 | Some p \<Rightarrow> p)))))"

text \<open>The addresses a tracker stores are whole; the answers in compact form rest on it.\<close>

definition addresses_ok :: "torrentDataL \<Rightarrow> bool" where
  "addresses_ok t \<longleftrightarrow> (\<forall>p \<in># peersM t. length (p_ip4 p) = 16 \<and> length (p_ip6 p) = 16)"

definition whole_addresses :: "torrentDataL hlist \<Rightarrow> bool" where
  "whole_addresses ts \<longleftrightarrow> (\<forall>h t. torrent_of ts h = Some t \<longrightarrow> addresses_ok t)"

lemma whole_addresses_store:
  assumes "whole_addresses ts" "torrent_of ts' = (torrent_of ts)(h \<mapsto> t')"
    "addresses_ok t'"
  shows "whole_addresses ts'"
  using assms by (auto simp: whole_addresses_def)

text \<open>What the update returns: the torrent as it is stored now.\<close>

definition stored :: "torrentDataL hlist \<Rightarrow> bytes \<Rightarrow> torrent_ptr \<Rightarrow> bool" where
  "stored ts h torrent \<longleftrightarrow> (case torrent of None \<Rightarrow> torrent_of ts h = None
     | Some (k, d) \<Rightarrow> k = h \<and> (\<exists>t. d = Some t \<and> wf_torrent t \<and> torrent_of ts h = Some t))"

lemma torrent_before_map:
  "torrent_before ts h t \<Longrightarrow> tracker_map ts h = peers_of t"
  by (auto simp: tracker_map_def torrent_before_def fun_eq_iff split: option.splits)

lemma set_peer_update:
  assumes "wf_tracker ts" "query_ok q" "wf_stats st" "q_event q \<noteq> URI_EVENT_ID_STOPPED"
  shows "\<exists>ts' torrent st'. setPeerPublic now ts q protocol st = Inr (ts', torrent, st') \<and>
    wf_tracker ts' \<and> same_params ts ts' \<and> wf_stats st' \<and> stored ts' (q_info_hash q) torrent \<and>
    tracker_map ts' = announced now q protocol (tracker_map ts) \<and>
    (whole_addresses ts \<and> length (q_ip q) = 16 \<longrightarrow> whole_addresses ts')"
proof -
  let ?h = "q_info_hash q" and ?k = "q_peer_id q"
  from setPeerPublic_ok [OF assms(1-3), of now protocol] obtain ts' t t' st' where r:
    "setPeerPublic now ts q protocol st = Inr (ts', Some (?h, Some t'), st')"
    "wf_tracker ts'" "same_params ts ts'" "wf_stats st'" "wf_torrent t'" "torrent_before ts ?h t"
    "torrent_of ts' = (torrent_of ts)(?h \<mapsto> t')"
    "peers_of t' = (peers_of t)(?k \<mapsto> updatedPeer now q protocol (old_peer t q))"
    "peersM t' = add_mset (updatedPeer now q protocol (old_peer t q))
       (peersM t - (case peers_of t ?k of None \<Rightarrow> {#} | Some p \<Rightarrow> {#p#}))" by metis
  note m = torrent_before_map [OF r(6)]
  have "tracker_map ts' = announced now q protocol (tracker_map ts)"
    unfolding announced_def m using r(7,8) assms(4)
    by (auto simp: tracker_map_def fun_eq_iff old_peer_def)
  moreover have "stored ts' ?h (Some (?h, Some t'))" using r(5,7) by (simp add: stored_def)
  moreover have "whole_addresses ts'" if w: "whole_addresses ts" "length (q_ip q) = 16"
  proof (rule whole_addresses_store [OF w(1) r(7)])
    have t: "\<forall>p \<in># peersM t. length (p_ip4 p) = 16 \<and> length (p_ip6 p) = 16"
      using r(6) w(1) by (cases "torrent_of ts ?h") (auto simp: torrent_before_def whole_addresses_def addresses_ok_def)
    have "length (p_ip4 (old_peer t q)) = 16 \<and> length (p_ip6 (old_peer t q)) = 16"
    proof (cases "peers_of t ?k")
      case None
      then show ?thesis by (simp add: old_peer_def peerDataL0_def)
    next
      case (Some p)
      have "wf_torrent t" using r(6) by (simp add: torrent_before_def)
      from peers_of_in_peersM [OF this Some] t Some show ?thesis by (simp add: old_peer_def)
    qed
    then have "length (p_ip4 (updatedPeer now q protocol (old_peer t q))) = 16 \<and>
        length (p_ip6 (updatedPeer now q protocol (old_peer t q))) = 16"
      using w(2) by (simp add: updatedPeer_def Let_def)
    with t show "addresses_ok t'"
      unfolding addresses_ok_def r(9) by (auto dest: in_diffD)
  qed
  ultimately show ?thesis using r(1-4) by blast
qed

lemma delete_peer_update:
  assumes "wf_tracker ts" "query_ok q" "q_event q = URI_EVENT_ID_STOPPED"
  shows "\<exists>ts' torrent. deletePeerPublic ts q = Inr (ts', torrent) \<and>
    wf_tracker ts' \<and> same_params ts ts' \<and> stored ts' (q_info_hash q) torrent \<and>
    tracker_map ts' = announced now q protocol (tracker_map ts) \<and> (whole_addresses ts \<longrightarrow> whole_addresses ts')"
proof -
  let ?h = "q_info_hash q" and ?k = "q_peer_id q"
  note d = deletePeerPublic_ok [OF assms(1,2)]
  have keep: "announced now q protocol (tracker_map ts) = tracker_map ts" if "tracker_map ts ?h ?k = None"
    using that assms(3) by (simp add: announced_def fun_upd_idem)
  show ?thesis
  proof (cases "torrent_of ts ?h")
    case None
    then have "announced now q protocol (tracker_map ts) = tracker_map ts" by (intro keep) (simp add: tracker_map_def)
    with None d assms(1) show ?thesis by (auto simp: stored_def)
  next
    case (Some t)
    note t = Some
    show ?thesis
    proof (cases "peers_of t ?k")
      case None
      with t have "announced now q protocol (tracker_map ts) = tracker_map ts" by (intro keep) (simp add: tracker_map_def)
      with None d t assms(1) wf_tracker_torrent [OF assms(1) t] show ?thesis by (auto simp: stored_def)
    next
      case (Some p)
      with d t obtain ts' t' where r: "deletePeerPublic ts q = Inr (ts', Some (?h, Some t'))"
        "wf_tracker ts'" "same_params ts ts'" "wf_torrent t'" "torrent_of ts' = (torrent_of ts)(?h \<mapsto> t')"
        "peers_of t' = (peers_of t)(?k := None)" "peersM t' = peersM t - {#p#}" by auto
      have "tracker_map ts' = announced now q protocol (tracker_map ts)"
        using r(5,6) t assms(3) by (auto simp: announced_def tracker_map_def fun_eq_iff)
      moreover have "whole_addresses ts'" if w: "whole_addresses ts"
        by (rule whole_addresses_store [OF w r(5)])
          (use w t r(7) in \<open>auto simp: whole_addresses_def addresses_ok_def dest: in_diffD\<close>)
      ultimately show ?thesis using r by (auto simp: stored_def)
    qed
  qed
qed

lemma announce_update:
  assumes "wf_tracker ts" "query_ok q" "wf_stats st"
  obtains ts' torrent st' where
    "(if q_event q = URI_EVENT_ID_STOPPED
      then bindR (deletePeerPublic ts q) (\<lambda>(ts', torrent). Inr (ts', torrent, st))
      else setPeerPublic now ts q protocol st) = Inr (ts', torrent, st')"
    "wf_tracker ts'" "same_params ts ts'" "wf_stats st'" "stored ts' (q_info_hash q) torrent"
    "tracker_map ts' = announced now q protocol (tracker_map ts)"
    "whole_addresses ts \<and> length (q_ip q) = 16 \<longrightarrow> whole_addresses ts'"
proof (cases "q_event q = URI_EVENT_ID_STOPPED")
  case True
  from delete_peer_update [OF assms(1,2) True, of now protocol] that show thesis using True assms(3) by auto
next
  case False
  from set_peer_update [OF assms False, of now protocol] that show thesis using False by auto
qed

section \<open>The counters\<close>

text \<open>
  The two readings of the counters: complete and incomplete together count the peers, and
  complete counts the seeders. Both also say that no stored peer has event 0, the value
  changeTorrentStatsL reserves for a peer that is not there.
\<close>

definition is_seeder :: "peerDataL \<Rightarrow> bool" where
  "is_seeder p \<longleftrightarrow> p_event p = URI_EVENT_ID_COMPLETED"

definition counters_sum :: "torrentDataL \<Rightarrow> bool" where
  "counters_sum t \<longleftrightarrow> t_complete t + t_incomplete t = of_nat (size (peersM t)) \<and>
     (\<forall>p \<in># peersM t. p_event p \<noteq> URI_EVENT_ID_NONE)"

definition counters_exact :: "torrentDataL \<Rightarrow> bool" where
  "counters_exact t \<longleftrightarrow>
     t_complete t = of_nat (size (filter_mset is_seeder (peersM t))) \<and>
     t_incomplete t = of_nat (size (filter_mset (Not \<circ> is_seeder) (peersM t))) \<and>
     (\<forall>p \<in># peersM t. p_event p \<noteq> URI_EVENT_ID_NONE)"

definition all_torrents :: "(torrentDataL \<Rightarrow> bool) \<Rightarrow> torrentDataL hlist \<Rightarrow> bool" where
  "all_torrents P ts \<longleftrightarrow> (\<forall>h t. torrent_of ts h = Some t \<longrightarrow> P t)"

lemma updatedPeer_event [simp]: "p_event (updatedPeer now q protocol p) = q_event q"
  by (simp add: updatedPeer_def Let_def)

lemma torrent_before_counters:
  assumes "torrent_before ts h t" "all_torrents P ts" "P = counters_sum \<or> P = counters_exact"
  shows "P t"
  using assms by (auto simp: torrent_before_def all_torrents_def counters_sum_def counters_exact_def
      split: option.splits)

lemma counters_sum_step:
  assumes "counters_sum t" "q_event q \<noteq> URI_EVENT_ID_NONE" "p_event p' = q_event q"
    "M = add_mset p' (peersM t - (case d of None \<Rightarrow> {#} | Some p \<Rightarrow> {#p#}))"
    "case d of None \<Rightarrow> True | Some p \<Rightarrow> p \<in># peersM t"
    "e = (case d of None \<Rightarrow> URI_EVENT_ID_NONE | Some p \<Rightarrow> p_event p)"
  shows "t_complete (changeTorrentStatsL t e (q_event q)) + t_incomplete (changeTorrentStatsL t e (q_event q))
      = of_nat (size M)" "\<forall>p \<in># M. p_event p \<noteq> URI_EVENT_ID_NONE"
proof -
  have sum: "t_complete t + t_incomplete t = of_nat (size (peersM t))"
    and ev: "\<forall>p \<in># peersM t. p_event p \<noteq> URI_EVENT_ID_NONE"
    using assms(1) by (simp_all add: counters_sum_def)
  show "\<forall>p \<in># M. p_event p \<noteq> URI_EVENT_ID_NONE"
    using assms(2-4) ev by (auto dest: in_diffD)
  show "t_complete (changeTorrentStatsL t e (q_event q)) + t_incomplete (changeTorrentStatsL t e (q_event q))
      = of_nat (size M)"
  proof (cases d)
    case None
    with assms sum show ?thesis by (simp add: changeTorrentStatsL_def)
  next
    case (Some p)
    then obtain N where "peersM t = add_mset p N" using assms(5) by (auto dest: multi_member_split)
    moreover from this ev have "p_event p \<noteq> URI_EVENT_ID_NONE" by simp
    ultimately show ?thesis using Some assms sum by (simp add: changeTorrentStatsL_def)
  qed
qed

lemma counters_exact_step:
  assumes "counters_exact t" "q_event q \<noteq> URI_EVENT_ID_NONE" "p_event p' = q_event q"
    "M = add_mset p' (peersM t - (case d of None \<Rightarrow> {#} | Some p \<Rightarrow> {#p#}))"
    "case d of None \<Rightarrow> True | Some p \<Rightarrow> p \<in># peersM t"
    "e = (case d of None \<Rightarrow> URI_EVENT_ID_NONE | Some p \<Rightarrow> p_event p)"
    "q_event q = URI_EVENT_ID_CONTINUE \<Longrightarrow> e \<noteq> URI_EVENT_ID_COMPLETED"
  shows "t_complete (changeTorrentStatsL t e (q_event q)) = of_nat (size (filter_mset is_seeder M)) \<and>
    t_incomplete (changeTorrentStatsL t e (q_event q)) = of_nat (size (filter_mset (Not \<circ> is_seeder) M))"
    "\<forall>p \<in># M. p_event p \<noteq> URI_EVENT_ID_NONE"
proof -
  have cnt: "t_complete t = of_nat (size (filter_mset is_seeder (peersM t)))"
    "t_incomplete t = of_nat (size (filter_mset (Not \<circ> is_seeder) (peersM t)))"
    and ev: "\<forall>p \<in># peersM t. p_event p \<noteq> URI_EVENT_ID_NONE"
    using assms(1) by (simp_all add: counters_exact_def)
  show "\<forall>p \<in># M. p_event p \<noteq> URI_EVENT_ID_NONE"
    using assms(2-4) ev by (auto dest: in_diffD)
  show "t_complete (changeTorrentStatsL t e (q_event q)) = of_nat (size (filter_mset is_seeder M)) \<and>
    t_incomplete (changeTorrentStatsL t e (q_event q)) = of_nat (size (filter_mset (Not \<circ> is_seeder) M))"
  proof (cases d)
    case None
    with assms cnt show ?thesis by (simp add: changeTorrentStatsL_def is_seeder_def)
  next
    case (Some p)
    then obtain N where "peersM t = add_mset p N" using assms(5) by (auto dest: multi_member_split)
    moreover from this ev have "p_event p \<noteq> URI_EVENT_ID_NONE" by simp
    moreover have "URI_EVENT_ID_CONTINUE \<noteq> URI_EVENT_ID_COMPLETED" by (simp add: event_defs)
    ultimately show ?thesis using Some assms cnt
      by (auto simp: changeTorrentStatsL_def is_seeder_def)
  qed
qed

lemma counters_remove:
  assumes "p \<in># peersM t" "M = peersM t - {#p#}"
  shows "counters_sum t \<Longrightarrow>
      t_complete (changeTorrentStatsL t (p_event p) URI_EVENT_ID_NONE)
      + t_incomplete (changeTorrentStatsL t (p_event p) URI_EVENT_ID_NONE) = of_nat (size M) \<and>
      (\<forall>p \<in># M. p_event p \<noteq> URI_EVENT_ID_NONE)"
    "counters_exact t \<Longrightarrow>
      t_complete (changeTorrentStatsL t (p_event p) URI_EVENT_ID_NONE) = of_nat (size (filter_mset is_seeder M)) \<and>
      t_incomplete (changeTorrentStatsL t (p_event p) URI_EVENT_ID_NONE)
        = of_nat (size (filter_mset (Not \<circ> is_seeder) M)) \<and>
      (\<forall>p \<in># M. p_event p \<noteq> URI_EVENT_ID_NONE)"
proof -
  obtain N where N: "peersM t = add_mset p N" using assms(1) by (auto dest: multi_member_split)
  then have M: "M = N" using assms(2) by simp
  show "t_complete (changeTorrentStatsL t (p_event p) URI_EVENT_ID_NONE)
      + t_incomplete (changeTorrentStatsL t (p_event p) URI_EVENT_ID_NONE) = of_nat (size M) \<and>
      (\<forall>p \<in># M. p_event p \<noteq> URI_EVENT_ID_NONE)" if "counters_sum t"
  proof -
    from that N have "t_complete t + t_incomplete t = of_nat (size N) + 1"
      "p_event p \<noteq> URI_EVENT_ID_NONE" "\<forall>p \<in># N. p_event p \<noteq> URI_EVENT_ID_NONE"
      by (auto simp: counters_sum_def)
    then show ?thesis unfolding M by (auto simp: changeTorrentStatsL_def algebra_simps)
  qed
  show "t_complete (changeTorrentStatsL t (p_event p) URI_EVENT_ID_NONE) = of_nat (size (filter_mset is_seeder M)) \<and>
      t_incomplete (changeTorrentStatsL t (p_event p) URI_EVENT_ID_NONE)
        = of_nat (size (filter_mset (Not \<circ> is_seeder) M)) \<and>
      (\<forall>p \<in># M. p_event p \<noteq> URI_EVENT_ID_NONE)" if "counters_exact t"
    using that N unfolding M
    by (auto simp: counters_exact_def changeTorrentStatsL_def is_seeder_def)
qed


section \<open>Properties\<close>

definition sample_peer :: "byte \<Rightarrow> peerDataL" where
  "sample_peer e = peerDataL0\<lparr>p_updateTime := 100, p_event := e, p_ipVersion := 1\<rparr>"

definition sample_peers :: "byte \<Rightarrow> peerDataL hlist" where
  "sample_peers e = HList [] [(replicate 20 2, Some (sample_peer e))] None BIG_ENDIAN 20 0 0"

definition sample_torrent :: "byte \<Rightarrow> torrentDataL" where
  "sample_torrent e = \<lparr>t_peerList = Some (sample_peers e),
     t_complete = (if e = URI_EVENT_ID_COMPLETED then 1 else 0),
     t_incomplete = (if e = URI_EVENT_ID_COMPLETED then 0 else 1), t_downloaded = 1\<rparr>"

definition sample_tracker :: "byte \<Rightarrow> torrentDataL hlist" where
  "sample_tracker e = HList [] [(replicate 20 1, Some (sample_torrent e))] (Some 1) LITTLE_ENDIAN 20 0 1"

definition sample_query :: "byte \<Rightarrow> query" where
  "sample_query e = query0\<lparr>q_info_hash := replicate 20 1, q_peer_id := replicate 20 2, q_event := e\<rparr>"

lemma sample_ok:
  "wf_torrent (sample_torrent e)" "wf_tracker (sample_tracker e)" "query_ok (sample_query e)"
  "torrent_of (sample_tracker e) = [replicate 20 1 \<mapsto> sample_torrent e]"
  "peers_of (sample_torrent e) = [replicate 20 2 \<mapsto> sample_peer e]"
  "peersM (sample_torrent e) = {#sample_peer e#}" "q_event (sample_query e) = e"
  "q_info_hash (sample_query e) = replicate 20 1" "q_peer_id (sample_query e) = replicate 20 2"
proof -
  show w: "wf_torrent (sample_torrent e)"
    by (simp add: wf_torrent_def sample_torrent_def sample_peers_def wf_hlist_def header_def
        hasSemaphore_def leaves_free.simps allItems.simps LIST_SEMAPHORE_DISABLE_def URI_PARAM_VALUE_LENGTH_def)
  show "wf_tracker (sample_tracker e)"
    using w by (simp add: wf_tracker_def sample_tracker_def wf_hlist_def header_def hasSemaphore_def
        LIST_SEMAPHORE_ENABLE_LEAF_def leaves_free.simps allItems.simps URI_PARAM_VALUE_LENGTH_def)
qed (simp_all add: query_ok_def sample_query_def query0_def URI_PARAM_VALUE_LENGTH_def torrent_of_def
    sample_tracker_def allItems.simps peers_of_def sample_torrent_def sample_peers_def peersM_def
    peer_list_def map_filter_simps fun_eq_iff)

lemma sample_map: "tracker_map (sample_tracker e) (replicate 20 1) = [replicate 20 2 \<mapsto> sample_peer e]"
  by (simp add: tracker_map_def sample_ok fun_eq_iff)

lemma sample_all_torrents: "all_torrents P (sample_tracker e) = P (sample_torrent e)"
  by (auto simp: all_torrents_def sample_ok)

text \<open>C4: An announce stores its peer and touches nothing else: setPeerPublic never fails on
well-formed data, keeps it well formed, and as a map from torrent and peer id the data is
updated at exactly the query's torrent and peer, with the address, port, event and version
bits of the query and the current time.\<close>

theorem setPeerPublic_refines_map_update:
  assumes "wf_tracker ts" "query_ok q" "wf_stats st"
  shows "\<exists>ts' t' st'. setPeerPublic now ts q protocol st = Inr (ts', Some (q_info_hash q, Some t'), st') \<and>
    wf_tracker ts' \<and> wf_stats st' \<and>
    tracker_map ts' = (tracker_map ts)(q_info_hash q := (tracker_map ts (q_info_hash q))
      (q_peer_id q \<mapsto> updatedPeer now q protocol
         (case tracker_map ts (q_info_hash q) (q_peer_id q) of None \<Rightarrow> peerDataL0 | Some p \<Rightarrow> p)))"
proof -
  from setPeerPublic_ok [OF assms, of now protocol] obtain ts' t t' st' where
    r: "setPeerPublic now ts q protocol st = Inr (ts', Some (q_info_hash q, Some t'), st')"
    "wf_tracker ts'" "wf_stats st'" "torrent_before ts (q_info_hash q) t"
    "torrent_of ts' = (torrent_of ts)(q_info_hash q \<mapsto> t')"
    "peers_of t' = (peers_of t)(q_peer_id q \<mapsto> updatedPeer now q protocol (old_peer t q))"
    by metis
  have "tracker_map ts (q_info_hash q) = peers_of t"
    using r(4) by (auto simp: tracker_map_def torrent_before_def fun_eq_iff split: option.splits)
  then have "tracker_map ts' = (tracker_map ts)(q_info_hash q := (tracker_map ts (q_info_hash q))
      (q_peer_id q \<mapsto> updatedPeer now q protocol
         (case tracker_map ts (q_info_hash q) (q_peer_id q) of None \<Rightarrow> peerDataL0 | Some p \<Rightarrow> p)))"
    using r(5,6) by (auto simp: tracker_map_def fun_eq_iff old_peer_def)
  with r show ?thesis by blast
qed

theorem setPeerPublic_refines_map_update_witness:
  "\<exists>ts' t' st'. setPeerPublic 500 (sample_tracker 2) ((sample_query 3)\<lparr>q_peer_id := replicate 20 9\<rparr>) 1 (stats0 0)
     = Inr (ts', Some (replicate 20 1, Some t'), st') \<and>
     tracker_map ts' (replicate 20 1) (replicate 20 2) = Some (sample_peer 2)"
proof -
  have "query_ok ((sample_query 3)\<lparr>q_peer_id := replicate 20 9\<rparr>)"
    by (simp add: sample_query_def query_ok_def URI_PARAM_VALUE_LENGTH_def)
  from setPeerPublic_refines_map_update [OF sample_ok(2) [of 2] this wf_stats0 [of 0], of 500 1]
  show ?thesis
    by (auto simp: sample_map sample_query_def replicate_eq_replicate)
qed

text \<open>A stop removes its peer and touches nothing else; an unknown torrent or peer changes
nothing and is no error.\<close>

theorem deletePeerPublic_refines_map_delete:
  assumes "wf_tracker ts" "query_ok q"
  shows "\<exists>ts' r. deletePeerPublic ts q = Inr (ts', r) \<and> wf_tracker ts' \<and>
    (r = None \<longleftrightarrow> torrent_of ts (q_info_hash q) = None) \<and>
    tracker_map ts' = (tracker_map ts)(q_info_hash q :=
      (tracker_map ts (q_info_hash q))(q_peer_id q := None))"
proof (cases "torrent_of ts (q_info_hash q)")
  case None
  then have "deletePeerPublic ts q = Inr (ts, None)" using deletePeerPublic_ok [OF assms] by simp
  with None assms(1) show ?thesis by (auto simp: tracker_map_def fun_eq_iff)
next
  case (Some t)
  show ?thesis
  proof (cases "peers_of t (q_peer_id q)")
    case None
    then have "deletePeerPublic ts q = Inr (ts, Some (q_info_hash q, Some t))"
      using deletePeerPublic_ok [OF assms] Some by simp
    with None Some assms(1) show ?thesis by (auto simp: tracker_map_def fun_eq_iff)
  next
    case p: (Some p)
    then obtain ts' t' where "deletePeerPublic ts q = Inr (ts', Some (q_info_hash q, Some t'))"
      "wf_tracker ts'" "torrent_of ts' = (torrent_of ts)(q_info_hash q \<mapsto> t')"
      "peers_of t' = (peers_of t)(q_peer_id q := None)"
      using deletePeerPublic_ok [OF assms] Some by auto
    with Some show ?thesis by (auto simp: tracker_map_def fun_eq_iff)
  qed
qed

theorem deletePeerPublic_refines_map_delete_witness:
  "\<exists>ts' r. deletePeerPublic (sample_tracker 2) (sample_query 3) = Inr (ts', r) \<and> r \<noteq> None \<and>
     tracker_map ts' (replicate 20 1) (replicate 20 2) = None"
  using deletePeerPublic_refines_map_delete [OF sample_ok(2) [of 2] sample_ok(3) [of 3]]
  by (auto simp: sample_ok)

text \<open>In every torrent complete and incomplete together are the number of its peers: an
announce whose event is not 0 and a stop keep this, whatever sequence of events the clients
send, also when they report completion and then omit the event.\<close>

theorem counters_sum_invariant:
  assumes "wf_tracker ts" "query_ok q" "wf_stats st" "all_torrents counters_sum ts"
  shows "(q_event q \<noteq> URI_EVENT_ID_NONE \<longrightarrow>
      (\<exists>ts' r st'. setPeerPublic now ts q protocol st = Inr (ts', r, st') \<and> all_torrents counters_sum ts')) \<and>
    (\<exists>ts' r. deletePeerPublic ts q = Inr (ts', r) \<and> all_torrents counters_sum ts')"
proof (intro conjI impI)
  assume ev: "q_event q \<noteq> URI_EVENT_ID_NONE"
  from setPeerPublic_ok [OF assms(1-3), of now protocol] obtain ts' t t' st' where
    r: "setPeerPublic now ts q protocol st = Inr (ts', Some (q_info_hash q, Some t'), st')"
    "torrent_before ts (q_info_hash q) t" "torrent_of ts' = (torrent_of ts)(q_info_hash q \<mapsto> t')"
    "peersM t' = add_mset (updatedPeer now q protocol (old_peer t q))
       (peersM t - (case peers_of t (q_peer_id q) of None \<Rightarrow> {#} | Some p \<Rightarrow> {#p#}))"
    "case peers_of t (q_peer_id q) of None \<Rightarrow> True | Some p \<Rightarrow> p \<in># peersM t"
    "t_complete t' = t_complete (changeTorrentStatsL t (old_event t q) (q_event q))"
    "t_incomplete t' = t_incomplete (changeTorrentStatsL t (old_event t q) (q_event q))"
    by metis
  have "counters_sum t" using torrent_before_counters [OF r(2) assms(4)] by simp
  from counters_sum_step [OF this ev updatedPeer_event r(4,5) old_event_def] r(6,7)
  have "counters_sum t'" by (simp add: counters_sum_def)
  with assms(4) have "all_torrents counters_sum ts'" by (simp add: all_torrents_def r(3))
  with r(1) show "\<exists>ts' r st'. setPeerPublic now ts q protocol st = Inr (ts', r, st') \<and> all_torrents counters_sum ts'"
    by blast
next
  show "\<exists>ts' r. deletePeerPublic ts q = Inr (ts', r) \<and> all_torrents counters_sum ts'"
  proof (cases "torrent_of ts (q_info_hash q)")
    case None
    with deletePeerPublic_ok [OF assms(1,2)] assms(4) show ?thesis by auto
  next
    case (Some t)
    then have "counters_sum t" using assms(4) by (simp add: all_torrents_def)
    with Some deletePeerPublic_ok [OF assms(1,2)] assms(4) counters_remove(1) [of _ t] show ?thesis
      by (fastforce simp: all_torrents_def counters_sum_def split: option.splits)
  qed
qed

theorem counters_sum_invariant_witness:
  "\<exists>ts' r st'. setPeerPublic 500 (sample_tracker 1) (sample_query 5) 1 (stats0 0) = Inr (ts', r, st') \<and>
     all_torrents counters_sum ts'"
  using counters_sum_invariant [OF sample_ok(2) [of 1] sample_ok(3) [of 5] wf_stats0 [of 0], of 500 1]
  by (simp add: sample_all_torrents counters_sum_def sample_ok)
    (simp add: sample_torrent_def sample_peer_def event_defs)




text \<open>A peer that announces over UDP with event 0, the ordinary re-announce, is counted as
a new leecher every time: incomplete grows by one although the torrent has no more peers than
before.\<close>

theorem event_none_counts_again:
  assumes "wf_tracker ts" "query_ok q" "wf_stats st" "q_event q = URI_EVENT_ID_NONE"
    "torrent_of ts (q_info_hash q) = Some t" "peers_of t (q_peer_id q) = Some p"
    "p_event p = URI_EVENT_ID_NONE"
  shows "\<exists>ts' t' st'. setPeerPublic now ts q protocol st = Inr (ts', Some (q_info_hash q, Some t'), st') \<and>
    t_incomplete t' = t_incomplete t + 1 \<and> t_complete t' = t_complete t \<and> size (peersM t') = size (peersM t)"
proof -
  from setPeerPublic_ok [OF assms(1-3), of now protocol] obtain ts' u t' st' where
    r: "setPeerPublic now ts q protocol st = Inr (ts', Some (q_info_hash q, Some t'), st')"
    "torrent_before ts (q_info_hash q) u"
    "peersM t' = add_mset (updatedPeer now q protocol (old_peer u q))
       (peersM u - (case peers_of u (q_peer_id q) of None \<Rightarrow> {#} | Some p \<Rightarrow> {#p#}))"
    "case peers_of u (q_peer_id q) of None \<Rightarrow> True | Some p \<Rightarrow> p \<in># peersM u"
    "t_complete t' = t_complete (changeTorrentStatsL u (old_event u q) (q_event q))"
    "t_incomplete t' = t_incomplete (changeTorrentStatsL u (old_event u q) (q_event q))"
    by metis
  have u: "u = t" using r(2) assms(5) by (simp add: torrent_before_def)
  with r(4) assms(6) obtain N where "peersM t = add_mset p N" by (auto dest: multi_member_split)
  with r u assms(4,6,7) show ?thesis
    by (simp add: old_event_def changeTorrentStatsL_def event_defs)
qed

theorem event_none_counts_again_witness:
  "\<exists>ts' t' st'. setPeerPublic 500 (sample_tracker 0) (sample_query 0) 2 (stats0 0)
     = Inr (ts', Some (replicate 20 1, Some t'), st') \<and> t_incomplete t' = 2 \<and> size (peersM t') = 1"
  using event_none_counts_again [OF sample_ok(2) [of 0] sample_ok(3) [of 0] wf_stats0 [of 0],
      where t = "sample_torrent 0" and p = "sample_peer 0" and now = 500 and protocol = 2]
  by (simp add: sample_ok event_defs sample_peer_def) (auto simp: sample_torrent_def event_defs)



end
