(* ===== verification/Tracker_Render.thy ===== *)
theory Tracker_Render
  imports Tracker_Laws
begin

text \<open>
  The answers to announce and scrape (data.c): the peers of a torrent in the compact, UDP and
  bencoded forms, the heads, and the scrape of a list of hashes. A block is the bytes appended
  to it. ntop v6 a is inet\_ntop for AF\_INET6 (v6) or AF\_INET, which does not fail here: the
  buffer has room for every address.
\<close>

section \<open>Peers of an announce\<close>

definition int2ip :: "(bool \<Rightarrow> bytes \<Rightarrow> bytes) \<Rightarrow> bytes \<Rightarrow> byte \<Rightarrow> bytes" where
  "int2ip ntop source ipVersion =
     (if ipVersion AND SOCKET_VERSION_IPV4_BIT \<noteq> 0 then ntop False (take 4 (drop 12 source))
      else ntop True source)"

text \<open>The address the query asks for: the stored IPv4 or IPv6 address of the peer.\<close>

definition peerIp :: "query \<Rightarrow> peerDataL \<Rightarrow> bytes" where
  "peerIp q p = (if q_ipVersion q AND SOCKET_VERSION_IPV4_BIT \<noteq> 0 then p_ip4 p else p_ip6 p)"

definition renderPeer :: "(bool \<Rightarrow> bytes \<Rightarrow> bytes) \<Rightarrow> query \<Rightarrow> bytes \<Rightarrow> peerDataL \<Rightarrow> bytes" where
  "renderPeer ntop q hash p =
     (let ip = int2ip ntop (peerIp q p) (q_ipVersion q);
          port = dec (unat (htons (p_port p))) in
      if q_compact q \<or> q_protocol q = URI_QUERY_PROTOCOL_UDP then
        (if q_ipVersion q AND SOCKET_VERSION_IPV4_BIT \<noteq> 0
         then take 4 (drop 12 (p_ip4 p)) else take 16 (p_ip6 p)) @ mem16 (p_port p)
      else if q_no_peer_id q then
        lit ''d4:porti'' @ port @ lit ''e2:ip'' @ dec (length ip) @ lit '':'' @ ip @ lit ''e''
      else
        lit ''d4:porti'' @ port @ lit ''e7:peer id'' @ dec URI_PARAM_VALUE_LENGTH @ lit '':'' @
        take URI_PARAM_VALUE_LENGTH hash @
        lit ''2:ip'' @ dec (length ip) @ lit '':'' @ ip @ lit ''e'')"

text \<open>The callback: its state is the block and leftPeers.\<close>

definition renderAnnouncePeersCallback ::
  "(bool \<Rightarrow> bytes \<Rightarrow> bytes) \<Rightarrow> query \<Rightarrow> (peerDataL, bytes \<times> u32) callback" where
  "renderAnnouncePeersCallback ntop q path hash d s =
     (case s of (blk, leftPeers) \<Rightarrow>
        if length blk \<ge> DATA_MAX_PACKET_SIZE then Inr (Keep d, s, True)
        else case d of
          None \<Rightarrow> Inl Null_deref
        | Some p \<Rightarrow>
            if DATA_SEPARATE_TCP_AND_UDP_CLIENTS \<and>
               (q_protocol q = URI_QUERY_PROTOCOL_TCP \<and>
                  p_protocol p AND DATA_STRUCTURE_PEER_PROTOCOL_TCP_BIT = 0 \<or>
                q_protocol q = URI_QUERY_PROTOCOL_UDP \<and>
                  p_protocol p AND DATA_STRUCTURE_PEER_PROTOCOL_UDP_BIT = 0)
            then Inr (Keep d, s, False)
            else if q_ipVersion q AND p_ipVersion p = 0 then Inr (Keep d, s, False)
            else (let left' = leftPeers - 1 in
                  Inr (Keep d, (blk @ renderPeer ntop q hash p, left'), left' \<le> 0)))"

definition renderAnnouncePeersL ::
  "(bool \<Rightarrow> bytes \<Rightarrow> bytes) \<Rightarrow> query \<Rightarrow> peerDataL hlist option \<Rightarrow> bytes res" where
  "renderAnnouncePeersL ntop q peerList =
     bindR (mapListPtr (renderAnnouncePeersCallback ntop q) ([], q_numwant q) peerList)
       (\<lambda>(l, (blk, left), b). Inr blk)"

section \<open>The answer to an announce\<close>

text \<open>The copy of the torrent data, all zero when the torrent is NULL.\<close>

definition torrentCopy :: "torrent_ptr \<Rightarrow> torrentDataL res" where
  "torrentCopy torrent =
     (case torrent of
        None \<Rightarrow> Inr torrentDataL0
      | Some (k, None) \<Rightarrow> Inl Null_deref
      | Some (k, Some t) \<Rightarrow> Inr t)"

definition bencodeHead :: "interval \<Rightarrow> torrentDataL \<Rightarrow> bytes" where
  "bencodeHead iv t =
     lit ''d8:completei'' @ fmt_d (t_complete t) @ lit ''e10:incompletei'' @ fmt_d (t_incomplete t) @
     lit ''e10:downloadedi'' @ fmt_d (t_downloaded t) @ lit ''e8:intervali'' @ fmt_d (i_interval iv) @ lit ''e''"

definition renderAnnounceTorrentL ::
  "(bool \<Rightarrow> bytes \<Rightarrow> bytes) \<Rightarrow> query \<Rightarrow> interval \<Rightarrow> torrent_ptr \<Rightarrow> bytes \<Rightarrow> bytes res" where
  "renderAnnounceTorrentL ntop q iv torrent block =
     bindR (torrentCopy torrent) (\<lambda>t.
     bindR (renderAnnouncePeersL ntop q (t_peerList t)) (\<lambda>peers.
       let byVersion = (if q_ipVersion q AND SOCKET_VERSION_IPV4_BIT \<noteq> 0
                        then lit ''5:peers'' else lit ''6:peers6'');
           head = (if q_protocol q = URI_QUERY_PROTOCOL_UDP then []
                   else if q_compact q
                   then bencodeHead iv t @ byVersion @ fmt_d (of_nat (length peers)) @ lit '':''
                   else bencodeHead iv t @ byVersion @ lit ''l'');
           end = (if q_protocol q = URI_QUERY_PROTOCOL_TCP
                  then (if q_compact q then [] else lit ''e'') @ lit ''e'' else [])
       in Inr (block @ head @ peers @ end)))"

definition renderAnnouncePublic ::
  "(bool \<Rightarrow> bytes \<Rightarrow> bytes) \<Rightarrow> query \<Rightarrow> interval \<Rightarrow> torrent_ptr \<Rightarrow> bytes \<Rightarrow> bytes res" where
  "renderAnnouncePublic ntop q iv torrent block =
     bindR (torrentCopy torrent) (\<lambda>t.
       renderAnnounceTorrentL ntop q iv torrent
         (if q_protocol q = URI_QUERY_PROTOCOL_UDP
          then block @ announceHeadResponse (htonl SOCKET_UDP_STRUCTURE_ACTION_ANNOUNCE)
                 (q_transaction_id q) (htonl (i_interval iv)) (htonl (t_incomplete t)) (htonl (t_complete t))
          else block))"

section \<open>The answer to a scrape\<close>

definition renderScrapeTorrentL :: "bytes \<Rightarrow> torrent_ptr \<Rightarrow> bytes \<Rightarrow> bool \<Rightarrow> bytes res" where
  "renderScrapeTorrentL block torrent hash udp =
     bindR (torrentCopy torrent) (\<lambda>t.
       Inr (block @
         (if udp then scrapeTorrentResponse (htonl (t_complete t)) (htonl (t_downloaded t)) (htonl (t_incomplete t))
          else lit ''20:'' @ take URI_PARAM_VALUE_LENGTH hash @
               lit ''d8:completei'' @ fmt_d (t_complete t) @ lit ''e10:incompletei'' @ fmt_d (t_incomplete t) @
               lit ''e10:downloadedi'' @ fmt_d (t_downloaded t) @ lit ''ee'')))"

definition renderScrapeTorrentsCallback :: "query \<Rightarrow> (torrentDataL, bytes) callback" where
  "renderScrapeTorrentsCallback q path hash d blk =
     bindR (renderScrapeTorrentL blk (Some (hash, d)) hash (q_protocol q \<noteq> 0)) (\<lambda>blk'. Inr (Keep d, blk', False))"

text \<open>
  The loop over the hashes, each under the semaphore of its leaf; posting restores the list the
  wait changed, so the list itself is not threaded through.
\<close>

fun scrapeLoop :: "torrentDataL hlist \<Rightarrow> bool \<Rightarrow> bytes list \<Rightarrow> bytes \<Rightarrow> bytes res" where
  "scrapeLoop ts udp [] scrapeBlock = Inr scrapeBlock"
| "scrapeLoop ts udp (hash # rest) scrapeBlock =
     bindR (getLeaf ts hash) (\<lambda>leaf.
     bindR (waitSemaphoreLeaf leaf) (\<lambda>leaf1.
     bindR (getHash ts hash) (\<lambda>torrent.
     bindR (renderScrapeTorrentL scrapeBlock torrent hash udp) (\<lambda>b.
     bindR (postSemaphoreLeaf leaf1) (\<lambda>_.
       if length b \<ge> DATA_MAX_PACKET_SIZE then Inr b else scrapeLoop ts udp rest b)))))"

text \<open>The hashes of the block, 20 bytes each; a rest of fewer bytes is ignored.\<close>

definition hashesOf :: "bytes \<Rightarrow> bytes list" where
  "hashesOf hashes =
     map (\<lambda>i. take URI_PARAM_VALUE_LENGTH (drop (i * URI_PARAM_VALUE_LENGTH) hashes))
       [0 ..< length hashes div URI_PARAM_VALUE_LENGTH]"

definition renderScrapeTorrentsPublic ::
  "torrentDataL hlist \<Rightarrow> bytes \<Rightarrow> query \<Rightarrow> bytes \<Rightarrow> bytes res" where
  "renderScrapeTorrentsPublic ts hashes q block =
     (let udp = (q_protocol q \<noteq> 0);
          head = (if udp then scrapeHeadResponse (htonl SOCKET_UDP_STRUCTURE_ACTION_SCRAPE) (q_transaction_id q)
                  else lit ''d5:filesd'')
      in bindR
           (if length hashes = 0 \<and> DATA_FULL_SCRAPE_ENABLE
            then bindR (mapList (renderScrapeTorrentsCallback q) [] [] ts) (\<lambda>(l, b, _). Inr b)
            else scrapeLoop ts udp (hashesOf hashes) [])
           (\<lambda>scrapeBlock. Inr (block @ head @ scrapeBlock @ (if udp then [] else lit ''ee''))))"

section \<open>Which peers an announce shows\<close>

definition visible :: "query \<Rightarrow> peerDataL \<Rightarrow> bool" where
  "visible q p \<longleftrightarrow> q_ipVersion q AND p_ipVersion p \<noteq> 0"

text \<open>The peers of a list with their ids, in the order of the list.\<close>

definition peer_items :: "peerDataL hlist \<Rightarrow> (bytes \<times> peerDataL) list" where
  "peer_items pl = map (map_prod id the) (allItems pl)"

definition shown :: "query \<Rightarrow> (bytes \<times> peerDataL) list \<Rightarrow> (bytes \<times> peerDataL) list" where
  "shown q xs = filter (visible q \<circ> snd) xs"

definition renderAll :: "(bool \<Rightarrow> bytes \<Rightarrow> bytes) \<Rightarrow> query \<Rightarrow> (bytes \<times> peerDataL) list \<Rightarrow> bytes" where
  "renderAll ntop q xs = concat (map (\<lambda>(k, p). renderPeer ntop q k p) xs)"

text \<open>How many peers the countdown of leftPeers lets through: 0 wraps round.\<close>

definition countdown :: "u32 \<Rightarrow> nat" where
  "countdown left = (if left = 0 then 2 ^ 32 else unat left)"

lemma countdown_step: "left \<noteq> 1 \<Longrightarrow> countdown (left - 1) = countdown left - 1 \<and> left - 1 \<noteq> 0 \<and> 0 < countdown (left - 1)"
proof -
  assume a: "left \<noteq> 1"
  show ?thesis
  proof (cases "left = 0")
    case True
    have "unat (- 1 :: u32) = 2 ^ 32 - 1" by (simp add: unsigned_minus_1_eq_mask mask_eq_exp_minus_1)
    with True show ?thesis by (simp add: countdown_def)
  next
    case False
    then have "unat (left - 1) = unat left - 1" by (simp add: unat_minus_one)
    moreover have "left - 1 \<noteq> 0" using a by simp
    moreover from this have "0 < unat (left - 1)" by (simp only: unat_gt_0 not_False_eq_True)
    ultimately show ?thesis using False by (simp add: countdown_def unat_gt_0)
  qed
qed

lemma announce_loop:
  fixes left :: u32
  shows "\<exists>n left' b. mapItems (renderAnnouncePeersCallback ntop q) path (blk, left) (map (map_prod id Some) xs) =
      Inr (map (map_prod id Some) xs, (blk @ renderAll ntop q (take n (shown q xs)), left'), b) \<and>
    n \<le> length (shown q xs) \<and> n \<le> countdown left \<and>
    (n < length (shown q xs) \<and> n < countdown left \<longrightarrow>
       DATA_MAX_PACKET_SIZE \<le> length (blk @ renderAll ntop q (take n (shown q xs)))) \<and>
    (0 < n \<longrightarrow> length (blk @ renderAll ntop q (take (n - 1) (shown q xs))) < DATA_MAX_PACKET_SIZE)"
proof (induction xs arbitrary: blk left)
  case Nil
  then show ?case by (auto simp: shown_def renderAll_def)
next
  case (Cons x xs)
  obtain k p where x: "x = (k, p)" by (cases x)
  let ?cb = "renderAnnouncePeersCallback ntop q"
  consider (full) "DATA_MAX_PACKET_SIZE \<le> length blk"
    | (skip) "length blk < DATA_MAX_PACKET_SIZE" "\<not> visible q p"
    | (last) "length blk < DATA_MAX_PACKET_SIZE" "visible q p" "left = 1"
    | (more) "length blk < DATA_MAX_PACKET_SIZE" "visible q p" "left \<noteq> 1" by fastforce
  then show ?case
  proof cases
    case full
    then have "?cb path k (Some p) (blk, left) = Inr (Keep (Some p), (blk, left), True)"
      by (simp add: renderAnnouncePeersCallback_def)
    then show ?thesis
      by (intro exI [of _ 0] exI [of _ left] exI [of _ True])
        (use full x in \<open>auto simp: renderAll_def\<close>)
  next
    case skip
    then have "?cb path k (Some p) (blk, left) = Inr (Keep (Some p), (blk, left), False)"
      by (simp add: renderAnnouncePeersCallback_def visible_def DATA_SEPARATE_TCP_AND_UDP_CLIENTS_def)
    then have run: "mapItems ?cb path (blk, left) (map (map_prod id Some) (x # xs)) =
        bindR (mapItems ?cb path (blk, left) (map (map_prod id Some) xs))
          (\<lambda>(ys, s'', b). Inr (map_prod id Some x # ys, s'', b))"
      using x by simp
    have sh: "shown q (x # xs) = shown q xs" using skip x by (simp add: shown_def)
    from Cons.IH [of blk left] obtain n left' b where n:
      "mapItems ?cb path (blk, left) (map (map_prod id Some) xs) =
        Inr (map (map_prod id Some) xs, (blk @ renderAll ntop q (take n (shown q xs)), left'), b)"
      "n \<le> length (shown q xs) \<and> n \<le> countdown left \<and>
       (n < length (shown q xs) \<and> n < countdown left \<longrightarrow>
         DATA_MAX_PACKET_SIZE \<le> length (blk @ renderAll ntop q (take n (shown q xs)))) \<and>
       (0 < n \<longrightarrow> length (blk @ renderAll ntop q (take (n - 1) (shown q xs))) < DATA_MAX_PACKET_SIZE)"
      by blast
    have "mapItems ?cb path (blk, left) (map (map_prod id Some) (x # xs)) =
        Inr (map (map_prod id Some) (x # xs), (blk @ renderAll ntop q (take n (shown q xs)), left'), b)"
      unfolding run n(1) by simp
    with n(2) show ?thesis unfolding sh by blast
  next
    case last
    then have "?cb path k (Some p) (blk, left) =
        Inr (Keep (Some p), (blk @ renderPeer ntop q k p, 0), True)"
      by (simp add: renderAnnouncePeersCallback_def visible_def DATA_SEPARATE_TCP_AND_UDP_CLIENTS_def Let_def)
    then show ?thesis
      by (intro exI [of _ 1] exI [of _ 0] exI [of _ True]) (use last x in \<open>auto simp: renderAll_def shown_def countdown_def\<close>)
  next
    case more
    have cd: "countdown (left - 1) = countdown left - 1" "left - 1 \<noteq> 0" "0 < countdown (left - 1)"
      using countdown_step [OF more(3)] by blast+
    have cb: "?cb path k (Some p) (blk, left) =
        Inr (Keep (Some p), (blk @ renderPeer ntop q k p, left - 1), False)"
      using more cd(2)
      by (simp add: renderAnnouncePeersCallback_def visible_def DATA_SEPARATE_TCP_AND_UDP_CLIENTS_def Let_def)
    from Cons.IH [of "blk @ renderPeer ntop q k p" "left - 1"] obtain n left' b where n:
      "mapItems ?cb path (blk @ renderPeer ntop q k p, left - 1) (map (map_prod id Some) xs) =
        Inr (map (map_prod id Some) xs,
          ((blk @ renderPeer ntop q k p) @ renderAll ntop q (take n (shown q xs)), left'), b)"
      "n \<le> length (shown q xs)" "n \<le> countdown left - 1"
      "n < length (shown q xs) \<and> n < countdown left - 1 \<longrightarrow>
         DATA_MAX_PACKET_SIZE \<le> length ((blk @ renderPeer ntop q k p) @ renderAll ntop q (take n (shown q xs)))"
      "0 < n \<longrightarrow> length ((blk @ renderPeer ntop q k p) @ renderAll ntop q (take (n - 1) (shown q xs)))
         < DATA_MAX_PACKET_SIZE"
      unfolding cd(1) by blast
    have sh: "shown q (x # xs) = x # shown q xs" using more x by (simp add: shown_def)
    have r: "renderAll ntop q (take (Suc m) (shown q (x # xs))) =
        renderPeer ntop q k p @ renderAll ntop q (take m (shown q xs))" for m
      unfolding sh by (simp add: renderAll_def x)
    have "Suc n \<le> countdown left" using n(3) cd(1,3) by linarith
    moreover have "mapItems ?cb path (blk, left) (map (map_prod id Some) (x # xs)) =
        Inr (map (map_prod id Some) (x # xs),
          (blk @ renderAll ntop q (take (Suc n) (shown q (x # xs))), left'), b)"
      using n(1) cb unfolding x by (simp add: r [of n, unfolded x])
    moreover have "length (blk @ renderAll ntop q (take (Suc n - 1) (shown q (x # xs)))) < DATA_MAX_PACKET_SIZE"
    proof (cases n)
      case 0
      then show ?thesis using more(1) by (simp add: renderAll_def)
    next
      case (Suc m)
      then show ?thesis using n(5) r [of m] by simp
    qed
    moreover have "Suc n \<le> length (shown q (x # xs))" using n(2) sh by simp
    moreover have "Suc n < length (shown q (x # xs)) \<and> Suc n < countdown left \<longrightarrow>
        DATA_MAX_PACKET_SIZE \<le> length (blk @ renderAll ntop q (take (Suc n) (shown q (x # xs))))"
      unfolding r using n(4) sh by auto
    ultimately show ?thesis by blast
  qed
qed

lemma allItems_peer_items:
  assumes "wf_torrent t" "t_peerList t = Some pl"
  shows "allItems pl = map (map_prod id Some) (peer_items pl)"
proof -
  have "d \<noteq> None" if "(k, d) \<in> set (allItems pl)" for k d
    using that assms by (cases d) (auto simp: wf_torrent_def)
  then show ?thesis by (auto simp: peer_items_def intro!: map_idI [symmetric])
qed

lemma renderAnnouncePeersL_prefix:
  assumes "wf_torrent t" "t_peerList t = Some pl"
  obtains n where
    "renderAnnouncePeersL ntop q (t_peerList t) = Inr (renderAll ntop q (take n (shown q (peer_items pl))))"
    "n \<le> length (shown q (peer_items pl))" "n \<le> countdown (q_numwant q)"
    "n < length (shown q (peer_items pl)) \<Longrightarrow> n < countdown (q_numwant q) \<Longrightarrow>
       DATA_MAX_PACKET_SIZE \<le> length (renderAll ntop q (take n (shown q (peer_items pl))))"
    "0 < n \<Longrightarrow> length (renderAll ntop q (take (n - 1) (shown q (peer_items pl)))) < DATA_MAX_PACKET_SIZE"
proof -
  let ?xs = "peer_items pl"
  have pl: "wf_hlist pl" "leaves_free pl" using assms by (auto simp: wf_torrent_def)
  from announce_loop [of ntop q "[]" "[]" "q_numwant q" ?xs] obtain n left' b where n:
    "mapItems (renderAnnouncePeersCallback ntop q) [] ([], q_numwant q) (allItems pl) =
      Inr (map (map_prod id Some) ?xs, (renderAll ntop q (take n (shown q ?xs)), left'), b)"
    "n \<le> length (shown q ?xs)" "n \<le> countdown (q_numwant q)"
    "n < length (shown q ?xs) \<and> n < countdown (q_numwant q) \<longrightarrow>
       DATA_MAX_PACKET_SIZE \<le> length (renderAll ntop q (take n (shown q ?xs)))"
    "0 < n \<longrightarrow> length (renderAll ntop q (take (n - 1) (shown q ?xs))) < DATA_MAX_PACKET_SIZE"
    unfolding allItems_peer_items [OF assms] append_Nil by blast
  have "renderAnnouncePeersCallback ntop q p k d s = renderAnnouncePeersCallback ntop q [] k d s" for p k d s
    by (simp add: renderAnnouncePeersCallback_def)
  from mapList_flat [OF pl this n(1), of "[]"] obtain l' where
    "mapList (renderAnnouncePeersCallback ntop q) [] ([], q_numwant q) pl =
      Inr (l', (renderAll ntop q (take n (shown q ?xs)), left'), b)" by blast
  then have "renderAnnouncePeersL ntop q (t_peerList t) = Inr (renderAll ntop q (take n (shown q ?xs)))"
    using assms(2) by (simp add: renderAnnouncePeersL_def mapListPtr_def)
  with n(2-) show thesis by (intro that) auto
qed

text \<open>An announce can be rendered for a torrent that is stored, and without one.\<close>

lemma renderAnnouncePublic_total:
  assumes "case torrent of None \<Rightarrow> True | Some (k, d) \<Rightarrow> \<exists>t. d = Some t \<and> wf_torrent t"
  shows "\<exists>b. renderAnnouncePublic ntop q iv torrent [] = Inr b"
proof (cases torrent)
  case None
  then show ?thesis
    by (simp add: renderAnnouncePublic_def renderAnnounceTorrentL_def torrentCopy_def renderAnnouncePeersL_def
        mapListPtr_def torrentDataL0_def Let_def)
next
  case (Some kd)
  with assms obtain k t where t: "torrent = Some (k, Some t)" "wf_torrent t" by (cases kd) auto
  then obtain pl where pl: "t_peerList t = Some pl" by (auto simp: wf_torrent_def split: option.splits)
  from renderAnnouncePeersL_prefix [OF t(2) pl, of ntop q] obtain n where
    "renderAnnouncePeersL ntop q (t_peerList t) = Inr (renderAll ntop q (take n (shown q (peer_items pl))))" by metis
  then show ?thesis
    using t(1) by (simp add: renderAnnouncePublic_def renderAnnounceTorrentL_def torrentCopy_def Let_def)
qed

section \<open>Entries of a fixed size\<close>

definition entrySize :: "query \<Rightarrow> nat" where
  "entrySize q = (if q_ipVersion q AND SOCKET_VERSION_IPV4_BIT \<noteq> 0 then 6 else 18)"

text \<open>The entries after which the block has reached the maximal packet size.\<close>

definition packetCap :: "query \<Rightarrow> nat" where
  "packetCap q = (DATA_MAX_PACKET_SIZE - 1) div entrySize q + 1"

text \<open>What a query gets at most: numwant, or everything that fits when numwant is 0.\<close>

definition announceLimit :: "query \<Rightarrow> nat" where
  "announceLimit q = (if q_numwant q = 0 then packetCap q else min (unat (q_numwant q)) (packetCap q))"

lemma in_peer_items:
  assumes "wf_torrent t" "t_peerList t = Some pl" "(k, p) \<in> set (peer_items pl)"
  shows "p \<in># peersM t"
proof -
  from assms(3) have "(k, Some p) \<in> set (allItems pl)"
    unfolding allItems_peer_items [OF assms(1,2)] by force
  then have "(the \<circ> snd) (k, Some p) \<in># peersM t"
    unfolding peersM_items [OF assms(2)] set_image_mset by (intro imageI) simp
  then show ?thesis by simp
qed

lemma renderAll_length:
  assumes "q_compact q \<or> q_protocol q = URI_QUERY_PROTOCOL_UDP"
    "\<forall>(k, p) \<in> set xs. length (p_ip4 p) = 16 \<and> length (p_ip6 p) = 16"
  shows "length (renderAll ntop q xs) = entrySize q * length xs"
  using assms
  by (induction xs) (auto simp: renderAll_def renderPeer_def entrySize_def Let_def)

lemma compact_peers:
  assumes "wf_torrent t" "t_peerList t = Some pl" "addresses_ok t"
    "q_compact q \<or> q_protocol q = URI_QUERY_PROTOCOL_UDP"
  shows "renderAnnouncePeersL ntop q (t_peerList t) =
      Inr (renderAll ntop q (take (announceLimit q) (shown q (peer_items pl))))"
    "length (renderAll ntop q (take (announceLimit q) (shown q (peer_items pl)))) =
      entrySize q * min (announceLimit q) (length (shown q (peer_items pl)))"
proof -
  let ?V = "shown q (peer_items pl)" and ?s = "entrySize q" and ?M = DATA_MAX_PACKET_SIZE
  have s: "0 < ?s" by (simp add: entrySize_def)
  have len: "length (renderAll ntop q (take n ?V)) = ?s * min n (length ?V)" for n
  proof -
    have "\<forall>(k, p) \<in> set (take n ?V). length (p_ip4 p) = 16 \<and> length (p_ip6 p) = 16"
      using in_peer_items [OF assms(1,2)] assms(3)
      by (auto simp: addresses_ok_def shown_def dest!: in_set_takeD)
    from renderAll_length [OF assms(4) this] show ?thesis by (simp add: min.commute)
  qed
  show "length (renderAll ntop q (take (announceLimit q) ?V)) = ?s * min (announceLimit q) (length ?V)"
    by (rule len)
  from renderAnnouncePeersL_prefix [OF assms(1,2), of ntop q] obtain n where n:
    "renderAnnouncePeersL ntop q (t_peerList t) = Inr (renderAll ntop q (take n ?V))"
    "n \<le> length ?V" "n \<le> countdown (q_numwant q)"
    and n4: "n < length ?V \<Longrightarrow> n < countdown (q_numwant q) \<Longrightarrow> ?M \<le> length (renderAll ntop q (take n ?V))"
    and n5: "0 < n \<Longrightarrow> length (renderAll ntop q (take (n - 1) ?V)) < ?M"
    by blast
  have ln: "min n (length ?V) = n" "min (n - 1) (length ?V) = n - 1" using n(2) by auto
  note n4 = n4 [unfolded len ln] and n5 = n5 [unfolded len ln]
  have cap: "(?s * j < ?M) = (j < packetCap q)" for j
  proof -
    have "(?s * j < ?M) = (j * ?s \<le> ?M - 1)" by (auto simp: DATA_MAX_PACKET_SIZE_def mult.commute)
    also have "\<dots> = (j \<le> (?M - 1) div ?s)" using s by (simp add: less_eq_div_iff_mult_less_eq)
    finally show ?thesis by (simp add: packetCap_def less_Suc_eq_le)
  qed
  have small: "packetCap q < 2 ^ 32" by (simp add: packetCap_def DATA_MAX_PACKET_SIZE_def entrySize_def)
  have up: "n \<le> packetCap q"
  proof (cases n)
    case (Suc m)
    then show ?thesis using n5 cap [of m] by simp
  qed simp
  have "n = min (length ?V) (min (countdown (q_numwant q)) (packetCap q))"
  proof (cases "n < length ?V \<and> n < countdown (q_numwant q)")
    case True
    with n4 cap [of n] up have "n = packetCap q" by simp
    with True show ?thesis by simp
  next
    case False
    with n(2,3) up show ?thesis by linarith
  qed
  moreover have "min (countdown (q_numwant q)) (packetCap q) = announceLimit q"
    using small by (simp add: countdown_def announceLimit_def)
  ultimately have "take n ?V = take (announceLimit q) ?V"
    by (simp add: min_def)
  with n(1) show "renderAnnouncePeersL ntop q (t_peerList t) = Inr (renderAll ntop q (take (announceLimit q) ?V))"
    by simp
qed


section \<open>Properties\<close>



text \<open>A 32-bit number in network byte order.\<close>

definition be32 :: "u32 \<Rightarrow> bytes" where
  "be32 w = rev (mem32 w)"

text \<open>The UDP answer to an announce has the layout of the protocol: 20 bytes with the
action 1, the client's transaction id, the interval, the leechers and the seeders, in network
byte order, then 6 bytes (18 for IPv6) for each peer shown.\<close>

theorem udp_announce_layout:
  assumes "wf_torrent t" "t_peerList t = Some pl" "addresses_ok t"
    "q_protocol q = URI_QUERY_PROTOCOL_UDP"
  shows "renderAnnouncePublic ntop q iv (Some (h, Some t)) block = Inr (block @
      be32 1 @ mem32 (q_transaction_id q) @ be32 (i_interval iv) @ be32 (t_incomplete t) @ be32 (t_complete t) @
      concat (map (\<lambda>(k, p). (if q_ipVersion q AND SOCKET_VERSION_IPV4_BIT \<noteq> 0
                               then take 4 (drop 12 (p_ip4 p)) else take 16 (p_ip6 p)) @ mem16 (p_port p))
        (take (announceLimit q) (shown q (peer_items pl)))))"
proof -
  have "q_protocol q \<noteq> URI_QUERY_PROTOCOL_TCP"
    using assms(4) by (simp add: URI_QUERY_PROTOCOL_TCP_def URI_QUERY_PROTOCOL_UDP_def)
  moreover have "renderPeer ntop q k p = (if q_ipVersion q AND SOCKET_VERSION_IPV4_BIT \<noteq> 0
      then take 4 (drop 12 (p_ip4 p)) else take 16 (p_ip6 p)) @ mem16 (p_port p)" for k p
    using assms(4) by (simp add: renderPeer_def)
  ultimately show ?thesis
    using compact_peers(1) [OF assms(1-3) disjI2 [OF assms(4)], of ntop] assms(4)
    by (simp add: renderAnnouncePublic_def torrentCopy_def renderAnnounceTorrentL_def Let_def renderAll_def
        announceHeadResponse_def be32_def SOCKET_UDP_STRUCTURE_ACTION_ANNOUNCE_def)
qed

theorem udp_announce_layout_witness:
  "renderAnnouncePublic (\<lambda>_ _. []) ((sample_query 2)\<lparr>q_protocol := 1, q_ipVersion := 2\<rparr>) sample_interval
     (Some (replicate 20 1, Some (sample_torrent 2))) [] =
   Inr ([0, 0, 0, 1] @ [0, 0, 0, 0] @ [0, 0, 0, 30] @ [0, 0, 0, 1] @ [0, 0, 0, 0])"
proof -
  let ?q = "(sample_query 2)\<lparr>q_protocol := 1, q_ipVersion := 2\<rparr>"
  have i: "shown ?q (peer_items (sample_peers 2)) = []"
    by (simp add: peer_items_def sample_peers_def allItems.simps shown_def visible_def sample_peer_def)
  have "addresses_ok (sample_torrent 2)"
    by (simp add: addresses_ok_def sample_ok) (simp add: sample_peer_def peerDataL0_def)
  moreover have "t_peerList (sample_torrent 2) = Some (sample_peers 2)" by (simp add: sample_torrent_def)
  ultimately show ?thesis
    using udp_announce_layout [OF sample_ok(1), of 2 "sample_peers 2" ?q "\<lambda>_ _. []" sample_interval
        "replicate 20 1" "[]"] i
    by (simp add: URI_QUERY_PROTOCOL_UDP_def be32_def mem32_def sample_query_def query0_def)
      (simp add: sample_torrent_def sample_interval_def event_defs)
qed

end
