(* ===== verification/Udp_Worker.thy ===== *)
theory Udp_Worker
  imports Tracker_Render Socket_Http Leaf_Lock
begin

text \<open>
  One datagram in a UDP worker (thread\_client\_udp.c): its classification by size and action,
  the connect, announce and scrape answers, the updates of the tracker and of the counters.
  The handler returns what it does to the outside as a list of actions: the datagram handed to
  sendto and the address handed to the websocket broadcast. The result of sendto is an input
  (None is success, Some e a failure with errno e). The semaphore of the leaf is awaited before
  and posted after the update, which leaves its value as it was.
\<close>

datatype udp_action = Sendto bytes | Broadcast bytes

text \<open>sendto and its counters.\<close>

definition sendtoUdp :: "int option \<Rightarrow> bytes \<Rightarrow> stats \<Rightarrow> stats res" where
  "sendtoUdp sendErr msg st =
     (let st1 = addStat Sent_bytes_udp (of_nat (length msg)) st in
      case sendErr of
        Some e \<Rightarrow> bindR (incErrnoOf Send_errno_udp e st1) (\<lambda>st2. Inr (incStat Send_failed_udp st2))
      | None \<Rightarrow> Inr (incStat Send_pass_udp st1))"

definition udpConnect ::
  "int option \<Rightarrow> u32 \<Rightarrow> bytes \<Rightarrow> stats \<Rightarrow> (stats \<times> udp_action list) res" where
  "udpConnect sendErr receiveCount data st =
     (let st1 = incStat Connect_udp st; req = rd_connectRequest data in
      if cr_protocol_id req = SOCKET_UDP_STRUCTURE_PROTOCOL_ID \<and>
         cr_action req = SOCKET_UDP_STRUCTURE_ACTION_CONNECT
      then (let msg = connectResponse SOCKET_UDP_STRUCTURE_ACTION_CONNECT (cr_transaction_id req) (ucast receiveCount)
            in bindR (sendtoUdp sendErr msg st1) (\<lambda>st2. Inr (st2, [Sendto msg])))
      else Inr (st1, []))"

text \<open>The query of an announce: the event is cut to a byte, numwant to the configured maximum.\<close>

definition udpQuery :: "u32 \<Rightarrow> bytes \<Rightarrow> announceRequest \<Rightarrow> query" where
  "udpQuery maxPeers clientIp req =
     query0\<lparr>q_protocol := URI_QUERY_PROTOCOL_UDP, q_port := ar_port req,
       q_event := ucast (htonl (ar_event req)), q_info_hash := ar_info_hash req,
       q_peer_id := ar_peer_id req,
       q_numwant := (if htonl (ar_num_want req) > maxPeers then maxPeers else htonl (ar_num_want req)),
       q_ip := clientIp, q_ipVersion := getIpVersion clientIp,
       q_transaction_id := ar_transaction_id req\<rparr>"

definition udpAnnounce ::
  "(bool \<Rightarrow> bytes \<Rightarrow> bytes) \<Rightarrow> int \<Rightarrow> u32 \<Rightarrow> interval \<Rightarrow> int option \<Rightarrow> bytes \<Rightarrow> bytes
   \<Rightarrow> torrentDataL hlist \<Rightarrow> stats \<Rightarrow> (torrentDataL hlist \<times> stats \<times> udp_action list) res" where
  "udpAnnounce ntop now maxPeers iv sendErr clientIp data ts st =
     (let st1 = incStat Announce_udp st; q = udpQuery maxPeers clientIp (rd_announceRequest data) in
      bindR (getLeaf ts (q_info_hash q)) (\<lambda>leaf.
      bindR (waitSemaphoreLeaf leaf) (\<lambda>leaf1.
      bindR (if q_event q = URI_EVENT_ID_STOPPED
             then bindR (deletePeerPublic ts q) (\<lambda>(ts', torrent). Inr (ts', torrent, st1))
             else setPeerPublic now ts q DATA_STRUCTURE_PEER_PROTOCOL_UDP_BIT st1) (\<lambda>(ts', torrent, st2).
      bindR (renderAnnouncePublic ntop q iv torrent []) (\<lambda>msg.
      bindR (postSemaphoreLeaf leaf1) (\<lambda>_.
      bindR (sendtoUdp sendErr msg st2) (\<lambda>st3.
        Inr (ts', st3, Sendto msg #
          (if q_ipVersion q AND SOCKET_VERSION_IPV4_BIT \<noteq> 0 then [Broadcast clientIp] else [])))))))))"

definition udpScrape ::
  "int option \<Rightarrow> bytes \<Rightarrow> torrentDataL hlist \<Rightarrow> stats \<Rightarrow> (stats \<times> udp_action list) res" where
  "udpScrape sendErr data ts st =
     (let st1 = incStat Scrape_udp st; req = rd_scrapeRequest data;
          hashCount = (length data - sizeof_scrapeRequest) div URI_PARAM_VALUE_LENGTH;
          hashes = take (hashCount * URI_PARAM_VALUE_LENGTH) (drop sizeof_scrapeRequest data);
          q = query0\<lparr>q_protocol := URI_QUERY_PROTOCOL_UDP, q_transaction_id := sr_transaction_id req\<rparr> in
      bindR (renderScrapeTorrentsPublic ts hashes q []) (\<lambda>msg.
      bindR (sendtoUdp sendErr msg st1) (\<lambda>st2. Inr (st2, [Sendto msg]))))"

text \<open>The body of the loop for a request that was pulled.\<close>

definition udpRequestStep ::
  "(bool \<Rightarrow> bytes \<Rightarrow> bytes) \<Rightarrow> int \<Rightarrow> u32 \<Rightarrow> interval \<Rightarrow> int option \<Rightarrow> bytes \<Rightarrow> u32 \<Rightarrow> bytes
   \<Rightarrow> torrentDataL hlist \<Rightarrow> stats \<Rightarrow> (torrentDataL hlist \<times> stats \<times> udp_action list) res" where
  "udpRequestStep ntop now maxPeers iv sendErr clientIp receiveCount data ts st =
     (if length data = sizeof_connectRequest then
        bindR (udpConnect sendErr receiveCount data st) (\<lambda>(st', acts). Inr (ts, st', acts))
      else if length data \<ge> sizeof_announceRequest \<and>
              htonl (ar_action (rd_announceRequest data)) = SOCKET_UDP_STRUCTURE_ACTION_ANNOUNCE then
        udpAnnounce ntop now maxPeers iv sendErr clientIp data ts st
      else if length data > sizeof_scrapeRequest \<and>
              htonl (sr_action (rd_scrapeRequest data)) = SOCKET_UDP_STRUCTURE_ACTION_SCRAPE then
        bindR (udpScrape sendErr data ts st) (\<lambda>(st', acts). Inr (ts, st', acts))
      else Inr (ts, st, []))"

section \<open>The loop of a scrape\<close>

text \<open>The entry of a hash: the counters of its torrent, zeros for an unknown one.\<close>

definition scrapeEntry :: "torrentDataL hlist \<Rightarrow> bool \<Rightarrow> bytes \<Rightarrow> bytes" where
  "scrapeEntry ts udp h =
     (let t = (case torrent_of ts h of None \<Rightarrow> torrentDataL0 | Some t \<Rightarrow> t) in
      if udp then scrapeTorrentResponse (htonl (t_complete t)) (htonl (t_downloaded t)) (htonl (t_incomplete t))
      else lit ''20:'' @ take URI_PARAM_VALUE_LENGTH h @
               lit ''d8:completei'' @ fmt_d (t_complete t) @ lit ''e10:incompletei'' @ fmt_d (t_incomplete t) @
               lit ''e10:downloadedi'' @ fmt_d (t_downloaded t) @ lit ''ee'')"

lemma getHash_torrent_of:
  assumes "wf_tracker ts" "length h = URI_PARAM_VALUE_LENGTH"
  shows "getHash ts h = Inr (case torrent_of ts h of None \<Rightarrow> None | Some t \<Rightarrow> Some (h, Some t))"
proof -
  have "wf_hlist ts" "length h = hashLength ts" using assms by (auto simp: wf_tracker_def)
  moreover have "map_of (allItems ts) h \<noteq> Some None"
  proof
    assume "map_of (allItems ts) h = Some None"
    then have "(h, None) \<in> set (allItems ts)" by (rule map_of_SomeD)
    with assms(1) show False unfolding wf_tracker_def by fastforce
  qed
  ultimately show ?thesis by (auto simp: getHash_map_of torrent_of_def split: option.splits)
qed

lemma scrapeLoop_prefix:
  assumes "wf_tracker ts" "\<forall>h \<in> set hs. length h = URI_PARAM_VALUE_LENGTH"
  shows "\<exists>n \<le> length hs. scrapeLoop ts udp hs b = Inr (b @ concat (map (scrapeEntry ts udp) (take n hs))) \<and>
    (n < length hs \<longrightarrow> DATA_MAX_PACKET_SIZE \<le> length (b @ concat (map (scrapeEntry ts udp) (take n hs)))) \<and>
    (1 < n \<longrightarrow> length (b @ concat (map (scrapeEntry ts udp) (take (n - 1) hs))) < DATA_MAX_PACKET_SIZE)"
  using assms(2)
proof (induction hs arbitrary: b)
  case Nil
  then show ?case by simp
next
  case (Cons h hs)
  let ?e = "scrapeEntry ts udp h" and ?c = "\<lambda>xs. concat (map (scrapeEntry ts udp) xs)"
  have h: "length h = URI_PARAM_VALUE_LENGTH" using Cons.prems by simp
  have wf: "wf_hlist ts" "leaves_free ts" "length h = hashLength ts"
    using assms(1) h by (auto simp: wf_tracker_def)
  obtain leaf leaf1 leaf2 where l: "getLeaf ts h = Inr leaf" "waitSemaphoreLeaf leaf = Inr leaf1"
    "postSemaphoreLeaf leaf1 = Inr leaf2" by (rule lockable_leaf [OF wf])
  have r: "renderScrapeTorrentL b (case torrent_of ts h of None \<Rightarrow> None | Some t \<Rightarrow> Some (h, Some t)) h udp
      = Inr (b @ ?e)"
    by (simp add: renderScrapeTorrentL_def torrentCopy_def scrapeEntry_def Let_def split: option.split)
  have run: "scrapeLoop ts udp (h # hs) b =
      (if length (b @ ?e) \<ge> DATA_MAX_PACKET_SIZE then Inr (b @ ?e) else scrapeLoop ts udp hs (b @ ?e))"
    using l getHash_torrent_of [OF assms(1) h] r by simp
  show ?case
  proof (cases "length (b @ ?e) \<ge> DATA_MAX_PACKET_SIZE")
    case True
    then show ?thesis unfolding run by (intro exI [of _ 1]) auto
  next
    case False
    have "\<forall>h \<in> set hs. length h = URI_PARAM_VALUE_LENGTH" using Cons.prems by simp
    from Cons.IH [OF this, of "b @ ?e"] obtain n where n: "n \<le> length hs" "scrapeLoop ts udp hs (b @ ?e) = Inr ((b @ ?e) @ ?c (take n hs))"
      "n < length hs \<longrightarrow> DATA_MAX_PACKET_SIZE \<le> length ((b @ ?e) @ ?c (take n hs))"
      "1 < n \<longrightarrow> length ((b @ ?e) @ ?c (take (n - 1) hs)) < DATA_MAX_PACKET_SIZE" by blast
    have "length (b @ ?c (take (Suc n - 1) (h # hs))) < DATA_MAX_PACKET_SIZE" if "1 < Suc n"
    proof (cases "n = 1")
      case True
      then show ?thesis using False by simp
    next
      case f: False
      with that obtain m where m: "n = Suc m" "0 < m" by (cases n) auto
      with n(4) show ?thesis by simp
    qed
    with n False show ?thesis unfolding run by (intro exI [of _ "Suc n"]) auto
  qed
qed

lemma hashesOf_length: "h \<in> set (hashesOf b) \<Longrightarrow> length h = URI_PARAM_VALUE_LENGTH"
proof -
  assume "h \<in> set (hashesOf b)"
  then obtain i where i: "i < length b div URI_PARAM_VALUE_LENGTH"
    "h = take URI_PARAM_VALUE_LENGTH (drop (i * URI_PARAM_VALUE_LENGTH) b)" by (auto simp: hashesOf_def)
  have "(i + 1) * URI_PARAM_VALUE_LENGTH \<le> (length b div URI_PARAM_VALUE_LENGTH) * URI_PARAM_VALUE_LENGTH"
    using i(1) by (intro mult_le_mono1) simp
  also have "\<dots> \<le> length b" by simp
  finally show ?thesis unfolding i(2) by (simp add: algebra_simps)
qed

section \<open>No datagram fails\<close>

lemma sendtoUdp_ok:
  assumes "wf_stats st" "case e of None \<Rightarrow> True | Some n \<Rightarrow> 0 \<le> n"
  obtains st' where "sendtoUdp e msg st = Inr st'" "wf_stats st'"
proof (cases e)
  case None
  with assms that [of "incStat Send_pass_udp (addStat Sent_bytes_udp (of_nat (length msg)) st)"]
  show thesis by (simp add: sendtoUdp_def Let_def)
next
  case (Some n)
  let ?st = "addStat Sent_bytes_udp (of_nat (length msg)) st"
  have "wf_stats ?st" "0 \<le> n" using assms Some by simp_all
  from incErrnoOf_ok [OF this, of Send_errno_udp] obtain xs where
    x: "incErrnoOf Send_errno_udp n ?st = Inr (?st\<lparr>st_errno := (st_errno ?st)(Send_errno_udp := xs)\<rparr>)"
    "wf_stats (?st\<lparr>st_errno := (st_errno ?st)(Send_errno_udp := xs)\<rparr>)" by blast
  show thesis
    by (rule that [of "incStat Send_failed_udp (?st\<lparr>st_errno := (st_errno ?st)(Send_errno_udp := xs)\<rparr>)"])
      (use x Some in \<open>simp_all add: sendtoUdp_def Let_def\<close>)
qed

definition udp_reply_ok :: "udp_action list \<Rightarrow> bool" where
  "udp_reply_ok acts \<longleftrightarrow> acts = [] \<or>
     (\<exists>msg rest. acts = Sendto msg # rest \<and> length msg < 64050 \<and> (rest = [] \<or> (\<exists>a. rest = [Broadcast a])))"

lemma renderPeer_udp_length:
  "q_protocol q = URI_QUERY_PROTOCOL_UDP \<Longrightarrow> length (renderPeer ntop q k p) \<le> 18"
  by (auto simp: renderPeer_def)

lemma udp_announce_render:
  assumes "case torrent of None \<Rightarrow> True | Some (k, d) \<Rightarrow> \<exists>t. d = Some t \<and> wf_torrent t"
    "q_protocol q = URI_QUERY_PROTOCOL_UDP"
  obtains msg where "renderAnnouncePublic ntop q iv torrent [] = Inr msg" "length msg < 64050"
proof -
  have np: "q_protocol q \<noteq> URI_QUERY_PROTOCOL_TCP"
    using assms(2) by (simp add: URI_QUERY_PROTOCOL_TCP_def URI_QUERY_PROTOCOL_UDP_def)
  show thesis
  proof (cases torrent)
    case None
    then show thesis
      using that np assms(2) by (simp add: renderAnnouncePublic_def renderAnnounceTorrentL_def torrentCopy_def
          renderAnnouncePeersL_def mapListPtr_def torrentDataL0_def Let_def)
  next
    case (Some kd)
    with assms(1) obtain k t where t: "torrent = Some (k, Some t)" "wf_torrent t" by (cases kd) auto
    then obtain pl where pl: "t_peerList t = Some pl" by (auto simp: wf_torrent_def split: option.splits)
    let ?V = "shown q (peer_items pl)"
    from renderAnnouncePeersL_prefix [OF t(2) pl, of ntop q] obtain n where n:
      "renderAnnouncePeersL ntop q (t_peerList t) = Inr (renderAll ntop q (take n ?V))" "n \<le> length ?V"
      "0 < n \<Longrightarrow> length (renderAll ntop q (take (n - 1) ?V)) < DATA_MAX_PACKET_SIZE" by metis
    have "length (renderAll ntop q (take n ?V)) < 64018"
    proof (cases n)
      case 0
      then show ?thesis by (simp add: renderAll_def)
    next
      case (Suc m)
      then have "take n ?V = take m ?V @ [?V ! m]" using n(2) by (simp add: take_Suc_conv_app_nth)
      moreover obtain a p where "?V ! m = (a, p)" by (cases "?V ! m")
      ultimately have "length (renderAll ntop q (take n ?V)) =
          length (renderAll ntop q (take m ?V)) + length (renderPeer ntop q a p)" by (simp add: renderAll_def)
      with renderPeer_udp_length [OF assms(2), of ntop a p] n(3) Suc show ?thesis
        by (simp add: DATA_MAX_PACKET_SIZE_def)
    qed
    then show thesis
      using that np assms(2) t(1) n(1) by (simp add: renderAnnouncePublic_def renderAnnounceTorrentL_def
          torrentCopy_def Let_def)
  qed
qed

lemma udpAnnounce_ok:
  assumes "wf_tracker ts" "wf_stats st" "case e of None \<Rightarrow> True | Some n \<Rightarrow> 0 \<le> n"
    "sizeof_announceRequest \<le> length data"
  obtains ts' st' acts where "udpAnnounce ntop now mx iv e ip data ts st = Inr (ts', st', acts)"
    "wf_tracker ts'" "wf_stats st'" "udp_reply_ok acts" "\<forall>a. Broadcast a \<in> set acts \<longrightarrow> a = ip"
    "whole_addresses ts \<and> length ip = 16 \<longrightarrow> whole_addresses ts'"
proof -
  let ?q = "udpQuery mx ip (rd_announceRequest data)"
  have q: "query_ok ?q" "q_protocol ?q = URI_QUERY_PROTOCOL_UDP"
    using assms(4) by (simp_all add: query_ok_def udpQuery_def rd_announceRequest_def
        sizeof_announceRequest_def URI_PARAM_VALUE_LENGTH_def)
  have wf: "wf_hlist ts" "leaves_free ts" "length (q_info_hash ?q) = hashLength ts"
    using assms(1) q(1) by (auto simp: wf_tracker_def query_ok_def)
  obtain leaf leaf1 leaf2 where l: "getLeaf ts (q_info_hash ?q) = Inr leaf"
    "waitSemaphoreLeaf leaf = Inr leaf1" "postSemaphoreLeaf leaf1 = Inr leaf2" by (rule lockable_leaf [OF wf])
  have wst: "wf_stats (incStat Announce_udp st)" using assms(2) by simp
  let ?upd = "if q_event ?q = URI_EVENT_ID_STOPPED
             then bindR (deletePeerPublic ts ?q) (\<lambda>(ts', torrent). Inr (ts', torrent, incStat Announce_udp st))
             else setPeerPublic now ts ?q DATA_STRUCTURE_PEER_PROTOCOL_UDP_BIT (incStat Announce_udp st)"
  obtain ts' torrent st2 where u: "?upd = Inr (ts', torrent, st2)" "wf_tracker ts'" "wf_stats st2"
    "stored ts' (q_info_hash ?q) torrent" "whole_addresses ts \<and> length (q_ip ?q) = 16 \<longrightarrow> whole_addresses ts'"
    by (rule announce_update [OF assms(1) q(1) wst, of now DATA_STRUCTURE_PEER_PROTOCOL_UDP_BIT])
  then have torrent: "case torrent of None \<Rightarrow> True | Some (k, d) \<Rightarrow> \<exists>t. d = Some t \<and> wf_torrent t"
    by (auto simp: stored_def split: option.splits)
  obtain msg where m: "renderAnnouncePublic ntop ?q iv torrent [] = Inr msg" "length msg < 64050"
    by (rule udp_announce_render [OF torrent q(2)])
  obtain st3 where s: "sendtoUdp e msg st2 = Inr st3" "wf_stats st3" by (rule sendtoUdp_ok [OF u(3) assms(3)])
  have "udpAnnounce ntop now mx iv e ip data ts st = Inr (ts', st3, Sendto msg #
      (if q_ipVersion ?q AND SOCKET_VERSION_IPV4_BIT \<noteq> 0 then [Broadcast ip] else []))"
    unfolding udpAnnounce_def Let_def l bindR.simps u(1) prod.case m(1) s(1) by (rule refl)
  moreover have "udp_reply_ok (Sendto msg #
      (if q_ipVersion ?q AND SOCKET_VERSION_IPV4_BIT \<noteq> 0 then [Broadcast ip] else []))"
    using m(2) by (simp add: udp_reply_ok_def)
  moreover have "whole_addresses ts \<and> length ip = 16 \<longrightarrow> whole_addresses ts'" using u(5) by (simp add: udpQuery_def)
  ultimately show thesis using u(2) s(2) by (intro that) auto
qed

lemma udp_scrape_render:
  assumes "wf_tracker ts" "q_protocol q = URI_QUERY_PROTOCOL_UDP"
  obtains n where "n \<le> length (hashesOf hashes)"
    "renderScrapeTorrentsPublic ts hashes q [] =
       Inr (scrapeHeadResponse (htonl SOCKET_UDP_STRUCTURE_ACTION_SCRAPE) (q_transaction_id q)
         @ concat (map (scrapeEntry ts True) (take n (hashesOf hashes))))"
    "n < length (hashesOf hashes) \<Longrightarrow> DATA_MAX_PACKET_SIZE \<le> 12 * n"
    "1 < n \<Longrightarrow> 12 * (n - 1) < DATA_MAX_PACKET_SIZE"
proof -
  have "\<forall>h \<in> set (hashesOf hashes). length h = URI_PARAM_VALUE_LENGTH" by (simp add: hashesOf_length)
  from scrapeLoop_prefix [OF assms(1) this, of True "[]"] obtain n where n: "n \<le> length (hashesOf hashes)"
    "scrapeLoop ts True (hashesOf hashes) [] = Inr (concat (map (scrapeEntry ts True) (take n (hashesOf hashes))))"
    "n < length (hashesOf hashes) \<Longrightarrow>
       DATA_MAX_PACKET_SIZE \<le> length (concat (map (scrapeEntry ts True) (take n (hashesOf hashes))))"
    "1 < n \<Longrightarrow> length (concat (map (scrapeEntry ts True) (take (n - 1) (hashesOf hashes)))) < DATA_MAX_PACKET_SIZE"
    by auto
  have len: "length (concat (map (scrapeEntry ts True) hs)) = 12 * length hs" for hs
    by (induction hs) (auto simp: scrapeEntry_def Let_def)
  have "q_protocol q \<noteq> 0" using assms(2) by (simp add: URI_QUERY_PROTOCOL_UDP_def)
  then have "renderScrapeTorrentsPublic ts hashes q [] =
       Inr (scrapeHeadResponse (htonl SOCKET_UDP_STRUCTURE_ACTION_SCRAPE) (q_transaction_id q)
         @ concat (map (scrapeEntry ts True) (take n (hashesOf hashes))))"
    using n(2) by (simp add: renderScrapeTorrentsPublic_def Let_def DATA_FULL_SCRAPE_ENABLE_def)
  moreover have "DATA_MAX_PACKET_SIZE \<le> 12 * n" if "n < length (hashesOf hashes)"
    using n(1) n(3) [OF that] by (simp add: len)
  moreover have "12 * (n - 1) < DATA_MAX_PACKET_SIZE" if "1 < n"
    using n(1) n(4) [OF that] by (simp add: len min_def split: if_splits)
  ultimately show thesis using n(1) by (intro that)
qed


section \<open>Properties\<close>

definition is_udp_announce :: "bytes \<Rightarrow> bool" where
  "is_udp_announce data \<longleftrightarrow> sizeof_announceRequest \<le> length data \<and> take 4 (drop 8 data) = [0, 0, 0, 1]"

lemma htonl_be: "length m = 4 \<Longrightarrow> htonl (rd32 m 0) = w \<longleftrightarrow> m = rev (mem32 w)"
  by (metis htonl_htonl mem32_htonl mem32_rd32_length rd32_mem32)

lemma rd32_take_drop: "i + 4 \<le> length m \<Longrightarrow> rd32 m i = rd32 (take 4 (drop i m)) 0"
  by (simp add: rd32_def)

lemma action_bytes:
  assumes "12 \<le> length data"
  shows "htonl (rd32 data 8) = w \<longleftrightarrow> take 4 (drop 8 data) = rev (mem32 w)"
  using assms htonl_be [of "take 4 (drop 8 data)" w] by (simp add: rd32_take_drop [of 8])

lemma udpRequestStep_ok:
  assumes "wf_tracker ts" "wf_stats st" "case e of None \<Rightarrow> True | Some n \<Rightarrow> 0 \<le> n"
  shows "\<exists>ts' st' acts. udpRequestStep ntop now mx iv e ip rc data ts st = Inr (ts', st', acts) \<and>
    wf_tracker ts' \<and> wf_stats st' \<and> (is_udp_announce data \<or> ts' = ts) \<and>
    (acts = [] \<or> (\<exists>msg rest. acts = Sendto msg # rest \<and> length msg < 65507 \<and>
       (rest = [] \<or> rest = [Broadcast ip]))) \<and>
    (whole_addresses ts \<and> length ip = 16 \<longrightarrow> whole_addresses ts')"
proof -
  consider (connect) "length data = sizeof_connectRequest"
    | (announce) "length data \<noteq> sizeof_connectRequest" "sizeof_announceRequest \<le> length data"
        "htonl (ar_action (rd_announceRequest data)) = SOCKET_UDP_STRUCTURE_ACTION_ANNOUNCE"
    | (scrape) "length data \<noteq> sizeof_connectRequest"
        "\<not> (sizeof_announceRequest \<le> length data \<and>
           htonl (ar_action (rd_announceRequest data)) = SOCKET_UDP_STRUCTURE_ACTION_ANNOUNCE)"
        "sizeof_scrapeRequest < length data \<and>
           htonl (sr_action (rd_scrapeRequest data)) = SOCKET_UDP_STRUCTURE_ACTION_SCRAPE"
    | (other) "length data \<noteq> sizeof_connectRequest"
        "\<not> (sizeof_announceRequest \<le> length data \<and>
           htonl (ar_action (rd_announceRequest data)) = SOCKET_UDP_STRUCTURE_ACTION_ANNOUNCE)"
        "\<not> (sizeof_scrapeRequest < length data \<and>
           htonl (sr_action (rd_scrapeRequest data)) = SOCKET_UDP_STRUCTURE_ACTION_SCRAPE)" by blast
  then show ?thesis
  proof cases
    case connect
    let ?msg = "connectResponse SOCKET_UDP_STRUCTURE_ACTION_CONNECT
      (cr_transaction_id (rd_connectRequest data)) (ucast rc)"
    have "wf_stats (incStat Connect_udp st)" using assms(2) by simp
    then obtain st' where "sendtoUdp e ?msg (incStat Connect_udp st) = Inr st'" "wf_stats st'"
      using sendtoUdp_ok [OF _ assms(3)] by blast
    with connect assms show ?thesis by (auto simp: udpRequestStep_def udpConnect_def Let_def)
  next
    case announce
    obtain ts' st' acts where r: "udpAnnounce ntop now mx iv e ip data ts st = Inr (ts', st', acts)"
      "wf_tracker ts'" "wf_stats st'" "udp_reply_ok acts" "\<forall>a. Broadcast a \<in> set acts \<longrightarrow> a = ip"
      "whole_addresses ts \<and> length ip = 16 \<longrightarrow> whole_addresses ts'"
      by (rule udpAnnounce_ok [OF assms(1-3) announce(2)])
    have "is_udp_announce data"
      using announce(2,3) action_bytes [of data 1]
      by (simp add: is_udp_announce_def rd_announceRequest_def sizeof_announceRequest_def
          SOCKET_UDP_STRUCTURE_ACTION_ANNOUNCE_def mem32_def)
    with r announce show ?thesis by (force simp: udpRequestStep_def udp_reply_ok_def)
  next
    case scrape
    let ?q = "query0\<lparr>q_protocol := URI_QUERY_PROTOCOL_UDP,
      q_transaction_id := sr_transaction_id (rd_scrapeRequest data)\<rparr>"
    let ?hs = "take ((length data - sizeof_scrapeRequest) div URI_PARAM_VALUE_LENGTH * URI_PARAM_VALUE_LENGTH)
      (drop sizeof_scrapeRequest data)"
    have "q_protocol ?q = URI_QUERY_PROTOCOL_UDP" by simp
    from udp_scrape_render [OF assms(1) this, of ?hs] obtain n where n: "n \<le> length (hashesOf ?hs)"
      "renderScrapeTorrentsPublic ts ?hs ?q [] =
         Inr (scrapeHeadResponse (htonl SOCKET_UDP_STRUCTURE_ACTION_SCRAPE) (q_transaction_id ?q)
           @ concat (map (scrapeEntry ts True) (take n (hashesOf ?hs))))"
      "1 < n \<Longrightarrow> 12 * (n - 1) < DATA_MAX_PACKET_SIZE" by metis
    let ?msg = "scrapeHeadResponse (htonl SOCKET_UDP_STRUCTURE_ACTION_SCRAPE) (q_transaction_id ?q)
           @ concat (map (scrapeEntry ts True) (take n (hashesOf ?hs)))"
    have "length (concat (map (scrapeEntry ts True) hs)) = 12 * length hs" for hs
      by (induction hs) (auto simp: scrapeEntry_def Let_def)
    then have "length ?msg = 8 + 12 * n" using n(1) by simp
    moreover have "12 * n < 64012" using n(3) by (cases "1 < n") (auto simp: DATA_MAX_PACKET_SIZE_def)
    ultimately have len: "length ?msg < 65507" by linarith
    have "wf_stats (incStat Scrape_udp st)" using assms(2) by simp
    then obtain st' where "sendtoUdp e ?msg (incStat Scrape_udp st) = Inr st'" "wf_stats st'"
      using sendtoUdp_ok [OF _ assms(3)] by blast
    then have "udpRequestStep ntop now mx iv e ip rc data ts st = Inr (ts, st', [Sendto ?msg])"
      using scrape n(2) by (simp only: udpRequestStep_def udpScrape_def Let_def if_False if_True bindR.simps
          prod.case simp_thms)
    with assms(1) \<open>wf_stats st'\<close> len show ?thesis by blast
  next
    case other
    with assms show ?thesis by (simp only: udpRequestStep_def if_False) blast
  qed
qed

text \<open>C7: Whatever bytes arrive in a datagram, the worker neither dereferences a NULL pointer,
leaves an array, exits nor blocks; the tracker and the counters stay well formed; it sends at
most one datagram, which fits into a UDP packet, and at most one broadcast after it; and only
a datagram of at least 98 bytes with action 1 changes the tracker.\<close>

theorem udp_worker_total:
  assumes "wf_tracker ts" "wf_stats st" "case e of None \<Rightarrow> True | Some n \<Rightarrow> 0 \<le> n"
  shows "\<exists>ts' st' acts. udpRequestStep ntop now mx iv e ip rc data ts st = Inr (ts', st', acts) \<and>
    wf_tracker ts' \<and> wf_stats st' \<and> (is_udp_announce data \<or> ts' = ts) \<and>
    (acts = [] \<or> (\<exists>msg rest. acts = Sendto msg # rest \<and> length msg < 65507 \<and>
       (rest = [] \<or> (\<exists>a. rest = [Broadcast a]))))"
  using udpRequestStep_ok [OF assms, of ntop now mx iv ip rc data] by blast

theorem udp_worker_total_witness:
  "\<exists>ts' st' acts. udpRequestStep (\<lambda>_ _. []) 500 50 sample_interval (Some 11) (replicate 16 0) 7
     (replicate 20 0) (sample_tracker 2) (stats0 0) = Inr (ts', st', acts) \<and> ts' = sample_tracker 2"
  using udp_worker_total [OF sample_ok(2) [of 2] wf_stats0 [of 0], of "Some 11" "\<lambda>_ _. []" 500 50
      sample_interval "replicate 16 0" 7 "replicate 20 0"]
  by (auto simp: is_udp_announce_def sizeof_announceRequest_def)

lemma rd64_eq:
  assumes "8 \<le> length m"
  shows "rd64 m 0 = w \<longleftrightarrow> take 8 m = mem64 w"
proof -
  have a: "rd32 m 0 = x \<longleftrightarrow> take 4 m = mem32 x" for x
    using rd32_take_drop [of 0 m] assms mem32_rd32_length [of "take 4 m"] by auto
  have b: "rd32 m 4 = x \<longleftrightarrow> take 4 (drop 4 m) = mem32 x" for x
    using rd32_take_drop [of 4 m] assms mem32_rd32_length [of "take 4 (drop 4 m)"] by auto
  have r: "rd64 m 0 = w \<longleftrightarrow> rd32 m 0 = ucast w \<and> rd32 m 4 = ucast (drop_bit 32 w)"
  proof
    assume "rd64 m 0 = w"
    then have w: "w = ucast (rd32 m 0) OR push_bit 32 (ucast (rd32 m 4))" by (simp add: rd64_def)
    have "ucast w = rd32 m 0"
      unfolding w by (rule bit_word_eqI) (auto simp: bit_simps)
    moreover have "ucast (drop_bit 32 w) = rd32 m 4"
      unfolding w by (rule bit_word_eqI) (auto simp: bit_simps dest: bit_imp_le_length)
    ultimately show "rd32 m 0 = ucast w \<and> rd32 m 4 = ucast (drop_bit 32 w)" by simp
  next
    assume h: "rd32 m 0 = ucast w \<and> rd32 m 4 = ucast (drop_bit 32 w)"
    show "rd64 m 0 = w"
      using h unfolding rd64_def
      by (intro bit_word_eqI) (auto simp: bit_simps not_less dest: bit_imp_le_length)
  qed
  have t: "take 8 m = take 4 m @ take 4 (drop 4 m)"
    using take_add [of 4 4 m] by simp
  show ?thesis
    unfolding r a b mem64_split t using assms by (subst append_eq_append_conv) auto
qed

text \<open>A datagram of 16 bytes is a connect request: exactly when it starts with the magic
protocol id and action 0 it is answered, with action 0, the transaction id of the request and
the number of the request as connection id.\<close>

theorem udp_connect_handshake:
  assumes "length data = 16"
  shows "\<exists>st'. udpRequestStep ntop now mx iv None ip rc data ts st = Inr (ts, st',
    (if take 12 data = [0, 0, 0x04, 0x17, 0x27, 0x10, 0x19, 0x80, 0, 0, 0, 0]
     then [Sendto ([0, 0, 0, 0] @ drop 12 data @ mem32 rc @ [0, 0, 0, 0])] else []))"
proof -
  have m64: "mem64 SOCKET_UDP_STRUCTURE_PROTOCOL_ID = [0, 0, 0x04, 0x17, 0x27, 0x10, 0x19, 0x80]"
    by (simp add: mem64_def SOCKET_UDP_STRUCTURE_PROTOCOL_ID_def)
  have id: "rd64 data 0 = SOCKET_UDP_STRUCTURE_PROTOCOL_ID \<longleftrightarrow>
      take 8 data = [0, 0, 0x04, 0x17, 0x27, 0x10, 0x19, 0x80]"
    using rd64_eq [of data] assms by (simp add: m64)
  have act: "rd32 data 8 = SOCKET_UDP_STRUCTURE_ACTION_CONNECT \<longleftrightarrow> take 4 (drop 8 data) = [0, 0, 0, 0]"
    using rd32_take_drop [of 8 data] assms mem32_rd32_length [of "take 4 (drop 8 data)"]
      rd32_mem32 [of 0]
    by (auto simp: SOCKET_UDP_STRUCTURE_ACTION_CONNECT_def) (simp_all add: mem32_def rd32_def)
  have t: "take 12 data = take 8 data @ take 4 (drop 8 data)" using take_add [of 8 4 data] by simp
  have both: "(rd64 data 0 = SOCKET_UDP_STRUCTURE_PROTOCOL_ID \<and>
      rd32 data 8 = SOCKET_UDP_STRUCTURE_ACTION_CONNECT) \<longleftrightarrow>
      take 12 data = [0, 0, 0x04, 0x17, 0x27, 0x10, 0x19, 0x80, 0, 0, 0, 0]"
    unfolding id act t using assms
      append_eq_append_conv [of "take 8 data" "[0, 0, 0x04, 0x17, 0x27, 0x10, 0x19, 0x80]"
        "take 4 (drop 8 data)" "[0, 0, 0, 0]"] by simp
  have tid: "mem32 (rd32 data 12) = drop 12 data"
    using rd32_take_drop [of 12 data] assms mem32_rd32_length [of "drop 12 data"] by simp
  have cid: "mem64 (ucast rc :: u64) = mem32 rc @ [0, 0, 0, 0]"
  proof -
    have "ucast (ucast rc :: u64) = rc" by (rule bit_word_eqI) (simp add: bit_simps)
    moreover have "ucast (drop_bit 32 (ucast rc :: u64)) = (0 :: u32)"
      by (rule bit_word_eqI) (auto simp: bit_simps dest: bit_imp_le_length)
    moreover have "mem32 0 = [0, 0, 0, 0]" by (simp add: mem32_def)
    ultimately show ?thesis unfolding mem64_split by simp
  qed
  have msg: "connectResponse SOCKET_UDP_STRUCTURE_ACTION_CONNECT (rd32 data 12) (ucast rc)
      = [0, 0, 0, 0] @ drop 12 data @ mem32 rc @ [0, 0, 0, 0]"
    unfolding connectResponse_def cid tid by (simp add: SOCKET_UDP_STRUCTURE_ACTION_CONNECT_def mem32_def)
  show ?thesis
    using assms by (simp add: udpRequestStep_def sizeof_connectRequest_def udpConnect_def Let_def
        rd_connectRequest_def both msg sendtoUdp_def)
qed

theorem udp_connect_handshake_witness:
  "\<exists>st'. udpRequestStep (\<lambda>_ _. []) 500 50 sample_interval None (replicate 16 0) 7
     ([0, 0, 4, 23, 39, 16, 25, 128, 0, 0, 0, 0, 1, 2, 3, 4]) (sample_tracker 2) (stats0 0)
   = Inr (sample_tracker 2, st', [Sendto [0, 0, 0, 0, 1, 2, 3, 4, 7, 0, 0, 0, 0, 0, 0, 0]])"
  using udp_connect_handshake [of "[0, 0, 4, 23, 39, 16, 25, 128, 0, 0, 0, 0, 1, 2, 3, 4]" "\<lambda>_ _. []" 500 50
      sample_interval "replicate 16 0" 7 "sample_tracker 2" "stats0 0"]
  by (simp add: mem32_def)

lemma hashesOf_take:
  "hashesOf (take (length m div URI_PARAM_VALUE_LENGTH * URI_PARAM_VALUE_LENGTH) m) = hashesOf m"
proof -
  let ?n = "length m div URI_PARAM_VALUE_LENGTH"
  have l: "?n * URI_PARAM_VALUE_LENGTH \<le> length m" by simp
  then have "length (take (?n * URI_PARAM_VALUE_LENGTH) m) div URI_PARAM_VALUE_LENGTH = ?n"
    by (simp add: URI_PARAM_VALUE_LENGTH_def)
  moreover have "take URI_PARAM_VALUE_LENGTH (drop (i * URI_PARAM_VALUE_LENGTH)
        (take (?n * URI_PARAM_VALUE_LENGTH) m))
      = take URI_PARAM_VALUE_LENGTH (drop (i * URI_PARAM_VALUE_LENGTH) m)" if "i < ?n" for i
  proof -
    have "(i + 1) * URI_PARAM_VALUE_LENGTH \<le> ?n * URI_PARAM_VALUE_LENGTH"
      using that by (intro mult_le_mono1) simp
    then show ?thesis by (simp add: drop_take min_def algebra_simps)
  qed
  ultimately show ?thesis by (simp add: hashesOf_def)
qed

text \<open>The UDP answer to a scrape has the layout of the protocol: action 2 and the client's
transaction id, then for each 20-byte hash of the request, in order, the seeders, completed
downloads and leechers of its torrent in network byte order, zeros for an unknown one.\<close>

theorem udp_scrape_layout:
  assumes "wf_tracker ts" "16 < length data" "length data \<le> 1496" "take 4 (drop 8 data) = [0, 0, 0, 2]"
  shows "\<exists>st'. udpRequestStep ntop now mx iv None ip rc data ts st = Inr (ts, st', [Sendto
    ([0, 0, 0, 2] @ take 4 (drop 12 data) @
     concat (map (\<lambda>h. case torrent_of ts h of
           None \<Rightarrow> replicate 12 0
         | Some t \<Rightarrow> be32 (t_complete t) @ be32 (t_downloaded t) @ be32 (t_incomplete t))
       (hashesOf (drop 16 data))))])"
proof -
  have act: "htonl (rd32 data 8) = 2"
    using action_bytes [of data 2] assms(2,4) by (simp add: mem32_def)
  let ?q = "query0\<lparr>q_protocol := URI_QUERY_PROTOCOL_UDP, q_transaction_id := rd32 data 12\<rparr>"
  let ?m = "drop 16 data"
  let ?hs = "take (length ?m div URI_PARAM_VALUE_LENGTH * URI_PARAM_VALUE_LENGTH) ?m"
  have "q_protocol ?q = URI_QUERY_PROTOCOL_UDP" by simp
  from udp_scrape_render [OF assms(1) this, of ?hs] obtain n where n: "n \<le> length (hashesOf ?m)"
    "renderScrapeTorrentsPublic ts ?hs ?q [] =
       Inr (scrapeHeadResponse (htonl SOCKET_UDP_STRUCTURE_ACTION_SCRAPE) (rd32 data 12)
         @ concat (map (scrapeEntry ts True) (take n (hashesOf ?m))))"
    "n < length (hashesOf ?m) \<Longrightarrow> DATA_MAX_PACKET_SIZE \<le> 12 * n"
    unfolding hashesOf_take by auto
  have "length (hashesOf ?m) \<le> 74"
    using assms(3) div_le_mono [of "length ?m" 1480 20] by (simp add: hashesOf_def URI_PARAM_VALUE_LENGTH_def)
  with n(1,3) have all: "take n (hashesOf ?m) = hashesOf ?m"
    by (cases "n < length (hashesOf ?m)") (auto simp: DATA_MAX_PACKET_SIZE_def)
  have e: "scrapeEntry ts True h = (case torrent_of ts h of
           None \<Rightarrow> replicate 12 0
         | Some t \<Rightarrow> be32 (t_complete t) @ be32 (t_downloaded t) @ be32 (t_incomplete t))" for h
  proof -
    have z: "mem32 0 = [0, 0, 0, 0]" by (simp add: mem32_def)
    have r: "replicate 12 0 = [0, 0, 0, 0, 0, 0, 0, 0, 0, 0, 0, 0 :: 8 word]" by (simp add: numeral_eq_Suc)
    show ?thesis
      by (simp add: scrapeEntry_def Let_def scrapeTorrentResponse_def be32_def torrentDataL0_def mem32_htonl z r
          split: option.split)
  qed
  have tid: "mem32 (rd32 data 12) = take 4 (drop 12 data)"
    using rd32_take_drop [of 12 data] assms(2) mem32_rd32_length [of "take 4 (drop 12 data)"] by simp
  have msg: "scrapeHeadResponse (htonl SOCKET_UDP_STRUCTURE_ACTION_SCRAPE) (rd32 data 12)
      = [0, 0, 0, 2] @ take 4 (drop 12 data)"
    unfolding scrapeHeadResponse_def tid mem32_htonl
    by (simp add: SOCKET_UDP_STRUCTURE_ACTION_SCRAPE_def mem32_def)
  have step: "udpRequestStep ntop now mx iv None ip rc data ts st =
      bindR (udpScrape None data ts st) (\<lambda>(st', acts). Inr (ts, st', acts))"
    using assms(2) act by (simp add: udpRequestStep_def sizeof_connectRequest_def sizeof_scrapeRequest_def
        rd_announceRequest_def rd_scrapeRequest_def SOCKET_UDP_STRUCTURE_ACTION_ANNOUNCE_def
        SOCKET_UDP_STRUCTURE_ACTION_SCRAPE_def)
  show ?thesis
    using n(2) unfolding step all
    by (simp add: udpScrape_def Let_def sizeof_scrapeRequest_def rd_scrapeRequest_def msg sendtoUdp_def e cong: map_cong)
qed

theorem udp_scrape_layout_witness:
  "\<exists>st'. udpRequestStep (\<lambda>_ _. []) 500 50 sample_interval None (replicate 16 0) 7
     (replicate 8 0 @ [0, 0, 0, 2, 9, 9, 9, 9] @ replicate 20 1) (sample_tracker 1) (stats0 0)
   = Inr (sample_tracker 1, st', [Sendto [0, 0, 0, 2, 9, 9, 9, 9, 0, 0, 0, 1, 0, 0, 0, 1, 0, 0, 0, 0]])"
proof -
  have "hashesOf (replicate 20 1) = [replicate 20 1]"
    by (simp add: hashesOf_def URI_PARAM_VALUE_LENGTH_def)
  then show ?thesis
    using udp_scrape_layout [OF sample_ok(2) [of 1], of "replicate 8 0 @ [0, 0, 0, 2, 9, 9, 9, 9] @ replicate 20 1"
        "\<lambda>_ _. []" 500 50 sample_interval "replicate 16 0" 7 "stats0 0"]
    by (simp add: sample_ok) (simp add: sample_torrent_def be32_def mem32_def event_defs)
qed

end
