(* ===== verification/Bencode.thy ===== *)
theory Bencode
  imports Udp_Worker
begin

text \<open>
  The answers over TCP against the format of the protocol: bencoded values, their encoding and a
  reader for it, and the values the bodies of data.c and socket.c are the encodings of. The
  renderers themselves are in Tracker\_Render (announce, scrape) and Socket\_Http (failures).
\<close>

section \<open>Values and their encoding\<close>

datatype bvalue = BInt int | BStr bytes | BList "bvalue list" | BDict "(bytes \<times> bvalue) list"

definition bint :: "int \<Rightarrow> bytes" where
  "bint i = (if i < 0 then 45 # dec (nat (- i)) else dec (nat i))"

definition bstr :: "bytes \<Rightarrow> bytes" where
  "bstr s = dec (length s) @ lit '':'' @ s"

fun benc :: "bvalue \<Rightarrow> bytes" where
  "benc (BInt i) = lit ''i'' @ bint i @ lit ''e''"
| "benc (BStr s) = bstr s"
| "benc (BList vs) = lit ''l'' @ concat (map benc vs) @ lit ''e''"
| "benc (BDict kvs) = lit ''d'' @ concat (map (\<lambda>(k, v). bstr k @ benc v) kvs) @ lit ''e''"

section \<open>Reading a value\<close>

text \<open>The digits at the start of a text, and what is behind them.\<close>

definition digits :: "bytes \<Rightarrow> bytes" where
  "digits s = takeWhile isdigit s"

definition read_str :: "bytes \<Rightarrow> (bytes \<times> bytes) option" where
  "read_str s =
     (let d = digits s; r = drop (length d) s; n = digits_val 10 0 d in
      if d \<noteq> [] \<and> r \<noteq> [] \<and> hd r = 58 \<and> n \<le> length (tl r) then Some (take n (tl r), drop n (tl r)) else None)"

definition read_int :: "bytes \<Rightarrow> (int \<times> bytes) option" where
  "read_int s =
     (let neg = (s \<noteq> [] \<and> hd s = 45); t = (if neg then tl s else s);
          d = digits t; r = drop (length d) t; n = int (digits_val 10 0 d) in
      if d \<noteq> [] \<and> r \<noteq> [] \<and> hd r = 101 then Some (if neg then - n else n, tl r) else None)"

text \<open>The reader, with fuel for its nesting; lists and dictionaries end with the letter e.\<close>

fun bread :: "nat \<Rightarrow> bytes \<Rightarrow> (bvalue \<times> bytes) option"
  and bread_list :: "nat \<Rightarrow> bytes \<Rightarrow> (bvalue list \<times> bytes) option"
  and bread_dict :: "nat \<Rightarrow> bytes \<Rightarrow> ((bytes \<times> bvalue) list \<times> bytes) option" where
  "bread 0 s = None"
| "bread (Suc f) s =
     (case s of
        [] \<Rightarrow> None
      | c # r \<Rightarrow>
          if c = 105 then map_option (map_prod BInt id) (read_int r)
          else if c = 108 then map_option (map_prod BList id) (bread_list f r)
          else if c = 100 then map_option (map_prod BDict id) (bread_dict f r)
          else map_option (map_prod BStr id) (read_str s))"
| "bread_list 0 s = None"
| "bread_list (Suc f) s =
     (if s \<noteq> [] \<and> hd s = 101 then Some ([], tl s)
      else (case bread f s of
              None \<Rightarrow> None
            | Some (v, r) \<Rightarrow> map_option (map_prod (Cons v) id) (bread_list f r)))"
| "bread_dict 0 s = None"
| "bread_dict (Suc f) s =
     (if s \<noteq> [] \<and> hd s = 101 then Some ([], tl s)
      else (case read_str s of
              None \<Rightarrow> None
            | Some (k, r) \<Rightarrow>
                (case bread f r of
                   None \<Rightarrow> None
                 | Some (v, r') \<Rightarrow> map_option (map_prod (Cons (k, v)) id) (bread_dict f r'))))"

section \<open>The encoding can be read\<close>

lemma digits_dec: "c \<in> {58, 101} \<Longrightarrow> digits (dec n @ c # r) = dec n"
proof -
  assume "c \<in> {58, 101}"
  then have c: "\<not> isdigit c" by (auto simp: isdigit_def)
  have "takeWhile isdigit (dec n @ c # r) = dec n @ takeWhile isdigit (c # r)"
    by (rule takeWhile_append2) simp
  with c show ?thesis by (simp add: digits_def)
qed

lemma lit_one [simp]: "lit [c] = [of_char c]"
  by (simp add: lit_def)

lemma read_str_bstr [simp]: "read_str (bstr s @ r) = Some (s, r)"
  by (simp add: read_str_def bstr_def digits_dec Let_def)

lemma read_int_bint [simp]: "read_int (bint i @ 101 # r) = Some (i, r)"
proof (cases "i < 0")
  case True
  then show ?thesis by (simp add: read_int_def bint_def digits_dec Let_def)
next
  case False
  have "hd (dec (nat i) @ 101 # r) \<noteq> 45"
    using isdigit_range [OF hd_dec_digit [of "nat i"]] by (simp add: hd_append)
  with False show ?thesis by (simp add: read_int_def bint_def digits_dec Let_def)
qed

lemma hd_bstr: "isdigit (hd (bstr s @ r))"
  using hd_dec_digit [of "length s"] by (simp add: bstr_def hd_append)

lemma bstr_not_Nil [simp]: "bstr s \<noteq> []"
  by (simp add: bstr_def)

lemma isdigit_not: "isdigit c \<Longrightarrow> c \<noteq> 101 \<and> c \<noteq> 105 \<and> c \<noteq> 108 \<and> c \<noteq> 100"
  by (auto simp: isdigit_def word_le_nat_alt)

lemma benc_starts: "benc v \<noteq> [] \<and> hd (benc v @ r) \<noteq> 101"
proof (cases v)
  case (BStr s)
  then show ?thesis using isdigit_not [OF hd_bstr [of s r]] by simp
qed simp_all

text \<open>Fuel that is enough for a value.\<close>

lemma bread_benc:
  "size v < f \<Longrightarrow> bread f (benc v @ r) = Some (v, r)"
  "size_list size vs < f \<Longrightarrow> bread_list f (concat (map benc vs) @ 101 # r) = Some (vs, r)"
  "size_list (size_prod (\<lambda>_. 0) size) kvs < f \<Longrightarrow>
     bread_dict f (concat (map (\<lambda>(k, v). bstr k @ benc v) kvs) @ 101 # r) = Some (kvs, r)"
proof (induction f arbitrary: v vs kvs r)
  case (Suc f)
  {
    case 1
    show ?case
    proof (cases v)
      case (BInt i)
      then show ?thesis by simp
    next
      case (BStr s)
      then obtain c t where ct: "bstr s @ r = c # t" "isdigit c"
        using hd_bstr [of s r] by (cases "bstr s @ r") auto
      with BStr isdigit_not [OF ct(2)] read_str_bstr [of s r] show ?thesis by simp
    next
      case (BList vs)
      with 1 Suc(2) [of vs r] show ?thesis by simp
    next
      case (BDict kvs)
      with 1 Suc(3) [of kvs r] show ?thesis by simp
    qed
  next
    case 2
    show ?case
    proof (cases vs)
      case (Cons v ws)
      have "benc v @ concat (map benc ws) @ 101 # r \<noteq> []" "hd (benc v @ concat (map benc ws) @ 101 # r) \<noteq> 101"
        using benc_starts [of v "concat (map benc ws) @ 101 # r"] by auto
      with 2 Cons Suc(1) [of v "concat (map benc ws) @ 101 # r"] Suc(2) [of ws r] show ?thesis by simp
    qed simp
  next
    case 3
    show ?case
    proof (cases kvs)
      case (Cons kv ws)
      obtain k v where kv: "kv = (k, v)" by (cases kv)
      let ?R = "concat (map (\<lambda>(k, v). bstr k @ benc v) ws) @ 101 # r"
      have "hd (bstr k @ benc v @ ?R) \<noteq> 101" "bstr k @ benc v @ ?R \<noteq> []"
        using isdigit_not [OF hd_bstr [of k "benc v @ ?R"]] by auto
      with 3 Cons kv Suc(1) [of v ?R] Suc(3) [of ws r] show ?thesis by simp
    qed simp
  }
qed simp_all

lemma benc_inject: "benc v = benc w \<Longrightarrow> v = w"
  using bread_benc(1) [of v "Suc (max (size v) (size w))" "[]"]
    bread_benc(1) [of w "Suc (max (size v) (size w))" "[]"] by simp

text \<open>A text no value is encoded as: the reader fails on it whatever its fuel.\<close>

lemma not_bencoded:
  assumes "\<And>f. bread f s = None"
  shows "benc v \<noteq> s"
  using bread_benc(1) [of v "Suc (size v)" "[]"] assms [of "Suc (size v)"] by auto

section \<open>The answers over TCP as values\<close>

lemma fmt_d_bint: "fmt_d w = bint (sint w)"
  by (simp add: fmt_d_def bint_def)

lemma dec_bint: "dec n = bint (int n)"
  by (simp add: bint_def)

definition peer_value :: "(bool \<Rightarrow> bytes \<Rightarrow> bytes) \<Rightarrow> query \<Rightarrow> bytes \<times> peerDataL \<Rightarrow> bvalue" where
  "peer_value ntop q x =
     (case x of (k, p) \<Rightarrow>
        BDict ([(lit ''port'', BInt (int (unat (htons (p_port p)))))] @
          (if q_no_peer_id q then [] else [(lit ''peer id'', BStr k)]) @
          [(lit ''ip'', BStr (int2ip ntop (peerIp q p) (q_ipVersion q)))]))"

definition announce_value ::
  "(bool \<Rightarrow> bytes \<Rightarrow> bytes) \<Rightarrow> query \<Rightarrow> interval \<Rightarrow> torrentDataL \<Rightarrow> (bytes \<times> peerDataL) list \<Rightarrow> bvalue" where
  "announce_value ntop q iv t ps =
     BDict [(lit ''complete'', BInt (sint (t_complete t))), (lit ''incomplete'', BInt (sint (t_incomplete t))),
       (lit ''downloaded'', BInt (sint (t_downloaded t))), (lit ''interval'', BInt (sint (i_interval iv))),
       (if q_ipVersion q AND SOCKET_VERSION_IPV4_BIT \<noteq> 0 then lit ''peers'' else lit ''peers6'',
        if q_compact q then BStr (renderAll ntop q ps) else BList (map (peer_value ntop q) ps))]"

definition scrape_value :: "torrentDataL hlist \<Rightarrow> bytes list \<Rightarrow> bvalue" where
  "scrape_value ts hs =
     BDict [(lit ''files'', BDict (map (\<lambda>h.
       (let t = (case torrent_of ts h of None \<Rightarrow> torrentDataL0 | Some t \<Rightarrow> t) in
        (h, BDict [(lit ''complete'', BInt (sint (t_complete t))), (lit ''incomplete'', BInt (sint (t_incomplete t))),
           (lit ''downloaded'', BInt (sint (t_downloaded t)))]))) hs))]"

text \<open>The strings of the code are the encodings of its keys.\<close>

lemma keys_bstr:
  "bstr (lit ''port'') = lit ''4:port''" "bstr (lit ''peer id'') = lit ''7:peer id''" "bstr (lit ''ip'') = lit ''2:ip''"
  "bstr (lit ''complete'') = lit ''8:complete''" "bstr (lit ''incomplete'') = lit ''10:incomplete''"
  "bstr (lit ''downloaded'') = lit ''10:downloaded''" "bstr (lit ''interval'') = lit ''8:interval''"
  "bstr (lit ''peers'') = lit ''5:peers''" "bstr (lit ''peers6'') = lit ''6:peers6''" "bstr (lit ''files'') = lit ''5:files''"
  by (simp_all add: bstr_def lit_def dec.simps)

lemma lit_split:
  "lit ''d4:porti'' = lit ''d'' @ lit ''4:port'' @ lit ''i''" "lit ''e2:ip'' = lit ''e'' @ lit ''2:ip''"
  "lit ''e7:peer id'' = lit ''e'' @ lit ''7:peer id''" "lit ''d8:completei'' = lit ''d'' @ lit ''8:complete'' @ lit ''i''"
  "lit ''e10:incompletei'' = lit ''e'' @ lit ''10:incomplete'' @ lit ''i''"
  "lit ''e10:downloadedi'' = lit ''e'' @ lit ''10:downloaded'' @ lit ''i''"
  "lit ''e8:intervali'' = lit ''e'' @ lit ''8:interval'' @ lit ''i''"
  "lit ''d5:filesd'' = lit ''d'' @ lit ''5:files'' @ lit ''d''" "lit ''ee'' = lit ''e'' @ lit ''e''"
  by (simp_all add: lit_def)

lemma renderPeer_bencode:
  assumes "q_protocol q = URI_QUERY_PROTOCOL_TCP" "\<not> q_compact q" "length k = URI_PARAM_VALUE_LENGTH"
  shows "renderPeer ntop q k p = benc (peer_value ntop q (k, p))"
proof -
  have np: "q_protocol q \<noteq> URI_QUERY_PROTOCOL_UDP"
    using assms(1) by (simp add: URI_QUERY_PROTOCOL_TCP_def URI_QUERY_PROTOCOL_UDP_def)
  have b: "bstr x = dec (length x) @ lit '':'' @ x" for x by (simp add: bstr_def)
  show ?thesis
    using assms(2,3) np
    by (simp only: renderPeer_def Let_def lit_split keys_bstr peer_value_def dec_bint [symmetric] append_assoc
        if_False if_True simp_thms prod.case benc.simps list.map concat.simps append.simps if_distrib b [of "int2ip _ _ _"])
      (auto simp: keys_bstr dec_bint [symmetric] b [of k] b [of "int2ip _ _ _"])
qed

lemma renderAll_bencode:
  assumes "q_protocol q = URI_QUERY_PROTOCOL_TCP" "\<not> q_compact q" "\<forall>(k, p) \<in> set ps. length k = URI_PARAM_VALUE_LENGTH"
  shows "renderAll ntop q ps = concat (map benc (map (peer_value ntop q) ps))"
  using assms(3) renderPeer_bencode [OF assms(1,2)] by (induction ps) (auto simp: renderAll_def)

lemma sint_of_nat_small:
  assumes "n < 2 ^ 31"
  shows "sint (of_nat n :: u32) = int n"
proof -
  have "uint (of_nat n :: u32) = int n"
    using assms by (simp add: unsigned_of_nat take_bit_nat_eq_self)
  with assms show ?thesis by (simp add: sint_uint signed_take_bit_int_eq_self)
qed

lemma renderAnnounceTorrentL_bencode:
  assumes "q_protocol q = URI_QUERY_PROTOCOL_TCP"
    "torrentCopy torrent = Inr t" "renderAnnouncePeersL ntop q (t_peerList t) = Inr (renderAll ntop q ps)"
    "\<forall>(k, p) \<in> set ps. length k = URI_PARAM_VALUE_LENGTH"
    "q_compact q \<Longrightarrow> length (renderAll ntop q ps) < 2 ^ 31"
  shows "renderAnnounceTorrentL ntop q iv torrent block = Inr (block @ benc (announce_value ntop q iv t ps))"
proof -
  have np: "q_protocol q \<noteq> URI_QUERY_PROTOCOL_UDP"
    using assms(1) by (simp add: URI_QUERY_PROTOCOL_TCP_def URI_QUERY_PROTOCOL_UDP_def)
  have key: "(if b then lit ''5:peers'' else lit ''6:peers6'') = bstr (if b then lit ''peers'' else lit ''peers6'')" for b
    by (simp add: keys_bstr)
  show ?thesis
  proof (cases "q_compact q")
    case True
    let ?n = "length (renderAll ntop q ps)"
    have "sint (of_nat ?n :: u32) = int ?n"
      by (rule sint_of_nat_small) (use assms(5) [OF True] in simp)
    then have "fmt_d (of_nat ?n) @ lit '':'' @ renderAll ntop q ps = bstr (renderAll ntop q ps)"
      by (simp add: fmt_d_bint dec_bint bstr_def)
    then show ?thesis
      using True np assms(1-3)
      by (simp add: renderAnnounceTorrentL_def Let_def key bencodeHead_def announce_value_def lit_split keys_bstr fmt_d_bint)
  next
    case False
    with np assms(1-3) show ?thesis
      by (simp add: renderAnnounceTorrentL_def Let_def key bencodeHead_def announce_value_def lit_split keys_bstr fmt_d_bint
          renderAll_bencode [OF assms(1) False assms(4)])
  qed
qed

lemma announce_is_bencode:
  assumes "q_protocol q = URI_QUERY_PROTOCOL_TCP"
    "case torrent of None \<Rightarrow> t = torrentDataL0 \<and> peers = []
       | Some (k, d) \<Rightarrow> d = Some t \<and> wf_torrent t \<and> addresses_ok t \<and>
           (\<exists>pl. t_peerList t = Some pl \<and> peers = shown q (peer_items pl))"
  shows "\<exists>n \<le> countdown (q_numwant q).
    renderAnnouncePublic ntop q iv torrent [] = Inr (benc (announce_value ntop q iv t (take n peers))) \<and>
    (n < length peers \<and> n < countdown (q_numwant q) \<longrightarrow>
       DATA_MAX_PACKET_SIZE \<le> length (renderAll ntop q (take n peers)))"
proof -
  have np: "q_protocol q \<noteq> URI_QUERY_PROTOCOL_UDP"
    using assms(1) by (simp add: URI_QUERY_PROTOCOL_TCP_def URI_QUERY_PROTOCOL_UDP_def)
  show ?thesis
  proof (cases torrent)
    case None
    then have t: "t = torrentDataL0" "peers = []" using assms(2) by simp_all
    have r: "renderAnnouncePeersL ntop q (t_peerList t) = Inr (renderAll ntop q [])"
      by (simp add: t renderAnnouncePeersL_def mapListPtr_def torrentDataL0_def renderAll_def)
    have c: "torrentCopy torrent = Inr t" by (simp add: None t torrentCopy_def)
    from renderAnnounceTorrentL_bencode [OF assms(1) c r, of iv "[]"] np c t(2) show ?thesis
      by (intro exI [of _ 0]) (simp add: renderAnnouncePublic_def renderAll_def)
  next
    case (Some kd)
    obtain k d where kd: "kd = (k, d)" by (cases kd)
    with Some assms(2) obtain pl where t: "d = Some t" "wf_torrent t" "addresses_ok t" "t_peerList t = Some pl"
      "peers = shown q (peer_items pl)" by auto
    have c: "torrentCopy torrent = Inr t" by (simp add: Some kd t torrentCopy_def)
    have keys: "\<forall>(k, p) \<in> set (take n peers). length k = URI_PARAM_VALUE_LENGTH" for n
    proof (clarify dest!: in_set_takeD)
      fix k p
      assume "(k, p) \<in> set peers"
      then have "k \<in> keys (allItems pl)"
        unfolding t(5) allItems_peer_items [OF t(2,4)] shown_def by force
      with wf_hlist_length [of pl k] t(2,4) show "length k = URI_PARAM_VALUE_LENGTH" by (simp add: wf_torrent_def)
    qed
    from renderAnnouncePeersL_prefix [OF t(2,4)] obtain n where n:
      "renderAnnouncePeersL ntop q (t_peerList t) = Inr (renderAll ntop q (take n peers))" "n \<le> countdown (q_numwant q)"
      "n < length peers \<and> n < countdown (q_numwant q) \<longrightarrow> DATA_MAX_PACKET_SIZE \<le> length (renderAll ntop q (take n peers))"
      unfolding t(5) by metis
    have "length (renderAll ntop q (take n peers)) < 2 ^ 31" if "q_compact q"
    proof -
      let ?m = "min (announceLimit q) (length peers)"
      have "length (renderAll ntop q (take n peers)) = entrySize q * ?m"
        using compact_peers [OF t(2,4,3) disjI1 [OF that], of ntop] n(1) unfolding t(5) by simp
      also have "\<dots> \<le> entrySize q * packetCap q" by (simp add: announceLimit_def min.coboundedI1)
      also have "\<dots> < 2 ^ 31" by (simp add: packetCap_def entrySize_def DATA_MAX_PACKET_SIZE_def)
      finally show ?thesis .
    qed
    from renderAnnounceTorrentL_bencode [OF assms(1) c n(1) keys this, of iv "[]"] np c n(2,3) show ?thesis
      by (intro exI [of _ n]) (simp add: renderAnnouncePublic_def)
  qed
qed

text \<open>The answer to an announce over TCP is one bencoded dictionary: the counters of the torrent,
the interval and the peers of the requested IP version, as a string of compact entries or as a list
of dictionaries. The peers are the first numwant that match (0 counts as 2 to the 32nd), fewer only
when the entries have reached the maximal packet size; a torrent nobody announced gives the same
dictionary with zeros and no peers.\<close>

theorem tcp_announce_is_bencode:
  assumes "q_protocol q = URI_QUERY_PROTOCOL_TCP"
    "case torrent of None \<Rightarrow> t = torrentDataL0 \<and> peers = []
       | Some (k, d) \<Rightarrow> d = Some t \<and> wf_torrent t \<and> addresses_ok t \<and>
           (\<exists>pl. t_peerList t = Some pl \<and> peers = shown q (peer_items pl))"
  shows "\<exists>n \<le> countdown (q_numwant q).
    renderAnnouncePublic ntop q iv torrent [] = Inr (benc (announce_value ntop q iv t (take n peers))) \<and>
    (n < length peers \<and> n < countdown (q_numwant q) \<longrightarrow>
       DATA_MAX_PACKET_SIZE \<le> length (renderAll ntop q (take n peers)))"
  by (rule announce_is_bencode [OF assms])

theorem tcp_announce_is_bencode_witness:
  "renderAnnouncePublic (\<lambda>_ _. lit ''1.2.3.4'') ((sample_query 2)\<lparr>q_ipVersion := 1, q_numwant := 5, q_no_peer_id := True\<rparr>)
     sample_interval (Some (replicate 20 1, Some (sample_torrent 2))) [] =
   Inr (benc (announce_value (\<lambda>_ _. lit ''1.2.3.4'')
     ((sample_query 2)\<lparr>q_ipVersion := 1, q_numwant := 5, q_no_peer_id := True\<rparr>) sample_interval (sample_torrent 2)
     [(replicate 20 2, sample_peer 2)]))"
proof -
  let ?q = "(sample_query 2)\<lparr>q_ipVersion := 1, q_numwant := 5, q_no_peer_id := True\<rparr>"
  let ?p = "[(replicate 20 2, sample_peer 2)]" and ?f = "\<lambda>_ _. lit ''1.2.3.4''"
  have i: "shown ?q (peer_items (sample_peers 2)) = ?p"
    by (simp add: peer_items_def sample_peers_def allItems.simps shown_def visible_def sample_peer_def)
  have a: "addresses_ok (sample_torrent 2)"
    by (simp add: addresses_ok_def sample_ok) (simp add: sample_peer_def peerDataL0_def)
  have q: "q_protocol ?q = URI_QUERY_PROTOCOL_TCP" by (simp add: sample_query_def query0_def URI_QUERY_PROTOCOL_TCP_def)
  have "t_peerList (sample_torrent 2) = Some (sample_peers 2)" by (simp add: sample_torrent_def)
  then obtain n where n: "renderAnnouncePublic ?f ?q sample_interval (Some (replicate 20 1, Some (sample_torrent 2))) [] =
      Inr (benc (announce_value ?f ?q sample_interval (sample_torrent 2) (take n ?p)))"
    "n < length ?p \<and> n < countdown (q_numwant ?q) \<longrightarrow> DATA_MAX_PACKET_SIZE \<le> length (renderAll ?f ?q (take n ?p))"
    using tcp_announce_is_bencode [OF q, where torrent = "Some (replicate 20 1, Some (sample_torrent 2))" and
        t = "sample_torrent 2" and peers = ?p and ntop = ?f and iv = sample_interval]
      sample_ok(1) a i by auto
  have "0 < countdown (q_numwant ?q)" by (simp add: countdown_def)
  with n(2) have "n \<noteq> 0" by (auto simp: renderAll_def DATA_MAX_PACKET_SIZE_def)
  then have "take n ?p = ?p" by (cases n) simp_all
  with n(1) show ?thesis by simp
qed

lemma scrapeEntry_bencode:
  assumes "length h = URI_PARAM_VALUE_LENGTH"
  shows "scrapeEntry ts False h = (let t = (case torrent_of ts h of None \<Rightarrow> torrentDataL0 | Some t \<Rightarrow> t) in
    bstr h @ benc (BDict [(lit ''complete'', BInt (sint (t_complete t))), (lit ''incomplete'', BInt (sint (t_incomplete t))),
           (lit ''downloaded'', BInt (sint (t_downloaded t)))]))"
proof -
  have "bstr h = lit ''20:'' @ h" using assms by (simp add: bstr_def dec.simps lit_def URI_PARAM_VALUE_LENGTH_def)
  with assms show ?thesis by (simp add: scrapeEntry_def Let_def lit_split keys_bstr fmt_d_bint)
qed

text \<open>The answer to a scrape over TCP is one bencoded dictionary of files with an entry for each
hash asked for, in the order of the request, with the counters of its torrent and zeros for an
unknown one; hashes are left out only at the end and only when the answer has reached the maximal
packet size.\<close>

theorem tcp_scrape_is_bencode:
  assumes "wf_tracker ts" "q_protocol q = URI_QUERY_PROTOCOL_TCP"
  shows "\<exists>n \<le> length (hashesOf hashes).
    renderScrapeTorrentsPublic ts hashes q [] = Inr (benc (scrape_value ts (take n (hashesOf hashes)))) \<and>
    (n < length (hashesOf hashes) \<longrightarrow>
       DATA_MAX_PACKET_SIZE \<le> length (benc (scrape_value ts (take n (hashesOf hashes)))))"
proof -
  let ?c = "\<lambda>n. concat (map (scrapeEntry ts False) (take n (hashesOf hashes)))"
  have len: "\<forall>h \<in> set (hashesOf hashes). length h = URI_PARAM_VALUE_LENGTH" by (blast intro: hashesOf_length)
  from scrapeLoop_prefix [OF assms(1) this, of False "[]"] obtain n where n: "n \<le> length (hashesOf hashes)"
    "scrapeLoop ts False (hashesOf hashes) [] = Inr (?c n)"
    "n < length (hashesOf hashes) \<longrightarrow> DATA_MAX_PACKET_SIZE \<le> length (?c n)" by auto
  have "?c n = concat (map (\<lambda>h. bstr h @ benc (snd (let t = (case torrent_of ts h of None \<Rightarrow> torrentDataL0 | Some t \<Rightarrow> t) in
        (h, BDict [(lit ''complete'', BInt (sint (t_complete t))), (lit ''incomplete'', BInt (sint (t_incomplete t))),
           (lit ''downloaded'', BInt (sint (t_downloaded t)))])))) (take n (hashesOf hashes)))"
    by (intro arg_cong [where f = concat] map_cong refl) (use len in \<open>auto simp: scrapeEntry_bencode Let_def dest!: in_set_takeD\<close>)
  then have v: "benc (scrape_value ts (take n (hashesOf hashes))) = lit ''d5:filesd'' @ ?c n @ lit ''ee''"
    by (simp add: scrape_value_def lit_split keys_bstr comp_def case_prod_beta Let_def)
  have "renderScrapeTorrentsPublic ts hashes q [] = Inr (lit ''d5:filesd'' @ ?c n @ lit ''ee'')"
    using n(2) assms(2)
    by (simp add: renderScrapeTorrentsPublic_def DATA_FULL_SCRAPE_ENABLE_def URI_QUERY_PROTOCOL_TCP_def Let_def)
  with n v show ?thesis by (intro exI [of _ n]) auto
qed

theorem tcp_scrape_is_bencode_witness:
  "renderScrapeTorrentsPublic (sample_tracker 2) (replicate 20 1) ((sample_query 2)\<lparr>q_protocol := 0\<rparr>) [] =
   Inr (benc (scrape_value (sample_tracker 2) [replicate 20 1]))"
proof -
  have q: "q_protocol ((sample_query 2)\<lparr>q_protocol := 0\<rparr>) = URI_QUERY_PROTOCOL_TCP" by (simp add: URI_QUERY_PROTOCOL_TCP_def)
  have h: "hashesOf (replicate 20 1) = [replicate 20 1]" by (simp add: hashesOf_def URI_PARAM_VALUE_LENGTH_def)
  obtain n where n: "renderScrapeTorrentsPublic (sample_tracker 2) (replicate 20 1) ((sample_query 2)\<lparr>q_protocol := 0\<rparr>) [] =
      Inr (benc (scrape_value (sample_tracker 2) (take n [replicate 20 1])))"
    "n < 1 \<longrightarrow> DATA_MAX_PACKET_SIZE \<le> length (benc (scrape_value (sample_tracker 2) (take n [replicate 20 1])))"
    using tcp_scrape_is_bencode [OF sample_ok(2) q, where hashes = "replicate 20 1"] by (auto simp: h)
  have "length (benc (scrape_value (sample_tracker 2) [])) < DATA_MAX_PACKET_SIZE"
    by (simp add: scrape_value_def keys_bstr DATA_MAX_PACKET_SIZE_def)
  with n(2) have "n \<noteq> 0" by (intro notI) simp
  then have "take n [replicate 20 1] = [replicate 20 (1 :: byte)]" by (cases n) simp_all
  with n(1) show ?thesis by simp
qed

text \<open>The failure body is a bencoded dictionary with the message when the size is the message's
length.\<close>

lemma failureBody_bencode:
  assumes "unat sz = length (cstr message)"
  shows "failureBody sz message = benc (BDict [(lit ''failure reason'', BStr (cstr message))])"
proof -
  have "lit ''d14:failure reason'' = lit ''d'' @ bstr (lit ''failure reason'')"
    by (simp add: bstr_def lit_def dec.simps)
  then show ?thesis using assms by (simp add: failureBody_def bstr_def)
qed


text \<open>The two answers to an announce without a hash or a port: the reader takes 25 characters of the
message and finds the rest of it where the next key should be.\<close>

lemma read_str_lit:
  assumes "read_str s = Some (k, r)"
  shows "s \<noteq> [] \<and> isdigit (hd s)"
  using assms by (cases s) (auto simp: read_str_def Let_def digits_def split: if_splits)

lemma bread_dict_first:
  assumes "read_str s = Some (k, r)" "read_str r = Some (v, r')" "r \<noteq> []" "isdigit (hd r)"
    "r' = c # t" "\<not> isdigit c" "c \<noteq> 101"
  shows "bread f (100 # s) = None"
proof -
  have c: "read_str (c # t) = None" using read_str_lit [of "c # t"] assms(6) by (cases "read_str (c # t)") auto
  have b: "bread_dict f (c # t) = None" for f using c assms(7) by (cases f) auto
  have s: "s \<noteq> []" "hd s \<noteq> 101" using read_str_lit [OF assms(1)] isdigit_not [of "hd s"] by auto
  obtain x xs where r: "r = x # xs" "isdigit x" using assms(3,4) by (cases r) auto
  have "bread f r = None \<or> bread f r = Some (BStr v, r')" for f
    using r isdigit_not [OF r(2)] assms(2) by (cases f) auto
  then have "bread_dict f s = None" for f
    using assms(1,5) b s by (cases f) (auto split: option.splits, metis option.simps(5) prod.inject option.inject option.distinct(1))
  then show ?thesis by (cases f) simp_all
qed


lemma benc_prefix_free: "benc v = benc w @ r \<Longrightarrow> r = []"
  using bread_benc(1) [of v "Suc (max (size v) (size w))" "[]"]
    bread_benc(1) [of w "Suc (max (size v) (size w))" r] by simp

text \<open>Field 'info\_hash' must be filled, and Field 'port' must be filled.\<close>

definition no_info_hash :: bytes where
  "no_info_hash = lit ''Field '' @ [39] @ lit ''info_hash'' @ [39] @ lit '' must be filled''"

definition no_port :: bytes where
  "no_port = lit ''Field '' @ [39] @ lit ''port'' @ [39] @ lit '' must be filled''"

lemma read_str_25: "length v = 25 \<Longrightarrow> read_str (lit ''25:'' @ v @ r) = Some (v, r)"
  using read_str_bstr [of v r] by (simp add: bstr_def dec.simps lit_def)

lemma failureBody_25:
  assumes "0 \<notin> set (a @ b)" "length a = 25"
  shows "failureBody 25 (a @ b) = 100 # bstr (lit ''failure reason'') @ lit ''25:'' @ a @ b @ lit ''e''"
  using assms by (simp add: failureBody_def bstr_def lit_def dec.simps)

lemma no_info_hash_malformed: "benc v \<noteq> failureBody 25 no_info_hash"
proof -
  let ?a = "lit ''Field '' @ [39] @ lit ''info_hash'' @ [39] @ lit '' must be''" and ?b = "lit '' filled''"
  have s: "no_info_hash = ?a @ ?b" "0 \<notin> set (?a @ ?b)" "length ?a = 25"
    by (simp_all add: no_info_hash_def lit_def)
  have "bread f (100 # bstr (lit ''failure reason'') @ lit ''25:'' @ ?a @ ?b @ lit ''e'') = None" for f
    by (rule bread_dict_first [where c = 32 and t = "lit ''filled'' @ lit ''e''", OF read_str_bstr read_str_25 [OF s(3)]]) (simp_all add: lit_def isdigit_def)
  then show ?thesis unfolding s(1) failureBody_25 [OF s(2,3)] by (rule not_bencoded)
qed

lemma no_port_malformed: "benc v \<noteq> failureBody 25 no_port"
proof
  let ?a = "lit ''Field '' @ [39] @ lit ''port'' @ [39] @ lit '' must be fill''" and ?b = "lit ''ed''"
  have s: "no_port = ?a @ ?b" "0 \<notin> set (?a @ ?b)" "length ?a = 25"
    by (simp_all add: no_port_def lit_def)
  assume "benc v = failureBody 25 no_port"
  also have "\<dots> = benc (BDict [(lit ''failure reason'', BStr ?a)]) @ lit ''de''"
    unfolding s(1) failureBody_25 [OF s(2,3)] by (simp add: bstr_def dec.simps lit_def)
  finally have "lit ''de'' = []" by (rule benc_prefix_free)
  then show False by (simp add: lit_def)
qed

end
