(* ===== verification/Rps.thy ===== *)
theory Rps
  imports C_Prelude
begin

text \<open>
  Requests per second (rps.h, rps.c): two buckets of counters, one being filled and one
  holding the last period, swapped by the status thread once a second, and the maxima seen.
\<close>

definition RPS_PROTOCOL_TCP :: byte where "RPS_PROTOCOL_TCP = 0"
definition RPS_PROTOCOL_UDP :: byte where "RPS_PROTOCOL_UDP = 1"
definition RPS_VERSION_IPV4 :: byte where "RPS_VERSION_IPV4 = 0"
definition RPS_VERSION_IPV6 :: byte where "RPS_VERSION_IPV6 = 2"
definition RPS_DIFFERENT_VALUES :: nat where "RPS_DIFFERENT_VALUES = 4"
definition RPS_TIME_EVEN :: byte where "RPS_TIME_EVEN = 0"
definition RPS_TIME_ODD :: byte where "RPS_TIME_ODD = 1"

record rps =
  r_even :: "u32 list"
  r_odd :: "u32 list"
  r_max :: "u32 list"
  r_status :: byte

definition rps0 :: rps where
  "rps0 = \<lparr>r_even = replicate RPS_DIFFERENT_VALUES 0, r_odd = replicate RPS_DIFFERENT_VALUES 0,
     r_max = replicate RPS_DIFFERENT_VALUES 0, r_status = 0\<rparr>"

definition getRpsIndex :: "byte \<Rightarrow> byte \<Rightarrow> byte" where
  "getRpsIndex protocol ipVersion = protocol + ipVersion"

text \<open>A bucket's increment and the raise of its maximum, when the index is inside the arrays.\<close>

definition bump :: "nat \<Rightarrow> u32 list \<Rightarrow> u32 list \<Rightarrow> (u32 list \<times> u32 list) res" where
  "bump i bucket mx =
     (if i < length bucket \<and> i < length mx
      then (let v = bucket ! i + 1 in Inr (bucket[i := v], if v > mx ! i then mx[i := v] else mx))
      else Inl Out_of_bounds)"

definition updateRps :: "byte \<Rightarrow> byte \<Rightarrow> rps \<Rightarrow> rps res" where
  "updateRps protocol ipVersion r =
     (let i = unat (getRpsIndex protocol ipVersion) in
      if r_status r = RPS_TIME_ODD
      then bindR (bump i (r_odd r) (r_max r)) (\<lambda>(b, m). Inr (r\<lparr>r_odd := b, r_max := m\<rparr>))
      else bindR (bump i (r_even r) (r_max r)) (\<lambda>(b, m). Inr (r\<lparr>r_even := b, r_max := m\<rparr>)))"

definition getRps :: "byte \<Rightarrow> byte \<Rightarrow> rps \<Rightarrow> u32 res" where
  "getRps protocol ipVersion r =
     nth_res (if r_status r = RPS_TIME_ODD then r_even r else r_odd r) (unat (getRpsIndex protocol ipVersion))"

definition resetMaxRps :: "rps \<Rightarrow> rps" where
  "resetMaxRps r = r\<lparr>r_max := replicate RPS_DIFFERENT_VALUES 0\<rparr>"

text \<open>One turn of the loop of rpsStatusHandler.\<close>

definition rpsTick :: "rps \<Rightarrow> rps" where
  "rpsTick r =
     (if r_status r = RPS_TIME_EVEN
      then r\<lparr>r_odd := replicate RPS_DIFFERENT_VALUES 0, r_status := RPS_TIME_ODD\<rparr>
      else r\<lparr>r_even := replicate RPS_DIFFERENT_VALUES 0, r_status := RPS_TIME_EVEN\<rparr>)"

section \<open>The invariant\<close>

definition wf_rps :: "rps \<Rightarrow> bool" where
  "wf_rps r \<longleftrightarrow> length (r_even r) = RPS_DIFFERENT_VALUES \<and> length (r_odd r) = RPS_DIFFERENT_VALUES \<and>
     length (r_max r) = RPS_DIFFERENT_VALUES \<and> (r_status r = RPS_TIME_EVEN \<or> r_status r = RPS_TIME_ODD)"

text \<open>The indices the program uses: TCP or UDP, IPv4 or IPv6.\<close>

definition rps_args :: "byte \<Rightarrow> byte \<Rightarrow> bool" where
  "rps_args protocol ipVersion \<longleftrightarrow>
     protocol \<in> {RPS_PROTOCOL_TCP, RPS_PROTOCOL_UDP} \<and> ipVersion \<in> {RPS_VERSION_IPV4, RPS_VERSION_IPV6}"

lemma rps_index: "rps_args p v \<Longrightarrow> unat (getRpsIndex p v) < RPS_DIFFERENT_VALUES"
  by (auto simp: rps_args_def getRpsIndex_def RPS_PROTOCOL_TCP_def RPS_PROTOCOL_UDP_def
      RPS_VERSION_IPV4_def RPS_VERSION_IPV6_def RPS_DIFFERENT_VALUES_def)

text \<open>The bucket that is being filled.\<close>

definition filling :: "rps \<Rightarrow> u32 list" where
  "filling r = (if r_status r = RPS_TIME_ODD then r_odd r else r_even r)"

lemma updateRps_ok:
  assumes "wf_rps r" "rps_args p v"
  obtains r' where "updateRps p v r = Inr r'" "wf_rps r'" "r_status r' = r_status r"
    "filling r' = (filling r)[unat (getRpsIndex p v) := filling r ! unat (getRpsIndex p v) + 1]"
    "\<And>i. i < RPS_DIFFERENT_VALUES \<Longrightarrow> r_max r ! i \<le> r_max r' ! i"
    "filling r' ! unat (getRpsIndex p v) \<le> r_max r' ! unat (getRpsIndex p v)"
proof -
  let ?i = "unat (getRpsIndex p v)"
  have i: "?i < RPS_DIFFERENT_VALUES" by (rule rps_index [OF assms(2)])
  let ?m = "if filling r ! ?i + 1 > r_max r ! ?i then (r_max r)[?i := filling r ! ?i + 1] else r_max r"
  have m: "r_max r ! j \<le> ?m ! j" if "j < RPS_DIFFERENT_VALUES" for j
    using assms(1) that by (cases "j = ?i") (auto simp: wf_rps_def)
  have f: "(filling r)[?i := filling r ! ?i + 1] ! ?i \<le> ?m ! ?i"
    using assms(1) i by (auto simp: wf_rps_def filling_def)
  show thesis
  proof (cases "r_status r = RPS_TIME_ODD")
    case True
    let ?r = "r\<lparr>r_odd := (filling r)[?i := filling r ! ?i + 1], r_max := ?m\<rparr>"
    have "updateRps p v r = Inr ?r"
      using True i assms(1) by (simp add: updateRps_def bump_def wf_rps_def filling_def Let_def)
    then show thesis
      by (rule that) (use True assms(1) m f in \<open>auto simp: wf_rps_def filling_def\<close>)
  next
    case False
    let ?r = "r\<lparr>r_even := (filling r)[?i := filling r ! ?i + 1], r_max := ?m\<rparr>"
    have "updateRps p v r = Inr ?r"
      using False i assms(1) by (simp add: updateRps_def bump_def wf_rps_def filling_def Let_def)
    then show thesis
      by (rule that) (use False assms(1) m f in \<open>auto simp: wf_rps_def filling_def\<close>)
  qed
qed

text \<open>The requests of a period, in the order they arrive.\<close>

fun updateAll :: "(byte \<times> byte) list \<Rightarrow> rps \<Rightarrow> rps res" where
  "updateAll [] r = Inr r"
| "updateAll ((p, v) # qs) r = bindR (updateRps p v r) (updateAll qs)"

lemma updateAll_ok:
  assumes "wf_rps r" "\<forall>(p, v) \<in> set qs. rps_args p v"
  shows "\<exists>r'. updateAll qs r = Inr r' \<and> wf_rps r' \<and> r_status r' = r_status r \<and>
    (\<forall>i < RPS_DIFFERENT_VALUES. r_max r ! i \<le> r_max r' ! i \<and>
       filling r' ! i = filling r ! i + of_nat (length (filter (\<lambda>(p, v). unat (getRpsIndex p v) = i) qs)) \<and>
       (filter (\<lambda>(p, v). unat (getRpsIndex p v) = i) qs = [] \<or> filling r' ! i \<le> r_max r' ! i))"
  using assms
proof (induction qs arbitrary: r)
  case Nil
  then show ?case by simp
next
  case (Cons q qs)
  obtain p v where q: "q = (p, v)" by (cases q)
  let ?i = "unat (getRpsIndex p v)"
  from Cons.prems q have a: "rps_args p v" by simp
  from updateRps_ok [OF Cons.prems(1) this] obtain r1 where r1: "updateRps p v r = Inr r1" "wf_rps r1"
    "r_status r1 = r_status r" "filling r1 = (filling r)[?i := filling r ! ?i + 1]"
    "\<And>i. i < RPS_DIFFERENT_VALUES \<Longrightarrow> r_max r ! i \<le> r_max r1 ! i" "filling r1 ! ?i \<le> r_max r1 ! ?i"
    by blast
  from Cons.IH [OF r1(2)] Cons.prems obtain r' where r': "updateAll qs r1 = Inr r'" "wf_rps r'"
    "r_status r' = r_status r1"
    "\<And>i. i < RPS_DIFFERENT_VALUES \<Longrightarrow> r_max r1 ! i \<le> r_max r' ! i \<and>
       filling r' ! i = filling r1 ! i + of_nat (length (filter (\<lambda>(p, v). unat (getRpsIndex p v) = i) qs)) \<and>
       (filter (\<lambda>(p, v). unat (getRpsIndex p v) = i) qs = [] \<or> filling r' ! i \<le> r_max r' ! i)" by auto
  have len: "length (filling r) = RPS_DIFFERENT_VALUES"
    using Cons.prems(1) by (simp add: filling_def wf_rps_def)
  have "r_max r ! i \<le> r_max r' ! i \<and>
       filling r' ! i = filling r ! i + of_nat (length (filter (\<lambda>(p, v). unat (getRpsIndex p v) = i) (q # qs))) \<and>
       (filter (\<lambda>(p, v). unat (getRpsIndex p v) = i) (q # qs) = [] \<or> filling r' ! i \<le> r_max r' ! i)"
    if i: "i < RPS_DIFFERENT_VALUES" for i
  proof (cases "i = ?i")
    case True
    have "filling r' ! i \<le> r_max r' ! i"
      using r'(4) [OF i] r1(6) True order_trans [of "filling r1 ! i" "r_max r1 ! i" "r_max r' ! i"] by auto
    moreover have "r_max r ! i \<le> r_max r' ! i"
      using r'(4) [OF i] r1(5) [OF i] by (blast intro: order_trans)
    ultimately show ?thesis using r'(4) [OF i] r1(4) len i q True by (simp add: ac_simps)
  next
    case False
    have "r_max r ! i \<le> r_max r' ! i"
      using r'(4) [OF i] r1(5) [OF i] by (blast intro: order_trans)
    then show ?thesis using r'(4) [OF i] r1(4) q False by auto
  qed
  moreover have "updateAll (q # qs) r = Inr r'" using r1(1) r'(1) q by simp
  moreover have "r_status r' = r_status r" using r'(3) r1(3) by simp
  ultimately show ?case using r'(2) by blast
qed

section \<open>Properties\<close>

text \<open>The rate the tracker shows is exact: in the second after a tick, getRps gives for each
protocol and address family the number of its requests in the whole period between the last
two ticks (modulo the width of the counter), whatever else came in, and the maximum is at
least that number.\<close>

theorem getRps_counts_the_period:
  assumes "wf_rps r" "\<forall>(p, v) \<in> set qs. rps_args p v" "rps_args protocol ipVersion"
  shows "\<exists>r'. updateAll qs (rpsTick r) = Inr r' \<and>
    (let i = unat (getRpsIndex protocol ipVersion);
         n = of_nat (length (filter (\<lambda>(p, v). unat (getRpsIndex p v) = i) qs)) in
     getRps protocol ipVersion (rpsTick r') = Inr n \<and> n \<le> r_max (rpsTick r') ! i)"
proof -
  have w: "wf_rps (rpsTick r)" "filling (rpsTick r) = replicate RPS_DIFFERENT_VALUES 0"
    using assms(1) by (auto simp: wf_rps_def rpsTick_def filling_def RPS_TIME_EVEN_def RPS_TIME_ODD_def)
  from updateAll_ok [OF w(1) assms(2)] obtain r' where r': "updateAll qs (rpsTick r) = Inr r'" "wf_rps r'"
    "\<And>i. i < RPS_DIFFERENT_VALUES \<Longrightarrow>
       filling r' ! i = filling (rpsTick r) ! i + of_nat (length (filter (\<lambda>(p, v). unat (getRpsIndex p v) = i) qs)) \<and>
       (filter (\<lambda>(p, v). unat (getRpsIndex p v) = i) qs = [] \<or> filling r' ! i \<le> r_max r' ! i)"
    by metis
  let ?i = "unat (getRpsIndex protocol ipVersion)"
  have i: "?i < RPS_DIFFERENT_VALUES" by (rule rps_index [OF assms(3)])
  have "getRps protocol ipVersion (rpsTick r') = Inr (filling r' ! ?i)"
    using r'(2) i by (auto simp: getRps_def rpsTick_def wf_rps_def filling_def nth_res_def
        RPS_TIME_EVEN_def RPS_TIME_ODD_def)
  moreover have "filling r' ! ?i = of_nat (length (filter (\<lambda>(p, v). unat (getRpsIndex p v) = ?i) qs))"
    using r'(3) [OF i] w(2) i by simp
  moreover from this have "filling r' ! ?i \<le> r_max r' ! ?i"
    using r'(3) [OF i] by auto
  moreover have "r_max (rpsTick r') = r_max r'" by (simp add: rpsTick_def)
  ultimately show ?thesis using r'(1) by (simp add: Let_def)
qed

theorem getRps_counts_the_period_witness:
  "\<exists>r'. updateAll [(0, 0), (1, 2), (0, 0)] (rpsTick rps0) = Inr r' \<and> getRps 0 0 (rpsTick r') = Inr 2"
  using getRps_counts_the_period [of rps0 "[(0, 0), (1, 2), (0, 0)]" 0 0]
  by (auto simp: wf_rps_def rps0_def rps_args_def RPS_PROTOCOL_TCP_def RPS_PROTOCOL_UDP_def
      RPS_VERSION_IPV4_def RPS_VERSION_IPV6_def RPS_TIME_EVEN_def getRpsIndex_def)

end
