(* ===== verification/Block_Buffer.thy ===== *)
theory Block_Buffer
  imports C_Prelude
begin

text \<open>
  The growable buffer every answer is rendered into (block.h, block.c, with the max of math.h).
  The memory of a block is a list of bytes in which None is a byte nobody has written since
  malloc or realloc returned it; sizes are 32 bits wide and wrap as the code's do. A write
  outside the memory, a read outside the source, is an Out_of_bounds error. The allocation
  itself is taken to succeed. The other theories work on the bytes appended to a block; the
  locale byte_sink below is the contract that justifies it.
\<close>

definition BLOCK_START_ALLOCATE_SIZE :: u32 where "BLOCK_START_ALLOCATE_SIZE = 2000"
definition BLOCK_MIN_FREE_ALLOCATE_SIZE :: u32 where "BLOCK_MIN_FREE_ALLOCATE_SIZE = 2000"
definition BLOCK_MIN_RE_ALLOC_MULTIPLY :: u32 where "BLOCK_MIN_RE_ALLOC_MULTIPLY = 2"

record block =
  b_data :: "byte option list"
  b_size :: u32
  b_allocated :: u32

text \<open>Writing bytes at an index of the memory.\<close>

definition write_at :: "nat \<Rightarrow> bytes \<Rightarrow> byte option list \<Rightarrow> byte option list res" where
  "write_at i s d =
     (if i + length s \<le> length d
      then Inr (take i d @ map Some s @ drop (i + length s) d) else Inl Out_of_bounds)"

definition initBlock :: block where
  "initBlock =
     \<lparr>b_data = Some 0 # replicate (unat BLOCK_START_ALLOCATE_SIZE - 1) None,
      b_size = 0, b_allocated = BLOCK_START_ALLOCATE_SIZE\<rparr>"

text \<open>resetBlock on a pointer, NULL included.\<close>

definition resetBlock :: "block option \<Rightarrow> block res" where
  "resetBlock p =
     (case p of
        None \<Rightarrow> Inr initBlock
      | Some b \<Rightarrow> bindR (write_at 0 [0] (b_data b)) (\<lambda>d. Inr (b\<lparr>b_size := 0, b_data := d\<rparr>)))"

definition reAllocBlock :: "block \<Rightarrow> u32 \<Rightarrow> block" where
  "reAllocBlock b requiredSpace =
     (if b_allocated b > b_size b + requiredSpace then b
      else
        (let newAlloc = max (b_allocated b + requiredSpace + BLOCK_MIN_FREE_ALLOCATE_SIZE)
                            (b_allocated b * BLOCK_MIN_RE_ALLOC_MULTIPLY) in
         if newAlloc \<noteq> 0
         then b\<lparr>b_data := take (unat newAlloc) (b_data b) @ replicate (unat newAlloc - length (b_data b)) None,
                b_allocated := newAlloc\<rparr>
         else b))"

text \<open>The NUL written after the contents, for printf.\<close>

definition terminate_block :: "block \<Rightarrow> block res" where
  "terminate_block b = bindR (write_at (unat (b_size b)) [0] (b_data b)) (\<lambda>d. Inr (b\<lparr>b_data := d\<rparr>))"

definition addStringBlock :: "block \<Rightarrow> bytes \<Rightarrow> u32 \<Rightarrow> block res" where
  "addStringBlock block string requiredSpace =
     (let b = reAllocBlock block requiredSpace in
      if unat requiredSpace \<le> length string
      then bindR (write_at (unat (b_size b)) (take (unat requiredSpace) string) (b_data b)) (\<lambda>d.
             terminate_block (b\<lparr>b_data := d, b_size := b_size b + requiredSpace\<rparr>))
      else Inl Out_of_bounds)"

text \<open>formatted is what vsprintf prints, which writes a NUL after it.\<close>

definition addFormatStringBlock :: "block \<Rightarrow> u32 \<Rightarrow> bytes \<Rightarrow> block res" where
  "addFormatStringBlock block requiredSpace formatted =
     (let b = reAllocBlock block requiredSpace in
      bindR (write_at (unat (b_size b)) (formatted @ [0]) (b_data b)) (\<lambda>d.
        terminate_block (b\<lparr>b_data := d, b_size := b_size b + of_nat (length formatted)\<rparr>)))"

text \<open>
  file is what fopen finds: None when it fails, otherwise the contents. failure is the message
  of the error number, as the two printf formats render it.
\<close>

definition addFileBlock :: "block \<Rightarrow> u32 \<Rightarrow> bytes option \<Rightarrow> bytes \<Rightarrow> block res" where
  "addFileBlock block requiredSpace file failure =
     (let b = reAllocBlock block requiredSpace in
      bindR (case file of
               Some content \<Rightarrow>
                 (let got = take (unat requiredSpace) content in
                  bindR (write_at (unat (b_size b)) got (b_data b)) (\<lambda>d.
                    if length got = unat requiredSpace
                    then Inr (b\<lparr>b_data := d, b_size := b_size b + of_nat (length got)\<rparr>)
                    else addFormatStringBlock (b\<lparr>b_data := d\<rparr>) 300 (lit ''fread failed: '' @ failure)))
             | None \<Rightarrow> addFormatStringBlock b 300 (lit ''fopen failed: '' @ failure))
        terminate_block)"

section \<open>The invariant\<close>

definition contents :: "block \<Rightarrow> bytes" where
  "contents b = map the (take (unat (b_size b)) (b_data b))"

text \<open>
  The bookkeeping agrees with the memory, everything below the size has been written, and a
  NUL follows it.
\<close>

definition wf_block :: "block \<Rightarrow> bool" where
  "wf_block b \<longleftrightarrow> length (b_data b) = unat (b_allocated b) \<and> b_size b < b_allocated b \<and>
     None \<notin> set (take (unat (b_size b)) (b_data b)) \<and> b_data b ! unat (b_size b) = Some 0"

text \<open>Room for n more bytes without a wrap of the 32-bit sizes: half a gigabyte in all.\<close>

definition room :: "block \<Rightarrow> nat \<Rightarrow> bool" where
  "room b n \<longleftrightarrow> unat (b_size b) + n \<le> 2 ^ 29 \<and> unat (b_allocated b) \<le> 2 ^ 30 + 2000"

lemma wf_initBlock: "wf_block initBlock" "contents initBlock = []" "room initBlock n \<longleftrightarrow> n \<le> 2 ^ 29"
  by (auto simp: wf_block_def initBlock_def contents_def room_def BLOCK_START_ALLOCATE_SIZE_def)

lemma room_unat:
  assumes "room b (unat req)"
  shows "unat (b_size b + req) = unat (b_size b) + unat req"
    "unat (b_allocated b + req + BLOCK_MIN_FREE_ALLOCATE_SIZE) = unat (b_allocated b) + unat req + 2000"
    "unat (b_allocated b * BLOCK_MIN_RE_ALLOC_MULTIPLY) = unat (b_allocated b) * 2"
proof -
  have r: "unat (b_size b) + unat req \<le> 2 ^ 29" "unat (b_allocated b) \<le> 2 ^ 30 + 2000"
    using assms by (auto simp: room_def)
  show "unat (b_size b + req) = unat (b_size b) + unat req"
    using r by (simp add: unat_word_ariths)
  show "unat (b_allocated b + req + BLOCK_MIN_FREE_ALLOCATE_SIZE) = unat (b_allocated b) + unat req + 2000"
    using r by (simp add: unat_word_ariths BLOCK_MIN_FREE_ALLOCATE_SIZE_def)
  show "unat (b_allocated b * BLOCK_MIN_RE_ALLOC_MULTIPLY) = unat (b_allocated b) * 2"
    using r by (simp add: unat_word_ariths BLOCK_MIN_RE_ALLOC_MULTIPLY_def)
qed

text \<open>After reAllocBlock there is room for the required space and a NUL.\<close>

lemma reAllocBlock_ok:
  assumes "wf_block b" "room b (unat req)"
  defines "b' \<equiv> reAllocBlock b req"
  shows "b_size b' = b_size b" "length (b_data b') = unat (b_allocated b')"
    "unat (b_size b) + unat req < unat (b_allocated b')"
    "take (unat (b_size b)) (b_data b') = take (unat (b_size b)) (b_data b)"
    "unat (b_allocated b') \<le> max (unat (b_allocated b)) (2 * (unat (b_size b) + unat req) + 2000)"
    "room b' (unat req)"
proof -
  let ?n = "max (b_allocated b + req + BLOCK_MIN_FREE_ALLOCATE_SIZE) (b_allocated b * BLOCK_MIN_RE_ALLOC_MULTIPLY)"
  note r = room_unat [OF assms(2)]
  have lens: "length (b_data b) = unat (b_allocated b)" "unat (b_size b) < unat (b_allocated b)"
    using assms(1) by (auto simp: wf_block_def word_less_nat_alt)
  have "b_size b' = b_size b \<and> length (b_data b') = unat (b_allocated b') \<and>
    unat (b_size b) + unat req < unat (b_allocated b') \<and>
    take (unat (b_size b)) (b_data b') = take (unat (b_size b)) (b_data b) \<and>
    unat (b_allocated b') \<le> max (unat (b_allocated b)) (2 * (unat (b_size b) + unat req) + 2000)"
  proof (cases "b_allocated b > b_size b + req")
    case True
    then have "b' = b" by (simp add: b'_def reAllocBlock_def)
    moreover have "unat (b_size b) + unat req < unat (b_allocated b)"
      using True r(1) by (simp add: word_less_nat_alt)
    ultimately show ?thesis using lens by simp
  next
    case False
    have n: "unat ?n = max (unat (b_allocated b) + unat req + 2000) (unat (b_allocated b) * 2)"
      using r(2,3) by (simp add: max_def word_le_nat_alt)
    have "?n \<noteq> 0"
    proof
      assume "?n = 0"
      then have "unat ?n = 0" by (simp only: unat_0)
      with n show False by linarith
    qed
    then have b': "b' = b\<lparr>b_data := take (unat ?n) (b_data b) @ replicate (unat ?n - length (b_data b)) None,
        b_allocated := ?n\<rparr>"
      using False by (simp add: b'_def reAllocBlock_def Let_def)
    have le: "unat (b_allocated b) \<le> unat ?n" using n by simp
    have "unat (b_allocated b) \<le> unat (b_size b) + unat req"
      using False r(1) by (simp add: word_less_nat_alt)
    then have "unat ?n \<le> 2 * (unat (b_size b) + unat req) + 2000" "unat (b_size b) + unat req < unat ?n"
      using n lens(2) by auto
    then show ?thesis using le lens unfolding b' by simp
  qed
  then show all: "b_size b' = b_size b" "length (b_data b') = unat (b_allocated b')"
    "unat (b_size b) + unat req < unat (b_allocated b')"
    "take (unat (b_size b)) (b_data b') = take (unat (b_size b)) (b_data b)"
    "unat (b_allocated b') \<le> max (unat (b_allocated b)) (2 * (unat (b_size b) + unat req) + 2000)"
    by auto
  show "room b' (unat req)" using all(1,5) assms(2) by (auto simp: room_def)
qed

text \<open>Writing bytes and a NUL behind the contents of a block that has the room.\<close>

lemma write_behind:
  assumes "length d = n" "k + length s < n"
  shows "write_at k s d = Inr (take k d @ map Some s @ drop (k + length s) d)"
    "write_at (k + length s) [0] (take k d @ map Some s @ drop (k + length s) d) =
       Inr (take k d @ map Some s @ [Some 0] @ drop (k + length s + 1) d)"
    "write_at k (s @ [0]) d = Inr (take k d @ map Some s @ [Some 0] @ drop (k + length s + 1) d)"
    "write_at (k + length s) [0] (take k d @ map Some s @ [Some 0] @ drop (k + length s + 1) d) =
       Inr (take k d @ map Some s @ [Some 0] @ drop (k + length s + 1) d)"
  using assms by (simp_all add: write_at_def min_def)

lemma wf_written:
  assumes "wf_block b" "length d = unat a" "unat (b_size b) + length s < unat a"
    "take (unat (b_size b)) d = take (unat (b_size b)) (b_data b)"
    "unat sz = unat (b_size b) + length s"
  defines "b' \<equiv> \<lparr>b_data = take (unat (b_size b)) d @ map Some s @ [Some 0] @ drop (unat (b_size b) + length s + 1) d,
      b_size = sz, b_allocated = a\<rparr>"
  shows "wf_block b'" "contents b' = contents b @ s"
proof -
  have l: "length (take (unat (b_size b)) d) = unat (b_size b)" using assms(2,3) by simp
  have t: "take (unat sz) (b_data b') = take (unat (b_size b)) d @ map Some s"
    using l by (simp add: b'_def assms(5))
  have "None \<notin> set (take (unat sz) (b_data b'))"
    using assms(1) unfolding t by (auto simp: assms(4) wf_block_def)
  moreover have "b_data b' ! unat sz = Some 0"
    using l by (simp add: b'_def assms(5) nth_append)
  ultimately show "wf_block b'"
    using l assms(2,3,5) by (simp add: wf_block_def b'_def word_less_nat_alt)
  have "b_size b' = sz" by (simp add: b'_def)
  then show "contents b' = contents b @ s"
    unfolding contents_def t [folded \<open>b_size b' = sz\<close>] by (simp add: assms(4) comp_def)
qed

section \<open>The operations\<close>

lemma addStringBlock_ok:
  assumes "wf_block b" "room b (unat n)" "unat n \<le> length s"
  shows "\<exists>b'. addStringBlock b s n = Inr b' \<and> wf_block b' \<and> contents b' = contents b @ take (unat n) s \<and>
    unat (b_size b') = unat (b_size b) + unat n \<and>
    unat (b_allocated b') \<le> max (unat (b_allocated b)) (2 * (unat (b_size b) + unat n) + 2000)"
proof -
  let ?r = "reAllocBlock b n"
  let ?s = "take (unat n) s"
  note r = reAllocBlock_ok [OF assms(1,2)]
  have sz: "unat (b_size b + n) = unat (b_size b) + length ?s"
    using room_unat(1) [OF assms(2)] assms(3) by simp
  have k: "unat (b_size b) + length ?s < unat (b_allocated ?r)" using r(3) assms(3) by simp
  note w = write_behind [OF r(2) k]
  let ?b = "\<lparr>b_data = take (unat (b_size b)) (b_data ?r) @ map Some ?s @ [Some 0] @
      drop (unat (b_size b) + length ?s + 1) (b_data ?r), b_size = b_size b + n, b_allocated = b_allocated ?r\<rparr>"
  have "addStringBlock b s n = Inr ?b"
    using assms(3) w(1,2) sz by (simp add: addStringBlock_def Let_def r(1) terminate_block_def)
  moreover note wf_written [OF assms(1) r(2) k r(4) sz]
  moreover have "unat (b_size b + n) = unat (b_size b) + unat n" by (rule room_unat(1) [OF assms(2)])
  ultimately show ?thesis using r(5) by auto
qed

lemma addFormatStringBlock_ok:
  assumes "wf_block b" "room b (unat n)" "length f \<le> unat n"
  shows "\<exists>b'. addFormatStringBlock b n f = Inr b' \<and> wf_block b' \<and> contents b' = contents b @ f \<and>
    unat (b_size b') = unat (b_size b) + length f \<and>
    unat (b_allocated b') \<le> max (unat (b_allocated b)) (2 * (unat (b_size b) + unat n) + 2000)"
proof -
  let ?r = "reAllocBlock b n"
  note r = reAllocBlock_ok [OF assms(1,2)]
  have l: "unat (of_nat (length f) :: u32) = length f"
    using assms(3) unsigned_less [of n, where ?'a = nat] by (simp add: unat_of_nat)
  have "room b (unat (of_nat (length f) :: u32))" using assms(2,3) l by (simp add: room_def)
  then have sz: "unat (b_size b + of_nat (length f)) = unat (b_size b) + length f"
    using room_unat(1) [of b "of_nat (length f)"] l by simp
  have k: "unat (b_size b) + length f < unat (b_allocated ?r)" using r(3) assms(3) by simp
  note w = write_behind [OF r(2) k]
  let ?b = "\<lparr>b_data = take (unat (b_size b)) (b_data ?r) @ map Some f @ [Some 0] @
      drop (unat (b_size b) + length f + 1) (b_data ?r), b_size = b_size b + of_nat (length f),
      b_allocated = b_allocated ?r\<rparr>"
  have "addFormatStringBlock b n f = Inr ?b"
    using w(3,4) sz by (simp add: addFormatStringBlock_def Let_def r(1) terminate_block_def)
  moreover note wf_written [OF assms(1) r(2) k r(4) sz] sz
  ultimately show ?thesis using r(5) by auto
qed

lemma resetBlock_ok:
  assumes "wf_block b"
  shows "\<exists>b'. resetBlock (Some b) = Inr b' \<and> wf_block b' \<and> contents b' = [] \<and> b_allocated b' = b_allocated b"
proof -
  have "0 < length (b_data b)" using assms by (auto simp: wf_block_def word_less_nat_alt)
  then have "resetBlock (Some b) = Inr (b\<lparr>b_data := Some 0 # drop 1 (b_data b), b_size := 0\<rparr>)"
    by (simp add: resetBlock_def write_at_def Suc_le_eq)
  with assms show ?thesis by (auto simp: wf_block_def contents_def word_less_nat_alt)
qed

section \<open>A sink of bytes\<close>

fun foldR :: "('b \<Rightarrow> 'p \<Rightarrow> 'b res) \<Rightarrow> 'b \<Rightarrow> 'p list \<Rightarrow> 'b res" where
  "foldR f b [] = Inr b"
| "foldR f b (p # ps) = bindR (f b p) (\<lambda>b'. foldR f b' ps)"

text \<open>
  What a renderer needs of its buffer: a piece of text, within the space it was announced with
  and the budget that is left, is appended to the contents.
\<close>

locale byte_sink =
  fixes append :: "'b \<Rightarrow> 'p \<Rightarrow> 'b res" and content :: "'b \<Rightarrow> bytes" and fits :: "'b \<Rightarrow> nat \<Rightarrow> bool"
    and valid :: "'p \<Rightarrow> bool" and cost :: "'p \<Rightarrow> nat" and bytesOf :: "'p \<Rightarrow> bytes"
  assumes append_fits: "fits b n \<Longrightarrow> valid p \<Longrightarrow> cost p \<le> n \<Longrightarrow>
    \<exists>b'. append b p = Inr b' \<and> content b' = content b @ bytesOf p \<and> fits b' (n - cost p)"
begin

lemma append_all:
  "fits b n \<Longrightarrow> \<forall>p \<in> set ps. valid p \<Longrightarrow> sum_list (map cost ps) \<le> n \<Longrightarrow>
   \<exists>b'. foldR append b ps = Inr b' \<and> content b' = content b @ concat (map bytesOf ps) \<and>
        fits b' (n - sum_list (map cost ps))"
proof (induction ps arbitrary: b n)
  case (Cons p ps)
  from Cons.prems obtain b1 where b1: "append b p = Inr b1" "content b1 = content b @ bytesOf p" "fits b1 (n - cost p)"
    using append_fits [of b n p] by auto
  have "sum_list (map cost ps) \<le> n - cost p" using Cons.prems(3) by simp
  with Cons.IH [OF b1(3)] Cons.prems(2) b1(1,2) show ?case by auto
qed simp

lemma same_text_same_content:
  assumes "fits b n" "\<forall>p \<in> set ps \<union> set qs. valid p" "sum_list (map cost ps) \<le> n" "sum_list (map cost qs) \<le> n"
    "concat (map bytesOf ps) = concat (map bytesOf qs)" "foldR append b ps = Inr b1" "foldR append b qs = Inr b2"
  shows "content b1 = content b2"
  using append_all [OF assms(1) _ assms(3)] append_all [OF assms(1) _ assms(4)] assms(2,5-7) by auto

end

text \<open>The pieces of the code: a string with its length, a format with the space it asks for.\<close>

datatype piece = Piece_string bytes | Piece_format u32 bytes

fun addPiece :: "block \<Rightarrow> piece \<Rightarrow> block res" where
  "addPiece b (Piece_string s) = addStringBlock b s (of_nat (length s))"
| "addPiece b (Piece_format n f) = addFormatStringBlock b n f"

fun piece_valid :: "piece \<Rightarrow> bool" where
  "piece_valid (Piece_string s) = True"
| "piece_valid (Piece_format n f) = (length f \<le> unat n)"

fun piece_cost :: "piece \<Rightarrow> nat" where
  "piece_cost (Piece_string s) = length s"
| "piece_cost (Piece_format n f) = unat n"

fun piece_bytes :: "piece \<Rightarrow> bytes" where
  "piece_bytes (Piece_string s) = s"
| "piece_bytes (Piece_format n f) = f"

text \<open>tot is the whole budget, n what is left of it; the memory stays below twice what was used.\<close>

definition block_fits :: "nat \<Rightarrow> block \<Rightarrow> nat \<Rightarrow> bool" where
  "block_fits tot b n \<longleftrightarrow> wf_block b \<and> tot \<le> 2 ^ 29 \<and> n \<le> tot \<and> unat (b_size b) + n \<le> tot \<and>
     unat (b_allocated b) \<le> 2 * (tot - n) + 2000"

interpretation block_sink: byte_sink addPiece contents "block_fits tot" piece_valid piece_cost piece_bytes
  for tot
proof
  fix b n p
  assume f: "block_fits tot b n" and v: "piece_valid p" and c: "piece_cost p \<le> n"
  then have wf: "wf_block b" and r: "room b m" if "m \<le> n" for m
    using that by (auto simp: block_fits_def room_def)
  have "\<exists>b'. addPiece b p = Inr b' \<and> wf_block b' \<and> contents b' = contents b @ piece_bytes p \<and>
    unat (b_size b') \<le> unat (b_size b) + piece_cost p \<and>
    unat (b_allocated b') \<le> max (unat (b_allocated b)) (2 * (unat (b_size b) + piece_cost p) + 2000)"
  proof (cases p)
    case (Piece_string s)
    have l: "unat (of_nat (length s) :: u32) = length s"
      using f c Piece_string by (simp add: block_fits_def unat_of_nat)
    show ?thesis
      using addStringBlock_ok [OF wf r, of n "of_nat (length s)" s] c l Piece_string by auto
  next
    case (Piece_format k t)
    show ?thesis
      using addFormatStringBlock_ok [OF wf r, of n k t] c v Piece_format by fastforce
  qed
  then show "\<exists>b'. addPiece b p = Inr b' \<and> contents b' = contents b @ piece_bytes p \<and> block_fits tot b' (n - piece_cost p)"
    using f c unfolding block_fits_def by fastforce
qed

text \<open>The bytes the renderers of the other theories append to are such a sink too.\<close>

interpretation bytes_sink: byte_sink "\<lambda>b s. Inr (b @ s)" "\<lambda>b. b" "\<lambda>_ _. True" "\<lambda>_. True" length "\<lambda>s. s"
  by unfold_locales simp

lemma block_of_pieces:
  assumes "\<forall>p \<in> set ps. piece_valid p" "sum_list (map piece_cost ps) \<le> 2 ^ 29"
  shows "\<exists>b. foldR addPiece initBlock ps = Inr b \<and> contents b = concat (map piece_bytes ps) \<and>
    b_data b ! unat (b_size b) = Some 0 \<and> length (b_data b) = unat (b_allocated b) \<and>
    unat (b_allocated b) \<le> 2 * sum_list (map piece_cost ps) + 2000"
proof -
  let ?t = "sum_list (map piece_cost ps)"
  have "block_fits ?t initBlock ?t"
    using assms(2) wf_initBlock by (simp add: block_fits_def initBlock_def BLOCK_START_ALLOCATE_SIZE_def)
  from block_sink.append_all [OF this assms(1)] show ?thesis
    by (auto simp: wf_initBlock block_fits_def wf_block_def)
qed

text \<open>A block is a list of bytes: appending strings and formatted pieces (each within the
space it announces, half a gigabyte in all) to a new block never writes outside its memory,
leaves exactly the concatenation of the pieces, NUL-terminated, and takes at most twice the
announced space.\<close>

theorem block_collects_the_pieces:
  assumes "\<forall>p \<in> set ps. piece_valid p" "sum_list (map piece_cost ps) \<le> 2 ^ 29"
  shows "\<exists>b. foldR addPiece initBlock ps = Inr b \<and> contents b = concat (map piece_bytes ps) \<and>
    b_data b ! unat (b_size b) = Some 0 \<and> length (b_data b) = unat (b_allocated b) \<and>
    unat (b_allocated b) \<le> 2 * sum_list (map piece_cost ps) + 2000"
  by (rule block_of_pieces [OF assms])

theorem block_collects_the_pieces_witness:
  "\<exists>b. foldR addPiece initBlock [Piece_string [1, 2], Piece_format 500 [3], Piece_string []] = Inr b \<and>
     contents b = [1, 2, 3] \<and> unat (b_allocated b) \<le> 3004"
  using block_collects_the_pieces [of "[Piece_string [1, 2], Piece_format 500 [3], Piece_string []]"] by auto

end
