(* ===== verification/Stats_Page.thy ===== *)
theory Stats_Page
  imports Stats Rps Interval_Ctl Block_Buffer "HOL-Library.Signed_Division"
begin

text \<open>
  The page of statistics (stats.c, formatStats): the counters read out as HTML into a block, piece
  by piece as the calls of addFormatStringBlock print them, each with the space it asks for.
\<close>

section \<open>What the page shows of the system\<close>

text \<open>
  ctime, strerror, the load averages as \%.2f prints them, the limits and the memory use of the
  process, and the counters of alloc.c; group is what printf with the ' flag prints for a number
  in the locale of the process.
\<close>

record stats_env =
  y_revision :: bytes
  y_group :: "nat \<Rightarrow> bytes"
  y_ctime :: "int \<Rightarrow> bytes"
  y_now :: int
  y_load :: "bytes \<times> bytes \<times> bytes"
  y_rlim_cur :: u64
  y_rlim_max :: u64
  y_maxrss :: int
  y_countMalloc :: u64
  y_countCalloc :: u64
  y_countFree :: u64
  y_strerror :: "nat \<Rightarrow> bytes"

text \<open>printf's \%'d of an int, \%d of an int, and a number padded to seven places.\<close>

definition group_d :: "stats_env \<Rightarrow> int \<Rightarrow> bytes" where
  "group_d y v = (if v < 0 then 45 # y_group y (nat (- v)) else y_group y (nat v))"

definition dec_d :: "int \<Rightarrow> bytes" where
  "dec_d v = (if v < 0 then 45 # dec (nat (- v)) else dec (nat v))"

definition pad7 :: "bytes \<Rightarrow> bytes" where
  "pad7 s = replicate (7 - length s) 32 @ s"

text \<open>A count as the float it is divided as: 24 bits, the nearest, the even one of two.\<close>

definition toFloat :: "nat \<Rightarrow> nat" where
  "toFloat n =
     (let e = length (takeWhile (\<lambda>k. 2 ^ 24 \<le> n div 2 ^ k) [0..<64]); q = n div 2 ^ e; r = n mod 2 ^ e
      in (if 2 * r > 2 ^ e \<or> 2 * r = 2 ^ e \<and> odd q then q + 1 else q) * 2 ^ e)"

section \<open>The page\<close>

definition row :: "stats_env \<Rightarrow> bytes \<times> u64 \<Rightarrow> bytes" where
  "row y r = (case r of (label, n) \<Rightarrow> lit ''<tr><td>'' @ label @ lit ''<td>'' @ y_group y (unat n))"

definition spacer :: bytes where "spacer = lit ''<tr><td colspan=2>&nbsp;''"

text \<open>The sections of the first table, each closed by an empty row.\<close>

definition allocRows :: "stats_env \<Rightarrow> (bytes \<times> u64) list" where
  "allocRows y =
     [(lit ''malloc '', y_countMalloc y),
      (lit ''calloc '', y_countCalloc y),
      (lit ''*alloc '', y_countMalloc y + y_countCalloc y),
      (lit ''free '', y_countFree y),
      (lit ''*alloc - free '', y_countMalloc y + y_countCalloc y - y_countFree y)]"

definition counterRows :: "stats \<Rightarrow> (bytes \<times> u64) list list" where
  "counterRows st =
     [[(lit ''stats.http_101 '', st_count st Http_101),
       (lit ''stats.http_200 '', st_count st Http_200),
       (lit ''stats.http_400 '', st_count st Http_400),
       (lit ''stats.http_401 '', st_count st Http_401),
       (lit ''stats.http_403 (Full Scrape)'', st_count st Http_403),
       (lit ''stats.http_404 '', st_count st Http_404),
       (lit ''stats.http_405 (Not GET)'', st_count st Http_405),
       (lit ''stats.http_408 (Timeout)'', st_count st Http_408),
       (lit ''stats.http_413 (Oversize)'', st_count st Http_413)],
      [(lit ''stats.close_pass '', st_count st Close_pass),
       (lit ''stats.send_pass '', st_count st Send_pass),
       (lit ''stats.recv_pass '', st_count st Recv_pass),
       (lit ''stats.accept_pass '', st_count st Accept_pass)],
      [(lit ''stats.close_failed '', st_count st Close_failed),
       (lit ''stats.send_skips '', st_count st Send_skips),
       (lit ''stats.send_failed '', st_count st Send_failed),
       (lit ''stats.recv_failed '', st_count st Recv_failed),
       (lit ''stats.accept_failed '', st_count st Accept_failed)],
      [(lit ''stats.recv_failed_read_0 '', st_count st Recv_failed_read_0),
       (lit ''stats.recv_failed_read_sub_0 '', st_count st Recv_failed_read_sub_0),
       (lit ''stats.recv_failed_read_not_equal '', st_count st Recv_failed_read_not_equal)],
      [(lit ''stats.send_pass_udp '', st_count st Send_pass_udp),
       (lit ''stats.recv_pass_udp '', st_count st Recv_pass_udp)],
      [(lit ''stats.send_failed_udp '', st_count st Send_failed_udp),
       (lit ''stats.recv_failed_udp '', st_count st Recv_failed_udp)],
      [(lit ''stats.keep_alive '', st_count st Keep_alive),
       (lit ''stats.no_keep_alive '', st_count st No_keep_alive)],
      [(lit ''stats.sent_bytes '', st_count st Sent_bytes),
       (lit ''stats.recv_bytes '', st_count st Recv_bytes)],
      [(lit ''stats.sent_bytes_udp '', st_count st Sent_bytes_udp),
       (lit ''stats.recv_bytes_udp '', st_count st Recv_bytes_udp)],
      [(lit ''stats.announce '', st_count st Announce),
       (lit ''stats.scrape '', st_count st Scrape)],
      [(lit ''stats.connect_udp '', st_count st Connect_udp),
       (lit ''stats.announce_udp '', st_count st Announce_udp),
       (lit ''stats.scrape_udp '', st_count st Scrape_udp)]]"

definition rowsSection :: "stats_env \<Rightarrow> (bytes \<times> u64) list \<Rightarrow> bytes" where
  "rowsSection y rows = concat (map (row y) rows) @ spacer"

definition pageHead :: "stats_env \<Rightarrow> stats \<Rightarrow> bytes" where
  "pageHead y st =
     lit ''<!DOCTYPE html>'' @ [10] @ lit ''<html lang='en'>'' @ lit ''<head>'' @
     lit ''<title>etracker stats</title>'' @
     lit ''<meta name='viewport' content='width=450, initial-scale=1'>'' @
     lit ''<style>'' @ lit ''th {text-align: left} '' @
     lit ''tr:nth-child(odd) {background-color: #eee} '' @
     lit ''.two td:first-child + td {text-align: right} '' @
     lit ''.three td:first-child + td + td {text-align: right} '' @
     lit ''</style>'' @ lit ''</head>'' @
     lit ''<body style='background: '' @ (if st_failed st \<noteq> 0 then lit ''#fee'' else lit ''white'') @ [39] @ lit ''>'' @
     lit ''<div style='white-space: pre-wrap; font-family: monospace'>'' @
     lit ''github.com/truekenny/etracker - open-source BitTorrent tracker ('' @ y_revision y @ lit '')'' @ [10, 10]"

definition pageTimes :: "stats_env \<Rightarrow> int \<Rightarrow> stats \<Rightarrow> interval \<Rightarrow> bytes" where
  "pageTimes y threadNumber st iv =
     lit ''start_time = '' @ take 24 (y_ctime y (st_time st)) @ lit '' ('' @ dec_d ((y_now y - st_time st) sdiv 86400) @
     lit ''d) ('' @ dec_d (st_failed st) @ lit ''f)'' @ [10] @
     lit ''thread_number = '' @ dec_d threadNumber @ [10, 10] @
     (case y_load y of (l0, l1, l2) \<Rightarrow> lit ''load_avg = '' @ l0 @ [32] @ l1 @ [32] @ l2 @ [10]) @
     lit ''interval = '' @ group_d y (sint (i_interval iv)) @ lit '' ('' @ group_d y (sint (i_previousInterval iv)) @
     lit ''->'' @ group_d y (sint (i_requireInterval iv)) @ lit '')'' @ [10] @
     lit ''active_sockets = '' @
     y_group y (unat (st_count st Accept_pass - st_count st Close_pass - st_count st Close_failed)) @
     lit '' (rlimit '' @ y_group y (unat (y_rlim_cur y)) @ lit ''/'' @ y_group y (unat (y_rlim_max y)) @ lit '')'' @ [10, 10]"

definition rpsLine :: "stats_env \<Rightarrow> bytes \<Rightarrow> byte \<Rightarrow> rps \<Rightarrow> bytes res" where
  "rpsLine y label version r =
     bindR (getRps RPS_PROTOCOL_TCP version r) (\<lambda>tcp.
     bindR (nth_res (r_max r) (unat (RPS_PROTOCOL_TCP + version))) (\<lambda>tcpMax.
     bindR (getRps RPS_PROTOCOL_UDP version r) (\<lambda>udp.
     bindR (nth_res (r_max r) (unat (RPS_PROTOCOL_UDP + version))) (\<lambda>udpMax.
       Inr (label @ pad7 (y_group y (toFloat (unat tcp))) @ lit ''  '' @ pad7 (y_group y (unat tcpMax)) @ lit ''  '' @
            pad7 (y_group y (toFloat (unat udp))) @ lit ''  '' @ pad7 (y_group y (unat udpMax)) @ [10])))))"

text \<open>The errors of one array that have occurred.\<close>

definition errorRow :: "stats_env \<Rightarrow> nat \<Rightarrow> u64 \<Rightarrow> piece" where
  "errorRow y err_no n = Piece_format 1000
     (lit ''<tr><td>'' @ y_group y err_no @ lit '' <td>'' @ y_group y (unat n) @ lit '' <td>'' @ [39] @
      y_strerror y err_no @ [39, 10])"

definition printErrorArray :: "stats_env \<Rightarrow> u64 list \<Rightarrow> bytes \<Rightarrow> piece list" where
  "printErrorArray y statErrno name =
     Piece_format 1000 (lit ''<tr><th colspan=3>'' @ name @ lit '' '' @ lit ''<tr><th>errno <th>count <th>name'') #
     map (\<lambda>(err_no, n). errorRow y err_no n) (filter (\<lambda>(err_no, n). n \<noteq> 0) (enumerate 0 statErrno))"

definition errorPieces :: "stats_env \<Rightarrow> stats \<Rightarrow> piece list" where
  "errorPieces y st = concat (map (\<lambda>(a, name). printErrorArray y (st_errno st a) name)
     [(Close_errno, lit ''close_errno''), (Send_errno, lit ''send_errno''), (Recv_errno, lit ''recv_errno''),
      (Accept_errno, lit ''accept_errno''), (Send_errno_udp, lit ''send_errno_udp''), (Recv_errno_udp, lit ''recv_errno_udp'')])"

text \<open>The text of the first call, given the two lines of the requests per second.\<close>

definition statsText :: "stats_env \<Rightarrow> int \<Rightarrow> stats \<Rightarrow> interval \<Rightarrow> bytes \<Rightarrow> bytes \<Rightarrow> bytes" where
  "statsText y threadNumber st iv ipv4 ipv6 =
     pageHead y st @ pageTimes y threadNumber st iv @
     lit ''RPS:      TCP  TCP_MAX      UDP  UDP_MAX'' @ [10] @ ipv4 @ ipv6 @ [10] @
     lit ''<table class='two'>'' @
     lit ''<tr><td>rusage.ru_maxrss <td>'' @ group_d y (y_maxrss y) @ spacer @
     concat (map (rowsSection y) (allocRows y # counterRows st)) @ lit ''</table>''"

text \<open>The calls that append to the block.\<close>

definition formatStats :: "stats_env \<Rightarrow> int \<Rightarrow> stats \<Rightarrow> interval \<Rightarrow> rps \<Rightarrow> piece list res" where
  "formatStats y threadNumber st iv r =
     bindR (rpsLine y (lit ''IPv4: '') RPS_VERSION_IPV4 r) (\<lambda>ipv4.
     bindR (rpsLine y (lit ''IPv6: '') RPS_VERSION_IPV6 r) (\<lambda>ipv6.
       Inr (Piece_format 4500 (statsText y threadNumber st iv ipv4 ipv6) #
         Piece_format 1000 (lit ''<table class='two three'>'') #
         errorPieces y st @
         [Piece_format 1000 (lit ''</table>''),
          Piece_format 1000 (lit ''</div>'' @ lit ''</body>'' @ lit ''</html>'')])))"

section \<open>The space of the pieces\<close>

text \<open>
  What the locale and the system print is short: a number takes at most twice its digits (a
  separator of at most three bytes after each three of them), a load average at most 24 bytes.
\<close>

definition page_env :: "stats_env \<Rightarrow> bool" where
  "page_env y \<longleftrightarrow> length (y_revision y) \<le> 40 \<and> (\<forall>n. length (y_group y n) \<le> 2 * length (dec n)) \<and>
     (\<forall>l \<in> {fst (y_load y), fst (snd (y_load y)), snd (snd (y_load y))}. length l \<le> 24) \<and>
     (\<forall>n. length (y_strerror y n) \<le> 700) \<and> \<bar>y_now y\<bar> < 2 ^ 62 \<and> \<bar>y_maxrss y\<bar> < 2 ^ 62"

lemma group_le: "page_env y \<Longrightarrow> n < 10 ^ k \<Longrightarrow> 0 < k \<Longrightarrow> length (y_group y n) \<le> 2 * k"
  using length_dec [of n k] by (auto simp: page_env_def intro: order_trans)

lemma group_u64: "page_env y \<Longrightarrow> length (y_group y (unat (w :: u64))) \<le> 40"
proof -
  assume y: "page_env y"
  have "unat w < 10 ^ 20" by (rule less_le_trans [OF unsigned_less]) simp
  from group_le [OF y this] show ?thesis by simp
qed

lemma group_u32: "page_env y \<Longrightarrow> length (y_group y (unat (w :: u32))) \<le> 20"
proof -
  assume y: "page_env y"
  have "unat w < 10 ^ 10" by (rule less_le_trans [OF unsigned_less]) simp
  from group_le [OF y this] show ?thesis by simp
qed

lemma group_d_le: "page_env y \<Longrightarrow> \<bar>v\<bar> < 10 ^ k \<Longrightarrow> 0 < k \<Longrightarrow> length (group_d y v) \<le> Suc (2 * k)"
  using group_le [of y "nat (- v)" k] group_le [of y "nat v" k] by (auto simp: group_d_def nat_less_iff)

lemma dec_d_le: "\<bar>v\<bar> < 10 ^ k \<Longrightarrow> 0 < k \<Longrightarrow> length (dec_d v) \<le> Suc k"
  using length_dec [of "nat (- v)" k] length_dec [of "nat v" k] by (auto simp: dec_d_def nat_less_iff)

lemma row_le: "page_env y \<Longrightarrow> length (row y (label, n)) \<le> length label + 52"
  using group_u64 [of y n] by (simp add: row_def)

lemma rowsSection_le:
  assumes "page_env y"
  shows "length (rowsSection y rows) \<le> sum_list (map (\<lambda>r. length (fst r) + 52) rows) + 24"
  using sum_list_mono [of rows "\<lambda>r. length (row y r)" "\<lambda>r. length (fst r) + 52"] row_le [OF assms]
  by (auto simp: rowsSection_def spacer_def length_concat comp_def)

lemma rowsSections_le:
  assumes "page_env y"
  shows "length (concat (map (rowsSection y) rss)) \<le>
    sum_list (map (\<lambda>rows. sum_list (map (\<lambda>r. length (fst r) + 52) rows) + 24) rss)"
  using sum_list_mono [of rss "\<lambda>rows. length (rowsSection y rows)"] rowsSection_le [OF assms]
  by (simp add: length_concat comp_def)

lemma counterRows_le:
  assumes "page_env y"
  shows "length (concat (map (rowsSection y) (allocRows y # counterRows st))) \<le> 3161"
  by (rule order_trans [OF rowsSections_le [OF assms]]) (simp add: allocRows_def counterRows_def)

lemma toFloat_le: "toFloat n \<le> 3 * n + 1"
proof -
  let ?P = "\<lambda>k. 2 ^ 24 \<le> n div 2 ^ k"
  let ?e = "length (takeWhile ?P [0..<64])"
  have e: "2 ^ ?e \<le> 2 * n + 1"
  proof (cases "?e")
    case (Suc k)
    then have k: "k < ?e" by simp
    have "k < 64" using k length_takeWhile_le [of ?P "[0..<64]"] by simp
    then have "takeWhile ?P [0..<64] ! k = k" using takeWhile_nth [OF k] by simp
    then have "k \<in> set (takeWhile ?P [0..<64])" using nth_mem [OF k] by simp
    then have "2 ^ 24 \<le> n div 2 ^ k" by (rule set_takeWhileD [THEN conjunct2])
    then have "n div 2 ^ k \<noteq> 0" by (intro notI) simp
    then have "2 ^ k \<le> n" by (simp add: div_eq_0_iff)
    then show ?thesis using Suc by simp
  qed simp
  have "n div 2 ^ ?e * 2 ^ ?e \<le> n" by (rule div_times_less_eq_dividend)
  moreover have "toFloat n \<le> n div 2 ^ ?e * 2 ^ ?e + 2 ^ ?e"
    by (simp add: toFloat_def Let_def)
  ultimately show ?thesis using e by linarith
qed

lemma group_float: "page_env y \<Longrightarrow> length (y_group y (toFloat (unat (w :: u32)))) \<le> 22"
proof -
  assume y: "page_env y"
  have "unat w < 2 ^ 32" using unsigned_less [of w] by simp
  then have "toFloat (unat w) < 10 ^ 11" using toFloat_le [of "unat w"] by simp
  from group_le [OF y this] show ?thesis by simp
qed

lemma pad7_le: "length s \<le> n \<Longrightarrow> 7 \<le> n \<Longrightarrow> length (pad7 s) \<le> n"
  by (simp add: pad7_def)

lemma rpsLine_values:
  assumes "wf_rps r" "version = RPS_VERSION_IPV4 \<or> version = RPS_VERSION_IPV6"
  shows "\<exists>(a :: u32) (b :: u32) (c :: u32) (d :: u32). \<forall>y label. rpsLine y label version r =
    Inr (label @ pad7 (y_group y (toFloat (unat a))) @ lit ''  '' @ pad7 (y_group y (unat b)) @ lit ''  '' @
      pad7 (y_group y (toFloat (unat c))) @ lit ''  '' @ pad7 (y_group y (unat d)) @ [10])"
proof -
  have i: "unat (RPS_PROTOCOL_TCP + version) < 4" "unat (RPS_PROTOCOL_UDP + version) < 4"
    using assms(2) by (auto simp: RPS_PROTOCOL_TCP_def RPS_PROTOCOL_UDP_def RPS_VERSION_IPV4_def RPS_VERSION_IPV6_def)
  have l: "length (r_even r) = 4" "length (r_odd r) = 4" "length (r_max r) = 4"
    using assms(1) by (auto simp: wf_rps_def RPS_DIFFERENT_VALUES_def)
  have "length (if r_status r = RPS_TIME_ODD then r_even r else r_odd r) = 4" using l by simp
  then obtain a b c d where r: "getRps RPS_PROTOCOL_TCP version r = Inr a" "nth_res (r_max r) (unat (RPS_PROTOCOL_TCP + version)) = Inr b"
    "getRps RPS_PROTOCOL_UDP version r = Inr c" "nth_res (r_max r) (unat (RPS_PROTOCOL_UDP + version)) = Inr d"
    using i l by (simp add: getRps_def getRpsIndex_def nth_res_def)
  show ?thesis unfolding rpsLine_def r bindR.simps
    by (intro exI [of _ a] exI [of _ b] exI [of _ c] exI [of _ d] allI refl)
qed

lemma rpsLine_ok:
  assumes "page_env y" "wf_rps r" "version = RPS_VERSION_IPV4 \<or> version = RPS_VERSION_IPV6"
  shows "\<exists>s. rpsLine y label version r = Inr s \<and> length s \<le> length label + 91"
proof -
  from rpsLine_values [OF assms(2,3)] obtain a b c d :: u32 where r: "rpsLine y label version r =
    Inr (label @ pad7 (y_group y (toFloat (unat a))) @ lit ''  '' @ pad7 (y_group y (unat b)) @ lit ''  '' @
      pad7 (y_group y (toFloat (unat c))) @ lit ''  '' @ pad7 (y_group y (unat d)) @ [10])" by blast
  have "length (pad7 (y_group y (toFloat (unat x)))) \<le> 22" "length (pad7 (y_group y (unat x))) \<le> 20" for x :: u32
    by (intro pad7_le group_float [OF assms(1)] group_u32 [OF assms(1)], simp)+
  from this [of a] this [of b] this [of c] this [of d] r show ?thesis by simp
qed

text \<open>The page can be read out at any time.\<close>

lemma formatStats_ok:
  assumes "wf_rps r"
  shows "\<exists>ps. formatStats y threadNumber st iv r = Inr ps"
proof -
  obtain v4 v6 where "rpsLine y (lit ''IPv4: '') RPS_VERSION_IPV4 r = Inr v4" "rpsLine y (lit ''IPv6: '') RPS_VERSION_IPV6 r = Inr v6"
    using rpsLine_values [OF assms, of RPS_VERSION_IPV4] rpsLine_values [OF assms, of RPS_VERSION_IPV6] by blast
  then show ?thesis by (simp add: formatStats_def)
qed

lemma pageHead_le: "page_env y \<Longrightarrow> length (pageHead y st) \<le> 510"
  by (simp add: page_env_def pageHead_def)


lemma days_le: "\<bar>a\<bar> < 2 ^ 62 \<Longrightarrow> \<bar>b\<bar> < 2 ^ 62 \<Longrightarrow> \<bar>(a - b) sdiv 86400 :: int\<bar> < 10 ^ 19"
proof -
  assume "\<bar>a\<bar> < 2 ^ 62" "\<bar>b\<bar> < 2 ^ 62"
  then have "\<bar>a - b\<bar> < 2 ^ 63" by simp
  moreover have "\<bar>(a - b) sdiv 86400\<bar> \<le> \<bar>a - b\<bar>"
    by (simp add: signed_divide_int_def abs_mult)
      (metis abs_ge_zero abs_idempotent div_by_1 zdiv_mono2 zero_less_one one_le_numeral)
  ultimately show ?thesis by simp
qed

lemma sint_u32_le: "\<bar>sint (w :: u32)\<bar> < 10 ^ 10"
  using sint_ge [of w] sint_lt [of w] by simp

lemma pageTimes_le:
  assumes "page_env y" "\<bar>st_time st\<bar> < 2 ^ 62" "\<bar>st_failed st\<bar> < 2 ^ 31" "\<bar>threadNumber\<bar> < 2 ^ 31"
  shows "length (pageTimes y threadNumber st iv) \<le> 422"
proof -
  have d: "length (dec_d ((y_now y - st_time st) sdiv 86400)) \<le> 20"
    "length (dec_d (st_failed st)) \<le> 11" "length (dec_d threadNumber) \<le> 11"
    "length (group_d y (sint (w :: u32))) \<le> 21" for w
    using dec_d_le [OF days_le, of "y_now y" "st_time st"] dec_d_le [of "st_failed st" 10] dec_d_le [of threadNumber 10]
      group_d_le [OF assms(1) sint_u32_le, of w] assms by (simp_all add: page_env_def)
  note g = group_u64 [OF assms(1)]
  have l: "length (fst (y_load y)) \<le> 24" "length (fst (snd (y_load y))) \<le> 24" "length (snd (snd (y_load y))) \<le> 24"
    using assms(1) by (simp_all add: page_env_def)
  have c: "length (take 24 (y_ctime y (st_time st))) \<le> 24" by simp
  show ?thesis
    unfolding pageTimes_def split_beta length_append length_lit
    using c d(1-3) d(4) [of "i_interval iv"] d(4) [of "i_previousInterval iv"] d(4) [of "i_requireInterval iv"] l
      g [of "st_count st Accept_pass - st_count st Close_pass - st_count st Close_failed"] g [of "y_rlim_cur y"] g [of "y_rlim_max y"]
    by (simp del: length_take)
qed

lemma printErrorArray_valid:
  assumes "page_env y" "length xs \<le> 257" "length name \<le> 20"
  shows "\<forall>p \<in> set (printErrorArray y xs name). piece_valid p"
proof -
  have "piece_valid (errorRow y i n)" if "i < 257" for i n
  proof -
    have "length (y_group y i) \<le> 2 * 3" using that by (intro group_le [OF assms(1)]) simp_all
    moreover have "length (y_strerror y i) \<le> 700" using assms(1) by (simp add: page_env_def)
    ultimately show ?thesis using group_u64 [OF assms(1), of n] by (simp add: errorRow_def)
  qed
  then show ?thesis
    using assms(2,3) by (auto simp: printErrorArray_def in_set_enumerate_eq)
qed

lemma printErrorArray_cost:
  "sum_list (map piece_cost (printErrorArray y xs name)) \<le> 1000 * Suc (length xs)"
proof -
  have "sum_list (map piece_cost (map (\<lambda>(e, n). errorRow y e n) ys)) = 1000 * length ys" for ys
    by (induction ys) (auto simp: errorRow_def)
  moreover have "length (filter (\<lambda>(e, n). n \<noteq> 0) (enumerate 0 xs)) \<le> length xs"
    using length_filter_le [of "\<lambda>(e, n). n \<noteq> 0" "enumerate 0 xs"] by simp
  ultimately show ?thesis by (simp add: printErrorArray_def)
qed

lemma errorPieces_ok:
  assumes "page_env y" "wf_stats st"
  shows "\<forall>p \<in> set (errorPieces y st). piece_valid p" "sum_list (map piece_cost (errorPieces y st)) \<le> 6 * 258000"
proof -
  have len: "length (st_errno st a) = 257" for a
    using assms(2) by (simp add: wf_stats_def STATS_ERRNO_MAX_INDEX_def)
  have v: "\<forall>p \<in> set (printErrorArray y (st_errno st a) name). piece_valid p" if "length name \<le> 20" for a name
    using printErrorArray_valid [OF assms(1) _ that, of "st_errno st a"] len by simp
  show "\<forall>p \<in> set (errorPieces y st). piece_valid p"
    unfolding errorPieces_def list.map concat.simps prod.case set_append ball_Un
    by (intro conjI v) simp_all
  have c: "sum_list (map piece_cost (printErrorArray y (st_errno st a) name)) \<le> 258000" for a name
    using printErrorArray_cost [of y "st_errno st a" name] len by simp
  show "sum_list (map piece_cost (errorPieces y st)) \<le> 6 * 258000"
    using c [of Close_errno "lit ''close_errno''"] c [of Send_errno "lit ''send_errno''"] c [of Recv_errno "lit ''recv_errno''"]
      c [of Accept_errno "lit ''accept_errno''"] c [of Send_errno_udp "lit ''send_errno_udp''"]
      c [of Recv_errno_udp "lit ''recv_errno_udp''"]
    unfolding errorPieces_def list.map concat.simps prod.case map_append sum_list_append by simp
qed

lemma statsText_le:
  assumes "page_env y" "\<bar>st_time st\<bar> < 2 ^ 62" "\<bar>st_failed st\<bar> < 2 ^ 31" "\<bar>threadNumber\<bar> < 2 ^ 31"
    "length v4 \<le> 97" "length v6 \<le> 97"
  shows "length (statsText y threadNumber st iv v4 v6) \<le> 4448"
proof -
  have r: "length (group_d y (y_maxrss y)) \<le> 39"
    using group_d_le [OF assms(1), of "y_maxrss y" 19] assms(1) by (simp add: page_env_def)
  show ?thesis
    using pageHead_le [OF assms(1), of st] pageTimes_le [OF assms(1-4), of iv] counterRows_le [OF assms(1), of st] r assms(5,6)
    unfolding statsText_def length_append length_lit spacer_def by (simp del: concat.simps list.map)
qed

text \<open>C15: The page of statistics is written inside its memory whatever the counters are: every piece
fits the space it asks for (the first is at most 4448 bytes of the 4500 it asks for), and the block
holds exactly the pieces one after the other.\<close>

theorem stats_page_fits:
  assumes "page_env y" "wf_rps r" "wf_stats st" "\<bar>st_time st\<bar> < 2 ^ 62" "\<bar>st_failed st\<bar> < 2 ^ 31" "\<bar>threadNumber\<bar> < 2 ^ 31"
  shows "\<exists>ps b. formatStats y threadNumber st iv r = Inr ps \<and> (\<forall>p \<in> set ps. piece_valid p) \<and>
    foldR addPiece initBlock ps = Inr b \<and> contents b = concat (map piece_bytes ps)"
proof -
  from rpsLine_ok [OF assms(1,2), of RPS_VERSION_IPV4 "lit ''IPv4: ''"] obtain v4 where
    v4: "rpsLine y (lit ''IPv4: '') RPS_VERSION_IPV4 r = Inr v4" "length v4 \<le> 97" by auto
  from rpsLine_ok [OF assms(1,2), of RPS_VERSION_IPV6 "lit ''IPv6: ''"] obtain v6 where
    v6: "rpsLine y (lit ''IPv6: '') RPS_VERSION_IPV6 r = Inr v6" "length v6 \<le> 97" by auto
  let ?t = "statsText y threadNumber st iv v4 v6"
  let ?ps = "Piece_format 4500 ?t # Piece_format 1000 (lit ''<table class='two three'>'') # errorPieces y st @
         [Piece_format 1000 (lit ''</table>''), Piece_format 1000 (lit ''</div>'' @ lit ''</body>'' @ lit ''</html>'')]"
  have ps: "formatStats y threadNumber st iv r = Inr ?ps" using v4 v6 by (simp add: formatStats_def)
  have valid: "\<forall>p \<in> set ?ps. piece_valid p"
    using statsText_le [OF assms(1,4-6) v4(2) v6(2), of iv] errorPieces_ok(1) [OF assms(1,3)] by (simp add: ball_Un)
  have "sum_list (map piece_cost ?ps) \<le> 2 ^ 29" using errorPieces_ok(2) [OF assms(1,3)] by simp
  from block_of_pieces [OF valid this] obtain b where
    "foldR addPiece initBlock ?ps = Inr b" "contents b = concat (map piece_bytes ?ps)" by blast
  with ps valid show ?thesis by blast
qed

definition sample_page :: stats_env where
  "sample_page = \<lparr>y_revision = lit ''abc1234'', y_group = dec, y_ctime = (\<lambda>_. replicate 25 65), y_now = 90000,
     y_load = (lit ''0.10'', lit ''0.20'', lit ''0.30''), y_rlim_cur = 1024, y_rlim_max = 4096, y_maxrss = 3000,
     y_countMalloc = 5, y_countCalloc = 6, y_countFree = 7, y_strerror = (\<lambda>_. lit ''error'')\<rparr>"

lemma sample_page_env: "page_env sample_page"
  by (simp add: page_env_def sample_page_def)

theorem stats_page_fits_witness:
  "\<exists>ps b. formatStats sample_page 0 (stats0 0) sample_interval rps0 = Inr ps \<and> foldR addPiece initBlock ps = Inr b \<and>
     contents b = concat (map piece_bytes ps)"
proof -
  have "wf_rps rps0" by (simp add: wf_rps_def rps0_def RPS_TIME_EVEN_def)
  moreover have "\<bar>st_time (stats0 0)\<bar> < 2 ^ 62" "\<bar>st_failed (stats0 0)\<bar> < 2 ^ 31" by (simp_all add: stats0_def)
  ultimately show ?thesis using stats_page_fits [OF sample_page_env _ wf_stats0, of rps0 0 0 sample_interval] by auto
qed

text \<open>The count of the answers 507 is not on the page.\<close>

lemma stats_page_omits_507:
  "formatStats y threadNumber (addStat Http_507 n st) iv r = formatStats y threadNumber st iv r"
  by (simp add: formatStats_def statsText_def pageHead_def pageTimes_def counterRows_def errorPieces_def addStat_def)

end
