(* ===== verification/Tcp_Client.thy ===== *)
theory Tcp_Client
  imports Socket_Garbage Bencode Stats_Page
begin

text \<open>
  The TCP worker (thread\_client\_tcp.h, thread\_client\_tcp.c) with the string and password helpers
  it uses (string.c, basic.c): one readable socket from the first look at the received bytes to the
  answer, the requests it knows, and one turn of the worker's loop with the deletion of the sockets
  it is done with. What the system answers (recv, send, close, getpeername, realpath, stat, the
  files, the clock, random bytes) is a record of inputs; what goes out is a list of actions.
\<close>

section \<open>string.c\<close>

definition startsWith :: "bytes \<Rightarrow> bytes \<Rightarrow> bool" where
  "startsWith start string =
     (let lenStart = strlen start; lenString = strlen string in
      if lenString < lenStart then False else memcmp start string lenStart = 0)"

definition endsWith :: "bytes \<Rightarrow> bytes \<Rightarrow> bool" where
  "endsWith fin string =
     (let lenEnd = strlen fin; lenString = strlen string in
      if lenString < lenEnd then False else memcmp fin (drop (lenString - lenEnd) string) lenEnd = 0)"

section \<open>basic.c\<close>

definition BASIC_PASSWORD_LENGTH :: nat where "BASIC_PASSWORD_LENGTH = 20"

definition hasBasic :: "bytes \<Rightarrow> bytes \<Rightarrow> bool" where
  "hasBasic buffer search \<longleftrightarrow> strstr buffer search \<noteq> None"

text \<open>The loop takes the random bytes from the last to the first.\<close>

definition randomString :: "bytes \<Rightarrow> bytes" where
  "randomString randomBytes =
     (let sourceString = lit ''ABCDEFGHIJKLMNOPQRSTUVWXYZabcdefghijklmnopqrstuvwxyz0123456789'' in
      map (\<lambda>b. sourceString ! (unat b mod length sourceString)) (rev randomBytes))"

definition getAuthorizationHeader :: "bytes \<Rightarrow> bytes \<Rightarrow> bytes" where
  "getAuthorizationHeader randomBytes authorizationHeader =
     authorizationHeader @ lit ''Authorization: Basic '' @
     base64_encode (lit ''etracker:'' @ randomString (take BASIC_PASSWORD_LENGTH randomBytes)) @ [13, 0]"

section \<open>The state of a worker\<close>

definition THREAD_CLIENT_TCP_RECEIVED_MESSAGE_LENGTH :: nat where
  "THREAD_CLIENT_TCP_RECEIVED_MESSAGE_LENGTH = 4000"
definition THREAD_CLIENT_TCP_MAX_FILE_SIZE :: nat where "THREAD_CLIENT_TCP_MAX_FILE_SIZE = 2000000"

text \<open>The arguments of the thread that no request changes.\<close>

record tcp_args =
  e_threadNumber :: int
  e_equeue :: u32
  e_charset :: "bytes option"
  e_webRoot :: bytes
  e_geoip :: "geoip list"
  e_xForwardedFor :: "bytes option"

text \<open>What the requests change; the worker's own list of sockets to delete is the last but one.\<close>

record tcp_state =
  c_torrentList :: "torrentDataL hlist"
  c_stats :: stats
  c_socketList :: "socketData hlist"
  c_interval :: interval
  c_rps :: rps
  c_authorizationHeader :: bytes
  c_maxPeersPerResponse :: u32
  c_socketTimeout :: u16
  c_keepAlive :: byte
  c_websockets :: "unit hlist"
  c_deleteSocketList :: "unit hlist"
  c_actions :: "os_action list"

datatype tcp_recv = Tcp_error int | Tcp_data bytes

text \<open>
  The answers of the system for one readable socket: the first recv only looks (MSG\_PEEK), the
  second takes the bytes. realpath and stat give the text of their error or their result (whether
  a regular file, and its size); ioError is the text of the errno a failed fopen or fread leaves.
\<close>

record tcp_os =
  o_now :: int
  o_peek :: tcp_recv
  o_second :: tcp_recv
  o_peername :: bytes
  o_pton :: "bool \<Rightarrow> bytes \<Rightarrow> int \<times> bytes"
  o_ntop :: "bool \<Rightarrow> bytes \<Rightarrow> bytes"
  o_random :: bytes
  o_realpath :: "bytes \<Rightarrow> bytes + bytes"
  o_stat :: "bytes \<Rightarrow> bytes + bool \<times> nat"
  o_file :: "bytes \<Rightarrow> bytes option"
  o_ioError :: bytes
  o_page :: stats_env
  o_answers :: "u32 \<Rightarrow> bytes \<Rightarrow> send_result list"

definition addStats :: "(stats \<Rightarrow> stats) \<Rightarrow> tcp_state \<Rightarrow> tcp_state" where
  "addStats f s = s\<lparr>c_stats := f (c_stats s)\<rparr>"

definition recvErrno :: "int \<Rightarrow> tcp_state \<Rightarrow> tcp_state res" where
  "recvErrno e s = bindR (incErrnoOf Recv_errno e (c_stats s)) (\<lambda>st. Inr (s\<lparr>c_stats := st\<rparr>))"

text \<open>setHash(deleteSocketList, pCurrentSocket).\<close>

definition queueDelete :: "u32 \<Rightarrow> tcp_state \<Rightarrow> tcp_state res" where
  "queueDelete socket s =
     bindR (setHash (c_deleteSocketList s) (mem32 socket)) (\<lambda>(l, _). Inr (s\<lparr>c_deleteSocketList := l\<rparr>))"

text \<open>send\_ with its action, and the frames of a broadcast one after the other.\<close>

definition sendTo :: "tcp_os \<Rightarrow> u32 \<Rightarrow> bytes \<Rightarrow> tcp_state \<Rightarrow> tcp_state res" where
  "sendTo os socket message s =
     bindR (deliver (o_answers os) False socket message (c_stats s)) (\<lambda>st.
       Inr (s\<lparr>c_stats := st, c_actions := c_actions s @ [Send_to socket message]\<rparr>))"

fun sendAll :: "tcp_os \<Rightarrow> (u32 \<times> bytes) list \<Rightarrow> tcp_state \<Rightarrow> tcp_state res" where
  "sendAll os [] s = Inr s"
| "sendAll os ((socket, frame) # rest) s = bindR (sendTo os socket frame s) (sendAll os rest)"

text \<open>A message rendered into the empty send block; it is what the request is answered with.\<close>

definition httpRender :: "nat \<Rightarrow> bytes \<Rightarrow> u64 \<Rightarrow> bool \<Rightarrow> u16 \<Rightarrow> render" where
  "httpRender code message sz keep timeout =
     \<lparr>h_block = [], h_code = code, h_message = message, h_size = sz, h_canKeepAlive = keep,
      h_socketTimeout = timeout, h_charset = None, h_contentType = None, h_websocketKey = None\<rparr>"

definition respond :: "render \<Rightarrow> tcp_state \<Rightarrow> (bytes \<times> tcp_state) res" where
  "respond r s =
     bindR (renderHttpMessage r (c_stats s)) (\<lambda>(r', st). Inr (h_block r', s\<lparr>c_stats := st\<rparr>))"

section \<open>The requests\<close>

text \<open>The query of an announce: the defaults, the parameters, the limit of the configuration.\<close>

definition announceQuery :: "tcp_args \<Rightarrow> tcp_os \<Rightarrow> bytes \<Rightarrow> u32 \<Rightarrow> query" where
  "announceQuery env os readBuffer maxPeersPerResponse =
     (let q0 = query0\<lparr>q_ip := o_peername os, q_ipVersion := getIpVersion (o_peername os),
            q_numwant := URI_DEFAULT_NUM_WANT, q_event := URI_EVENT_ID_STARTED,
            q_threadNumber := e_threadNumber env, q_compact := True, q_xForwardedFor := e_xForwardedFor env\<rparr>;
          (q, _, _) = parseUri (o_pton os) q0 None (Some []) readBuffer
      in if q_numwant q > maxPeersPerResponse then q\<lparr>q_numwant := maxPeersPerResponse\<rparr> else q)"

definition announceAnswer :: "tcp_os \<Rightarrow> query \<Rightarrow> bool \<Rightarrow> tcp_state \<Rightarrow> (bytes \<times> tcp_state) res" where
  "announceAnswer os q canKeepAlive s =
     (if q_has_info_hash q = 0 then respond (httpRender 400 no_info_hash 25 canKeepAlive (c_socketTimeout s)) s
      else if q_port q = 0 then respond (httpRender 400 no_port 25 canKeepAlive (c_socketTimeout s)) s
      else
        bindR (getLeaf (c_torrentList s) (q_info_hash q)) (\<lambda>leaf.
        bindR (waitSemaphoreLeaf leaf) (\<lambda>leaf1.
        bindR (if q_event q = URI_EVENT_ID_STOPPED
               then bindR (deletePeerPublic (c_torrentList s) q) (\<lambda>(ts, torrent). Inr (ts, torrent, c_stats s))
               else setPeerPublic (o_now os) (c_torrentList s) q DATA_STRUCTURE_PEER_PROTOCOL_TCP_BIT (c_stats s))
          (\<lambda>(ts, torrent, st).
        bindR (renderAnnouncePublic (o_ntop os) q (c_interval s) torrent []) (\<lambda>dataBlock.
        bindR (postSemaphoreLeaf leaf1) (\<lambda>_.
          respond (httpRender 200 dataBlock (of_nat (length dataBlock)) canKeepAlive (c_socketTimeout s))
            (s\<lparr>c_torrentList := ts, c_stats := st\<rparr>)))))))"

definition announceGet :: "tcp_args \<Rightarrow> tcp_os \<Rightarrow> bytes \<Rightarrow> bool \<Rightarrow> tcp_state \<Rightarrow> (bytes \<times> tcp_state) res" where
  "announceGet env os readBuffer canKeepAlive s =
     (let s1 = addStats (incStat Announce) s;
          q = announceQuery env os readBuffer (c_maxPeersPerResponse s)
      in bindR (announceAnswer os q canKeepAlive s1) (\<lambda>(sendBlock, s2).
           if q_ipVersion q AND SOCKET_VERSION_IPV4_BIT \<noteq> 0 then
             bindR (broadcast (c_websockets s2) (e_geoip env) (o_peername os) WEBSOCKET_PROTOCOL_TCP) (\<lambda>(ws, frames).
             bindR (sendAll os frames (s2\<lparr>c_websockets := ws\<rparr>)) (\<lambda>s3. Inr (sendBlock, s3)))
           else Inr (sendBlock, s2)))"

text \<open>The settings of an authorised request, and the report of the settings in force.\<close>

definition applySettings :: "query \<Rightarrow> tcp_state \<Rightarrow> tcp_state" where
  "applySettings q s =
     s\<lparr>c_interval := (if q_interval q \<noteq> 0 then forceUpdateInterval (c_interval s) (q_interval q) else c_interval s),
       c_maxPeersPerResponse := (if q_max_peers_per_response q \<noteq> 0 then q_max_peers_per_response q
                                 else c_maxPeersPerResponse s),
       c_socketTimeout := (if q_socket_timeout q \<noteq> 0 then q_socket_timeout q else c_socketTimeout s),
       c_keepAlive := (if q_keep_alive q \<noteq> 0 then (if q_keep_alive q = 1 then 1 else 0) else c_keepAlive s)\<rparr>"

definition settingsJson :: "tcp_state \<Rightarrow> bytes" where
  "settingsJson s =
     lit ''{'' @ [34] @ lit ''keep_alive'' @ [34] @ lit '':'' @ dec (unat (c_keepAlive s)) @
     lit '','' @ [34] @ lit ''interval'' @ [34] @ lit '':'' @ fmt_u (i_interval (c_interval s)) @
     lit '','' @ [34] @ lit ''max_peers_response'' @ [34] @ lit '':'' @ fmt_u (c_maxPeersPerResponse s) @
     lit '','' @ [34] @ lit ''socket_timeout'' @ [34] @ lit '':'' @ dec (unat (c_socketTimeout s)) @ lit ''}''"

definition ensureAuthorization :: "tcp_os \<Rightarrow> tcp_state \<Rightarrow> tcp_state" where
  "ensureAuthorization os s =
     (if c_authorizationHeader s = []
      then s\<lparr>c_authorizationHeader := getAuthorizationHeader (o_random os) []\<rparr> else s)"

definition apiSet :: "tcp_os \<Rightarrow> bytes \<Rightarrow> bool \<Rightarrow> tcp_state \<Rightarrow> (bytes \<times> tcp_state) res" where
  "apiSet os readBuffer canKeepAlive s =
     (let s1 = ensureAuthorization os s in
      if strstr readBuffer (CRLF @ lit ''X-Requested-With: XMLHttpRequest'' @ CRLF) = None then
        respond (httpRender 400 (lit ''Request should be ajax'') 22 canKeepAlive (c_socketTimeout s1)) s1
      else if hasBasic readBuffer (c_authorizationHeader s1) then
        (case parseUri (o_pton os) query0 None None readBuffer of (q, _, _) \<Rightarrow>
           (let s2 = applySettings q s1; dataBlock = settingsJson s2 in
            respond ((httpRender 200 dataBlock (of_nat (length dataBlock)) canKeepAlive (c_socketTimeout s2))
                       \<lparr>h_contentType := Some (lit ''application/json'')\<rparr>) s2))
      else respond (httpRender 401 (lit ''Authorization Failure'') 21 canKeepAlive (c_socketTimeout s1)) s1)"

text \<open>The handshake of a websocket; the result says whether the socket is one now.\<close>

definition apiWebsocket ::
  "u32 \<Rightarrow> bytes \<Rightarrow> nat \<Rightarrow> bool \<Rightarrow> tcp_state \<Rightarrow> (bytes \<times> bool \<times> tcp_state) res" where
  "apiWebsocket socket readBuffer readSize canKeepAlive s =
     (case websocketKey2Accept readBuffer readSize of
        None \<Rightarrow> bindR (respond (httpRender 400 (lit ''Websocket Failed'') 16 canKeepAlive (c_socketTimeout s)) s)
                 (\<lambda>(b, s1). Inr (b, False, s1))
      | Some acceptValue \<Rightarrow>
          bindR (respond ((httpRender 101 [] 0 True (c_socketTimeout s))\<lparr>h_websocketKey := Some acceptValue\<rparr>) s) (\<lambda>(b, s1).
          bindR (waitSemaphoreLeaf (c_websockets s1)) (\<lambda>ws1.
          bindR (setHash ws1 (mem32 socket)) (\<lambda>(ws2, _).
          bindR (postSemaphoreLeaf ws2) (\<lambda>ws3. Inr (b, True, s1\<lparr>c_websockets := ws3\<rparr>))))))"

definition statsGet :: "tcp_args \<Rightarrow> tcp_os \<Rightarrow> bool \<Rightarrow> tcp_state \<Rightarrow> (bytes \<times> tcp_state) res" where
  "statsGet env os canKeepAlive s =
     bindR (formatStats (o_page os) (e_threadNumber env) (c_stats s) (c_interval s) (c_rps s)) (\<lambda>ps.
      let dataBlock = concat (map piece_bytes ps) in
      respond ((httpRender 200 dataBlock (of_nat (length dataBlock)) canKeepAlive (c_socketTimeout s))
        \<lparr>h_charset := e_charset env, h_contentType := Some (lit ''text/html'')\<rparr>) s)"

definition rootGet :: "bool \<Rightarrow> tcp_state \<Rightarrow> (bytes \<times> tcp_state) res" where
  "rootGet canKeepAlive s =
     respond (httpRender 200 (lit ''github.com/truekenny/etracker - open-source BitTorrent tracker'' @ [10]) 63
       canKeepAlive (c_socketTimeout s)) s"

definition scrapeGet :: "tcp_os \<Rightarrow> bytes \<Rightarrow> bool \<Rightarrow> tcp_state \<Rightarrow> (bytes \<times> tcp_state) res" where
  "scrapeGet os readBuffer canKeepAlive s =
     (let s1 = addStats (incStat Scrape) s;
          (q, hb, _) = parseUri (o_pton os) query0 (Some []) None readBuffer;
          hashes = (case hb of None \<Rightarrow> [] | Some b \<Rightarrow> b)
      in if length hashes = 0 \<and> \<not> DATA_FULL_SCRAPE_ENABLE then
           respond (httpRender 403 (lit ''Forbidden (Full Scrape Disabled)'') 32 canKeepAlive (c_socketTimeout s1)) s1
         else
           bindR (renderScrapeTorrentsPublic (c_torrentList s1) hashes q []) (\<lambda>dataBlock.
             respond (httpRender 200 dataBlock (of_nat (length dataBlock)) canKeepAlive (c_socketTimeout s1)) s1))"

definition fileType :: "bytes \<Rightarrow> bytes" where
  "fileType absolute =
     (if endsWith (lit ''.ico'') absolute then lit ''image/x-icon''
      else if endsWith (lit ''.png'') absolute then lit ''image/png''
      else if endsWith (lit ''.html'') absolute then lit ''text/html''
      else if endsWith (lit ''.js'') absolute then lit ''application/javascript''
      else if endsWith (lit ''.css'') absolute then lit ''text/css''
      else if endsWith (lit ''.jpg'') absolute then lit ''image/jpeg''
      else lit ''text/plain'')"

text \<open>The block after addFileBlock on an empty block: the file, or the text of the failure.\<close>

definition fileBody :: "tcp_os \<Rightarrow> nat \<Rightarrow> bytes \<Rightarrow> bytes" where
  "fileBody os sz absolute =
     (case o_file os absolute of
        None \<Rightarrow> lit ''fopen failed: '' @ o_ioError os
      | Some content \<Rightarrow> if sz \<le> length content then take sz content else lit ''fread failed: '' @ o_ioError os)"

definition fileGet :: "tcp_args \<Rightarrow> tcp_os \<Rightarrow> bytes \<Rightarrow> bool \<Rightarrow> tcp_state \<Rightarrow> (bytes \<times> tcp_state) res" where
  "fileGet env os readBuffer canKeepAlive s =
     (let (q, _, _) = parseUri (o_pton os) query0 None None readBuffer;
          fail = (\<lambda>code message. respond (httpRender code message (of_nat (length message)) canKeepAlive (c_socketTimeout s)) s)
      in case o_realpath os (q_path q) of
           Inl err \<Rightarrow> fail 404 (lit ''Page not found: '' @ err)
         | Inr absolute \<Rightarrow>
             if \<not> startsWith (e_webRoot env) absolute then fail 404 (lit ''Page not found: Secure error'')
             else case o_stat os absolute of
               Inl err \<Rightarrow> fail 404 (lit ''Page not found: Stat failed: '' @ err)
             | Inr (regular, st_size) \<Rightarrow>
                 if \<not> regular then fail 404 (lit ''Page not found: Not a file'')
                 else if st_size > THREAD_CLIENT_TCP_MAX_FILE_SIZE then fail 507 (lit ''File size exceeds the allowed limit'')
                 else (let dataBlock = fileBody os st_size absolute in
                   respond ((httpRender 200 dataBlock (of_nat (length dataBlock)) canKeepAlive (c_socketTimeout s))
                     \<lparr>h_contentType := Some (fileType absolute)\<rparr>) s))"

section \<open>A readable socket\<close>

definition keepAliveOf :: "byte \<Rightarrow> bytes \<Rightarrow> bool" where
  "keepAliveOf keepAlive readBuffer \<longleftrightarrow>
     keepAlive \<noteq> 0 \<and>
     (strstr readBuffer (lit ''HTTP/1.1'') \<noteq> None \<and> strstr readBuffer (lit ''Connection: Close'') = None \<or>
      strstr readBuffer (lit ''Connection: Keep-Alive'') \<noteq> None)"

text \<open>The requests by their first bytes; the result tells the sockets that became websockets.\<close>

definition httpRequest ::
  "tcp_args \<Rightarrow> tcp_os \<Rightarrow> u32 \<Rightarrow> bytes \<Rightarrow> nat \<Rightarrow> bool \<Rightarrow> tcp_state \<Rightarrow> (bytes \<times> bool \<times> tcp_state) res" where
  "httpRequest env os socket readBuffer readSize canKeepAlive s =
     (let plain = (\<lambda>r. bindR r (\<lambda>(b, s1). Inr (b, False, s1))) in
      if startsWith (lit ''GET /announce'') readBuffer then plain (announceGet env os readBuffer canKeepAlive s)
      else if startsWith (lit ''GET /api/set'') readBuffer then plain (apiSet os readBuffer canKeepAlive s)
      else if startsWith (lit ''GET /api/websocket'') readBuffer
        then apiWebsocket socket readBuffer readSize canKeepAlive s
      else if startsWith (lit ''GET /stats.html'') readBuffer then plain (statsGet env os canKeepAlive s)
      else if startsWith (lit ''GET / '') readBuffer then plain (rootGet canKeepAlive s)
      else if startsWith (lit ''GET /scrape'') readBuffer then plain (scrapeGet os readBuffer canKeepAlive s)
      else plain (fileGet env os readBuffer canKeepAlive s))"

text \<open>A complete request: counted, answered, sent, and the socket queued for deletion or kept.\<close>

definition answerRequest ::
  "tcp_args \<Rightarrow> tcp_os \<Rightarrow> u32 \<Rightarrow> bytes \<Rightarrow> tcp_state \<Rightarrow> tcp_state res" where
  "answerRequest env os socket received s =
     (let readBuffer = received @ [0]; readSize = length received;
          s1 = addStats (\<lambda>st. incStat Recv_pass (addStat Recv_bytes (of_nat readSize) st)) s;
          isHttp = startsWith (lit ''GET '') readBuffer;
          canKeepAlive = (isHttp \<and> keepAliveOf (c_keepAlive s1) readBuffer)
      in bindR
          (if isHttp
           then bindR (httpRequest env os socket readBuffer readSize canKeepAlive s1) (\<lambda>(sendBlock, isWebsocket, s2).
             Inr (sendBlock, isWebsocket, addStats (incStat (if canKeepAlive then Keep_alive else No_keep_alive)) s2))
           else bindR (respond (httpRender 405 readBuffer (of_nat readSize) canKeepAlive (c_socketTimeout s1)) s1)
             (\<lambda>(sendBlock, s2). Inr (sendBlock, False, s2)))
          (\<lambda>(sendBlock, isWebsocket, s3).
         bindR (sendTo os socket sendBlock s3) (\<lambda>s4.
           if \<not> canKeepAlive \<and> \<not> isWebsocket then queueDelete socket s4 else Inr s4)))"

text \<open>The lookup of the socket among the websockets, under their semaphore.\<close>

definition lookWebsocket :: "unit hlist \<Rightarrow> u32 \<Rightarrow> (unit hlist \<times> bool) res" where
  "lookWebsocket websockets socket =
     bindR (waitSemaphoreLeaf websockets) (\<lambda>ws1.
     bindR (getHash ws1 (mem32 socket)) (\<lambda>websocket.
     bindR (postSemaphoreLeaf ws1) (\<lambda>ws2. Inr (ws2, websocket \<noteq> None))))"

text \<open>The second recv must take as many bytes as the first one saw.\<close>

definition takeRequest ::
  "tcp_args \<Rightarrow> tcp_os \<Rightarrow> u32 \<Rightarrow> nat \<Rightarrow> bool \<Rightarrow> tcp_state \<Rightarrow> tcp_state res" where
  "takeRequest env os socket beforeReadSize websocket s =
     (let notEqual = (\<lambda>s1. queueDelete socket (addStats (\<lambda>st. incStat Recv_failed_read_not_equal (incStat Recv_failed st)) s1)) in
      case o_second os of
        Tcp_error e \<Rightarrow> bindR (recvErrno e s) notEqual
      | Tcp_data received \<Rightarrow>
          if length received \<noteq> beforeReadSize then notEqual s
          else if websocket then Inr s
          else answerRequest env os socket received s)"

definition processRead :: "tcp_args \<Rightarrow> tcp_os \<Rightarrow> u32 \<Rightarrow> tcp_state \<Rightarrow> tcp_state res" where
  "processRead env os socket s =
     (case o_peek os of
        Tcp_error e \<Rightarrow>
          bindR (recvErrno e s) (\<lambda>s1.
            queueDelete socket (addStats (\<lambda>st. incStat Recv_failed_read_sub_0 (incStat Recv_failed st)) s1))
      | Tcp_data peeked \<Rightarrow>
          if length peeked \<ge> THREAD_CLIENT_TCP_RECEIVED_MESSAGE_LENGTH then
            bindR (respond (httpRender 413 (lit ''Request Entity Too Large'') 24 False (c_socketTimeout s)) s) (\<lambda>(b, s1).
            bindR (sendTo os socket b s1) (\<lambda>s2.
            bindR (queueDelete socket s2) (\<lambda>s3. Inr (addStats (incStat Recv_failed) s3))))
          else if peeked = [] then queueDelete socket (addStats (incStat Recv_failed_read_0) s)
          else
            bindR (lookWebsocket (c_websockets s) socket) (\<lambda>(ws, websocket).
            let s1 = s\<lparr>c_websockets := ws\<rparr> in
            if strstr (peeked @ [0]) (CRLF @ CRLF) = None \<and> \<not> websocket then Inr s1
            else
              bindR (updateRps RPS_PROTOCOL_TCP
                  (if getIpVersion (o_peername os) AND SOCKET_VERSION_IPV4_BIT \<noteq> 0 then RPS_VERSION_IPV4 else RPS_VERSION_IPV6)
                  (c_rps s1)) (\<lambda>r.
              bindR (updateSocketL (o_now os) (c_socketList s1) socket (e_equeue env) False) (\<lambda>sl.
                takeRequest env os socket (length peeked) websocket (s1\<lparr>c_rps := r, c_socketList := sl\<rparr>)))))"

section \<open>A turn of the worker\<close>

text \<open>What the equeue reports of a socket.\<close>

datatype tcp_event = Eof | Readable | Other_event

definition eventStep :: "tcp_args \<Rightarrow> u32 \<times> tcp_event \<times> tcp_os \<Rightarrow> tcp_state \<Rightarrow> tcp_state res" where
  "eventStep env event s =
     (case event of (socket, ev, os) \<Rightarrow>
        bindR (lockLeaf (c_socketList s) (mem32 socket)) (\<lambda>sl1.
        bindR (getHash sl1 (mem32 socket)) (\<lambda>socketItem.
        bindR (if socketItem = None then Inr (s\<lparr>c_socketList := sl1\<rparr>)
               else case ev of
                 Eof \<Rightarrow> queueDelete socket (s\<lparr>c_socketList := sl1\<rparr>)
               | Readable \<Rightarrow> processRead env os socket (s\<lparr>c_socketList := sl1\<rparr>)
               | Other_event \<Rightarrow> Inr (s\<lparr>c_socketList := sl1\<rparr>)) (\<lambda>s1.
        bindR (unlockLeaf (c_socketList s1) (mem32 socket)) (\<lambda>sl2. Inr (s1\<lparr>c_socketList := sl2\<rparr>))))))"

fun eventLoop :: "tcp_args \<Rightarrow> (u32 \<times> tcp_event \<times> tcp_os) list \<Rightarrow> tcp_state \<Rightarrow> tcp_state res" where
  "eventLoop env [] s = Inr s"
| "eventLoop env (event # events) s = bindR (eventStep env event s) (eventLoop env events)"

text \<open>The connections queued for deletion are closed, and leave the websockets.\<close>

definition deleteSocketListCallback :: "(u32 \<Rightarrow> int option) \<Rightarrow> (unit, tcp_state) callback" where
  "deleteSocketListCallback closeErr path hash d s =
     (let socket = rd32 hash 0 in
      bindR (deleteSocketL closeErr (c_socketList s) socket (c_stats s)) (\<lambda>(sl, st, acts).
      bindR (deleteWebsocket (c_websockets s) socket) (\<lambda>ws.
        Inr (Remove, s\<lparr>c_socketList := sl, c_stats := st, c_websockets := ws, c_actions := c_actions s @ acts\<rparr>, False))))"

definition clientTcpHandler ::
  "tcp_args \<Rightarrow> (u32 \<Rightarrow> int option) \<Rightarrow> (u32 \<times> tcp_event \<times> tcp_os) list \<Rightarrow> tcp_state \<Rightarrow> tcp_state res" where
  "clientTcpHandler env closeErr events s =
     bindR (waitSemaphoreLeaf (c_socketList s)) (\<lambda>sl1.
     bindR (eventLoop env events (s\<lparr>c_socketList := sl1\<rparr>)) (\<lambda>s1.
     bindR (if events = [] then Inr s1
            else bindR (mapList (deleteSocketListCallback closeErr) [] s1 (c_deleteSocketList s1))
              (\<lambda>(dl, s2, _). Inr (s2\<lparr>c_deleteSocketList := dl\<rparr>))) (\<lambda>s2.
     bindR (postSemaphoreLeaf (c_socketList s2)) (\<lambda>sl2. Inr (s2\<lparr>c_socketList := sl2\<rparr>)))))"

end
