(* ===== verification/Tcp_Client_Laws.thy ===== *)
theory Tcp_Client_Laws
  imports Tcp_Client
begin

text \<open>
  What the TCP worker guarantees: every step is total and keeps the invariant of the worker, one
  lemma per operation of Tcp\_Client, with the messages it sends. What a client can rely on is in
  Tcp\_Service, a turn of the worker's loop in Tcp\_Worker.
\<close>

section \<open>The invariant of a worker\<close>

text \<open>All it shares and owns but its list of sockets, which a step sees under a lock.\<close>

definition worker_inv :: "tcp_state \<Rightarrow> bool" where
  "worker_inv s \<longleftrightarrow> wf_tracker (c_torrentList s) \<and> whole_addresses (c_torrentList s) \<and> wf_stats (c_stats s) \<and>
     wf_rps (c_rps s) \<and> wf_websockets (c_websockets s) \<and> wf_websockets (c_deleteSocketList s)"

text \<open>What the system is relied on for: addresses have 16 bytes, errnos are not negative, sends end.\<close>

definition os_ok :: "tcp_os \<Rightarrow> bool" where
  "os_ok os \<longleftrightarrow> kernel_sends (o_answers os) \<and> length (o_peername os) = 16 \<and>
     (\<forall>af t. length (snd (o_pton os af t)) = 16) \<and>
     (\<forall>e. o_peek os = Tcp_error e \<or> o_second os = Tcp_error e \<longrightarrow> 0 \<le> e)"

text \<open>A step that answers a request: what it leaves alone, and the messages it sent.\<close>

definition sends :: "(u32 \<times> bytes) list \<Rightarrow> os_action list" where
  "sends ms = map (\<lambda>(k, m). Send_to k m) ms"

lemma sends_simps [simp]: "sends [] = []" "sends ((k, m) # ms) = Send_to k m # sends ms" "sends (a @ b) = sends a @ sends b"
  by (simp_all add: sends_def)

definition served :: "tcp_state \<Rightarrow> (u32 \<times> bytes) list \<Rightarrow> tcp_state \<Rightarrow> bool" where
  "served s ms s' \<longleftrightarrow> worker_inv s' \<and> c_socketList s' = c_socketList s \<and>
     c_deleteSocketList s' = c_deleteSocketList s \<and> c_actions s' = c_actions s @ sends ms"

lemma served_trans: "served s a t \<Longrightarrow> served t b u \<Longrightarrow> served s (a @ b) u"
  by (simp add: served_def)

lemma served_refl: "worker_inv s \<Longrightarrow> served s [] s"
  by (simp add: served_def)

lemma served_inv: "served s ms s' \<Longrightarrow> worker_inv s'"
  by (simp add: served_def)

lemma served_stats: "worker_inv s \<Longrightarrow> wf_stats st \<Longrightarrow> served s [] (s\<lparr>c_stats := st\<rparr>)"
  by (simp add: served_def worker_inv_def)

lemma served_addStats: "worker_inv s \<Longrightarrow> wf_stats (f (c_stats s)) \<Longrightarrow> served s [] (addStats f s)"
  unfolding addStats_def by (rule served_stats)

lemma worker_inv_stats: "worker_inv s \<Longrightarrow> wf_stats (c_stats s)"
  by (simp add: worker_inv_def)

lemma statusLine_ok:
  assumes "code = 101 \<Longrightarrow> key \<noteq> None"
  shows "\<exists>c first. statusLine code key = Inr (c, first)"
proof (cases "statusLine code key")
  case (Inl e)
  then show ?thesis using assms by (auto simp: statusLine_def split: if_splits option.splits)
next
  case (Inr x)
  then show ?thesis by (cases x) simp
qed

lemma respond_ok:
  assumes "worker_inv s" "h_code r = 200 \<or> h_code r = 101 \<Longrightarrow> unat (h_size r) \<le> length (h_message r)"
    "h_code r = 101 \<Longrightarrow> h_websocketKey r \<noteq> None"
  shows "\<exists>b st. respond r s = Inr (b, s\<lparr>c_stats := st\<rparr>) \<and> served s [] (s\<lparr>c_stats := st\<rparr>)"
proof -
  obtain c first where "statusLine (h_code r) (h_websocketKey r) = Inr (c, first)"
    using statusLine_ok [of "h_code r" "h_websocketKey r"] assms(3) by blast
  then have "\<exists>r'. renderHttpMessage r (c_stats s) = Inr (r', incStat c (c_stats s))"
    using assms(2) by (auto simp: renderHttpMessage_def Let_def)
  then obtain r' where "renderHttpMessage r (c_stats s) = Inr (r', incStat c (c_stats s))" ..
  with served_stats [OF assms(1), of "incStat c (c_stats s)"] worker_inv_stats [OF assms(1)]
  show ?thesis by (auto simp: respond_def)
qed

lemma unat_of_nat_le: "unat (of_nat n :: u64) \<le> n"
  by (simp add: unsigned_of_nat take_bit_nat_less_eq_self)

lemma httpRender_simps [simp]:
  "h_code (httpRender code m sz keep t) = code" "h_message (httpRender code m sz keep t) = m"
  "h_size (httpRender code m sz keep t) = sz" "h_block (httpRender code m sz keep t) = []"
  "h_websocketKey (httpRender code m sz keep t) = None" "h_charset (httpRender code m sz keep t) = None"
  "h_contentType (httpRender code m sz keep t) = None"
  by (simp_all add: httpRender_def)

lemma sendTo_ok:
  assumes "worker_inv s" "kernel_sends (o_answers os)"
  shows "\<exists>s'. sendTo os k m s = Inr s' \<and> served s [(k, m)] s'"
proof -
  from deliver_ok [OF worker_inv_stats [OF assms(1)] assms(2), of False k m] obtain st where
    "deliver (o_answers os) False k m (c_stats s) = Inr st" "wf_stats st" by blast
  with assms(1) show ?thesis by (simp add: sendTo_def served_def worker_inv_def)
qed

lemma sendAll_ok:
  assumes "worker_inv s" "kernel_sends (o_answers os)"
  shows "\<exists>s'. sendAll os ms s = Inr s' \<and> served s ms s'"
  using assms(1)
proof (induction ms arbitrary: s)
  case Nil
  then show ?case by (simp add: served_refl)
next
  case (Cons x ms)
  obtain k m where x: "x = (k, m)" by (cases x)
  from sendTo_ok [OF Cons.prems assms(2)] obtain s1 where s1: "sendTo os k m s = Inr s1" "served s [(k, m)] s1" by blast
  from Cons.IH [OF served_inv [OF s1(2)]] obtain s2 where "sendAll os ms s1 = Inr s2" "served s1 ms s2" by blast
  with s1 x served_trans [OF s1(2)] show ?case by fastforce
qed

lemma sendAll_torrents: "sendAll os ms s = Inr s' \<Longrightarrow> c_torrentList s' = c_torrentList s"
  by (induction os ms s rule: sendAll.induct) (auto simp: sendTo_def bindR_Inr_iff)

section \<open>The announce\<close>

lemma announceQuery_ok:
  assumes "os_ok os"
  shows "query_ok (announceQuery env os rb mx) \<and> length (q_ip (announceQuery env os rb mx)) = 16 \<and>
    q_protocol (announceQuery env os rb mx) = URI_QUERY_PROTOCOL_TCP \<and> q_numwant (announceQuery env os rb mx) \<le> mx"
proof -
  let ?q0 = "query0\<lparr>q_ip := o_peername os, q_ipVersion := getIpVersion (o_peername os),
            q_numwant := URI_DEFAULT_NUM_WANT, q_event := URI_EVENT_ID_STARTED,
            q_threadNumber := e_threadNumber env, q_compact := True, q_xForwardedFor := e_xForwardedFor env\<rparr>"
  obtain q h f where p: "parseUri (o_pton os) ?q0 None (Some []) rb = (q, h, f)"
    by (cases "parseUri (o_pton os) ?q0 None (Some []) rb")
  have "length (q_path ?q0) \<le> URI_PATH_LENGTH" "length (q_info_hash ?q0) = URI_PARAM_VALUE_LENGTH"
    "length (q_peer_id ?q0) = URI_PARAM_VALUE_LENGTH" "length (q_ip ?q0) = 16"
    using assms by (simp_all add: query0_def URI_PARAM_VALUE_LENGTH_def os_ok_def)
  from parseUri_bounds [OF this _ _ p] assms have b: "length (q_info_hash q) = URI_PARAM_VALUE_LENGTH \<and>
    length (q_peer_id q) = URI_PARAM_VALUE_LENGTH \<and> length (q_ip q) = 16" by (simp add: os_ok_def)
  have "q_protocol q = URI_QUERY_PROTOCOL_TCP"
    using parseUri_protocol [of "o_pton os" ?q0 None "Some []" rb] p by (simp add: query0_def URI_QUERY_PROTOCOL_TCP_def)
  with b p show ?thesis by (simp add: announceQuery_def query_ok_def not_less)
qed

text \<open>A complete announce: the tracker is updated as the map is, and the answer is the rendering of
the torrent as it is stored then.\<close>

lemma announceAnswer_stored:
  assumes "worker_inv s" "query_ok q" "length (q_ip q) = 16" "q_protocol q = URI_QUERY_PROTOCOL_TCP"
    "q_has_info_hash q \<noteq> 0" "q_port q \<noteq> 0"
  obtains ts torrent body st b where
    "announceAnswer os q keep s = Inr (b, s\<lparr>c_torrentList := ts, c_stats := st\<rparr>)"
    "served s [] (s\<lparr>c_torrentList := ts, c_stats := st\<rparr>)"
    "stored ts (q_info_hash q) torrent" "wf_tracker ts" "whole_addresses ts"
    "tracker_map ts = announced (o_now os) q DATA_STRUCTURE_PEER_PROTOCOL_TCP_BIT (tracker_map (c_torrentList s))"
    "renderAnnouncePublic (o_ntop os) q (c_interval s) torrent [] = Inr body"
    "\<exists>st1 s2. respond (httpRender 200 body (of_nat (length body)) keep (c_socketTimeout s)) st1 = Inr (b, s2)"
proof -
  let ?ts = "c_torrentList s" and ?h = "q_info_hash q"
  have w: "wf_tracker ?ts" "whole_addresses ?ts" "wf_stats (c_stats s)" using assms(1) by (simp_all add: worker_inv_def)
  then have "wf_hlist ?ts" "leaves_free ?ts" "length ?h = hashLength ?ts"
    using assms(2) by (auto simp: wf_tracker_def query_ok_def)
  then obtain leaf leaf1 leaf2 where l: "getLeaf ?ts ?h = Inr leaf" "waitSemaphoreLeaf leaf = Inr leaf1"
    "postSemaphoreLeaf leaf1 = Inr leaf2" by (rule lockable_leaf)
  let ?upd = "if q_event q = URI_EVENT_ID_STOPPED
      then bindR (deletePeerPublic ?ts q) (\<lambda>(ts, torrent). Inr (ts, torrent, c_stats s))
      else setPeerPublic (o_now os) ?ts q DATA_STRUCTURE_PEER_PROTOCOL_TCP_BIT (c_stats s)"
  obtain ts torrent st1 where u: "?upd = Inr (ts, torrent, st1)" "wf_tracker ts" "same_params ?ts ts" "wf_stats st1" "stored ts ?h torrent"
    "tracker_map ts = announced (o_now os) q DATA_STRUCTURE_PEER_PROTOCOL_TCP_BIT (tracker_map ?ts)"
    "whole_addresses ?ts \<and> length (q_ip q) = 16 \<longrightarrow> whole_addresses ts"
    by (rule announce_update [OF w(1) assms(2) w(3), of "o_now os" DATA_STRUCTURE_PEER_PROTOCOL_TCP_BIT])
  have wa: "whole_addresses ts" using u(7) w(2) assms(3) by simp
  have "case torrent of None \<Rightarrow> True | Some (k, d) \<Rightarrow> \<exists>t. d = Some t \<and> wf_torrent t"
    using u(5) by (auto simp: stored_def split: option.splits)
  from renderAnnouncePublic_total [OF this, of "o_ntop os" q "c_interval s"] obtain body where
    body: "renderAnnouncePublic (o_ntop os) q (c_interval s) torrent [] = Inr body" ..
  let ?s1 = "s\<lparr>c_torrentList := ts, c_stats := st1\<rparr>"
  have inv: "worker_inv ?s1" using assms(1) u(2,4) wa by (simp add: worker_inv_def)
  let ?r = "httpRender 200 body (of_nat (length body)) keep (c_socketTimeout s)"
  from respond_ok [OF inv, of ?r] unat_of_nat_le obtain b st where
    r: "respond ?r ?s1 = Inr (b, ?s1\<lparr>c_stats := st\<rparr>)" "served ?s1 [] (?s1\<lparr>c_stats := st\<rparr>)" by auto
  have eq: "?s1\<lparr>c_stats := st\<rparr> = s\<lparr>c_torrentList := ts, c_stats := st\<rparr>" by (cases s) simp
  have "announceAnswer os q keep s = Inr (b, s\<lparr>c_torrentList := ts, c_stats := st\<rparr>)"
    unfolding announceAnswer_def using assms(5,6) l u(1) body r(1) eq by simp
  moreover have "served s [] (s\<lparr>c_torrentList := ts, c_stats := st\<rparr>)"
    using r(2) unfolding eq by (simp add: served_def)
  ultimately show thesis using u wa body r(1) by (intro that) auto
qed

text \<open>A location is sent to every websocket.\<close>

definition location_messages :: "unit hlist \<Rightarrow> (u32 \<times> bytes) list \<Rightarrow> bool" where
  "location_messages ws ms \<longleftrightarrow> (\<exists>f. length f = 11 \<and> ms = map (\<lambda>(k, d). (rd32 k 0, f)) (allItems ws))"

lemma broadcast_step:
  assumes "worker_inv s" "os_ok os" "geoip_ready table"
  shows "\<exists>ws ms s'. broadcast (c_websockets s) table ip protocol = Inr (ws, ms) \<and>
    sendAll os ms (s\<lparr>c_websockets := ws\<rparr>) = Inr s' \<and> served s ms s' \<and> location_messages (c_websockets s) ms \<and>
    c_torrentList s' = c_torrentList s"
proof -
  have w: "wf_hlist (c_websockets s)" "leaves_free (c_websockets s)"
    using assms(1) by (simp_all add: worker_inv_def wf_websockets_def)
  from findGeoip_ready [OF assms(3), of "htonl (rd32 ip 12)"] obtain i where
    i: "findGeoip table (htonl (rd32 ip 12)) = Inr i" "i < length table" by blast
  from broadcast_ok [OF w i, of protocol] obtain ws f where b:
    "broadcast (c_websockets s) table ip protocol = Inr (ws, map (\<lambda>(k, d). (rd32 k 0, f)) (allItems (c_websockets s)))"
    "length f = 11" "allItems ws = allItems (c_websockets s)" "wf_hlist ws" "leaves_free ws"
    "same_params (c_websockets s) ws" by blast
  let ?ms = "map (\<lambda>(k, d). (rd32 k 0, f)) (allItems (c_websockets s))" and ?s = "s\<lparr>c_websockets := ws\<rparr>"
  have "worker_inv ?s"
    using assms(1) b(4-6) by (simp add: worker_inv_def wf_websockets_def same_params_def)
  moreover have "kernel_sends (o_answers os)" using assms(2) by (simp add: os_ok_def)
  ultimately obtain s' where s': "sendAll os ?ms ?s = Inr s'" "served ?s ?ms s'" using sendAll_ok by blast
  have "served s ?ms s'" using s'(2) by (simp add: served_def)
  moreover have "c_torrentList s' = c_torrentList ?s" using s'(1) by (rule sendAll_torrents)
  ultimately show ?thesis using b(1,2) s'(1) by (auto simp: location_messages_def)
qed

lemma announceAnswer_ok:
  assumes "worker_inv s" "query_ok q" "length (q_ip q) = 16" "q_protocol q = URI_QUERY_PROTOCOL_TCP"
  shows "\<exists>b s'. announceAnswer os q keep s = Inr (b, s') \<and> served s [] s' \<and> c_websockets s' = c_websockets s"
proof (cases "q_has_info_hash q = 0 \<or> q_port q = 0")
  case True
  let ?r = "httpRender 400 (if q_has_info_hash q = 0 then no_info_hash else no_port) 25 keep (c_socketTimeout s)"
  have "announceAnswer os q keep s = respond ?r s"
    using True by (auto simp: announceAnswer_def)
  with respond_ok [OF assms(1), of ?r] show ?thesis by force
next
  case False
  then have "q_has_info_hash q \<noteq> 0" "q_port q \<noteq> 0" by simp_all
  from announceAnswer_stored [OF assms this, of os keep] obtain ts st b where
    "announceAnswer os q keep s = Inr (b, s\<lparr>c_torrentList := ts, c_stats := st\<rparr>)"
    "served s [] (s\<lparr>c_torrentList := ts, c_stats := st\<rparr>)" by metis
  then show ?thesis by (intro exI [of _ b] exI [of _ "s\<lparr>c_torrentList := ts, c_stats := st\<rparr>"]) simp
qed

lemma announceGet_ok:
  assumes "worker_inv s" "os_ok os" "geoip_ready (e_geoip env)"
  shows "\<exists>b ms s'. announceGet env os rb keep s = Inr (b, s') \<and> served s ms s' \<and>
    (ms = [] \<or> location_messages (c_websockets s) ms)"
proof -
  let ?q = "announceQuery env os rb (c_maxPeersPerResponse s)"
  let ?s1 = "addStats (incStat Announce) s"
  have s1: "served s [] ?s1" by (rule served_addStats [OF assms(1)]) (simp add: worker_inv_stats [OF assms(1)])
  from announceQuery_ok [OF assms(2), of env rb "c_maxPeersPerResponse s"] have q: "query_ok ?q"
    "length (q_ip ?q) = 16" "q_protocol ?q = URI_QUERY_PROTOCOL_TCP" by simp_all
  from announceAnswer_ok [OF served_inv [OF s1] q, of os keep] obtain b s2 where
    s2: "announceAnswer os ?q keep ?s1 = Inr (b, s2)" "served ?s1 [] s2" "c_websockets s2 = c_websockets ?s1" by blast
  have s02: "served s [] s2" using served_trans [OF s1 s2(2)] by simp
  show ?thesis
  proof (cases "q_ipVersion ?q AND SOCKET_VERSION_IPV4_BIT = 0")
    case True
    with s2(1) s02 show ?thesis by (auto simp: announceGet_def Let_def)
  next
    case False
    from broadcast_step [OF served_inv [OF s2(2)] assms(2,3), of "o_peername os" WEBSOCKET_PROTOCOL_TCP]
    obtain ws ms s' where b: "broadcast (c_websockets s2) (e_geoip env) (o_peername os) WEBSOCKET_PROTOCOL_TCP = Inr (ws, ms)"
      "sendAll os ms (s2\<lparr>c_websockets := ws\<rparr>) = Inr s'" "served s2 ms s'" "location_messages (c_websockets s2) ms" by blast
    have "announceGet env os rb keep s = Inr (b, s')"
      using False s2(1) b(1,2) by (simp add: announceGet_def Let_def)
    moreover have "served s ms s'" using served_trans [OF s02 b(3)] by simp
    moreover have "location_messages (c_websockets s) ms" using b(4) s2(3) by (simp add: addStats_def)
    ultimately show ?thesis by blast
  qed
qed

section \<open>The other requests\<close>

lemma applySettings_inv: "worker_inv s \<Longrightarrow> served s [] (applySettings q s)"
  by (simp add: served_def worker_inv_def applySettings_def)

lemma respond_served:
  assumes "served t ms s" "h_code r = 200 \<or> h_code r = 101 \<Longrightarrow> unat (h_size r) \<le> length (h_message r)"
    "h_code r = 101 \<Longrightarrow> h_websocketKey r \<noteq> None"
  shows "\<exists>b s'. respond r s = Inr (b, s') \<and> served t ms s' \<and> s' = s\<lparr>c_stats := c_stats s'\<rparr>"
proof -
  from respond_ok [OF served_inv [OF assms(1)] assms(2,3)] obtain b st where
    "respond r s = Inr (b, s\<lparr>c_stats := st\<rparr>)" "served s [] (s\<lparr>c_stats := st\<rparr>)" by blast
  with served_trans [OF assms(1)] show ?thesis by fastforce
qed

lemma ensureAuthorization_inv: "worker_inv s \<Longrightarrow> served s [] (ensureAuthorization os s)"
  by (simp add: ensureAuthorization_def served_def worker_inv_def)

lemma apiSet_cases:
  fixes s :: tcp_state and os :: tcp_os and rb :: bytes
  defines "s1 \<equiv> ensureAuthorization os s"
  defines "ajax \<equiv> strstr rb (CRLF @ lit ''X-Requested-With: XMLHttpRequest'' @ CRLF) \<noteq> None"
  defines "s2 \<equiv> applySettings (fst (parseUri (o_pton os) query0 None None rb)) s1"
  shows "ajax \<and> hasBasic rb (c_authorizationHeader s1) \<Longrightarrow> apiSet os rb keep s =
      respond ((httpRender 200 (settingsJson s2) (of_nat (length (settingsJson s2))) keep (c_socketTimeout s2))
        \<lparr>h_contentType := Some (lit ''application/json'')\<rparr>) s2"
    "\<not> (ajax \<and> hasBasic rb (c_authorizationHeader s1)) \<Longrightarrow> apiSet os rb keep s =
      respond (if ajax then httpRender 401 (lit ''Authorization Failure'') 21 keep (c_socketTimeout s1)
               else httpRender 400 (lit ''Request should be ajax'') 22 keep (c_socketTimeout s1)) s1"
  by (auto simp: apiSet_def Let_def split_beta assms)

lemma apiSet_ok:
  assumes "worker_inv s"
  shows "\<exists>b s'. apiSet os rb keep s = Inr (b, s') \<and> served s [] s'"
proof -
  let ?s1 = "ensureAuthorization os s"
  let ?s2 = "applySettings (fst (parseUri (o_pton os) query0 None None rb)) ?s1"
  have s1: "served s [] ?s1" by (rule ensureAuthorization_inv [OF assms])
  have s2: "served s [] ?s2" using served_trans [OF s1 applySettings_inv [OF served_inv [OF s1]]] by simp
  let ?ok = "(httpRender 200 (settingsJson ?s2) (of_nat (length (settingsJson ?s2))) keep (c_socketTimeout ?s2))
        \<lparr>h_contentType := Some (lit ''application/json'')\<rparr>"
  let ?ajax = "strstr rb (CRLF @ lit ''X-Requested-With: XMLHttpRequest'' @ CRLF) \<noteq> None"
  let ?no = "if ?ajax then httpRender 401 (lit ''Authorization Failure'') 21 keep (c_socketTimeout ?s1)
               else httpRender 400 (lit ''Request should be ajax'') 22 keep (c_socketTimeout ?s1)"
  have "\<exists>b s'. respond ?ok ?s2 = Inr (b, s') \<and> served s [] s' \<and> s' = ?s2\<lparr>c_stats := c_stats s'\<rparr>"
    by (rule respond_served [OF s2]) (simp_all add: unat_of_nat_le)
  moreover have "\<exists>b s'. respond ?no ?s1 = Inr (b, s') \<and> served s [] s' \<and> s' = ?s1\<lparr>c_stats := c_stats s'\<rparr>"
    by (rule respond_served [OF s1]) (auto split: if_splits)
  ultimately show ?thesis using apiSet_cases [of rb os s keep] by (cases "?ajax \<and> hasBasic rb (c_authorizationHeader ?s1)") metis+
qed

lemma served_deny:
  assumes "worker_inv s" "code \<noteq> 200" "code \<noteq> 101"
  shows "\<exists>b s'. respond (httpRender code m sz keep t) s = Inr (b, s') \<and> served s [] s'"
  using respond_served [OF served_refl [OF assms(1)], of "httpRender code m sz keep t"] assms(2,3) by auto

text \<open>A message with its own length as the size.\<close>

lemma served_message:
  assumes "served t ms s" "h_code r = 200" "h_size r = of_nat (length (h_message r))"
  shows "\<exists>b s'. respond r s = Inr (b, s') \<and> served t ms s'"
  using respond_served [OF assms(1), of r] assms(2,3) unat_of_nat_le by auto

lemma wf_websockets_set:
  assumes "wf_websockets ws"
  shows "\<exists>ws' d. setHash ws (mem32 k) = Inr (ws', d) \<and> wf_websockets ws' \<and> keys (allItems ws') = insert (mem32 k) (keys (allItems ws))"
proof -
  have w: "wf_hlist ws" "leaves_free ws" "level ws = 0" "hashLength ws = 4" "length (mem32 k) = hashLength ws"
    using assms by (simp_all add: wf_websockets_def)
  have "\<exists>ws' d. setHash ws (mem32 k) = Inr (ws', d) \<and> wf_hlist ws' \<and> same_params ws ws' \<and>
      keys (allItems ws') = insert (mem32 k) (keys (allItems ws))"
  proof (cases "mem32 k \<in> keys (allItems ws)")
    case True
    then obtain d where "(mem32 k, d) \<in> set (allItems ws)" by auto
    from setHash_found [OF w(1) this] True show ?thesis by (auto simp: insert_absorb)
  next
    case False
    from setHash_new [OF w(1,5) False] obtain l' A B where
      "setHash ws (mem32 k) = Inr (l', None)" "wf_hlist l'" "same_params ws l'"
      "allItems ws = A @ B" "allItems l' = A @ (mem32 k, None) # B" by blast
    then show ?thesis by (intro exI [of _ l'] exI [of _ None]) auto
  qed
  then obtain ws' d where r: "setHash ws (mem32 k) = Inr (ws', d)" "wf_hlist ws'" "same_params ws ws'"
    "keys (allItems ws') = insert (mem32 k) (keys (allItems ws))" by blast
  moreover have "leaves_free ws'" by (rule setHash_leaves_free [OF r(1) w(2)])
  ultimately show ?thesis using w by (auto simp: wf_websockets_def same_params_def)
qed

text \<open>The wait for the semaphore of the websockets, what is done under it, and the post.\<close>

lemma websockets_guarded:
  assumes "wf_websockets ws"
  obtains ws1 where "waitSemaphoreLeaf ws = Inr ws1" "postSemaphoreLeaf ws1 = Inr ws"
    "getHash ws1 (mem32 k) = getHash ws (mem32 k)"
    "\<forall>ws' d. setHash ws (mem32 k) = Inr (ws', d) \<longrightarrow> (\<exists>ws2. setHash ws1 (mem32 k) = Inr (ws2, d) \<and> postSemaphoreLeaf ws2 = Inr ws')"
proof -
  have w: "level ws = 0" "leaves_free ws" using assms by (simp_all add: wf_websockets_def)
  from wait_post [OF w] obtain ws1 where ws1: "waitSemaphoreLeaf ws = Inr ws1" "leafItems ws1 = leafItems ws"
    "\<And>xs. postSemaphoreLeaf (set_items xs ws1) = Inr (set_items xs ws)" by blast
  note p = waitSemaphoreLeaf_params [OF ws1(1)]
  have "postSemaphoreLeaf ws1 = Inr ws"
    using ws1(3) [of "leafItems ws1"] by (simp add: set_items_id) (simp add: ws1(2) set_items_id)
  moreover have "getHash ws1 (mem32 k) = getHash ws (mem32 k)"
    using p w(1) ws1(2) by (simp add: getHash_def level0_leaf)
  moreover have "\<exists>ws2. setHash ws1 (mem32 k) = Inr (ws2, d) \<and> postSemaphoreLeaf ws2 = Inr ws'"
    if "setHash ws (mem32 k) = Inr (ws', d)" for ws' d
    using that p w(1) ws1(2,3) by (auto simp: setHash_def level0_leaf bindR_Inr_iff split_beta)
  ultimately show thesis using that ws1(1) by blast
qed

lemma apiWebsocket_ok:
  assumes "worker_inv s"
  shows "\<exists>b w s'. apiWebsocket k rb n keep s = Inr (b, w, s') \<and> served s [] s' \<and>
    (w \<longleftrightarrow> websocketKey2Accept rb n \<noteq> None)"
proof (cases "websocketKey2Accept rb n")
  case None
  have "(400 :: nat) \<noteq> 200" "(400 :: nat) \<noteq> 101" by simp_all
  from served_deny [OF assms this, of "lit ''Websocket Failed''" 16 keep "c_socketTimeout s"] obtain b s' where
    r: "respond (httpRender 400 (lit ''Websocket Failed'') 16 keep (c_socketTimeout s)) s = Inr (b, s')" "served s [] s'" by blast
  have "apiWebsocket k rb n keep s = Inr (b, False, s')" using None r(1) by (simp add: apiWebsocket_def)
  with r(2) None show ?thesis by blast
next
  case (Some v)
  let ?r = "(httpRender 101 [] 0 True (c_socketTimeout s))\<lparr>h_websocketKey := Some v\<rparr>"
  have "\<exists>b s'. respond ?r s = Inr (b, s') \<and> served s [] s' \<and> s' = s\<lparr>c_stats := c_stats s'\<rparr>"
    by (rule respond_served [OF served_refl [OF assms]]) simp_all
  then obtain b s1 where s1: "respond ?r s = Inr (b, s1)" "served s [] s1" by blast
  have w: "wf_websockets (c_websockets s1)" using served_inv [OF s1(2)] by (simp add: worker_inv_def)
  from wf_websockets_set [OF w, of k] obtain ws' d where ws': "setHash (c_websockets s1) (mem32 k) = Inr (ws', d)"
    "wf_websockets ws'" by blast
  from websockets_guarded [OF w, of k] obtain ws1 where ws1: "waitSemaphoreLeaf (c_websockets s1) = Inr ws1"
    "postSemaphoreLeaf ws1 = Inr (c_websockets s1)" "getHash ws1 (mem32 k) = getHash (c_websockets s1) (mem32 k)"
    "\<forall>ws' d. setHash (c_websockets s1) (mem32 k) = Inr (ws', d) \<longrightarrow> (\<exists>ws2. setHash ws1 (mem32 k) = Inr (ws2, d) \<and> postSemaphoreLeaf ws2 = Inr ws')" .
  from ws1(4) [rule_format, OF ws'(1)] obtain ws2 where "setHash ws1 (mem32 k) = Inr (ws2, d)" "postSemaphoreLeaf ws2 = Inr ws'" by blast
  then have "apiWebsocket k rb n keep s = Inr (b, True, s1\<lparr>c_websockets := ws'\<rparr>)"
    using Some s1(1) ws1(1) by (simp add: apiWebsocket_def)
  moreover have "served s [] (s1\<lparr>c_websockets := ws'\<rparr>)"
    using s1(2) ws'(2) by (auto simp: served_def worker_inv_def)
  ultimately show ?thesis using Some by auto
qed

lemma statsGet_ok:
  assumes "worker_inv s"
  shows "\<exists>b s'. statsGet env os keep s = Inr (b, s') \<and> served s [] s'"
proof -
  have "wf_rps (c_rps s)" using assms by (simp add: worker_inv_def)
  from formatStats_ok [OF this] obtain ps where
    ps: "formatStats (o_page os) (e_threadNumber env) (c_stats s) (c_interval s) (c_rps s) = Inr ps" by blast
  show ?thesis
    unfolding statsGet_def ps Let_def bindR.simps by (rule served_message [OF served_refl [OF assms]]) simp_all
qed

lemma rootGet_ok: "worker_inv s \<Longrightarrow> \<exists>b s'. rootGet keep s = Inr (b, s') \<and> served s [] s'"
  unfolding rootGet_def
  by (rule exE [OF served_message [OF served_refl, of s "httpRender 200 (lit ''github.com/truekenny/etracker - open-source BitTorrent tracker'' @ [10]) 63 keep (c_socketTimeout s)"]])
    (auto simp: lit_def)

lemma scrape_render_ok:
  assumes "wf_tracker ts" "q_protocol q = URI_QUERY_PROTOCOL_TCP"
  shows "\<exists>b. renderScrapeTorrentsPublic ts hashes q [] = Inr b"
proof -
  have "\<forall>h \<in> set (hashesOf hashes). length h = URI_PARAM_VALUE_LENGTH" by (simp add: hashesOf_length)
  from scrapeLoop_prefix [OF assms(1) this, of False "[]"] obtain b where "scrapeLoop ts False (hashesOf hashes) [] = Inr b" by blast
  then show ?thesis
    using assms(2) by (simp add: renderScrapeTorrentsPublic_def Let_def DATA_FULL_SCRAPE_ENABLE_def URI_QUERY_PROTOCOL_TCP_def)
qed

lemma scrapeGet_ok:
  assumes "worker_inv s"
  shows "\<exists>b s'. scrapeGet os rb keep s = Inr (b, s') \<and> served s [] s'"
proof -
  let ?s1 = "addStats (incStat Scrape) s"
  have s1: "served s [] ?s1" by (rule served_addStats [OF assms]) (simp add: worker_inv_stats [OF assms])
  obtain q hb f where q: "parseUri (o_pton os) query0 (Some []) None rb = (q, hb, f)"
    by (cases "parseUri (o_pton os) query0 (Some []) None rb")
  have tcp: "q_protocol q = URI_QUERY_PROTOCOL_TCP"
    using parseUri_protocol [of "o_pton os" query0 "Some []" None rb] q by (simp add: query0_def URI_QUERY_PROTOCOL_TCP_def)
  let ?hs = "case hb of None \<Rightarrow> [] | Some b \<Rightarrow> b"
  show ?thesis
  proof (cases "?hs = []")
    case True
    then have "scrapeGet os rb keep s =
        respond (httpRender 403 (lit ''Forbidden (Full Scrape Disabled)'') 32 keep (c_socketTimeout ?s1)) ?s1"
      by (simp add: scrapeGet_def Let_def q DATA_FULL_SCRAPE_ENABLE_def)
    with respond_served [OF s1, of "httpRender 403 (lit ''Forbidden (Full Scrape Disabled)'') 32 keep (c_socketTimeout ?s1)"]
    show ?thesis by auto
  next
    case False
    have "wf_tracker (c_torrentList ?s1)" using served_inv [OF s1] by (simp add: worker_inv_def)
    from scrape_render_ok [OF this tcp, of ?hs] obtain body where
      body: "renderScrapeTorrentsPublic (c_torrentList ?s1) ?hs q [] = Inr body" ..
    let ?r = "httpRender 200 body (of_nat (length body)) keep (c_socketTimeout ?s1)"
    have "scrapeGet os rb keep s = respond ?r ?s1"
      using False body by (simp add: scrapeGet_def Let_def q)
    with served_message [OF s1, of ?r] show ?thesis by auto
  qed
qed

lemma fileGet_ok:
  assumes "worker_inv s"
  shows "\<exists>b s'. fileGet env os rb keep s = Inr (b, s') \<and> served s [] s'"
proof -
  obtain q h f where q: "parseUri (o_pton os) query0 None None rb = (q, h, f)"
    by (cases "parseUri (o_pton os) query0 None None rb")
  have ok: "\<exists>b s'. respond ((httpRender 200 body (of_nat (length body)) keep (c_socketTimeout s))\<lparr>h_contentType := t\<rparr>) s = Inr (b, s') \<and>
      served s [] s'" for body t
    by (rule served_message [OF served_refl [OF assms]]) simp_all
  show ?thesis
    unfolding fileGet_def Let_def q prod.case
    using served_deny [OF assms] ok by (auto split: sum.splits)
qed

text \<open>A request whose handshake succeeds.\<close>

definition is_handshake :: "bytes \<Rightarrow> nat \<Rightarrow> bool" where
  "is_handshake rb n \<longleftrightarrow> startsWith (lit ''GET /api/websocket'') rb \<and> websocketKey2Accept rb n \<noteq> None"

lemma startsWith_take: "startsWith p rb \<Longrightarrow> take (strlen p) rb = take (strlen p) p"
  using strlen_le [of p] strlen_le [of rb]
  by (auto simp: startsWith_def Let_def memcmp_take split: if_splits)

lemma startsWith_differs:
  assumes "startsWith p rb" "startsWith q rb" "take (strlen p) q \<noteq> take (strlen p) p" "strlen p \<le> strlen q"
  shows False
proof -
  have "take (strlen p) (take (strlen q) rb) = take (strlen p) p"
    using startsWith_take [OF assms(1)] assms(4) by (simp add: min_absorb1)
  then show False using startsWith_take [OF assms(2)] assms(3,4) by (simp add: min_absorb1)
qed

lemma httpRequest_ok:
  assumes "worker_inv s" "os_ok os" "geoip_ready (e_geoip env)"
  shows "\<exists>b w ms s'. httpRequest env os k rb n keep s = Inr (b, w, s') \<and> served s ms s' \<and>
    (w \<longleftrightarrow> is_handshake rb n) \<and> (ms = [] \<or> startsWith (lit ''GET /announce'') rb \<and> location_messages (c_websockets s) ms)"
proof -
  let ?p = "\<lambda>r. bindR r (\<lambda>(b, s1). Inr (b, False, s1))"
  let ?ws = "lit ''GET /api/websocket''"
  have no: "\<not> is_handshake rb n" if "startsWith p rb" "p = lit ''GET /announce'' \<or> p = lit ''GET /api/set'' " for p
    using startsWith_differs [OF that(1), of ?ws] that(2)
    by (auto simp: is_handshake_def lit_def cstr_def strlen_def)
  have plain: ?thesis if "\<exists>b s'. f = Inr (b, s') \<and> served s [] s'" "httpRequest env os k rb n keep s = ?p f" "\<not> is_handshake rb n" for f
  proof -
    from that(1) obtain b s' where "f = Inr (b, s')" "served s [] s'" by blast
    with that(2,3) show ?thesis by (intro exI [of _ b] exI [of _ False] exI [of _ "[]"] exI [of _ s']) simp
  qed
  consider (ann) "startsWith (lit ''GET /announce'') rb"
    | (set) "\<not> startsWith (lit ''GET /announce'') rb" "startsWith (lit ''GET /api/set'') rb"
    | (ws) "\<not> startsWith (lit ''GET /announce'') rb" "\<not> startsWith (lit ''GET /api/set'') rb" "startsWith ?ws rb"
    | (other) "\<not> startsWith (lit ''GET /announce'') rb" "\<not> startsWith (lit ''GET /api/set'') rb" "\<not> startsWith ?ws rb"
    by blast
  then show ?thesis
  proof cases
    case ann
    from announceGet_ok [OF assms, of rb keep] obtain b ms s' where r: "announceGet env os rb keep s = Inr (b, s')"
      "served s ms s'" "ms = [] \<or> location_messages (c_websockets s) ms" by blast
    have "httpRequest env os k rb n keep s = Inr (b, False, s')" using ann r(1) by (simp add: httpRequest_def)
    with r(2,3) ann no [OF ann] show ?thesis by blast
  next
    case set
    show ?thesis
      by (rule plain [OF apiSet_ok [OF assms(1), of os rb keep]]) (use set no [OF set(2)] in \<open>simp_all add: httpRequest_def\<close>)
  next
    case ws
    from apiWebsocket_ok [OF assms(1), of k rb n keep] obtain b w s' where r: "apiWebsocket k rb n keep s = Inr (b, w, s')"
      "served s [] s'" "w \<longleftrightarrow> websocketKey2Accept rb n \<noteq> None" by blast
    have "httpRequest env os k rb n keep s = Inr (b, w, s')" using ws r(1) by (simp add: httpRequest_def)
    with r(2,3) ws(3) show ?thesis by (auto simp: is_handshake_def)
  next
    case other
    then have nh: "\<not> is_handshake rb n" by (simp add: is_handshake_def)
    show ?thesis
    proof (cases "startsWith (lit ''GET /stats.html'') rb")
      case True
      show ?thesis by (rule plain [OF statsGet_ok [OF assms(1), of env os keep] _ nh]) (use other True in \<open>simp add: httpRequest_def\<close>)
    next
      case nstats: False
      show ?thesis
      proof (cases "startsWith (lit ''GET / '') rb")
        case True
        show ?thesis by (rule plain [OF rootGet_ok [OF assms(1), of keep] _ nh]) (use other nstats True in \<open>simp add: httpRequest_def\<close>)
      next
        case nroot: False
        show ?thesis
        proof (cases "startsWith (lit ''GET /scrape'') rb")
          case True
          show ?thesis by (rule plain [OF scrapeGet_ok [OF assms(1), of os rb keep] _ nh])
              (use other nstats nroot True in \<open>simp add: httpRequest_def\<close>)
        next
          case False
          show ?thesis by (rule plain [OF fileGet_ok [OF assms(1), of env os rb keep] _ nh])
              (use other nstats nroot False in \<open>simp add: httpRequest_def\<close>)
        qed
      qed
    qed
  qed
qed

section \<open>The sockets to delete\<close>

definition marked :: "tcp_state \<Rightarrow> u32 set" where
  "marked s = {k. mem32 k \<in> keys (allItems (c_deleteSocketList s))}"

lemma queueDelete_ok:
  assumes "worker_inv s"
  shows "\<exists>s'. queueDelete k s = Inr s' \<and> worker_inv s' \<and> c_socketList s' = c_socketList s \<and>
    c_actions s' = c_actions s \<and> marked s' = insert k (marked s)"
proof -
  have "wf_websockets (c_deleteSocketList s)" using assms by (simp add: worker_inv_def)
  from wf_websockets_set [OF this, of k] obtain l d where l: "setHash (c_deleteSocketList s) (mem32 k) = Inr (l, d)"
    "wf_websockets l" "keys (allItems l) = insert (mem32 k) (keys (allItems (c_deleteSocketList s)))" by blast
  have "queueDelete k s = Inr (s\<lparr>c_deleteSocketList := l\<rparr>)" using l(1) by (simp add: queueDelete_def)
  moreover have "worker_inv (s\<lparr>c_deleteSocketList := l\<rparr>)" using assms l(2) by (simp add: worker_inv_def)
  moreover have "marked (s\<lparr>c_deleteSocketList := l\<rparr>) = insert k (marked s)"
    by (auto simp: marked_def l(3))
  ultimately show ?thesis by (intro exI [of _ "s\<lparr>c_deleteSocketList := l\<rparr>"]) simp
qed

lemma served_marked: "served s ms s' \<Longrightarrow> marked s' = marked s"
  by (simp add: served_def marked_def)

text \<open>The socket stays open after a request: keep alive, or a websocket now.\<close>

definition stays_open :: "byte \<Rightarrow> bytes \<Rightarrow> bool" where
  "stays_open keepAlive received \<longleftrightarrow> startsWith (lit ''GET '') (received @ [0]) \<and>
     (keepAliveOf keepAlive (received @ [0]) \<or> is_handshake (received @ [0]) (length received))"

lemma answerRequest_ok:
  assumes "worker_inv s" "os_ok os" "geoip_ready (e_geoip env)"
  shows "\<exists>ms b s'. answerRequest env os k received s = Inr s' \<and> worker_inv s' \<and> c_socketList s' = c_socketList s \<and>
    c_actions s' = c_actions s @ sends (ms @ [(k, b)]) \<and>
    (ms = [] \<or> startsWith (lit ''GET /announce'') (received @ [0]) \<and> location_messages (c_websockets s) ms) \<and>
    marked s' = (if stays_open (c_keepAlive s) received then marked s else insert k (marked s))"
proof -
  let ?rb = "received @ [0]" and ?n = "length received"
  let ?s1 = "addStats (\<lambda>st. incStat Recv_pass (addStat Recv_bytes (of_nat ?n) st)) s"
  let ?http = "startsWith (lit ''GET '') ?rb"
  let ?keep = "?http \<and> keepAliveOf (c_keepAlive ?s1) ?rb"
  have s1: "served s [] ?s1" by (rule served_addStats [OF assms(1)]) (simp add: worker_inv_stats [OF assms(1)])
  have ws1: "c_websockets ?s1 = c_websockets s" "c_keepAlive ?s1 = c_keepAlive s" by (simp_all add: addStats_def)
  let ?ans = "if ?http
           then bindR (httpRequest env os k ?rb ?n ?keep ?s1) (\<lambda>(sendBlock, isWebsocket, s2).
             Inr (sendBlock, isWebsocket, addStats (incStat (if ?keep then Keep_alive else No_keep_alive)) s2))
           else bindR (respond (httpRender 405 ?rb (of_nat ?n) ?keep (c_socketTimeout ?s1)) ?s1)
             (\<lambda>(sendBlock, s2). Inr (sendBlock, False, s2))"
  have "\<exists>b w ms s3. ?ans = Inr (b, w, s3) \<and> served s ms s3 \<and> (w \<longleftrightarrow> ?http \<and> is_handshake ?rb ?n) \<and>
      (ms = [] \<or> startsWith (lit ''GET /announce'') ?rb \<and> location_messages (c_websockets s) ms)"
  proof (cases ?http)
    case True
    from httpRequest_ok [OF served_inv [OF s1] assms(2,3), of k ?rb ?n ?keep] obtain b w ms s2 where
      s2: "httpRequest env os k ?rb ?n ?keep ?s1 = Inr (b, w, s2)" "served ?s1 ms s2" "w \<longleftrightarrow> is_handshake ?rb ?n"
      "ms = [] \<or> startsWith (lit ''GET /announce'') ?rb \<and> location_messages (c_websockets ?s1) ms" by blast
    let ?s3 = "addStats (incStat (if ?keep then Keep_alive else No_keep_alive)) s2"
    have "served s2 [] ?s3"
      by (rule served_addStats [OF served_inv [OF s2(2)]]) (simp add: worker_inv_stats [OF served_inv [OF s2(2)]])
    from served_trans [OF served_trans [OF s1 s2(2)] this] have "served s ms ?s3" by simp
    moreover have "?ans = Inr (b, w, ?s3)" using True s2(1) by simp
    ultimately show ?thesis using True s2(3,4) unfolding ws1 by blast
  next
    case False
    let ?r = "httpRender 405 ?rb (of_nat ?n) ?keep (c_socketTimeout ?s1)"
    have "\<exists>b s2. respond ?r ?s1 = Inr (b, s2) \<and> served s [] s2 \<and> s2 = ?s1\<lparr>c_stats := c_stats s2\<rparr>"
      by (rule respond_served [OF s1]) simp_all
    then obtain b s2 where s2: "respond ?r ?s1 = Inr (b, s2)" "served s [] s2" by blast
    have "?ans = Inr (b, False, s2)" using False s2(1) by simp
    with s2(2) False show ?thesis by blast
  qed
  then obtain b w ms s3 where a: "?ans = Inr (b, w, s3)" "served s ms s3" "w \<longleftrightarrow> ?http \<and> is_handshake ?rb ?n"
    "ms = [] \<or> startsWith (lit ''GET /announce'') ?rb \<and> location_messages (c_websockets s) ms" by blast
  have "kernel_sends (o_answers os)" using assms(2) by (simp add: os_ok_def)
  from sendTo_ok [OF served_inv [OF a(2)] this, of k b] obtain s4 where
    s4: "sendTo os k b s3 = Inr s4" "served s3 [(k, b)] s4" by blast
  note s04 = served_trans [OF a(2) s4(2)]
  have run: "answerRequest env os k received s =
      (if \<not> ?keep \<and> \<not> w then queueDelete k s4 else Inr s4)"
    unfolding answerRequest_def Let_def a(1) bindR.simps prod.case s4(1) by (rule refl)
  have open_iff: "stays_open (c_keepAlive s) received \<longleftrightarrow> ?keep \<or> w"
    unfolding stays_open_def ws1 a(3) by blast
  show ?thesis
  proof (cases "?keep \<or> w")
    case True
    then have "answerRequest env os k received s = Inr s4" using run by (simp only: if_False) auto
    with s04 True open_iff served_marked [OF s04] a(4) show ?thesis unfolding served_def by auto
  next
    case False
    from queueDelete_ok [OF served_inv [OF s4(2)], of k] obtain s5 where s5: "queueDelete k s4 = Inr s5" "worker_inv s5"
      "c_socketList s5 = c_socketList s4" "c_actions s5 = c_actions s4" "marked s5 = insert k (marked s4)" by blast
    have "answerRequest env os k received s = Inr s5" using run False s5(1) by auto
    with s5 s04 False open_iff served_marked [OF s04] a(4) show ?thesis unfolding served_def by auto
  qed
qed

section \<open>A readable socket\<close>

text \<open>What a step for the socket k leaves: its own mark at most, and messages.\<close>

definition handled :: "u32 \<Rightarrow> tcp_state \<Rightarrow> (u32 \<times> bytes) list \<Rightarrow> tcp_state \<Rightarrow> bool" where
  "handled k s ms s' \<longleftrightarrow> worker_inv s' \<and> c_actions s' = c_actions s @ sends ms \<and>
     marked s \<subseteq> marked s' \<and> marked s' \<subseteq> insert k (marked s)"

lemma handled_trans: "handled k s a t \<Longrightarrow> handled k t b u \<Longrightarrow> handled k s (a @ b) u"
  by (auto simp: handled_def)

lemma handled_served: "served s ms s' \<Longrightarrow> handled k s ms s'"
  using served_marked [of s ms s'] by (auto simp: handled_def served_def)

lemma queueDelete_handled:
  assumes "handled k s ms t" "c_socketList t = l"
  shows "\<exists>s'. queueDelete k t = Inr s' \<and> handled k s ms s' \<and> c_socketList s' = l"
proof -
  have "worker_inv t" using assms(1) by (simp add: handled_def)
  from queueDelete_ok [OF this, of k] obtain s' where "queueDelete k t = Inr s'" "worker_inv s'"
    "c_socketList s' = c_socketList t" "c_actions s' = c_actions t" "marked s' = insert k (marked t)" by blast
  with assms show ?thesis by (auto simp: handled_def)
qed

lemma addStats_handled:
  assumes "handled k s ms t" "\<And>st. wf_stats (f st) = wf_stats st"
  shows "handled k s ms (addStats f t) \<and> c_socketList (addStats f t) = c_socketList t"
  using assms by (simp add: handled_def addStats_def worker_inv_def marked_def)

lemma recvErrno_handled:
  assumes "handled k s ms t" "0 \<le> e"
  shows "\<exists>t'. recvErrno e t = Inr t' \<and> handled k s ms t' \<and> c_socketList t' = c_socketList t"
proof -
  have "wf_stats (c_stats t)" using assms(1) by (simp add: handled_def worker_inv_def)
  from incErrnoOf_ok [OF this assms(2), of Recv_errno] obtain st where
    "incErrnoOf Recv_errno e (c_stats t) = Inr st" "wf_stats st" by metis
  with assms(1) show ?thesis by (simp add: recvErrno_def handled_def worker_inv_def marked_def)
qed

lemma lookWebsocket_ok:
  assumes "wf_websockets ws"
  shows "lookWebsocket ws k = Inr (ws, mem32 k \<in> keys (allItems ws))"
proof -
  from websockets_guarded [OF assms, of k] obtain ws1 where "waitSemaphoreLeaf ws = Inr ws1"
    "postSemaphoreLeaf ws1 = Inr ws" "getHash ws1 (mem32 k) = getHash ws (mem32 k)" .
  moreover have "getHash ws (mem32 k) = Inr (map_option (Pair (mem32 k)) (map_of (allItems ws) (mem32 k)))"
    by (rule getHash_map_of) (use assms in \<open>simp_all add: wf_websockets_def\<close>)
  moreover have "map_of (allItems ws) (mem32 k) \<noteq> None \<longleftrightarrow> mem32 k \<in> keys (allItems ws)"
    by (simp add: map_of_eq_None_iff)
  ultimately show ?thesis by (cases "map_of (allItems ws) (mem32 k)") (simp_all add: lookWebsocket_def)
qed

lemma takeRequest_ok:
  assumes "handled k s ms t" "os_ok os" "geoip_ready (e_geoip env)"
  shows "\<exists>ms' s'. takeRequest env os k n w t = Inr s' \<and> handled k s ms' s' \<and> c_socketList s' = c_socketList t"
proof -
  let ?f = "\<lambda>st. incStat Recv_failed_read_not_equal (incStat Recv_failed st)"
  have ne: "\<exists>s'. queueDelete k (addStats ?f u) = Inr s' \<and> handled k s ms s' \<and> c_socketList s' = c_socketList t"
    if "handled k s ms u" "c_socketList u = c_socketList t" for u
    using addStats_handled [OF that(1), of ?f] that(2) by (intro queueDelete_handled) simp_all
  show ?thesis
  proof (cases "o_second os")
    case (Tcp_error e)
    then have "0 \<le> e" using assms(2) by (simp add: os_ok_def)
    from recvErrno_handled [OF assms(1) this] obtain u where u: "recvErrno e t = Inr u" "handled k s ms u"
      "c_socketList u = c_socketList t" by blast
    from ne [OF u(2,3)] u(1) Tcp_error show ?thesis by (auto simp: takeRequest_def Let_def)
  next
    case (Tcp_data r)
    consider (diff) "length r \<noteq> n" | (ws) "length r = n" w | (req) "length r = n" "\<not> w" by blast
    then show ?thesis
    proof cases
      case diff
      with ne [OF assms(1) refl] Tcp_data show ?thesis by (auto simp: takeRequest_def Let_def)
    next
      case ws
      with assms(1) Tcp_data show ?thesis by (auto simp: takeRequest_def Let_def)
    next
      case req
      have "worker_inv t" using assms(1) by (simp add: handled_def)
      from answerRequest_ok [OF this assms(2,3), of k r] obtain fs b s' where a:
        "answerRequest env os k r t = Inr s'" "worker_inv s'" "c_socketList s' = c_socketList t"
        "c_actions s' = c_actions t @ sends (fs @ [(k, b)])"
        "marked s' = (if stays_open (c_keepAlive t) r then marked t else insert k (marked t))" by blast
      have "takeRequest env os k n w t = Inr s'" using req Tcp_data a(1) by (simp add: takeRequest_def Let_def)
      moreover have "handled k t (fs @ [(k, b)]) s'" using a(2,4,5) by (auto simp: handled_def)
      ultimately show ?thesis using a(3) handled_trans [OF assms(1)] by blast
    qed
  qed
qed

lemma processRead_ok:
  assumes "worker_inv s" "os_ok os" "geoip_ready (e_geoip env)" "sockets_at v sl" "lockLeaf sl (mem32 k) = Inr (c_socketList s)"
    "k \<in> dom (sockets sl)"
  shows "\<exists>ms s' sl'. processRead env os k s = Inr s' \<and> handled k s ms s' \<and>
    lockLeaf sl' (mem32 k) = Inr (c_socketList s') \<and> sockets_at v sl' \<and> dom (sockets sl') = dom (sockets sl)"
proof -
  have h: "handled k s [] s" using assms(1) by (auto simp: handled_def)
  have same: ?thesis if "processRead env os k s = Inr s'" "handled k s ms s'" "c_socketList s' = c_socketList s" for ms s'
    using that assms(4,5) by (intro exI [of _ ms] exI [of _ s'] exI [of _ sl]) simp
  show ?thesis
  proof (cases "o_peek os")
    case (Tcp_error e)
    then have "0 \<le> e" using assms(2) by (simp add: os_ok_def)
    let ?f = "\<lambda>st. incStat Recv_failed_read_sub_0 (incStat Recv_failed st)"
    from recvErrno_handled [OF h \<open>0 \<le> e\<close>] obtain u where u: "recvErrno e s = Inr u" "handled k s [] u"
      "c_socketList u = c_socketList s" by blast
    have "handled k s [] (addStats ?f u)" "c_socketList (addStats ?f u) = c_socketList s"
      using addStats_handled [OF u(2), of ?f] u(3) by simp_all
    from queueDelete_handled [OF this] obtain s' where "queueDelete k (addStats ?f u) = Inr s'" "handled k s [] s'"
      "c_socketList s' = c_socketList s" by blast
    with u(1) Tcp_error show ?thesis by (intro same [of s' "[]"]) (simp_all add: processRead_def)
  next
    case (Tcp_data peeked)
    consider (big) "length peeked \<ge> THREAD_CLIENT_TCP_RECEIVED_MESSAGE_LENGTH"
      | (closed) "length peeked < THREAD_CLIENT_TCP_RECEIVED_MESSAGE_LENGTH" "peeked = []"
      | (some) "length peeked < THREAD_CLIENT_TCP_RECEIVED_MESSAGE_LENGTH" "peeked \<noteq> []" by linarith
    then show ?thesis
    proof cases
      case big
      let ?r = "httpRender 413 (lit ''Request Entity Too Large'') 24 False (c_socketTimeout s)"
      have "\<exists>b s1. respond ?r s = Inr (b, s1) \<and> served s [] s1" by (rule served_deny [OF assms(1)]) simp_all
      then obtain b s1 where s1: "respond ?r s = Inr (b, s1)" "served s [] s1" by blast
      have "kernel_sends (o_answers os)" using assms(2) by (simp add: os_ok_def)
      from sendTo_ok [OF served_inv [OF s1(2)] this, of k b] obtain s2 where
        s2: "sendTo os k b s1 = Inr s2" "served s1 [(k, b)] s2" by blast
      from served_trans [OF s1(2) s2(2)] have s02: "served s [(k, b)] s2" by simp
      from queueDelete_handled [OF handled_served [OF s02], of "c_socketList s"] s02 obtain s3 where
        s3: "queueDelete k s2 = Inr s3" "handled k s [(k, b)] s3" "c_socketList s3 = c_socketList s"
        by (auto simp: served_def)
      show ?thesis
        by (rule same [where s' = "addStats (incStat Recv_failed) s3" and ms = "[(k, b)]"])
          (use big Tcp_data s1(1) s2(1) s3 addStats_handled [OF s3(2), of "incStat Recv_failed"] in \<open>simp_all add: processRead_def\<close>)
    next
      case closed
      let ?u = "addStats (incStat Recv_failed_read_0) s"
      have "handled k s [] ?u" "c_socketList ?u = c_socketList s"
        using addStats_handled [OF h, of "incStat Recv_failed_read_0"] by simp_all
      from queueDelete_handled [OF this] obtain s' where "queueDelete k ?u = Inr s'" "handled k s [] s'"
        "c_socketList s' = c_socketList s" by blast
      with closed Tcp_data show ?thesis by (intro same [of s' "[]"]) (simp_all add: processRead_def)
    next
      case some
      have ws: "wf_websockets (c_websockets s)" "wf_rps (c_rps s)" using assms(1) by (simp_all add: worker_inv_def)
      let ?w = "mem32 k \<in> keys (allItems (c_websockets s))"
      note look = lookWebsocket_ok [OF ws(1), of k]
      have id: "s\<lparr>c_websockets := c_websockets s\<rparr> = s" by simp
      show ?thesis
      proof (cases "strstr (peeked @ [0]) (CRLF @ CRLF) = None \<and> \<not> ?w")
        case True
        then show ?thesis using some Tcp_data look h by (intro same [of s "[]"]) (simp_all add: processRead_def)
      next
        case False
        let ?v = "if getIpVersion (o_peername os) AND SOCKET_VERSION_IPV4_BIT \<noteq> 0 then RPS_VERSION_IPV4 else RPS_VERSION_IPV6"
        have "rps_args RPS_PROTOCOL_TCP ?v" by (simp add: rps_args_def)
        from updateRps_ok [OF ws(2) this] obtain r where r: "updateRps RPS_PROTOCOL_TCP ?v (c_rps s) = Inr r" "wf_rps r"
          by metis
        from updateSocketL_held [OF assms(4,5), of "o_now os" "e_equeue env"] obtain sl' l2 where
          u: "updateSocketL (o_now os) (c_socketList s) k (e_equeue env) False = Inr l2" "lockLeaf sl' (mem32 k) = Inr l2"
          "sockets_at v sl'" "sockets sl' = (sockets sl)(k \<mapsto> \<lparr>s_socket = k, s_equeue = e_equeue env, s_time = o_now os\<rparr>)"
          by blast
        let ?t = "s\<lparr>c_rps := r, c_socketList := l2\<rparr>"
        have "handled k s [] ?t" using assms(1) r(2) by (auto simp: handled_def worker_inv_def marked_def)
        from takeRequest_ok [OF this assms(2,3), of "length peeked" ?w] obtain ms s' where
          t: "takeRequest env os k (length peeked) ?w ?t = Inr s'" "handled k s ms s'" "c_socketList s' = l2" by auto
        have "processRead env os k s = takeRequest env os k (length peeked) ?w ?t"
          using some Tcp_data look False r(1) u(1) by (auto simp: processRead_def Let_def)
        moreover have "dom (sockets sl') = dom (sockets sl)" using u(4) assms(6) by auto
        ultimately show ?thesis using t u(2,3) by auto
      qed
    qed
  qed
qed

end
