(* ===== verification/Tcp_Service.thy ===== *)
theory Tcp_Service
  imports Tcp_Client_Laws
begin

text \<open>
  What a client of the TCP worker (thread\_client\_tcp.c) can rely on: one answer to each request, an
  announce that is stored and answered with the stored torrent, settings that only an authorised
  request changes, and files that are served from the web root only.
\<close>

section \<open>A sample worker\<close>

definition sample_os :: "bytes \<Rightarrow> tcp_os" where
  "sample_os received = \<lparr>o_now = 1000, o_peek = Tcp_data received, o_second = Tcp_data received,
     o_peername = replicate 10 0 @ [255, 255, 1, 2, 3, 4], o_pton = (\<lambda>_ _. (1, replicate 16 0)),
     o_ntop = (\<lambda>_ _. lit ''1.2.3.4''), o_random = replicate 20 0, o_realpath = (\<lambda>p. Inr (lit ''/srv/'' @ p)),
     o_stat = (\<lambda>_. Inr (True, 2)), o_file = (\<lambda>_. Some [104, 105]), o_ioError = [], o_page = sample_page,
     o_answers = (\<lambda>s m. [Sent (length m)])\<rparr>"

definition sample_args :: tcp_args where
  "sample_args = \<lparr>e_threadNumber = 0, e_equeue = 9, e_charset = None, e_webRoot = lit ''/srv/web/'', e_geoip = [geoip0],
     e_xForwardedFor = None\<rparr>"

definition sample_worker :: tcp_state where
  "sample_worker = \<lparr>c_torrentList = sample_tracker 2, c_stats = stats0 0, c_socketList = sample_sockets,
     c_interval = sample_interval, c_rps = rps0, c_authorizationHeader = lit ''Authorization: Basic QQ==''  @ [13, 0],
     c_maxPeersPerResponse = 200, c_socketTimeout = 3, c_keepAlive = 0, c_websockets = sample_websockets,
     c_deleteSocketList = HList [] [] None LITTLE_ENDIAN 4 0 0, c_actions = []\<rparr>"

lemma sample_os_ok: "os_ok (sample_os r)"
  by (simp add: os_ok_def sample_os_def kernel_sends_all)

lemma sample_geoip: "geoip_ready (e_geoip sample_args)"
  by (simp add: sample_args_def geoip_ready_def geoip0_def)

lemma sample_addresses: "addresses_ok (sample_torrent 2)"
  by (simp add: addresses_ok_def sample_ok) (simp add: sample_peer_def peerDataL0_def)

lemma sample_worker_inv: "worker_inv sample_worker"
proof -
  have "whole_addresses (sample_tracker 2)"
    by (simp add: whole_addresses_def sample_ok sample_addresses)
  moreover have "wf_websockets sample_websockets"
    using sample_websockets_ok by (simp add: wf_websockets_def) (simp add: sample_websockets_def)
  moreover have "wf_websockets (HList [] [] None LITTLE_ENDIAN 4 0 0)"
    by (simp add: wf_websockets_def wf_hlist_def header_def hasSemaphore_def leaves_free.simps allItems.simps)
  moreover have "wf_rps rps0" by (simp add: wf_rps_def rps0_def RPS_TIME_EVEN_def)
  ultimately show ?thesis by (simp add: worker_inv_def sample_worker_def sample_ok(2) wf_stats0)
qed

section \<open>One answer to each request\<close>

text \<open>C9: A complete request never fails: the worker answers it with exactly one message to its socket
(an announce may send one and the same location to every websocket before it), keeps the invariant
of its state, and queues the socket for deletion exactly when it is neither kept alive nor a
websocket now.\<close>

theorem tcp_request_answered_once:
  assumes "worker_inv s" "os_ok os" "geoip_ready (e_geoip env)"
  shows "\<exists>ms b s'. answerRequest env os k received s = Inr s' \<and> worker_inv s' \<and> c_socketList s' = c_socketList s \<and>
    c_actions s' = c_actions s @ sends (ms @ [(k, b)]) \<and>
    (ms = [] \<or> startsWith (lit ''GET /announce'') (received @ [0]) \<and> location_messages (c_websockets s) ms) \<and>
    marked s' = (if stays_open (c_keepAlive s) received then marked s else insert k (marked s))"
  by (rule answerRequest_ok [OF assms])

theorem tcp_request_answered_once_witness:
  "\<exists>b s'. answerRequest sample_args (sample_os (lit ''GET / HTTP/1.1'')) 6 (lit ''GET / HTTP/1.1'') sample_worker = Inr s' \<and>
     c_actions s' = [Send_to 6 b] \<and> marked s' = {6}"
proof -
  let ?r = "lit ''GET / HTTP/1.1''"
  from tcp_request_answered_once [OF sample_worker_inv sample_os_ok sample_geoip] obtain ms b s' where
    r: "answerRequest sample_args (sample_os ?r) 6 ?r sample_worker = Inr s'"
    "c_actions s' = c_actions sample_worker @ sends (ms @ [(6, b)])"
    "ms = [] \<or> startsWith (lit ''GET /announce'') (?r @ [0]) \<and> location_messages (c_websockets sample_worker) ms"
    "marked s' = (if stays_open (c_keepAlive sample_worker) ?r then marked sample_worker else insert 6 (marked sample_worker))"
    by blast
  have "\<not> startsWith (lit ''GET /announce'') (?r @ [0])" "\<not> startsWith (lit ''GET /api/websocket'') (?r @ [0])"
    by (simp_all add: startsWith_def lit_def strlen_def cstr_def memcmp_take)
  then have "ms = []" "\<not> stays_open (c_keepAlive sample_worker) ?r"
    using r(3) by (simp_all add: stays_open_def keepAliveOf_def is_handshake_def) (simp add: sample_worker_def)
  moreover have "marked sample_worker = {}" by (simp add: marked_def sample_worker_def allItems.simps)
  ultimately show ?thesis using r by (simp add: sample_worker_def)
qed

section \<open>An announce\<close>

lemma announceGet_answer:
  assumes "worker_inv s" "os_ok os" "geoip_ready (e_geoip env)"
    "announceAnswer os (announceQuery env os rb (c_maxPeersPerResponse s)) keep (addStats (incStat Announce) s) = Inr (b, s2)"
    "worker_inv s2"
  shows "\<exists>s'. announceGet env os rb keep s = Inr (b, s') \<and> c_torrentList s' = c_torrentList s2"
proof (cases "q_ipVersion (announceQuery env os rb (c_maxPeersPerResponse s)) AND SOCKET_VERSION_IPV4_BIT = 0")
  case True
  with assms(4) show ?thesis by (simp add: announceGet_def Let_def)
next
  case False
  from broadcast_step [OF assms(5,2,3)] obtain ws ms s' where
    "broadcast (c_websockets s2) (e_geoip env) (o_peername os) WEBSOCKET_PROTOCOL_TCP = Inr (ws, ms)"
    "sendAll os ms (s2\<lparr>c_websockets := ws\<rparr>) = Inr s'" "c_torrentList s' = c_torrentList s2" by blast
  with assms(4) False show ?thesis by (simp add: announceGet_def Let_def)
qed

text \<open>The torrent an announce reports, from the pointer of the update and from the tracker.\<close>

lemma stored_report:
  assumes "stored ts h torrent" "whole_addresses ts"
  obtains t peers where "case torrent_of ts h of None \<Rightarrow> t = torrentDataL0 \<and> peers = []
     | Some t' \<Rightarrow> t' = t \<and> (\<exists>pl. t_peerList t = Some pl \<and> peers = shown q (peer_items pl))"
    "case torrent of None \<Rightarrow> t = torrentDataL0 \<and> peers = []
       | Some (k, d) \<Rightarrow> d = Some t \<and> wf_torrent t \<and> addresses_ok t \<and>
           (\<exists>pl. t_peerList t = Some pl \<and> peers = shown q (peer_items pl))"
proof (cases torrent)
  case None
  with assms(1) show thesis by (intro that [of torrentDataL0 "[]"]) (simp_all add: stored_def)
next
  case (Some kd)
  with assms obtain k t where t: "kd = (k, Some t)" "wf_torrent t" "torrent_of ts h = Some t" "addresses_ok t"
    by (auto simp: stored_def whole_addresses_def split: prod.splits)
  from t(2) obtain pl where "t_peerList t = Some pl" by (auto simp: wf_torrent_def split: option.splits)
  with Some t show thesis by (intro that [of t "shown q (peer_items pl)"]) simp_all
qed

text \<open>C2: An announce with a hash and a port is a map update of the abstract tracker (a stop removes the
peer, any other event enters it with the time, the address and the counters of the request) and is
answered with a message 200 whose body is the bencoding of the announced torrent as it is stored
after the update: its counters and the first of the peers the request may see, at most numwant.\<close>

theorem tcp_announce_updates_and_reports:
  fixes env :: tcp_args and os :: tcp_os and rb :: bytes and s :: tcp_state
  defines "q \<equiv> announceQuery env os rb (c_maxPeersPerResponse s)"
  assumes "worker_inv s" "os_ok os" "geoip_ready (e_geoip env)" "q_has_info_hash q \<noteq> 0" "q_port q \<noteq> 0"
  shows "\<exists>b s' t peers n body. announceGet env os rb keep s = Inr (b, s') \<and>
    tracker_map (c_torrentList s') =
      announced (o_now os) q DATA_STRUCTURE_PEER_PROTOCOL_TCP_BIT (tracker_map (c_torrentList s)) \<and>
    (case torrent_of (c_torrentList s') (q_info_hash q) of None \<Rightarrow> t = torrentDataL0 \<and> peers = []
     | Some t' \<Rightarrow> t' = t \<and> (\<exists>pl. t_peerList t = Some pl \<and> peers = shown q (peer_items pl))) \<and>
    n \<le> countdown (q_numwant q) \<and> body = benc (announce_value (o_ntop os) q (c_interval s) t (take n peers)) \<and>
    (length body < 2 ^ 32 \<longrightarrow> framed b body)"
proof -
  let ?s1 = "addStats (incStat Announce) s"
  have "served s [] ?s1" by (rule served_addStats [OF assms(2)]) (simp add: worker_inv_stats [OF assms(2)])
  then have s1: "worker_inv ?s1" by (rule served_inv)
  have same: "c_torrentList ?s1 = c_torrentList s" "c_interval ?s1 = c_interval s" "c_socketTimeout ?s1 = c_socketTimeout s"
    by (simp_all add: addStats_def)
  from announceQuery_ok [OF assms(3), of env rb "c_maxPeersPerResponse s"] have q: "query_ok q"
    "length (q_ip q) = 16" "q_protocol q = URI_QUERY_PROTOCOL_TCP" unfolding q_def by simp_all
  obtain ts torrent body st b where a: "announceAnswer os q keep ?s1 = Inr (b, ?s1\<lparr>c_torrentList := ts, c_stats := st\<rparr>)"
    "served ?s1 [] (?s1\<lparr>c_torrentList := ts, c_stats := st\<rparr>)" "stored ts (q_info_hash q) torrent" "wf_tracker ts" "whole_addresses ts"
    "tracker_map ts = announced (o_now os) q DATA_STRUCTURE_PEER_PROTOCOL_TCP_BIT (tracker_map (c_torrentList ?s1))"
    "renderAnnouncePublic (o_ntop os) q (c_interval ?s1) torrent [] = Inr body"
    "\<exists>st1 s2. respond (httpRender 200 body (of_nat (length body)) keep (c_socketTimeout ?s1)) st1 = Inr (b, s2)"
    by (rule announceAnswer_stored [OF s1 q assms(5,6), of os keep])
  from announceGet_answer [OF assms(2-4) a(1) [unfolded q_def] served_inv [OF a(2)]] obtain s' where
    s': "announceGet env os rb keep s = Inr (b, s')" "c_torrentList s' = ts" by auto
  obtain t peers where tp: "case torrent_of ts (q_info_hash q) of None \<Rightarrow> t = torrentDataL0 \<and> peers = []
     | Some t' \<Rightarrow> t' = t \<and> (\<exists>pl. t_peerList t = Some pl \<and> peers = shown q (peer_items pl))"
    "case torrent of None \<Rightarrow> t = torrentDataL0 \<and> peers = []
       | Some (k, d) \<Rightarrow> d = Some t \<and> wf_torrent t \<and> addresses_ok t \<and>
           (\<exists>pl. t_peerList t = Some pl \<and> peers = shown q (peer_items pl))"
    by (rule stored_report [OF a(3,5)])
  from announce_is_bencode [OF q(3) tp(2), of "o_ntop os" "c_interval s"] a(7) obtain n where
    n: "n \<le> countdown (q_numwant q)" "body = benc (announce_value (o_ntop os) q (c_interval s) t (take n peers))"
    unfolding same by auto
  have "framed b body" if "length body < 2 ^ 32"
  proof -
    let ?r = "httpRender 200 body (of_nat (length body)) keep (c_socketTimeout ?s1)"
    obtain st1 s2 where "respond ?r st1 = Inr (b, s2)" using a(8) by blast
    then obtain r' st2 where r: "renderHttpMessage ?r (c_stats st1) = Inr (r', st2)" "b = h_block r'"
      by (auto simp: respond_def bindR_Inr_iff)
    have "unat (of_nat (length body) :: u64) = length body"
      using that by (simp add: unsigned_of_nat take_bit_nat_eq_self)
    then show ?thesis
      using http_framed [OF r(1), of body] that r(2) by (simp add: header_values_ok_def)
  qed
  with s' a(6) tp(1) n show ?thesis unfolding same by blast
qed

section \<open>A malformed announce\<close>

lemma respond_failure:
  assumes "code \<noteq> 200" "code \<noteq> 101" "length m < 2 ^ 32" "respond (httpRender code m sz keep timeout) s = Inr (b, s')"
  shows "framed b (failureBody sz m)"
proof -
  let ?r = "httpRender code m sz keep timeout"
  from assms(4) obtain r' st where r: "renderHttpMessage ?r (c_stats s) = Inr (r', st)" "b = h_block r'"
    by (auto simp: respond_def bindR_Inr_iff)
  show ?thesis using http_framed [OF r(1), of "failureBody sz m"] assms(1-3) r(2) by (simp add: header_values_ok_def)
qed

text \<open>An announce without a hash or without a port leaves the tracker alone and is answered 400, but
the body of the answer is not bencoded: the length in front of its message is shorter than the
message.\<close>

theorem malformed_announce_answer:
  assumes "worker_inv s" "q_has_info_hash q = 0 \<or> q_port q = 0"
  shows "\<exists>b s' body. announceAnswer os q keep s = Inr (b, s') \<and> c_torrentList s' = c_torrentList s \<and>
    framed b body \<and> (\<forall>v. benc v \<noteq> body)"
proof -
  let ?m = "if q_has_info_hash q = 0 then no_info_hash else no_port"
  let ?r = "httpRender 400 ?m 25 keep (c_socketTimeout s)"
  have a: "announceAnswer os q keep s = respond ?r s" using assms(2) by (auto simp: announceAnswer_def)
  from respond_ok [OF assms(1), of ?r] obtain b st where b: "respond ?r s = Inr (b, s\<lparr>c_stats := st\<rparr>)" by auto
  have "length ?m < 2 ^ 32" by (simp add: no_info_hash_def no_port_def lit_def)
  from respond_failure [OF _ _ this b] have "framed b (failureBody 25 ?m)" by simp
  moreover have "benc v \<noteq> failureBody 25 ?m" for v using no_info_hash_malformed no_port_malformed by simp
  ultimately show ?thesis using a b by auto
qed

section \<open>The settings\<close>

definition settings :: "tcp_state \<Rightarrow> interval \<times> u32 \<times> u16 \<times> byte \<times> bytes" where
  "settings s = (c_interval s, c_maxPeersPerResponse s, c_socketTimeout s, c_keepAlive s, c_authorizationHeader s)"

lemma settings_simps [simp]:
  "settings (s\<lparr>c_torrentList := ts\<rparr>) = settings s" "settings (s\<lparr>c_stats := st\<rparr>) = settings s"
  "settings (s\<lparr>c_actions := as\<rparr>) = settings s" "settings (s\<lparr>c_websockets := ws\<rparr>) = settings s"
  "settings (s\<lparr>c_deleteSocketList := ds\<rparr>) = settings s" "settings (s\<lparr>c_socketList := ls\<rparr>) = settings s"
  "settings (s\<lparr>c_rps := r\<rparr>) = settings s" "settings (addStats f s) = settings s"
  by (simp_all add: settings_def addStats_def)

lemma respond_settings: "respond r s = Inr (b, s') \<Longrightarrow> settings s' = settings s"
  by (auto simp: respond_def bindR_Inr_iff)

lemma sendTo_settings: "sendTo os k m s = Inr s' \<Longrightarrow> settings s' = settings s"
  by (auto simp: sendTo_def bindR_Inr_iff)

lemma sendAll_settings: "sendAll os ms s = Inr s' \<Longrightarrow> settings s' = settings s"
  by (induction os ms s rule: sendAll.induct) (auto simp: bindR_Inr_iff dest: sendTo_settings)

lemma queueDelete_settings: "queueDelete k s = Inr s' \<Longrightarrow> settings s' = settings s"
  by (auto simp: queueDelete_def bindR_Inr_iff)

lemma announceAnswer_settings: "announceAnswer os q keep s = Inr (b, s') \<Longrightarrow> settings s' = settings s"
  by (auto simp: announceAnswer_def bindR_Inr_iff dest!: respond_settings split: if_splits)

lemma announceGet_settings:
  assumes "announceGet env os rb keep s = Inr (b, s')"
  shows "settings s' = settings s"
proof -
  let ?q = "announceQuery env os rb (c_maxPeersPerResponse s)"
  let ?s1 = "addStats (incStat Announce) s"
  obtain b1 s2 where a: "announceAnswer os ?q keep ?s1 = Inr (b1, s2)"
    using assms by (cases "announceAnswer os ?q keep ?s1") (simp_all add: announceGet_def Let_def, fastforce)
  from announceAnswer_settings [OF a] have s2: "settings s2 = settings s" by simp
  show ?thesis
  proof (cases "q_ipVersion ?q AND SOCKET_VERSION_IPV4_BIT = 0")
    case True
    with assms a s2 show ?thesis by (simp add: announceGet_def Let_def)
  next
    case False
    with assms a obtain ws ms where "sendAll os ms (s2\<lparr>c_websockets := ws\<rparr>) = Inr s'"
      by (auto simp: announceGet_def Let_def bindR_Inr_iff)
    from sendAll_settings [OF this] s2 show ?thesis by simp
  qed
qed

lemma apiWebsocket_settings: "apiWebsocket k rb n keep s = Inr (b, w, s') \<Longrightarrow> settings s' = settings s"
  by (auto simp: apiWebsocket_def bindR_Inr_iff dest!: respond_settings split: option.splits)

lemma scrapeGet_settings: "scrapeGet os rb keep s = Inr (b, s') \<Longrightarrow> settings s' = settings s"
  by (auto simp: scrapeGet_def Let_def split_beta bindR_Inr_iff dest!: respond_settings split: if_splits)

lemma fileGet_settings: "fileGet env os rb keep s = Inr (b, s') \<Longrightarrow> settings s' = settings s"
  by (auto simp: fileGet_def Let_def split_beta dest!: respond_settings split: if_splits sum.splits)

lemmas request_settings = respond_settings announceGet_settings apiWebsocket_settings scrapeGet_settings fileGet_settings

text \<open>A request that may change the settings: of the right path, by a script of a page, and with the
password in a header.\<close>

definition set_authorised :: "tcp_os \<Rightarrow> bytes \<Rightarrow> tcp_state \<Rightarrow> bool" where
  "set_authorised os rb s \<longleftrightarrow> startsWith (lit ''GET /api/set'') rb \<and>
     strstr rb (CRLF @ lit ''X-Requested-With: XMLHttpRequest'' @ CRLF) \<noteq> None \<and>
     hasBasic rb (c_authorizationHeader (ensureAuthorization os s))"

definition settings_after :: "tcp_os \<Rightarrow> bytes \<Rightarrow> tcp_state \<Rightarrow> tcp_state" where
  "settings_after os rb s =
     (let s1 = if startsWith (lit ''GET /api/set'') rb then ensureAuthorization os s else s in
      if set_authorised os rb s then applySettings (fst (parseUri (o_pton os) query0 None None rb)) s1 else s1)"

lemma apiSet_settings:
  assumes "apiSet os rb keep s = Inr (b, s')" "startsWith (lit ''GET /api/set'') rb"
  shows "settings s' = settings (settings_after os rb s)"
proof (cases "strstr rb (CRLF @ lit ''X-Requested-With: XMLHttpRequest'' @ CRLF) \<noteq> None \<and>
    hasBasic rb (c_authorizationHeader (ensureAuthorization os s))")
  case True
  from respond_settings [OF assms(1) [unfolded apiSet_cases(1) [OF True]]] True assms(2) show ?thesis
    by (simp add: settings_after_def set_authorised_def Let_def)
next
  case False
  then have "\<not> set_authorised os rb s" by (simp add: set_authorised_def)
  with respond_settings [OF assms(1) [unfolded apiSet_cases(2) [OF False]]] assms(2) show ?thesis
    by (simp add: settings_after_def)
qed

lemma startsWith_shorter:
  assumes "startsWith q rb" "strlen p \<le> strlen q" "take (strlen p) q = take (strlen p) p"
  shows "startsWith p rb"
proof -
  have l: "strlen q \<le> strlen rb" using assms(1) by (auto simp: startsWith_def Let_def split: if_splits)
  have "take (strlen p) (take (strlen q) rb) = take (strlen p) q"
    using startsWith_take [OF assms(1)] assms(2) by (simp add: min_absorb1)
  then have "take (strlen p) rb = take (strlen p) p" using assms(2,3) by (simp add: min_absorb1)
  then show ?thesis
    using l assms(2) strlen_le [of p] strlen_le [of rb] by (auto simp: startsWith_def Let_def memcmp_take)
qed

lemma settings_after_cong: "settings (settings_after os rb (addStats f s)) = settings (settings_after os rb s)"
  by (simp add: settings_after_def set_authorised_def ensureAuthorization_def applySettings_def settings_def addStats_def Let_def)

lemma httpRequest_settings:
  assumes "httpRequest env os k rb n keep s = Inr (b, w, s')"
  shows "settings s' = settings (settings_after os rb s)"
proof (cases "startsWith (lit ''GET /api/set'') rb")
  case True
  have "\<not> startsWith (lit ''GET /announce'') rb"
    using startsWith_differs [OF True, of "lit ''GET /announce''"] by (auto simp: lit_def cstr_def strlen_def)
  with True assms show ?thesis by (auto simp: httpRequest_def Let_def bindR_Inr_iff dest: apiSet_settings)
next
  case False
  then have "settings_after os rb s = s" by (simp add: settings_after_def set_authorised_def)
  with False assms show ?thesis
    by (auto simp: httpRequest_def statsGet_def rootGet_def Let_def bindR_Inr_iff dest!: request_settings split: if_splits)
qed

lemma answerRequest_settings:
  assumes "answerRequest env os k received s = Inr s'"
  shows "settings s' = settings (settings_after os (received @ [0]) s)"
proof -
  let ?rb = "received @ [0]"
  show ?thesis
  proof (cases "startsWith (lit ''GET '') ?rb")
    case True
    with assms show ?thesis
      by (auto simp: answerRequest_def Let_def bindR_Inr_iff settings_after_cong dest!: httpRequest_settings sendTo_settings
          queueDelete_settings split: if_splits)
  next
    case False
    then have "\<not> startsWith (lit ''GET /api/set'') ?rb"
      using startsWith_shorter [of "lit ''GET /api/set''" ?rb "lit ''GET ''"] by (auto simp: lit_def cstr_def strlen_def)
    then have "settings_after os ?rb s = s" by (simp add: settings_after_def set_authorised_def)
    with False assms show ?thesis
      by (auto simp: answerRequest_def Let_def bindR_Inr_iff dest!: respond_settings sendTo_settings
          queueDelete_settings split: if_splits)
  qed
qed

text \<open>C11: The interval, the limit of peers, the timeout and the keep alive flag change only by a request
for /api/set that a script sent and that carries the password, and then as its parameters say; the
password itself is made up at the first such request and never changes again.\<close>

theorem settings_change_authorised:
  assumes "answerRequest env os k received s = Inr s'"
  shows "settings s' = settings (settings_after os (received @ [0]) s) \<and>
    (\<not> set_authorised os (received @ [0]) s \<longrightarrow> c_interval s' = c_interval s \<and>
       c_maxPeersPerResponse s' = c_maxPeersPerResponse s \<and> c_socketTimeout s' = c_socketTimeout s \<and>
       c_keepAlive s' = c_keepAlive s) \<and>
    (c_authorizationHeader s \<noteq> [] \<longrightarrow> c_authorizationHeader s' = c_authorizationHeader s)"
  using answerRequest_settings [OF assms]
  by (auto simp: settings_def settings_after_def ensureAuthorization_def applySettings_def Let_def split: if_splits)

section \<open>The files\<close>

definition servable :: "tcp_args \<Rightarrow> tcp_os \<Rightarrow> bytes \<Rightarrow> bool" where
  "servable env os p \<longleftrightarrow> startsWith (e_webRoot env) p \<and>
     (case o_stat os p of Inl err \<Rightarrow> False | Inr (regular, sz) \<Rightarrow> regular \<and> sz \<le> THREAD_CLIENT_TCP_MAX_FILE_SIZE)"

lemma announceGet_files: "announceGet env (os\<lparr>o_file := f\<rparr>) rb keep s = announceGet env os rb keep s"
proof -
  have s: "sendTo (os\<lparr>o_file := f\<rparr>) = sendTo os" by (intro ext) (simp add: sendTo_def)
  have "sendAll (os\<lparr>o_file := f\<rparr>) ms = sendAll os ms" for ms
  proof (induction ms)
    case (Cons x ms)
    show ?case by (cases x) (simp add: fun_eq_iff s Cons.IH)
  qed (simp add: fun_eq_iff)
  moreover have "announceQuery env (os\<lparr>o_file := f\<rparr>) = announceQuery env os"
    by (intro ext) (simp add: announceQuery_def)
  moreover have "announceAnswer (os\<lparr>o_file := f\<rparr>) = announceAnswer os"
    by (intro ext) (simp add: announceAnswer_def)
  moreover have "o_peername (os\<lparr>o_file := f\<rparr>) = o_peername os" by simp
  ultimately show ?thesis unfolding announceGet_def by presburger
qed

lemma fileGet_files:
  assumes "\<forall>p. servable env os p \<longrightarrow> f p = o_file os p"
  shows "fileGet env (os\<lparr>o_file := f\<rparr>) rb keep s = fileGet env os rb keep s"
proof -
  have "fileBody (os\<lparr>o_file := f\<rparr>) n p = fileBody os n p" if "servable env os p" for n p
    using assms that by (simp add: fileBody_def split: option.split)
  then show ?thesis by (auto simp: fileGet_def servable_def Let_def split_beta split: sum.splits)
qed

lemma other_files:
  "apiSet (os\<lparr>o_file := f\<rparr>) = apiSet os" "scrapeGet (os\<lparr>o_file := f\<rparr>) = scrapeGet os"
  "statsGet env (os\<lparr>o_file := f\<rparr>) = statsGet env os"
  by (intro ext, cases os, simp only: apiSet_def ensureAuthorization_def scrapeGet_def statsGet_def tcp_os.simps)+

lemma fileGet_whole:
  assumes "worker_inv s" "o_realpath os (q_path (fst (parseUri (o_pton os) query0 None None rb))) = Inr absolute"
    "startsWith (e_webRoot env) absolute" "o_stat os absolute = Inr (True, n)" "n \<le> THREAD_CLIENT_TCP_MAX_FILE_SIZE"
    "o_file os absolute = Some content" "n \<le> length content"
  shows "\<exists>b s'. fileGet env os rb keep s = Inr (b, s') \<and> framed b (take n content)"
proof -
  let ?r = "(httpRender 200 (take n content) (of_nat n) keep (c_socketTimeout s))\<lparr>h_contentType := Some (fileType absolute)\<rparr>"
  have u: "unat (of_nat n :: u64) = n" using assms(5)
    by (simp add: unsigned_of_nat take_bit_nat_eq_self THREAD_CLIENT_TCP_MAX_FILE_SIZE_def)
  have f: "fileGet env os rb keep s = respond ?r s"
    using assms(2-7) by (simp add: fileGet_def fileBody_def Let_def split_beta min_absorb2)
  from respond_ok [OF assms(1), of ?r] u assms(7) obtain b st where b: "respond ?r s = Inr (b, s\<lparr>c_stats := st\<rparr>)" by auto
  then obtain r' st2 where r: "renderHttpMessage ?r (c_stats s) = Inr (r', st2)" "b = h_block r'"
    by (auto simp: respond_def bindR_Inr_iff)
  have "header_values_ok ?r" by (simp add: header_values_ok_def fileType_def lit_def)
  moreover have "length (take n content) < 2 ^ 32" using assms(5) by (simp add: THREAD_CLIENT_TCP_MAX_FILE_SIZE_def)
  ultimately show ?thesis using http_framed [OF r(1), of "take n content"] f b r(2) u assms(7) by auto
qed


section \<open>Witnesses\<close>

definition sample_announce :: bytes where
  "sample_announce = lit ''GET /announce?info_hash=aaaaaaaaaaaaaaaaaaaa&port=1 HTTP/1.0''"

definition sample_set :: bytes where
  "sample_set = lit ''GET /api/set HTTP/1.0''"

lemma sample_announce_query:
  "q_has_info_hash (announceQuery sample_args (sample_os r) (sample_announce @ [0]) 200) \<noteq> 0 \<and>
   q_port (announceQuery sample_args (sample_os r) (sample_announce @ [0]) 200) \<noteq> 0 \<and>
   q_info_hash (announceQuery sample_args (sample_os r) (sample_announce @ [0]) 200) = replicate 20 97 \<and>
   q_event (announceQuery sample_args (sample_os r) (sample_announce @ [0]) 200) = URI_EVENT_ID_STARTED"
  by code_simp

theorem tcp_announce_updates_and_reports_witness:
  "\<exists>b s' pid. announceGet sample_args (sample_os []) (sample_announce @ [0]) False sample_worker = Inr (b, s') \<and>
     tracker_map (c_torrentList s') (replicate 20 97) pid \<noteq> None"
proof -
  let ?q = "announceQuery sample_args (sample_os []) (sample_announce @ [0]) (c_maxPeersPerResponse sample_worker)"
  have m: "c_maxPeersPerResponse sample_worker = 200" by (simp add: sample_worker_def)
  have q: "q_has_info_hash ?q \<noteq> 0" "q_port ?q \<noteq> 0" "q_info_hash ?q = replicate 20 97" "q_event ?q = URI_EVENT_ID_STARTED"
    using sample_announce_query [of "[]"] unfolding m by simp_all
  from tcp_announce_updates_and_reports [OF sample_worker_inv sample_os_ok sample_geoip q(1,2), of False] obtain b s' where
    r: "announceGet sample_args (sample_os []) (sample_announce @ [0]) False sample_worker = Inr (b, s')"
    "tracker_map (c_torrentList s') = announced (o_now (sample_os [])) ?q DATA_STRUCTURE_PEER_PROTOCOL_TCP_BIT
       (tracker_map (c_torrentList sample_worker))" by blast
  have "tracker_map (c_torrentList s') (replicate 20 97) (q_peer_id ?q) \<noteq> None"
    unfolding r(2) announced_def q(3,4) by (simp add: URI_EVENT_ID_STARTED_def URI_EVENT_ID_STOPPED_def)
  with r(1) show ?thesis by blast
qed

theorem malformed_announce_answer_witness:
  "\<exists>b s' body. announceAnswer (sample_os []) query0 False sample_worker = Inr (b, s') \<and> framed b body \<and> (\<forall>v. benc v \<noteq> body)"
proof -
  have "q_has_info_hash query0 = 0 \<or> q_port query0 = 0" by (simp add: query0_def)
  from malformed_announce_answer [OF sample_worker_inv this] show ?thesis by blast
qed

theorem settings_change_authorised_witness:
  "\<exists>s'. answerRequest sample_args (sample_os sample_set) 6 sample_set sample_worker = Inr s' \<and>
     c_maxPeersPerResponse s' = 200 \<and> c_socketTimeout s' = 3"
proof -
  from answerRequest_ok [OF sample_worker_inv sample_os_ok sample_geoip] obtain s' where
    r: "answerRequest sample_args (sample_os sample_set) 6 sample_set sample_worker = Inr s'" by blast
  have "strstr (sample_set @ [0]) (CRLF @ lit ''X-Requested-With: XMLHttpRequest'' @ CRLF) = None" by code_simp
  then have "\<not> set_authorised (sample_os sample_set) (sample_set @ [0]) sample_worker" by (simp add: set_authorised_def)
  with settings_change_authorised [OF r] r show ?thesis by (simp add: sample_worker_def)
qed


end
