(* ===== verification/Tcp_Worker.thy ===== *)
theory Tcp_Worker
  imports Tcp_Service
begin

text \<open>
  A turn of the TCP worker (thread\_client\_tcp.c, clientTcpHandler): the events of the equeue one
  after the other, each under the lock of its socket, then the deletion of the sockets that were
  queued for it.
\<close>

section \<open>A turn of the worker\<close>

text \<open>The peer has gone: the equeue says so, or there is nothing left to read, or reading fails.\<close>

definition gone :: "tcp_event \<Rightarrow> tcp_os \<Rightarrow> bool" where
  "gone ev os \<longleftrightarrow> (case ev of Eof \<Rightarrow> True
     | Readable \<Rightarrow> (case o_peek os of Tcp_error e \<Rightarrow> True | Tcp_data peeked \<Rightarrow> peeked = [])
     | Other_event \<Rightarrow> False)"

lemma queueDelete_marks:
  assumes "worker_inv s" "queueDelete k s = Inr t"
  shows "k \<in> marked t"
  using queueDelete_ok [OF assms(1), of k] assms(2) by auto

lemma processRead_gone:
  assumes "worker_inv s" "os_ok os" "gone Readable os" "processRead env os k s = Inr t"
  shows "k \<in> marked t"
proof (cases "o_peek os")
  case (Tcp_error e)
  have "0 \<le> e" using assms(2) Tcp_error by (simp add: os_ok_def)
  moreover have "handled k s [] s" using assms(1) by (auto simp: handled_def)
  ultimately obtain u where u: "recvErrno e s = Inr u" "handled k s [] u" using recvErrno_handled by blast
  let ?f = "\<lambda>st. incStat Recv_failed_read_sub_0 (incStat Recv_failed st)"
  have "worker_inv (addStats ?f u)" using addStats_handled [OF u(2), of ?f] by (simp add: handled_def)
  moreover have "queueDelete k (addStats ?f u) = Inr t" using assms(4) u(1) Tcp_error by (simp add: processRead_def)
  ultimately show ?thesis by (rule queueDelete_marks)
next
  case (Tcp_data peeked)
  then have "peeked = []" using assms(3) by (simp add: gone_def)
  then have "queueDelete k (addStats (incStat Recv_failed_read_0) s) = Inr t"
    using assms(4) Tcp_data by (simp add: processRead_def THREAD_CLIENT_TCP_RECEIVED_MESSAGE_LENGTH_def)
  moreover have "worker_inv (addStats (incStat Recv_failed_read_0) s)" using assms(1) by (simp add: addStats_def worker_inv_def)
  ultimately show ?thesis by (intro queueDelete_marks)
qed

lemma eventStep_ok:
  assumes "worker_inv s" "sockets_at v (c_socketList s)" "os_ok os" "geoip_ready (e_geoip env)"
  shows "\<exists>ms s'. eventStep env (k, ev, os) s = Inr s' \<and> worker_inv s' \<and> sockets_at v (c_socketList s') \<and>
    dom (sockets (c_socketList s')) = dom (sockets (c_socketList s)) \<and> c_actions s' = c_actions s @ sends ms \<and>
    marked s \<subseteq> marked s' \<and> marked s' \<subseteq> marked s \<union> ({k} \<inter> dom (sockets (c_socketList s))) \<and>
    (gone ev os \<and> k \<in> dom (sockets (c_socketList s)) \<longrightarrow> k \<in> marked s')"
proof -
  let ?sl = "c_socketList s"
  from gl.lock_ok [OF sockets_at_store(1-3) [OF assms(2)]] obtain l1 where l1: "lockLeaf ?sl (mem32 k) = Inr l1" ..
  have get: "getHash l1 (mem32 k) = Inr (map_option (Pair (mem32 k)) (map_of (allItems ?sl) (mem32 k)))"
    using locked_getHash [OF l1] getHash_map_of [OF sockets_at_store(1,3) [OF assms(2)], of k] by simp
  let ?s1 = "s\<lparr>c_socketList := l1\<rparr>"
  have inv1: "worker_inv ?s1" "marked ?s1 = marked s" "c_actions ?s1 = c_actions s"
    using assms(1) by (simp_all add: worker_inv_def marked_def)
  have fin: ?thesis
    if "(if map_of (allItems ?sl) (mem32 k) = None then Inr ?s1
         else case ev of Eof \<Rightarrow> queueDelete k ?s1 | Readable \<Rightarrow> processRead env os k ?s1 | Other_event \<Rightarrow> Inr ?s1) = Inr t"
      "worker_inv t" "c_actions t = c_actions s @ sends ms" "lockLeaf sl' (mem32 k) = Inr (c_socketList t)" "sockets_at v sl'"
      "dom (sockets sl') = dom (sockets ?sl)" "marked s \<subseteq> marked t" "marked t \<subseteq> marked s \<union> ({k} \<inter> dom (sockets ?sl))"
      "gone ev os \<and> k \<in> dom (sockets ?sl) \<longrightarrow> k \<in> marked t" for t ms sl'
  proof -
    have "eventStep env (k, ev, os) s = Inr (t\<lparr>c_socketList := sl'\<rparr>)"
      using l1 get that(1) locked_unlock [OF that(4)] by (simp add: eventStep_def map_option_is_None)
    with that(2,3,5-9) show ?thesis
      by (intro exI [of _ ms] exI [of _ "t\<lparr>c_socketList := sl'\<rparr>"]) (simp add: worker_inv_def marked_def)
  qed
  show ?thesis
  proof (cases "map_of (allItems ?sl) (mem32 k)")
    case None
    then have "k \<notin> dom (sockets ?sl)" by (simp add: sockets_def domIff)
    with None show ?thesis using l1 assms(2) inv1 by (intro fin [of ?s1 "[]" ?sl]) simp_all
  next
    case (Some d)
    from sockets_Some [OF assms(2) Some] have dom: "k \<in> dom (sockets ?sl)" by blast
    show ?thesis
    proof (cases ev)
      case Eof
      from queueDelete_ok [OF inv1(1), of k] obtain t where t: "queueDelete k ?s1 = Inr t" "worker_inv t"
        "c_socketList t = l1" "c_actions t = c_actions s" "marked t = insert k (marked s)" unfolding inv1 by auto
      show ?thesis by (rule fin [of t "[]" ?sl]) (use Some Eof t l1 assms(2) dom in auto)
    next
      case Readable
      have "lockLeaf ?sl (mem32 k) = Inr (c_socketList ?s1)" using l1 by simp
      from processRead_ok [OF inv1(1) assms(3,4,2) this dom] obtain ms t sl' where t:
        "processRead env os k ?s1 = Inr t" "handled k ?s1 ms t" "lockLeaf sl' (mem32 k) = Inr (c_socketList t)"
        "sockets_at v sl'" "dom (sockets sl') = dom (sockets ?sl)" by blast
      have "gone ev os \<longrightarrow> k \<in> marked t" using processRead_gone [OF inv1(1) assms(3) _ t(1)] Readable by simp
      then show ?thesis by (intro fin [of t ms sl']) (use Some Readable t dom inv1 in \<open>auto simp: handled_def\<close>)
    next
      case Other_event
      then show ?thesis using Some l1 assms(2) inv1 by (intro fin [of ?s1 "[]" ?sl]) (simp_all add: gone_def)
    qed
  qed
qed

lemma eventLoop_ok:
  assumes "worker_inv s" "sockets_at v (c_socketList s)" "\<forall>(k, ev, os) \<in> set events. os_ok os" "geoip_ready (e_geoip env)"
  shows "\<exists>ms s'. eventLoop env events s = Inr s' \<and> worker_inv s' \<and> sockets_at v (c_socketList s') \<and>
    dom (sockets (c_socketList s')) = dom (sockets (c_socketList s)) \<and> c_actions s' = c_actions s @ sends ms \<and>
    marked s \<subseteq> marked s' \<and> marked s' \<subseteq> marked s \<union> (fst ` set events \<inter> dom (sockets (c_socketList s))) \<and>
    (\<forall>(k, ev, os) \<in> set events. gone ev os \<and> k \<in> dom (sockets (c_socketList s)) \<longrightarrow> k \<in> marked s')"
  using assms(1-3)
proof (induction events arbitrary: s)
  case Nil
  then show ?case by (intro exI [of _ "[]"] exI [of _ s]) simp
next
  case (Cons e events)
  obtain k ev os where e: "e = (k, ev, os)" by (cases e)
  have "os_ok os" using Cons.prems(3) e by simp
  from eventStep_ok [OF Cons.prems(1,2) this assms(4), of k ev] obtain ms1 s1 where s1:
    "eventStep env e s = Inr s1" "worker_inv s1" "sockets_at v (c_socketList s1)"
    "dom (sockets (c_socketList s1)) = dom (sockets (c_socketList s))" "c_actions s1 = c_actions s @ sends ms1"
    "marked s \<subseteq> marked s1" "marked s1 \<subseteq> marked s \<union> ({k} \<inter> dom (sockets (c_socketList s)))"
    "gone ev os \<and> k \<in> dom (sockets (c_socketList s)) \<longrightarrow> k \<in> marked s1" unfolding e by blast
  have "\<forall>(k, ev, os) \<in> set events. os_ok os" using Cons.prems(3) by simp
  from Cons.IH [OF s1(2,3) this] obtain ms2 s2 where s2:
    "eventLoop env events s1 = Inr s2" "worker_inv s2" "sockets_at v (c_socketList s2)"
    "dom (sockets (c_socketList s2)) = dom (sockets (c_socketList s1))" "c_actions s2 = c_actions s1 @ sends ms2"
    "marked s1 \<subseteq> marked s2" "marked s2 \<subseteq> marked s1 \<union> (fst ` set events \<inter> dom (sockets (c_socketList s1)))"
    "\<forall>(k, ev, os) \<in> set events. gone ev os \<and> k \<in> dom (sockets (c_socketList s1)) \<longrightarrow> k \<in> marked s2" by blast
  have "marked s2 \<subseteq> marked s \<union> (fst ` set (e # events) \<inter> dom (sockets (c_socketList s)))"
    using s1(7) s2(7) unfolding s1(4) by (auto simp: e)
  moreover have "\<forall>(k, ev, os) \<in> set (e # events). gone ev os \<and> k \<in> dom (sockets (c_socketList s)) \<longrightarrow> k \<in> marked s2"
    using s1(8) s2(6,8) unfolding s1(4) by (auto simp: e)
  ultimately show ?case using s1(1,4,5,6) s2(1-6) by (intro exI [of _ "ms1 @ ms2"] exI [of _ s2]) auto
qed

text \<open>The interval after the requests of a turn: that of the last one that set it.\<close>

definition interval_kept :: "tcp_state \<Rightarrow> tcp_state \<Rightarrow> bool" where
  "interval_kept s s' \<longleftrightarrow> (\<exists>vs. c_interval s' = foldl forceUpdateInterval (c_interval s) vs)"

lemma interval_kept_same: "c_interval s' = c_interval s \<Longrightarrow> interval_kept s s'"
  unfolding interval_kept_def by (intro exI [of _ "[]"]) simp

lemma interval_kept_trans: "interval_kept s t \<Longrightarrow> interval_kept t u \<Longrightarrow> interval_kept s u"
  unfolding interval_kept_def by (metis foldl_append)

lemma interval_kept_settings: "settings s' = settings s \<Longrightarrow> interval_kept s s'"
  by (intro interval_kept_same) (simp add: settings_def)

lemma answerRequest_interval:
  assumes "answerRequest env os k received s = Inr s'"
  shows "interval_kept s s'"
proof -
  have "c_interval s' = c_interval (settings_after os (received @ [0]) s)"
    using answerRequest_settings [OF assms] by (simp add: settings_def)
  moreover have "c_interval (settings_after os rb s) = c_interval s \<or>
      (\<exists>v. c_interval (settings_after os rb s) = forceUpdateInterval (c_interval s) v)" for rb
    by (auto simp: settings_after_def Let_def applySettings_def ensureAuthorization_def)
  ultimately obtain v where "c_interval s' = c_interval s \<or> c_interval s' = forceUpdateInterval (c_interval s) v" by metis
  then show ?thesis
  proof
    assume "c_interval s' = forceUpdateInterval (c_interval s) v"
    then show ?thesis unfolding interval_kept_def by (intro exI [of _ "[v]"]) simp
  qed (rule interval_kept_same)
qed

lemma recvErrno_settings: "recvErrno e s = Inr s' \<Longrightarrow> settings s' = settings s"
  by (auto simp: recvErrno_def bindR_Inr_iff)

lemma takeRequest_interval:
  assumes "takeRequest env os k n w s = Inr s'"
  shows "interval_kept s s'"
  using assms
  by (auto simp: takeRequest_def Let_def bindR_Inr_iff split: tcp_recv.splits if_splits
      dest!: queueDelete_settings recvErrno_settings intro: interval_kept_settings answerRequest_interval)

lemma processRead_interval:
  assumes "processRead env os k s = Inr s'"
  shows "interval_kept s s'"
proof (cases "o_peek os")
  case (Tcp_error e)
  with assms show ?thesis
    by (auto simp: processRead_def bindR_Inr_iff dest!: queueDelete_settings recvErrno_settings intro: interval_kept_settings)
next
  case (Tcp_data peeked)
  show ?thesis
  proof (cases "THREAD_CLIENT_TCP_RECEIVED_MESSAGE_LENGTH \<le> length peeked \<or> peeked = []")
    case True
    with Tcp_data assms show ?thesis
      by (auto simp: processRead_def bindR_Inr_iff dest!: queueDelete_settings respond_settings sendTo_settings
          intro: interval_kept_settings split: if_splits)
  next
    case False
    with Tcp_data assms obtain ws w where s: "s' = s\<lparr>c_websockets := ws\<rparr> \<or> (\<exists>r sl.
        takeRequest env os k (length peeked) w (s\<lparr>c_websockets := ws, c_rps := r, c_socketList := sl\<rparr>) = Inr s')"
      by (auto simp: processRead_def Let_def bindR_Inr_iff split: if_splits)
    then show ?thesis
    proof (elim disjE exE)
      fix r sl
      assume "takeRequest env os k (length peeked) w (s\<lparr>c_websockets := ws, c_rps := r, c_socketList := sl\<rparr>) = Inr s'"
      from takeRequest_interval [OF this] show ?thesis by (simp add: interval_kept_def)
    qed (simp add: interval_kept_same)
  qed
qed

lemma eventStep_interval:
  assumes "eventStep env e s = Inr s'"
  shows "interval_kept s s'"
proof -
  obtain k ev os where e: "e = (k, ev, os)" by (cases e)
  from assms obtain l1 and item :: "socketData item option" and t l2 where t: "(if item = None then Inr (s\<lparr>c_socketList := l1\<rparr>)
       else case ev of Eof \<Rightarrow> queueDelete k (s\<lparr>c_socketList := l1\<rparr>)
         | Readable \<Rightarrow> processRead env os k (s\<lparr>c_socketList := l1\<rparr>)
         | Other_event \<Rightarrow> Inr (s\<lparr>c_socketList := l1\<rparr>)) = Inr t" "s' = t\<lparr>c_socketList := l2\<rparr>"
    unfolding eventStep_def e prod.case bindR_Inr_iff by blast
  have "interval_kept (s\<lparr>c_socketList := l1\<rparr>) t"
    using t(1) by (cases "item = None"; cases ev)
      (auto intro: interval_kept_same processRead_interval interval_kept_settings [OF queueDelete_settings])
  then show ?thesis unfolding t(2) by (simp add: interval_kept_def)
qed

lemma eventLoop_interval: "eventLoop env events s = Inr s' \<Longrightarrow> interval_kept s s'"
  by (induction env events s rule: eventLoop.induct)
    (auto simp: bindR_Inr_iff interval_kept_same intro: interval_kept_trans eventStep_interval)

text \<open>What is done to a socket that is closed: off its equeue, then closed.\<close>

definition closes :: "u32 list \<Rightarrow> (u32 \<Rightarrow> u32) \<Rightarrow> os_action list" where
  "closes ks equeueOf = concat (map (\<lambda>k. [Unwatch (equeueOf k) k, Close k]) ks)"

lemma sockets_filter:
  assumes "allItems sl' = filter (\<lambda>x. fst x \<noteq> mem32 k) (allItems sl)"
  shows "sockets sl' = (sockets sl)(k := None)"
proof
  fix j
  have "map_of (filter (\<lambda>x. fst x \<noteq> mem32 k) xs) h = (if h = mem32 k then None else map_of xs h)" for xs :: "socketData item list" and h
    by (induction xs) auto
  then show "sockets sl' j = ((sockets sl)(k := None)) j" by (simp add: sockets_def assms)
qed

lemma delete_items:
  assumes "worker_inv s" "sockets_at v (c_socketList s)" "\<forall>j e. closeErr j = Some e \<longrightarrow> 0 \<le> e"
    "\<forall>k \<in> set ks. k \<in> dom (sockets (c_socketList s))" "distinct ks" "map fst xs = map mem32 ks"
  shows "\<exists>s'. mapItems (deleteSocketListCallback closeErr) p s xs = Inr ([], s', False) \<and>
    worker_inv s' \<and> sockets_at v (c_socketList s') \<and> c_deleteSocketList s' = c_deleteSocketList s \<and>
    c_actions s' = c_actions s @ closes ks (\<lambda>k. s_equeue (the (sockets (c_socketList s) k))) \<and>
    sockets (c_socketList s') = sockets (c_socketList s) |` (- set ks) \<and>
    allItems (c_websockets s') = filter (\<lambda>x. fst x \<notin> mem32 ` set ks) (allItems (c_websockets s)) \<and>
    settings s' = settings s"
  using assms(1,2,4-6)
proof (induction ks arbitrary: s xs)
  case Nil
  then show ?case by (intro exI [of _ s]) (simp add: closes_def)
next
  case (Cons k ks)
  obtain d xs' where xs: "xs = (mem32 k, d) # xs'" "map fst xs' = map mem32 ks" using Cons.prems(5) by (cases xs) auto
  have w: "wf_stats (c_stats s)" "wf_websockets (c_websockets s)" using Cons.prems(1) by (simp_all add: worker_inv_def)
  obtain sd where sd: "sockets (c_socketList s) k = Some sd" using Cons.prems(3) by auto
  from deleteSocketL_ok [OF Cons.prems(2) w(1) assms(3), of k] obtain sl st where del:
    "deleteSocketL closeErr (c_socketList s) k (c_stats s) = Inr (sl, st, [Unwatch (s_equeue sd) k, Close k])"
    "sockets_at v sl" "wf_stats st" "allItems sl = filter (\<lambda>x. fst x \<noteq> mem32 k) (allItems (c_socketList s))"
    unfolding sd by auto
  from deleteWebsocket_ok [OF w(2), of k] obtain ws where ws: "deleteWebsocket (c_websockets s) k = Inr ws" "wf_websockets ws"
    "allItems ws = filter (\<lambda>x. fst x \<noteq> mem32 k) (allItems (c_websockets s))" by blast
  let ?t = "s\<lparr>c_socketList := sl, c_stats := st, c_websockets := ws,
    c_actions := c_actions s @ [Unwatch (s_equeue sd) k, Close k]\<rparr>"
  have cb: "deleteSocketListCallback closeErr p (mem32 k) d s = Inr (Remove, ?t, False)"
    using del(1) ws(1) by (simp add: deleteSocketListCallback_def Let_def)
  have sl: "sockets sl = (sockets (c_socketList s))(k := None)" by (rule sockets_filter [OF del(4)])
  have t: "worker_inv ?t" "sockets_at v (c_socketList ?t)" "\<forall>j \<in> set ks. j \<in> dom (sockets (c_socketList ?t))" "distinct ks"
    using Cons.prems del(2,3) ws(2) sl by (auto simp: worker_inv_def)
  from Cons.IH [OF t xs(2)] obtain s' where IH:
    "mapItems (deleteSocketListCallback closeErr) p ?t xs' = Inr ([], s', False)"
    "worker_inv s'" "sockets_at v (c_socketList s')" "c_deleteSocketList s' = c_deleteSocketList s"
    "c_actions s' = c_actions ?t @ closes ks (\<lambda>k. s_equeue (the (sockets sl k)))"
    "sockets (c_socketList s') = sockets sl |` (- set ks)"
    "allItems (c_websockets s') = filter (\<lambda>x. fst x \<notin> mem32 ` set ks) (allItems ws)" "settings s' = settings s" by auto
  have "closes ks (\<lambda>k. s_equeue (the (sockets sl k))) = closes ks (\<lambda>k. s_equeue (the (sockets (c_socketList s) k)))"
    unfolding closes_def sl using Cons.prems(4) by (intro arg_cong [of _ _ concat] map_cong) auto
  moreover have "sockets sl |` (- set ks) = sockets (c_socketList s) |` (- set (k # ks))"
    by (auto simp: sl restrict_map_def fun_eq_iff)
  moreover have "filter (\<lambda>x. fst x \<notin> mem32 ` set ks) (allItems ws) =
      filter (\<lambda>x. fst x \<notin> mem32 ` set (k # ks)) (allItems (c_websockets s))"
    unfolding ws(3) filter_filter by (intro filter_cong) auto
  ultimately show ?case
    using IH cb sd by (intro exI [of _ s']) (simp add: closes_def xs)
qed

lemma deletion_ok:
  assumes "worker_inv s" "sockets_at v (c_socketList s)" "\<forall>j e. closeErr j = Some e \<longrightarrow> 0 \<le> e"
    "marked s \<subseteq> dom (sockets (c_socketList s))"
  shows "\<exists>ks dl s'. mapList (deleteSocketListCallback closeErr) [] s (c_deleteSocketList s) = Inr (dl, s', False) \<and>
    allItems dl = [] \<and> wf_websockets dl \<and> worker_inv s' \<and> sockets_at v (c_socketList s') \<and> distinct ks \<and> set ks = marked s \<and>
    c_actions s' = c_actions s @ closes ks (\<lambda>k. s_equeue (the (sockets (c_socketList s) k))) \<and>
    sockets (c_socketList s') = sockets (c_socketList s) |` (- set ks) \<and>
    allItems (c_websockets s') = filter (\<lambda>x. fst x \<notin> mem32 ` set ks) (allItems (c_websockets s)) \<and>
    settings s' = settings s"
proof -
  let ?dl = "c_deleteSocketList s" and ?cb = "deleteSocketListCallback closeErr"
  let ?xs = "allItems ?dl" let ?ks = "map (\<lambda>x. rd32 (fst x) 0) ?xs"
  have w: "wf_hlist ?dl" "leaves_free ?dl" "level ?dl = 0" "hashLength ?dl = 4"
    using assms(1) by (simp_all add: worker_inv_def wf_websockets_def)
  have four: "length (fst x) = 4" if "x \<in> set ?xs" for x
    using wf_hlist_length [OF w(1), of "fst x"] that w(4) by simp
  have keys: "map fst ?xs = map mem32 ?ks"
    using four by (simp add: mem32_rd32_length)
  have dk: "distinct ?ks"
    using wf_hlist_distinct [OF w(1)] unfolding keys distinct_map [of mem32] by blast
  have mk: "set ?ks = marked s"
    using arg_cong [OF keys, of set] by (auto simp: marked_def mem32_inject image_iff)
  have "\<forall>k \<in> set ?ks. k \<in> dom (sockets (c_socketList s))" using assms(4) unfolding mk by blast
  from delete_items [OF assms(1-3) this dk keys, of "[]"] obtain s' where s':
    "mapItems ?cb [] s ?xs = Inr ([], s', False)"
    "worker_inv s'" "sockets_at v (c_socketList s')"
    "c_actions s' = c_actions s @ closes ?ks (\<lambda>k. s_equeue (the (sockets (c_socketList s) k)))"
    "sockets (c_socketList s') = sockets (c_socketList s) |` (- set ?ks)"
    "allItems (c_websockets s') = filter (\<lambda>x. fst x \<notin> mem32 ` set ?ks) (allItems (c_websockets s))"
    "settings s' = settings s" by blast
  have cb: "?cb q k d u = ?cb [] k d u" for q k d u by (simp add: deleteSocketListCallback_def)
  from mapList_flat [OF w(1,2) cb s'(1), of "[]"] obtain dl where "mapList ?cb [] s ?dl = Inr (dl, s', False)"
    "allItems dl = []" "wf_hlist dl" "leaves_free dl" "same_params ?dl dl" by blast
  with s' dk mk w show ?thesis
    by (intro exI [of _ ?ks] exI [of _ dl] exI [of _ s']) (simp add: wf_websockets_def same_params_def)
qed

text \<open>The sockets of the events, and the semaphore of the list given back: a whole turn.\<close>

lemma clientTcpHandler_ok:
  assumes "worker_inv s" "wf_sockets (c_socketList s)" "allItems (c_deleteSocketList s) = []" "geoip_ready (e_geoip env)"
    "\<forall>(k, ev, os) \<in> set events. os_ok os" "\<forall>j e. closeErr j = Some e \<longrightarrow> 0 \<le> e"
  shows "\<exists>ms ks equeueOf s'. clientTcpHandler env closeErr events s = Inr s' \<and> worker_inv s' \<and>
    wf_sockets (c_socketList s') \<and> allItems (c_deleteSocketList s') = [] \<and>
    distinct ks \<and> set ks \<subseteq> fst ` set events \<inter> dom (sockets (c_socketList s)) \<and>
    (\<forall>(k, ev, os) \<in> set events. gone ev os \<and> k \<in> dom (sockets (c_socketList s)) \<longrightarrow> k \<in> set ks) \<and>
    c_actions s' = c_actions s @ sends ms @ closes ks equeueOf \<and>
    dom (sockets (c_socketList s')) = dom (sockets (c_socketList s)) - set ks \<and>
    (\<forall>k \<in> set ks. mem32 k \<notin> keys (allItems (c_websockets s'))) \<and> interval_kept s s'"
proof -
  from assms(2) obtain v where v: "sockets_at (Suc v) (c_socketList s)" by (auto simp: wf_sockets_def)
  from sockets_wait [OF v] obtain l1 where l1: "waitSemaphoreLeaf (c_socketList s) = Inr l1" "sockets_at v l1"
    "allItems l1 = allItems (c_socketList s)" by blast
  let ?s1 = "s\<lparr>c_socketList := l1\<rparr>"
  have s1: "worker_inv ?s1" "sockets_at v (c_socketList ?s1)" "marked ?s1 = {}"
    "sockets (c_socketList ?s1) = sockets (c_socketList s)"
    using assms(1,3) l1(2,3) by (simp_all add: worker_inv_def marked_def sockets_def fun_eq_iff)
  from eventLoop_ok [OF s1(1,2) assms(5,4)] obtain ms s2 where s2: "eventLoop env events ?s1 = Inr s2" "worker_inv s2"
    "sockets_at v (c_socketList s2)" "dom (sockets (c_socketList s2)) = dom (sockets (c_socketList s))"
    "c_actions s2 = c_actions s @ sends ms"
    "marked s2 \<subseteq> fst ` set events \<inter> dom (sockets (c_socketList s))"
    "\<forall>(k, ev, os) \<in> set events. gone ev os \<and> k \<in> dom (sockets (c_socketList s)) \<longrightarrow> k \<in> marked s2"
    unfolding s1(3,4) by auto
  have "marked s2 \<subseteq> dom (sockets (c_socketList s2))" using s2(4,6) by blast
  from deletion_ok [OF s2(2,3) assms(6) this] obtain ks dl s3 where
    s3: "mapList (deleteSocketListCallback closeErr) [] s2 (c_deleteSocketList s2) = Inr (dl, s3, False)"
    "allItems dl = []" "wf_websockets dl" "worker_inv s3" "sockets_at v (c_socketList s3)" "distinct ks" "set ks = marked s2"
    "c_actions s3 = c_actions s2 @ closes ks (\<lambda>k. s_equeue (the (sockets (c_socketList s2) k)))"
    "sockets (c_socketList s3) = sockets (c_socketList s2) |` (- set ks)"
    "allItems (c_websockets s3) = filter (\<lambda>x. fst x \<notin> mem32 ` set ks) (allItems (c_websockets s2))"
    "settings s3 = settings s2" by blast
  let ?s4 = "if events = [] then s2 else s3\<lparr>c_deleteSocketList := dl\<rparr>"
  have s4: "worker_inv ?s4" "sockets_at v (c_socketList ?s4)" "allItems (c_deleteSocketList ?s4) = []"
    "c_actions ?s4 = c_actions s @ sends ms @ closes ks (\<lambda>k. s_equeue (the (sockets (c_socketList s2) k)))"
    "dom (sockets (c_socketList ?s4)) = dom (sockets (c_socketList s)) - set ks"
    "\<forall>k \<in> set ks. mem32 k \<notin> keys (allItems (c_websockets ?s4))"
  proof -
    have none: "set ks = {}" "allItems (c_deleteSocketList s2) = []" if "events = []"
      using that s2(1,6) s3(7) assms(3) by auto
    show "worker_inv ?s4" "sockets_at v (c_socketList ?s4)"
      using s2(2,3) s3(3-5) by (auto simp: worker_inv_def)
    show "allItems (c_deleteSocketList ?s4) = []" using s3(2) none(2) by simp
    show "c_actions ?s4 = c_actions s @ sends ms @ closes ks (\<lambda>k. s_equeue (the (sockets (c_socketList s2) k)))"
      using s2(5) s3(8) none(1) by (simp add: closes_def)
    show "dom (sockets (c_socketList ?s4)) = dom (sockets (c_socketList s)) - set ks"
      using s2(4) s3(9) none(1) by (simp add: Diff_eq)
    show "\<forall>k \<in> set ks. mem32 k \<notin> keys (allItems (c_websockets ?s4))"
      using s3(10) none(1) by auto
  qed
  have kept: "interval_kept s ?s4"
  proof -
    have "interval_kept s s2" using eventLoop_interval [OF s2(1)] by (simp add: interval_kept_def)
    then show ?thesis using s3(11) by (simp add: interval_kept_def settings_def)
  qed
  from sockets_post [OF s4(2)] obtain l5 where l5: "postSemaphoreLeaf (c_socketList ?s4) = Inr l5" "sockets_at (Suc v) l5"
    "allItems l5 = allItems (c_socketList ?s4)" by blast
  let ?s5 = "?s4\<lparr>c_socketList := l5\<rparr>"
  have "clientTcpHandler env closeErr events s = Inr ?s5"
    using l1(1) s2(1) s3(1) l5(1) by (cases "events = []") (auto simp: clientTcpHandler_def)
  moreover have "worker_inv ?s5" using s4(1) by (simp add: worker_inv_def)
  moreover have "wf_sockets (c_socketList ?s5)" using l5(2) by (auto simp: wf_sockets_def)
  moreover have "sockets (c_socketList ?s5) = sockets (c_socketList ?s4)" using l5(3) by (simp add: sockets_def fun_eq_iff)
  moreover have "set ks \<subseteq> fst ` set events \<inter> dom (sockets (c_socketList s))" using s3(7) s2(6) by simp
  moreover have "\<forall>(k, ev, os) \<in> set events. gone ev os \<and> k \<in> dom (sockets (c_socketList s)) \<longrightarrow> k \<in> set ks"
    using s2(7) unfolding s3(7) .
  moreover have "interval_kept s ?s5" using kept by (simp add: interval_kept_def)
  ultimately show ?thesis
    using s4(3-6) s3(6) by (intro exI [of _ ms] exI [of _ ks] exI [of _ "\<lambda>k. s_equeue (the (sockets (c_socketList s2) k))"] exI [of _ ?s5]) simp
qed

section \<open>The property\<close>

text \<open>C5: A turn of a TCP worker never fails, whatever the events: the tracker, the counters and the list
of sockets keep their invariants and the semaphore of the list is given back. All answers go out
before the first socket is closed; the sockets closed are among those of the events that the worker
owns, include every one whose peer has gone (the equeue says so, or the read ends or fails), and each is closed once, after it is taken off its
equeue; afterwards it is in the list of the worker no more, nor among the websockets, and the list
of sockets to delete is empty.\<close>

theorem tcp_worker_turn:
  assumes "worker_inv s" "wf_sockets (c_socketList s)" "allItems (c_deleteSocketList s) = []" "geoip_ready (e_geoip env)"
    "\<forall>(k, ev, os) \<in> set events. os_ok os" "\<forall>j e. closeErr j = Some e \<longrightarrow> 0 \<le> e"
  shows "\<exists>ms ks equeueOf s'. clientTcpHandler env closeErr events s = Inr s' \<and> worker_inv s' \<and>
    wf_sockets (c_socketList s') \<and> allItems (c_deleteSocketList s') = [] \<and>
    distinct ks \<and> set ks \<subseteq> fst ` set events \<inter> dom (sockets (c_socketList s)) \<and>
    (\<forall>(k, ev, os) \<in> set events. gone ev os \<and> k \<in> dom (sockets (c_socketList s)) \<longrightarrow> k \<in> set ks) \<and>
    c_actions s' = c_actions s @ sends ms @ closes ks equeueOf \<and>
    dom (sockets (c_socketList s')) = dom (sockets (c_socketList s)) - set ks \<and>
    (\<forall>k \<in> set ks. mem32 k \<notin> keys (allItems (c_websockets s')))"
  using clientTcpHandler_ok [OF assms] by blast

theorem tcp_worker_turn_witness:
  "\<exists>ms e s'. clientTcpHandler sample_args (\<lambda>_. None) [(5, Eof, sample_os [])] sample_worker = Inr s' \<and>
     c_actions s' = sends ms @ [Unwatch e 5, Close 5] \<and> sockets (c_socketList s') 5 = None"
proof -
  have d: "allItems (c_deleteSocketList sample_worker) = []" by (simp add: sample_worker_def allItems.simps)
  have w: "wf_sockets (c_socketList sample_worker)" by (simp add: sample_worker_def sample_sockets_ok)
  have os: "\<forall>(k, ev, os) \<in> set [(5 :: u32, Eof, sample_os [])]. os_ok os" by (simp add: sample_os_ok)
  have c: "\<forall>j e. (\<lambda>_. None) (j :: u32) = Some e \<longrightarrow> (0 :: int) \<le> e" by simp
  have mem: "5 \<in> dom (sockets (c_socketList sample_worker))"
    by (simp add: sample_worker_def sockets_def sample_sockets_ok(2) mem32_def domIff)
  have g: "gone Eof (sample_os [])" by (simp add: gone_def)
  from tcp_worker_turn [OF sample_worker_inv w d sample_geoip os c] mem g obtain ms ks equeueOf s' where
    r: "clientTcpHandler sample_args (\<lambda>_. None) [(5, Eof, sample_os [])] sample_worker = Inr s'" "distinct ks"
    "set ks \<subseteq> {5}" "5 \<in> set ks" "c_actions s' = c_actions sample_worker @ sends ms @ closes ks equeueOf"
    "dom (sockets (c_socketList s')) = dom (sockets (c_socketList sample_worker)) - set ks" by auto
  have "ks = [5]" using r(2-4) by (cases ks; cases "tl ks") auto
  moreover have "5 \<notin> dom (sockets (c_socketList s'))" using r(6) r(4) by blast
  ultimately show ?thesis using r(1,5)
    by (intro exI [of _ ms] exI [of _ "equeueOf 5"] exI [of _ s']) (simp add: closes_def sample_worker_def domIff)
qed

end
