(* ===== verification/Udp_Request.thy ===== *)
theory Udp_Request
  imports Block_Buffer
begin

text \<open>
  The queue of received datagrams between the UDP listener and its workers (udp\_request.h,
  udp\_request.c), a singly linked list with a pointer to each end. The requests live in a heap
  from addresses to structures, a pointer is an address or None for NULL; calloc hands out
  addresses never used before. A block and a socket address are the bytes they hold.
\<close>

type_synonym addr = nat

record udpRequest =
  ur_block :: bytes
  ur_clientAddr :: bytes
  ur_receiveCount :: u32
  ur_next :: "addr option"

record udp_queue =
  uq_heap :: "addr \<Rightarrow> udpRequest option"
  uq_brk :: addr
  uq_first :: "addr option"
  uq_last :: "addr option"

text \<open>The two NULL pointers of the listener.\<close>

definition udp_queue0 :: udp_queue where
  "udp_queue0 = \<lparr>uq_heap = (\<lambda>_. None), uq_brk = 0, uq_first = None, uq_last = None\<rparr>"

definition addUdpRequest :: "udp_queue \<Rightarrow> bytes \<Rightarrow> bytes \<Rightarrow> u32 \<Rightarrow> udp_queue res" where
  "addUdpRequest q clientAddr block receiveCount =
     (let new = uq_brk q;
          node = \<lparr>ur_block = block, ur_clientAddr = clientAddr, ur_receiveCount = receiveCount, ur_next = None\<rparr>;
          q1 = q\<lparr>uq_heap := (uq_heap q)(new := Some node), uq_brk := new + 1\<rparr> in
      case uq_last q1 of
        None \<Rightarrow> Inr (q1\<lparr>uq_first := Some new, uq_last := Some new\<rparr>)
      | Some a \<Rightarrow>
          (case uq_heap q1 a of
             None \<Rightarrow> Inl Out_of_bounds
           | Some n \<Rightarrow> Inr (q1\<lparr>uq_heap := (uq_heap q1)(a := Some (n\<lparr>ur_next := Some new\<rparr>)),
                               uq_last := Some new\<rparr>)))"

definition pullUdpRequest :: "udp_queue \<Rightarrow> (udp_queue \<times> addr option) res" where
  "pullUdpRequest q =
     (case uq_first q of
        None \<Rightarrow> Inr (q, None)
      | Some result \<Rightarrow>
          (case uq_heap q result of
             None \<Rightarrow> Inl Out_of_bounds
           | Some n \<Rightarrow>
               (let q1 = q\<lparr>uq_first := ur_next n\<rparr> in
                Inr (if uq_first q1 = None then q1\<lparr>uq_last := None\<rparr> else q1, Some result))))"

text \<open>The two calls of free; freeing an address that is not allocated is an error.\<close>

definition freeUdpRequest :: "udp_queue \<Rightarrow> addr \<Rightarrow> udp_queue res" where
  "freeUdpRequest q request =
     (case uq_heap q request of
        None \<Rightarrow> Inl Out_of_bounds
      | Some _ \<Rightarrow> Inr (q\<lparr>uq_heap := (uq_heap q)(request := None)\<rparr>))"

section \<open>The chain of requests\<close>

type_synonym request = "bytes \<times> bytes \<times> u32"

definition request_of :: "udpRequest \<Rightarrow> request" where
  "request_of n = (ur_block n, ur_clientAddr n, ur_receiveCount n)"

fun chain :: "(addr \<Rightarrow> udpRequest option) \<Rightarrow> addr option \<Rightarrow> addr list \<Rightarrow> bool" where
  "chain h p [] \<longleftrightarrow> p = None"
| "chain h p (a # as) \<longleftrightarrow> p = Some a \<and> (\<exists>n. h a = Some n \<and> chain h (ur_next n) as)"

definition at_addresses :: "udp_queue \<Rightarrow> addr list \<Rightarrow> bool" where
  "at_addresses q as \<longleftrightarrow> chain (uq_heap q) (uq_first q) as \<and> distinct as \<and>
     uq_last q = (if as = [] then None else Some (last as)) \<and>
     (\<forall>a. uq_heap q a \<noteq> None \<longrightarrow> a < uq_brk q)"

definition content :: "udp_queue \<Rightarrow> addr \<Rightarrow> request" where
  "content q a = request_of (the (uq_heap q a))"

definition holds :: "udp_queue \<Rightarrow> request list \<Rightarrow> bool" where
  "holds q rs \<longleftrightarrow> (\<exists>as. at_addresses q as \<and> rs = map (content q) as)"

lemma chain_alloc: "chain h p as \<Longrightarrow> a \<in> set as \<Longrightarrow> h a \<noteq> None"
  by (induction as arbitrary: p) auto

lemma chain_upd: "a \<notin> set as \<Longrightarrow> chain (h(a := x)) p as = chain h p as"
  by (induction as arbitrary: p) auto

lemma chain_snoc:
  "chain h p (as @ [a]) \<Longrightarrow> distinct (as @ [a]) \<Longrightarrow> b \<notin> set (as @ [a]) \<Longrightarrow> h a = Some n \<Longrightarrow>
   ur_next m = None \<Longrightarrow> chain (h(b := Some m, a := Some (n\<lparr>ur_next := Some b\<rparr>))) p (as @ [a, b])"
  by (induction as arbitrary: p) auto

lemma holds_empty: "holds udp_queue0 []"
  by (auto simp: holds_def at_addresses_def udp_queue0_def intro!: exI [of _ "[]"])

lemma at_addresses_alloc: "at_addresses q as \<Longrightarrow> a \<in> set as \<Longrightarrow> uq_heap q a \<noteq> None"
  unfolding at_addresses_def by (blast dest: chain_alloc)

text \<open>An addition puts a fresh address at the end and leaves every request as it is.\<close>

lemma at_add:
  assumes "at_addresses q as"
  defines "new \<equiv> uq_brk q"
  shows "\<exists>q'. addUdpRequest q ca blk rc = Inr q' \<and> at_addresses q' (as @ [new]) \<and> uq_heap q new = None \<and>
    content q' new = (blk, ca, rc) \<and> (\<forall>a. a \<noteq> new \<longrightarrow> content q' a = content q a) \<and>
    (\<forall>a. uq_heap q a \<noteq> None \<longrightarrow> uq_heap q' a \<noteq> None)"
proof -
  let ?m = "\<lparr>ur_block = blk, ur_clientAddr = ca, ur_receiveCount = rc, ur_next = None\<rparr>"
  have old: "\<forall>a. uq_heap q a \<noteq> None \<longrightarrow> a < new" using assms by (simp add: at_addresses_def)
  then have free: "uq_heap q new = None" by blast
  have fresh: "new \<notin> set as" using at_addresses_alloc [OF assms(1), of new] free by blast
  show ?thesis
  proof (cases as rule: rev_cases)
    case Nil
    let ?q = "q\<lparr>uq_heap := (uq_heap q)(new := Some ?m), uq_brk := new + 1, uq_first := Some new, uq_last := Some new\<rparr>"
    have "addUdpRequest q ca blk rc = Inr ?q"
      using assms(1) Nil by (simp add: addUdpRequest_def at_addresses_def Let_def new_def)
    moreover have "at_addresses ?q [new]"
      using old by (auto simp: at_addresses_def less_Suc_eq)
    ultimately show ?thesis using free Nil by (simp add: content_def request_of_def)
  next
    case (snoc bs a)
    have ch: "chain (uq_heap q) (uq_first q) (bs @ [a])" and d: "distinct (bs @ [a])" and l: "uq_last q = Some a"
      using assms(1) snoc by (auto simp: at_addresses_def)
    from chain_alloc [OF ch, of a] obtain n where n: "uq_heap q a = Some n" by auto
    have ne: "a \<noteq> new" using fresh snoc by auto
    let ?h = "(uq_heap q)(new := Some ?m, a := Some (n\<lparr>ur_next := Some new\<rparr>))"
    let ?q = "q\<lparr>uq_heap := ?h, uq_brk := new + 1, uq_last := Some new\<rparr>"
    have "addUdpRequest q ca blk rc = Inr ?q"
      using l n ne by (simp add: addUdpRequest_def Let_def new_def)
    moreover have "at_addresses ?q (as @ [new])"
      using chain_snoc [OF ch d _ n, of new ?m] d fresh snoc old n
      by (auto simp: at_addresses_def less_Suc_eq)
    ultimately show ?thesis using free ne n by (simp add: content_def request_of_def)
  qed
qed

lemma at_pull_empty: "at_addresses q [] \<Longrightarrow> pullUdpRequest q = Inr (q, None)"
  by (simp add: at_addresses_def pullUdpRequest_def)

lemma at_pull:
  assumes "at_addresses q (a # as)"
  shows "\<exists>q'. pullUdpRequest q = Inr (q', Some a) \<and> uq_heap q' = uq_heap q \<and> at_addresses q' as"
proof -
  from assms obtain n where n: "uq_first q = Some a" "uq_heap q a = Some n" "chain (uq_heap q) (ur_next n) as"
    by (auto simp: at_addresses_def)
  let ?q = "q\<lparr>uq_first := ur_next n, uq_last := (if ur_next n = None then None else uq_last q)\<rparr>"
  have "pullUdpRequest q = Inr (?q, Some a)"
    using n by (simp add: pullUdpRequest_def Let_def)
  moreover have "at_addresses ?q as"
    using assms n(3) by (cases as) (auto simp: at_addresses_def)
  ultimately show ?thesis by auto
qed

text \<open>A worker frees a request it has pulled while the queue goes on.\<close>

lemma at_free:
  assumes "at_addresses q as" "a \<notin> set as" "uq_heap q a \<noteq> None"
  shows "\<exists>q'. freeUdpRequest q a = Inr q' \<and> at_addresses q' as \<and> uq_heap q' = (uq_heap q)(a := None)"
  using assms by (auto simp: freeUdpRequest_def at_addresses_def chain_upd)

lemma holds_add:
  assumes "holds q rs"
  shows "\<exists>q'. addUdpRequest q ca blk rc = Inr q' \<and> holds q' (rs @ [(blk, ca, rc)])"
proof -
  from assms obtain as where as: "at_addresses q as" "rs = map (content q) as" by (auto simp: holds_def)
  from at_add [OF as(1), of ca blk rc] obtain q' where q': "addUdpRequest q ca blk rc = Inr q'"
    "at_addresses q' (as @ [uq_brk q])" "uq_heap q (uq_brk q) = None" "content q' (uq_brk q) = (blk, ca, rc)"
    "\<forall>a. a \<noteq> uq_brk q \<longrightarrow> content q' a = content q a" by auto
  have "uq_brk q \<notin> set as" using at_addresses_alloc [OF as(1)] q'(3) by blast
  then have "\<forall>a \<in> set as. content q' a = content q a" using q'(5) by metis
  then have "map (content q') (as @ [uq_brk q]) = rs @ [(blk, ca, rc)]"
    using as(2) q'(4) by simp
  with q'(1,2) show ?thesis unfolding holds_def by metis
qed

lemma holds_pull_empty: "holds q [] \<Longrightarrow> pullUdpRequest q = Inr (q, None)"
  by (simp add: holds_def at_pull_empty)

lemma holds_pull:
  assumes "holds q (r # rs)"
  shows "\<exists>q' a n. pullUdpRequest q = Inr (q', Some a) \<and> uq_heap q' = uq_heap q \<and> uq_heap q a = Some n \<and>
    request_of n = r \<and> holds q' rs"
proof -
  from assms obtain a as where as: "at_addresses q (a # as)" "r # rs = map (content q) (a # as)"
    by (auto simp: holds_def Cons_eq_map_conv)
  from at_pull [OF as(1)] obtain q' where q': "pullUdpRequest q = Inr (q', Some a)" "uq_heap q' = uq_heap q"
    "at_addresses q' as" by auto
  obtain n where "uq_heap q a = Some n" using at_addresses_alloc [OF as(1), of a] by auto
  then show ?thesis
    using q' as(2) by (auto simp: holds_def content_def intro!: exI [of _ as])
qed

section \<open>First in, first out\<close>

text \<open>
  The contract of a queue: rep q xs says that q holds xs, the oldest first. A client's run is a
  list of operations, Some x to add x and None to pull.
\<close>

fun run_queue :: "('q \<Rightarrow> 'x \<Rightarrow> 'q res) \<Rightarrow> ('q \<Rightarrow> ('q \<times> 'x option) res) \<Rightarrow> 'q \<Rightarrow> 'x option list
  \<Rightarrow> ('q \<times> 'x option list) res" where
  "run_queue add pull q [] = Inr (q, [])"
| "run_queue add pull q (Some x # ops) = bindR (add q x) (\<lambda>q'. run_queue add pull q' ops)"
| "run_queue add pull q (None # ops) =
     bindR (pull q) (\<lambda>(q', r). bindR (run_queue add pull q' ops) (\<lambda>(q'', rs). Inr (q'', r # rs)))"

definition somes :: "'x option list \<Rightarrow> 'x list" where
  "somes os = concat (map (\<lambda>p. case p of None \<Rightarrow> [] | Some x \<Rightarrow> [x]) os)"

lemma somes_simps [simp]: "somes [] = []" "somes (Some x # os) = x # somes os" "somes (None # os) = somes os"
  by (simp_all add: somes_def)

locale fifo =
  fixes add :: "'q \<Rightarrow> 'x \<Rightarrow> 'q res" and pull :: "'q \<Rightarrow> ('q \<times> 'x option) res"
    and rep :: "'q \<Rightarrow> 'x list \<Rightarrow> bool"
  assumes rep_add: "rep q xs \<Longrightarrow> \<exists>q'. add q x = Inr q' \<and> rep q' (xs @ [x])"
    and rep_pull_empty: "rep q [] \<Longrightarrow> \<exists>q'. pull q = Inr (q', None) \<and> rep q' []"
    and rep_pull: "rep q (x # xs) \<Longrightarrow> \<exists>q'. pull q = Inr (q', Some x) \<and> rep q' xs"
begin

lemma run_fifo:
  "rep q xs \<Longrightarrow> \<exists>q' os ys. run_queue add pull q ops = Inr (q', os) \<and> rep q' ys \<and> somes os @ ys = xs @ somes ops"
proof (induction ops arbitrary: q xs)
  case (Cons p ops)
  show ?case
  proof (cases p)
    case None
    show ?thesis
    proof (cases xs)
      case Nil
      with Cons.prems rep_pull_empty obtain q1 where q1: "pull q = Inr (q1, None)" "rep q1 []" by blast
      from Cons.IH [OF q1(2)] q1(1) None Nil show ?thesis by fastforce
    next
      case (Cons x rest)
      with Cons.prems rep_pull obtain q1 where q1: "pull q = Inr (q1, Some x)" "rep q1 rest" by blast
      from Cons.IH [OF q1(2)] q1(1) None Cons show ?thesis by fastforce
    qed
  next
    case (Some x)
    with Cons.prems rep_add obtain q1 where q1: "add q x = Inr q1" "rep q1 (xs @ [x])" by blast
    from Cons.IH [OF q1(2)] q1(1) Some show ?thesis by fastforce
  qed
qed simp

end

text \<open>The code's queue: a pull reads the request of the pointer it gets.\<close>

definition addRequest :: "udp_queue \<Rightarrow> request \<Rightarrow> udp_queue res" where
  "addRequest q r = (case r of (blk, ca, rc) \<Rightarrow> addUdpRequest q ca blk rc)"

definition pullRequest :: "udp_queue \<Rightarrow> (udp_queue \<times> request option) res" where
  "pullRequest q =
     bindR (pullUdpRequest q) (\<lambda>(q', p).
       case p of
         None \<Rightarrow> Inr (q', None)
       | Some a \<Rightarrow> (case uq_heap q' a of None \<Rightarrow> Inl Out_of_bounds | Some n \<Rightarrow> Inr (q', Some (request_of n))))"

interpretation udp_fifo: fifo addRequest pullRequest holds
proof
  fix q rs and r :: request
  assume "holds q rs"
  then show "\<exists>q'. addRequest q r = Inr q' \<and> holds q' (rs @ [r])"
    using holds_add [of q rs] by (cases r) (simp add: addRequest_def)
next
  fix q
  assume "holds q []"
  then show "\<exists>q'. pullRequest q = Inr (q', None) \<and> holds q' []"
    by (simp add: pullRequest_def holds_pull_empty)
next
  fix q r rs
  assume "holds q (r # rs)"
  from holds_pull [OF this] show "\<exists>q'. pullRequest q = Inr (q', Some r) \<and> holds q' rs"
    by (auto simp: pullRequest_def)
qed

text \<open>C29: The linked queue of datagrams is a queue: whatever the order of additions and pulls, no
pointer is followed that is not allocated, and the requests pulled, followed by those left in
the queue, are exactly the requests added, in their order.\<close>

theorem udp_queue_is_fifo:
  "\<exists>q os rs. run_queue addRequest pullRequest udp_queue0 ops = Inr (q, os) \<and> holds q rs \<and>
     somes os @ rs = somes ops"
  using udp_fifo.run_fifo [OF holds_empty, of ops] by simp

end
