(* ===== verification/Udp_Server.thy ===== *)
theory Udp_Server
  imports Udp_Worker Rps Udp_Request "HOL-Library.Multiset"
begin

text \<open>
  The UDP listener and its pool of workers (socket\_udp.c and the waiting part of
  thread\_client\_udp.c): what the listener does with a result of recvfrom, and the
  interleaving of its thread with the workers' over the shared queue, the semaphore that
  guards it, and the mutex and condition variable the idle workers wait on. Every step of the
  relation is one call of the code that other threads can observe.
\<close>

definition SOCKET_UDP_RECEIVED_UDP_MESSAGE_LENGTH :: nat where
  "SOCKET_UDP_RECEIVED_UDP_MESSAGE_LENGTH = 1496"

section \<open>checkSize\<close>

text \<open>The sizes of the packed structures, as the layouts of the model have them.\<close>

definition EXIT_CODE_SIZE_CONNECT_REQUEST :: nat where "EXIT_CODE_SIZE_CONNECT_REQUEST = 243"
definition EXIT_CODE_SIZE_CONNECT_RESPONSE :: nat where "EXIT_CODE_SIZE_CONNECT_RESPONSE = 242"
definition EXIT_CODE_SIZE_ANNOUNCE_REQUEST :: nat where "EXIT_CODE_SIZE_ANNOUNCE_REQUEST = 241"
definition EXIT_CODE_SIZE_ANNOUNCE_HEAD_RESPONSE :: nat where "EXIT_CODE_SIZE_ANNOUNCE_HEAD_RESPONSE = 240"
definition EXIT_CODE_SIZE_ANNOUNCE_PEER_RESPONSE :: nat where "EXIT_CODE_SIZE_ANNOUNCE_PEER_RESPONSE = 239"

definition checkSize :: "unit res" where
  "checkSize =
     (if sizeof_connectRequest \<noteq> 16 then Inl (Exit EXIT_CODE_SIZE_CONNECT_REQUEST)
      else if length (connectResponse 0 0 0) \<noteq> 16 then Inl (Exit EXIT_CODE_SIZE_CONNECT_RESPONSE)
      else if sizeof_announceRequest \<noteq> 98 then Inl (Exit EXIT_CODE_SIZE_ANNOUNCE_REQUEST)
      else if length (announceHeadResponse 0 0 0 0 0) \<noteq> 20 then Inl (Exit EXIT_CODE_SIZE_ANNOUNCE_HEAD_RESPONSE)
      else if length (mem32 0 @ mem16 0) \<noteq> 6 then Inl (Exit EXIT_CODE_SIZE_ANNOUNCE_PEER_RESPONSE)
      else Inr ())"

lemma checkSize_passes: "checkSize = Inr ()"
  by (simp add: checkSize_def sizeof_connectRequest_def sizeof_announceRequest_def)

section \<open>A result of recvfrom\<close>

text \<open>recvfrom fails with an errno, or fills the buffer with the bytes of a datagram.\<close>

datatype recv_result = Recv_error int | Received bytes bytes

text \<open>
  The body of the listener's loop up to the queue: the request to add, or None to go on with
  the next recvfrom. receiveCount is a long, a request keeps its lower 32 bits.
\<close>

definition receiveStep ::
  "recv_result \<Rightarrow> rps \<Rightarrow> stats \<Rightarrow> u64 \<Rightarrow> (rps \<times> stats \<times> u64 \<times> request option) res" where
  "receiveStep ev r st receiveCount =
     (case ev of
        Recv_error e \<Rightarrow>
          bindR (incErrnoOf Recv_errno_udp e st) (\<lambda>st1. Inr (r, incStat Recv_failed_udp st1, receiveCount, None))
      | Received data clientAddr \<Rightarrow>
          if length data = 0 then Inr (r, incStat Recv_failed_udp st, receiveCount, None)
          else if length data > SOCKET_UDP_RECEIVED_UDP_MESSAGE_LENGTH then Inl Out_of_bounds
          else
            bindR (updateRps RPS_PROTOCOL_UDP
                     (if getIpVersion clientAddr AND SOCKET_VERSION_IPV4_BIT \<noteq> 0
                      then RPS_VERSION_IPV4 else RPS_VERSION_IPV6) r) (\<lambda>r1.
              let st1 = addStat Recv_bytes_udp (of_nat (length data)) (incStat Recv_pass_udp st);
                  n = receiveCount + 1
              in Inr (r1, st1, n, Some (data, clientAddr, ucast n))))"

definition recv_ok :: "recv_result \<Rightarrow> bool" where
  "recv_ok ev = (case ev of Recv_error e \<Rightarrow> 0 \<le> e
     | Received data a \<Rightarrow> length data \<le> SOCKET_UDP_RECEIVED_UDP_MESSAGE_LENGTH)"

lemma receiveStep_ok:
  assumes "recv_ok ev" "wf_rps r" "wf_stats st"
  shows "\<exists>r' st' n' q. receiveStep ev r st n = Inr (r', st', n', q) \<and> wf_rps r' \<and> wf_stats st'"
proof (cases ev)
  case (Recv_error e)
  then obtain st1 where "incErrnoOf Recv_errno_udp e st = Inr st1" "wf_stats st1"
    using incErrnoOf_ok [of st e Recv_errno_udp] assms by (auto simp: recv_ok_def)
  with Recv_error assms show ?thesis by (simp add: receiveStep_def)
next
  case (Received data a)
  let ?v = "if getIpVersion a AND SOCKET_VERSION_IPV4_BIT \<noteq> 0 then RPS_VERSION_IPV4 else RPS_VERSION_IPV6"
  have "rps_args RPS_PROTOCOL_UDP ?v" by (simp add: rps_args_def)
  then obtain r1 where "updateRps RPS_PROTOCOL_UDP ?v r = Inr r1" "wf_rps r1"
    using updateRps_ok [OF assms(2)] by metis
  with Received assms show ?thesis by (simp add: receiveStep_def recv_ok_def Let_def)
qed

section \<open>The threads\<close>

datatype listener =
    L_recv | L_wait request | L_add request | L_post | L_lock | L_signal | L_unlock

datatype worker_pc =
    W_wait | W_pull | W_post "addr option" | W_lock | W_cond | W_sleep | W_woken | W_unlock
  | W_serve addr

text \<open>The last three fields record what has happened; the code does not read them.\<close>

record server =
  s_rps :: rps
  s_stats :: stats
  s_receiveCount :: u64
  s_queue :: udp_queue
  s_sem :: nat
  s_mutex :: nat
  s_listener :: listener
  s_workers :: "worker_pc list"
  s_added :: "request list"
  s_pulled :: "request list"
  s_served :: "request list"

definition server0 :: "int \<Rightarrow> nat \<Rightarrow> server" where
  "server0 t n = \<lparr>s_rps = rps0, s_stats = stats0 t, s_receiveCount = 0, s_queue = udp_queue0, s_sem = 1,
     s_mutex = 1, s_listener = L_recv, s_workers = replicate n W_wait, s_added = [], s_pulled = [], s_served = []\<rparr>"

definition worker_is :: "server \<Rightarrow> nat \<Rightarrow> worker_pc \<Rightarrow> bool" where
  "worker_is s i w \<longleftrightarrow> i < length (s_workers s) \<and> s_workers s ! i = w"

definition set_worker :: "nat \<Rightarrow> worker_pc \<Rightarrow> server \<Rightarrow> server" where
  "set_worker i w s = s\<lparr>s_workers := (s_workers s)[i := w]\<rparr>"

text \<open>
  pthread\_cond\_signal wakes a worker that sleeps, if there is one; a sleeper may also wake
  without a signal. A worker that wakes up takes the mutex again before it goes on.
\<close>

inductive step :: "server \<Rightarrow> server \<Rightarrow> bool" where
  l_recv_none: "s_listener s = L_recv \<Longrightarrow> recv_ok ev \<Longrightarrow>
    receiveStep ev (s_rps s) (s_stats s) (s_receiveCount s) = Inr (r, st, n, None) \<Longrightarrow>
    step s (s\<lparr>s_rps := r, s_stats := st, s_receiveCount := n\<rparr>)"
| l_recv: "s_listener s = L_recv \<Longrightarrow> recv_ok ev \<Longrightarrow>
    receiveStep ev (s_rps s) (s_stats s) (s_receiveCount s) = Inr (r, st, n, Some q) \<Longrightarrow>
    step s (s\<lparr>s_rps := r, s_stats := st, s_receiveCount := n, s_listener := L_wait q\<rparr>)"
| l_wait: "s_listener s = L_wait q \<Longrightarrow> s_sem s > 0 \<Longrightarrow>
    step s (s\<lparr>s_sem := s_sem s - 1, s_listener := L_add q\<rparr>)"
| l_add: "s_listener s = L_add q \<Longrightarrow> addRequest (s_queue s) q = Inr uq \<Longrightarrow>
    step s (s\<lparr>s_queue := uq, s_added := s_added s @ [q], s_listener := L_post\<rparr>)"
| l_post: "s_listener s = L_post \<Longrightarrow> step s (s\<lparr>s_sem := s_sem s + 1, s_listener := L_lock\<rparr>)"
| l_lock: "s_listener s = L_lock \<Longrightarrow> s_mutex s > 0 \<Longrightarrow>
    step s (s\<lparr>s_mutex := s_mutex s - 1, s_listener := L_signal\<rparr>)"
| l_signal_none: "s_listener s = L_signal \<Longrightarrow> W_sleep \<notin> set (s_workers s) \<Longrightarrow>
    step s (s\<lparr>s_listener := L_unlock\<rparr>)"
| l_signal: "s_listener s = L_signal \<Longrightarrow> worker_is s i W_sleep \<Longrightarrow>
    step s (set_worker i W_woken s\<lparr>s_listener := L_unlock\<rparr>)"
| l_unlock: "s_listener s = L_unlock \<Longrightarrow> step s (s\<lparr>s_mutex := s_mutex s + 1, s_listener := L_recv\<rparr>)"
| w_wait: "worker_is s i W_wait \<Longrightarrow> s_sem s > 0 \<Longrightarrow>
    step s (set_worker i W_pull s\<lparr>s_sem := s_sem s - 1\<rparr>)"
| w_pull: "worker_is s i W_pull \<Longrightarrow> pullUdpRequest (s_queue s) = Inr (uq, p) \<Longrightarrow>
    step s (set_worker i (W_post p) s\<lparr>s_queue := uq,
      s_pulled := s_pulled s @ (case p of None \<Rightarrow> [] | Some a \<Rightarrow> [content (s_queue s) a])\<rparr>)"
| w_post: "worker_is s i (W_post p) \<Longrightarrow>
    step s (set_worker i (case p of None \<Rightarrow> W_lock | Some a \<Rightarrow> W_serve a) s\<lparr>s_sem := s_sem s + 1\<rparr>)"
| w_lock: "worker_is s i W_lock \<Longrightarrow> s_mutex s > 0 \<Longrightarrow>
    step s (set_worker i W_cond s\<lparr>s_mutex := s_mutex s - 1\<rparr>)"
| w_cond: "worker_is s i W_cond \<Longrightarrow> step s (set_worker i W_sleep s\<lparr>s_mutex := s_mutex s + 1\<rparr>)"
| w_spurious: "worker_is s i W_sleep \<Longrightarrow> step s (set_worker i W_woken s)"
| w_woken: "worker_is s i W_woken \<Longrightarrow> s_mutex s > 0 \<Longrightarrow>
    step s (set_worker i W_unlock s\<lparr>s_mutex := s_mutex s - 1\<rparr>)"
| w_unlock: "worker_is s i W_unlock \<Longrightarrow> step s (set_worker i W_wait s\<lparr>s_mutex := s_mutex s + 1\<rparr>)"
| w_serve: "worker_is s i (W_serve a) \<Longrightarrow> freeUdpRequest (s_queue s) a = Inr uq \<Longrightarrow>
    step s (set_worker i W_wait s\<lparr>s_queue := uq, s_served := s_served s @ [content (s_queue s) a]\<rparr>)"

inductive reachable :: "int \<Rightarrow> nat \<Rightarrow> server \<Rightarrow> bool" for t n where
  start: "reachable t n (server0 t n)"
| next_step: "reachable t n s \<Longrightarrow> step s s' \<Longrightarrow> reachable t n s'"

section \<open>Invariants of every interleaving\<close>

lemma worker_isE:
  assumes "worker_is s i w"
  obtains xs ys where "s_workers s = xs @ w # ys" "i = length xs"
  using assms id_take_nth_drop [of i "s_workers s"] that [of "take i (s_workers s)" "drop (Suc i) (s_workers s)"]
  by (auto simp: worker_is_def)

lemma set_worker_simps [simp]:
  "s_rps (set_worker i w s) = s_rps s" "s_stats (set_worker i w s) = s_stats s"
  "s_receiveCount (set_worker i w s) = s_receiveCount s" "s_queue (set_worker i w s) = s_queue s"
  "s_sem (set_worker i w s) = s_sem s" "s_mutex (set_worker i w s) = s_mutex s"
  "s_listener (set_worker i w s) = s_listener s" "s_workers (set_worker i w s) = (s_workers s)[i := w]"
  "s_added (set_worker i w s) = s_added s" "s_pulled (set_worker i w s) = s_pulled s"
  "s_served (set_worker i w s) = s_served s"
  by (simp_all add: set_worker_def)

text \<open>Who is between wait and post of the semaphore, and who holds the mutex.\<close>

fun l_critical :: "listener \<Rightarrow> nat" where
  "l_critical (L_add q) = 1" | "l_critical L_post = 1" | "l_critical _ = 0"

fun w_critical :: "worker_pc \<Rightarrow> nat" where
  "w_critical W_pull = 1" | "w_critical (W_post p) = 1" | "w_critical _ = 0"

fun l_locked :: "listener \<Rightarrow> nat" where
  "l_locked L_signal = 1" | "l_locked L_unlock = 1" | "l_locked _ = 0"

fun w_locked :: "worker_pc \<Rightarrow> nat" where
  "w_locked W_cond = 1" | "w_locked W_unlock = 1" | "w_locked _ = 0"

text \<open>The request a worker has pulled and not yet freed.\<close>

fun in_flight :: "worker_pc \<Rightarrow> addr multiset" where
  "in_flight (W_post (Some a)) = {#a#}" | "in_flight (W_serve a) = {#a#}" | "in_flight _ = {#}"

definition over :: "(worker_pc \<Rightarrow> 'a :: comm_monoid_add) \<Rightarrow> worker_pc list \<Rightarrow> 'a" where
  "over f ws = sum_list (map f ws)"

lemma over_simps [simp]: "over f [] = 0" "over f (w # ws) = f w + over f ws" "over f (xs @ ys) = over f xs + over f ys"
  by (simp_all add: over_def)

lemma over_replicate [simp]: "f w = 0 \<Longrightarrow> over f (replicate n w) = 0"
  by (induction n) auto

definition lock_inv :: "server \<Rightarrow> bool" where
  "lock_inv s \<longleftrightarrow> s_sem s + l_critical (s_listener s) + over w_critical (s_workers s) = 1 \<and>
     s_mutex s + l_locked (s_listener s) + over w_locked (s_workers s) = 1"

lemma lock_inv_step: "step s s' \<Longrightarrow> lock_inv s \<Longrightarrow> lock_inv s'"
  by (induction rule: step.induct) (auto simp: lock_inv_def elim!: worker_isE split: option.splits)

lemma lock_inv_server0: "lock_inv (server0 t n)"
  by (simp add: lock_inv_def server0_def)

text \<open>The queue, the workers and the record of what happened agree.\<close>

definition queue_inv :: "server \<Rightarrow> bool" where
  "queue_inv s \<longleftrightarrow> (\<exists>as. at_addresses (s_queue s) as \<and>
     (\<forall>a. count (mset as + over in_flight (s_workers s)) a \<le> 1) \<and>
     (\<forall>a. a \<in># over in_flight (s_workers s) \<longrightarrow> uq_heap (s_queue s) a \<noteq> None) \<and>
     s_added s = s_pulled s @ map (content (s_queue s)) as \<and>
     mset (s_pulled s) = mset (s_served s) + image_mset (content (s_queue s)) (over in_flight (s_workers s)))"

definition wf_server :: "server \<Rightarrow> bool" where
  "wf_server s \<longleftrightarrow> wf_rps (s_rps s) \<and> wf_stats (s_stats s) \<and> lock_inv s \<and> queue_inv s"

text \<open>A step that leaves the queue, the records and the requests in flight alone.\<close>

lemma queue_inv_frame:
  assumes "queue_inv s" "s_queue s' = s_queue s" "s_added s' = s_added s" "s_pulled s' = s_pulled s"
    "s_served s' = s_served s" "over in_flight (s_workers s') = over in_flight (s_workers s)"
  shows "queue_inv s'"
  using assms by (simp add: queue_inv_def)

lemma queue_inv_add:
  assumes "queue_inv s" "addRequest (s_queue s) r = Inr uq"
    "s_queue s' = uq" "s_added s' = s_added s @ [r]" "s_pulled s' = s_pulled s"
    "s_served s' = s_served s" "s_workers s' = s_workers s"
  shows "queue_inv s'"
proof -
  let ?q = "s_queue s" and ?f = "over in_flight (s_workers s)"
  from assms(1) obtain as where as: "at_addresses ?q as" "\<forall>a. count (mset as + ?f) a \<le> 1"
    "\<forall>a. a \<in># ?f \<longrightarrow> uq_heap ?q a \<noteq> None" "s_added s = s_pulled s @ map (content ?q) as"
    "mset (s_pulled s) = mset (s_served s) + image_mset (content ?q) ?f"
    by (auto simp: queue_inv_def)
  let ?new = "uq_brk ?q"
  obtain blk ca rc where r: "r = (blk, ca, rc)" by (cases r)
  from at_add [OF as(1), of ca blk rc] assms(2) r have q: "at_addresses uq (as @ [?new])" "uq_heap ?q ?new = None"
    "content uq ?new = r" "\<forall>a. a \<noteq> ?new \<longrightarrow> content uq a = content ?q a"
    "\<forall>a. uq_heap ?q a \<noteq> None \<longrightarrow> uq_heap uq a \<noteq> None"
    by (auto simp: addRequest_def)
  have n: "?new \<notin> set as" "?new \<notin># ?f" using at_addresses_alloc [OF as(1)] as(3) q(2) by blast+
  have "\<forall>a \<in> set as. content uq a = content ?q a" using n(1) q(4) by metis
  moreover have "image_mset (content uq) ?f = image_mset (content ?q) ?f"
    using n(2) q(4) by (intro image_mset_cong) metis
  moreover have "\<forall>a. count (mset (as @ [?new]) + ?f) a \<le> 1"
    using as(2) n by (auto simp: not_in_iff count_mset_0_iff)
  ultimately show ?thesis
    unfolding queue_inv_def using as q assms(3-7)
    by (intro exI [of _ "as @ [?new]"]) simp
qed

lemma queue_inv_pull:
  assumes "queue_inv s" "worker_is s i W_pull" "pullUdpRequest (s_queue s) = Inr (uq, p)"
    "s_queue s' = uq" "s_added s' = s_added s" "s_served s' = s_served s" "s_workers s' = (s_workers s)[i := W_post p]"
    "s_pulled s' = s_pulled s @ (case p of None \<Rightarrow> [] | Some a \<Rightarrow> [content (s_queue s) a])"
  shows "queue_inv s'"
proof -
  let ?q = "s_queue s" and ?f = "over in_flight (s_workers s)"
  from assms(1) obtain as where as: "at_addresses ?q as" "\<forall>a. count (mset as + ?f) a \<le> 1"
    "\<forall>a. a \<in># ?f \<longrightarrow> uq_heap ?q a \<noteq> None" "s_added s = s_pulled s @ map (content ?q) as"
    "mset (s_pulled s) = mset (s_served s) + image_mset (content ?q) ?f"
    by (auto simp: queue_inv_def)
  have w: "over in_flight (s_workers s') = ?f + in_flight (W_post p)"
    using assms(2,7) by (auto elim!: worker_isE)
  show ?thesis
  proof (cases as)
    case Nil
    with as(1) at_pull_empty assms(3) have "uq = ?q" "p = None" by auto
    with w show ?thesis by (intro queue_inv_frame [OF assms(1)]) (simp_all add: assms)
  next
    case (Cons a bs)
    with at_pull [of ?q a bs] as(1) assms(3) have p: "p = Some a" "uq_heap uq = uq_heap ?q" "at_addresses uq bs" by auto
    have c: "content uq = content ?q" by (rule ext) (simp add: content_def p(2))
    have "uq_heap ?q a \<noteq> None" using at_addresses_alloc [OF as(1), of a] Cons by simp
    moreover have "mset bs + (?f + {#a#}) = mset as + ?f" using Cons by simp
    ultimately show ?thesis
      unfolding queue_inv_def using as p c w Cons assms(4-8)
      by (intro exI [of _ bs]) simp
  qed
qed

lemma queue_inv_serve:
  assumes "queue_inv s" "worker_is s i (W_serve a)" "freeUdpRequest (s_queue s) a = Inr uq"
    "s_queue s' = uq" "s_added s' = s_added s" "s_pulled s' = s_pulled s"
    "s_served s' = s_served s @ [content (s_queue s) a]" "s_workers s' = (s_workers s)[i := W_wait]"
  shows "queue_inv s'"
proof -
  let ?q = "s_queue s" and ?f = "over in_flight (s_workers s)" and ?g = "over in_flight (s_workers s')"
  from assms(1) obtain as where as: "at_addresses ?q as" "\<forall>a. count (mset as + ?f) a \<le> 1"
    "\<forall>a. a \<in># ?f \<longrightarrow> uq_heap ?q a \<noteq> None" "s_added s = s_pulled s @ map (content ?q) as"
    "mset (s_pulled s) = mset (s_served s) + image_mset (content ?q) ?f"
    by (auto simp: queue_inv_def)
  have w: "?f = ?g + {#a#}"
    using assms(2,8) by (auto elim!: worker_isE)
  have "count (mset as + ?f) a \<le> 1" using as(2) by blast
  then have n: "a \<notin> set as" "a \<notin># ?g" unfolding w by (auto simp: not_in_iff count_mset_0_iff)
  from at_free [OF as(1) n(1)] as(3) w assms(3) have uq: "at_addresses uq as" "uq_heap uq = (uq_heap ?q)(a := None)"
    by auto
  have c: "content uq x = content ?q x" if "x \<noteq> a" for x using that by (simp add: content_def uq(2))
  have "\<forall>x \<in> set as. content uq x = content ?q x" using n(1) c by metis
  then have "map (content uq) as = map (content ?q) as" by simp
  moreover have "image_mset (content uq) ?g = image_mset (content ?q) ?g"
    using n(2) c by (intro image_mset_cong) metis
  moreover have "\<forall>x. count (mset as + ?g) x \<le> 1"
  proof
    fix x
    have "count (mset as + ?g) x \<le> count (mset as + ?f) x" unfolding w by simp
    with as(2) show "count (mset as + ?g) x \<le> 1" by (meson le_trans)
  qed
  moreover have "\<forall>x. x \<in># ?g \<longrightarrow> uq_heap uq x \<noteq> None"
    using as(3) n(2) unfolding w uq(2) by auto
  ultimately show ?thesis
    unfolding queue_inv_def using as uq(1) assms(4-7) w
    by (intro exI [of _ as]) simp
qed

lemma queue_inv_step: "step s s' \<Longrightarrow> queue_inv s \<Longrightarrow> queue_inv s'"
proof (induction rule: step.induct)
  case (l_add s q uq)
  show ?case by (rule queue_inv_add [OF l_add(3,2)]) simp_all
next
  case (w_pull s i uq p)
  show ?case by (rule queue_inv_pull [OF w_pull(3,1,2)]) simp_all
next
  case (w_serve s i a uq)
  show ?case by (rule queue_inv_serve [OF w_serve(3,1,2)]) simp_all
qed (erule queue_inv_frame; auto elim!: worker_isE split: option.splits)+

lemma wf_server0: "wf_server (server0 t n)"
proof -
  have "at_addresses udp_queue0 []" by (simp add: at_addresses_def udp_queue0_def)
  then have "queue_inv (server0 t n)" by (auto simp: queue_inv_def server0_def intro!: exI [of _ "[]"])
  moreover have "wf_rps rps0" by (simp add: wf_rps_def rps0_def RPS_TIME_EVEN_def)
  ultimately show ?thesis by (simp add: wf_server_def lock_inv_server0) (simp add: server0_def wf_stats0)
qed

lemma wf_server_step: "step s s' \<Longrightarrow> wf_server s \<Longrightarrow> wf_server s'"
proof -
  assume st: "step s s'" and wf: "wf_server s"
  have "wf_rps (s_rps s') \<and> wf_stats (s_stats s')"
    using st wf
  proof (cases rule: step.cases)
    case (l_recv_none ev r st n)
    with wf receiveStep_ok [of ev "s_rps s" "s_stats s" "s_receiveCount s"] show ?thesis by (auto simp: wf_server_def)
  next
    case (l_recv ev r st n q)
    with wf receiveStep_ok [of ev "s_rps s" "s_stats s" "s_receiveCount s"] show ?thesis by (auto simp: wf_server_def)
  qed (simp_all add: wf_server_def)
  with st wf lock_inv_step queue_inv_step show "wf_server s'" unfolding wf_server_def by blast
qed

lemma reachable_wf: "reachable t n s \<Longrightarrow> wf_server s"
  by (induction rule: reachable.induct) (auto intro: wf_server0 wf_server_step)


section \<open>Every datagram is served once\<close>

text \<open>C30: Under every interleaving of the listener and any number of workers the datagrams
accepted are the ones pulled, in their order, followed by those in the queue, and the ones
pulled are those served and those a worker still holds: none is lost, duplicated or invented.\<close>

theorem udp_requests_served_once:
  assumes "reachable t n s"
  shows "\<exists>rs. holds (s_queue s) rs \<and> s_added s = s_pulled s @ rs \<and>
    mset (s_pulled s) = mset (s_served s) + image_mset (content (s_queue s)) (over in_flight (s_workers s))"
  using reachable_wf [OF assms] by (auto simp: wf_server_def queue_inv_def holds_def)

theorem udp_requests_served_once_witness:
  "\<exists>rs. holds (s_queue (server0 0 2)) rs \<and> [] = rs"
  using udp_requests_served_once [OF reachable.start [of 0 2]] by (simp add: server0_def)

text \<open>C31: No interleaving puts two threads into the queue's critical section or two into the
mutex, and none makes a thread fault: whatever recvfrom returns is accepted, every addition,
pull and release of a request succeeds.\<close>

theorem udp_threads_exclude_and_never_fault:
  assumes "reachable t n s"
  shows "l_critical (s_listener s) + over w_critical (s_workers s) \<le> 1 \<and>
    l_locked (s_listener s) + over w_locked (s_workers s) \<le> 1 \<and>
    (\<forall>ev. recv_ok ev \<longrightarrow> (\<exists>x. receiveStep ev (s_rps s) (s_stats s) (s_receiveCount s) = Inr x)) \<and>
    (\<forall>q. \<exists>uq. addRequest (s_queue s) q = Inr uq) \<and> (\<exists>x. pullUdpRequest (s_queue s) = Inr x) \<and>
    (\<forall>i a. worker_is s i (W_serve a) \<longrightarrow> (\<exists>uq. freeUdpRequest (s_queue s) a = Inr uq))"
proof (intro conjI allI impI)
  note wf = reachable_wf [OF assms]
  then show "l_critical (s_listener s) + over w_critical (s_workers s) \<le> 1"
    "l_locked (s_listener s) + over w_locked (s_workers s) \<le> 1"
    by (simp_all add: wf_server_def lock_inv_def)
  show "\<exists>x. receiveStep ev (s_rps s) (s_stats s) (s_receiveCount s) = Inr x" if "recv_ok ev" for ev
    using receiveStep_ok [OF that, of "s_rps s" "s_stats s" "s_receiveCount s"] wf by (force simp: wf_server_def)
  from wf obtain as where as: "at_addresses (s_queue s) as"
    "\<forall>a. a \<in># over in_flight (s_workers s) \<longrightarrow> uq_heap (s_queue s) a \<noteq> None"
    by (auto simp: wf_server_def queue_inv_def)
  show "\<exists>uq. addRequest (s_queue s) q = Inr uq" for q
  proof -
    obtain blk ca rc where "q = (blk, ca, rc)" by (cases q)
    then show ?thesis using at_add [OF as(1), of ca blk rc] by (auto simp: addRequest_def)
  qed
  show "\<exists>x. pullUdpRequest (s_queue s) = Inr x"
    using as(1) at_pull_empty at_pull by (cases as) blast+
  show "\<exists>uq. freeUdpRequest (s_queue s) a = Inr uq" if "worker_is s i (W_serve a)" for i a
  proof -
    have "a \<in># over in_flight (s_workers s)" using that by (auto elim!: worker_isE)
    with as(2) show ?thesis by (auto simp: freeUdpRequest_def split: option.split)
  qed
qed

theorem udp_threads_exclude_and_never_fault_witness:
  "\<exists>x. receiveStep (Received [1, 2] (replicate 16 0)) (s_rps (server0 0 2)) (s_stats (server0 0 2)) 0 = Inr x"
  using udp_threads_exclude_and_never_fault [OF reachable.start [of 0 2]]
  by (simp add: recv_ok_def server0_def SOCKET_UDP_RECEIVED_UDP_MESSAGE_LENGTH_def)

section \<open>The lost wake-up\<close>

inductive_cases step_cases: "step s s'"

text \<open>The part of the state the synchronisation is about.\<close>

definition conf :: "server \<Rightarrow> listener \<times> worker_pc list \<times> nat \<times> nat \<times> udp_queue \<times> u64 \<times> request list" where
  "conf s = (s_listener s, s_workers s, s_sem s, s_mutex s, s_queue s, s_receiveCount s, s_served s)"

lemma conf_next:
  assumes "\<exists>s. reachable t n s \<and> conf s = c"
    "\<And>s. wf_server s \<Longrightarrow> conf s = c \<Longrightarrow> \<exists>s'. step s s' \<and> conf s' = c'"
  shows "\<exists>s. reachable t n s \<and> conf s = c'"
  using assms reachable_wf next_step by metis

lemma one_worker_is: "s_workers s = [w] \<Longrightarrow> worker_is s 0 w"
  by (simp add: worker_is_def)


lemma conf_worker:
  assumes "\<exists>s. reachable t n s \<and> conf s = (l, [w], sm, mx, q, rc, sv)"
    "\<And>s. conf s = (l, [w], sm, mx, q, rc, sv) \<Longrightarrow> worker_is s 0 w \<Longrightarrow> \<exists>s'. step s s' \<and> conf s' = c'"
  shows "\<exists>s. reachable t n s \<and> conf s = c'"
  using conf_next [OF assms(1), of c'] assms(2) by (auto simp: conf_def one_worker_is)

text \<open>The worker finds the queue empty and is stopped before it waits; the listener adds a request
and signals nobody; the worker goes to sleep.\<close>

lemma lost_wakeup_run:
  assumes "data \<noteq> []" "length data \<le> SOCKET_UDP_RECEIVED_UDP_MESSAGE_LENGTH"
    "addRequest udp_queue0 (data, a, 1) = Inr q"
  shows "\<exists>s. reachable t 1 s \<and> conf s = (L_recv, [W_sleep], 1, 1, q, 1, [])"
proof -
  have "\<exists>s. reachable t 1 s \<and> conf s = (L_recv, [W_wait], 1, 1, udp_queue0, 0, [])"
    using reachable.start [of t 1] by (intro exI [of _ "server0 t 1"]) (simp add: conf_def server0_def)
  then have "\<exists>s. reachable t 1 s \<and> conf s = (L_recv, [W_pull], 0, 1, udp_queue0, 0, [])"
    by (rule conf_worker) (rule exI, rule conjI, erule w_wait, auto simp: conf_def)
  then have "\<exists>s. reachable t 1 s \<and> conf s = (L_recv, [W_post None], 0, 1, udp_queue0, 0, [])"
    by (rule conf_worker) (rule exI, rule conjI, erule w_pull [where p = None and uq = udp_queue0],
      auto simp: conf_def pullUdpRequest_def udp_queue0_def)
  then have "\<exists>s. reachable t 1 s \<and> conf s = (L_recv, [W_lock], 1, 1, udp_queue0, 0, [])"
    by (rule conf_worker) (rule exI, rule conjI, erule w_post, auto simp: conf_def)
  then have "\<exists>s. reachable t 1 s \<and> conf s = (L_wait (data, a, 1), [W_lock], 1, 1, udp_queue0, 1, [])"
  proof (rule conf_next)
    fix s assume wf: "wf_server s" and c: "conf s = (L_recv, [W_lock], 1, 1, udp_queue0, 0, [])"
    have ok: "recv_ok (Received data a)" using assms(2) by (simp add: recv_ok_def)
    have "s_receiveCount s = 0" using c by (simp add: conf_def)
    then obtain r st where "receiveStep (Received data a) (s_rps s) (s_stats s) (s_receiveCount s) =
        Inr (r, st, 1, Some (data, a, 1))"
      using receiveStep_ok [OF ok, of "s_rps s" "s_stats s" 0] wf assms(1,2)
      by (auto simp: receiveStep_def wf_server_def bindR_Inr_iff Let_def)
    with ok c have "step s (s\<lparr>s_rps := r, s_stats := st, s_receiveCount := 1, s_listener := L_wait (data, a, 1)\<rparr>)"
      by (intro l_recv) (simp_all add: conf_def)
    with c show "\<exists>s'. step s s' \<and> conf s' = (L_wait (data, a, 1), [W_lock], 1, 1, udp_queue0, 1, [])"
      by (auto simp: conf_def)
  qed
  then have "\<exists>s. reachable t 1 s \<and> conf s = (L_add (data, a, 1), [W_lock], 0, 1, udp_queue0, 1, [])"
    by (rule conf_worker) (rule exI, rule conjI, rule l_wait, auto simp: conf_def)
  then have "\<exists>s. reachable t 1 s \<and> conf s = (L_post, [W_lock], 0, 1, q, 1, [])"
    by (rule conf_worker) (rule exI, rule conjI, rule l_add, auto simp: conf_def assms(3))
  then have "\<exists>s. reachable t 1 s \<and> conf s = (L_lock, [W_lock], 1, 1, q, 1, [])"
    by (rule conf_worker) (rule exI, rule conjI, rule l_post, auto simp: conf_def)
  then have "\<exists>s. reachable t 1 s \<and> conf s = (L_signal, [W_lock], 1, 0, q, 1, [])"
    by (rule conf_worker) (rule exI, rule conjI, rule l_lock, auto simp: conf_def)
  then have "\<exists>s. reachable t 1 s \<and> conf s = (L_unlock, [W_lock], 1, 0, q, 1, [])"
    by (rule conf_worker) (rule exI, rule conjI, rule l_signal_none, auto simp: conf_def)
  then have "\<exists>s. reachable t 1 s \<and> conf s = (L_recv, [W_lock], 1, 1, q, 1, [])"
    by (rule conf_worker) (rule exI, rule conjI, rule l_unlock, auto simp: conf_def)
  then have "\<exists>s. reachable t 1 s \<and> conf s = (L_recv, [W_cond], 1, 0, q, 1, [])"
    by (rule conf_worker) (rule exI, rule conjI, erule w_lock, auto simp: conf_def)
  then show ?thesis
    by (rule conf_worker) (rule exI, rule conjI, erule w_cond, auto simp: conf_def)
qed

text \<open>A state whose workers all sleep while the listener waits for a datagram moves by a result
of recvfrom or by a sleeper that wakes without a signal, and by nothing else.\<close>

lemma all_asleep_step:
  assumes "step s s'" "s_listener s = L_recv" "set (s_workers s) \<subseteq> {W_sleep}"
  shows "(s_workers s' = s_workers s \<and> s_queue s' = s_queue s \<and>
      (\<exists>ev. recv_ok ev \<and> (\<exists>q. receiveStep ev (s_rps s) (s_stats s) (s_receiveCount s) =
        Inr (s_rps s', s_stats s', s_receiveCount s', q)))) \<or>
    (\<exists>i. worker_is s i W_sleep \<and> s' = set_worker i W_woken s)"
proof -
  have w: "w = W_sleep" if "worker_is s i w" for i w
    using that assms(3) nth_mem [of i "s_workers s"] by (auto simp: worker_is_def)
  from assms(1) show ?thesis
    by (cases rule: step_cases) (use assms(2) in \<open>auto dest: w\<close>)
qed

text \<open>C32: A request can be stranded: a run with one worker reaches a state in which a datagram is
in the queue, nobody has served it, the worker sleeps on the condition variable and the
listener waits for the network. Only a further result of recvfrom, or a wake-up that no
signal caused, leaves that state: the worker looks at the queue before it takes the mutex and
does not look again before it waits.\<close>

theorem udp_lost_wakeup:
  assumes "data \<noteq> []" "length data \<le> SOCKET_UDP_RECEIVED_UDP_MESSAGE_LENGTH"
  shows "\<exists>s. reachable t 1 s \<and> holds (s_queue s) [(data, a, 1)] \<and> s_served s = [] \<and>
    s_listener s = L_recv \<and> s_workers s = [W_sleep] \<and>
    (\<forall>s'. step s s' \<longrightarrow> s_workers s' = [W_sleep] \<and> s_queue s' = s_queue s \<and>
        (\<exists>ev q. recv_ok ev \<and> receiveStep ev (s_rps s) (s_stats s) (s_receiveCount s) =
           Inr (s_rps s', s_stats s', s_receiveCount s', q)) \<or> s' = set_worker 0 W_woken s)"
proof -
  obtain q where q: "addRequest udp_queue0 (data, a, 1) = Inr q" "holds q [(data, a, 1)]"
    using udp_fifo.rep_add [OF holds_empty, of "(data, a, 1)"] by auto
  from lost_wakeup_run [OF assms q(1), of t] obtain s where s: "reachable t 1 s"
    "conf s = (L_recv, [W_sleep], 1, 1, q, 1, [])" by blast
  then have f: "s_listener s = L_recv" "s_workers s = [W_sleep]" "s_queue s = q" "s_served s = []"
    by (simp_all add: conf_def)
  have "s_workers s' = [W_sleep] \<and> s_queue s' = s_queue s \<and>
      (\<exists>ev q. recv_ok ev \<and> receiveStep ev (s_rps s) (s_stats s) (s_receiveCount s) =
         Inr (s_rps s', s_stats s', s_receiveCount s', q)) \<or> s' = set_worker 0 W_woken s" if "step s s'" for s'
    using all_asleep_step [OF that f(1)] f(2) by (auto simp: worker_is_def)
  with s(1) f q(2) show ?thesis by blast
qed

theorem udp_lost_wakeup_witness:
  "\<exists>s. reachable 0 1 s \<and> holds (s_queue s) [([1, 2, 3], replicate 16 0, 1)] \<and> s_workers s = [W_sleep]"
  using udp_lost_wakeup [of "[1, 2, 3]" 0 "replicate 16 0"]
  by (auto simp: SOCKET_UDP_RECEIVED_UDP_MESSAGE_LENGTH_def)

end
