(* ===== verification/Argument.thy ===== *)
theory Argument
  imports C_Prelude Complex_Main
begin

text \<open>
  The command line (argument.h, argument.c): the names of the options, the loop over argv with
  its defaults and conversions, and the limits applied at the end. argv is the list of its C
  strings. showHelp prints and exits with status 0, an unknown option exits with its code; the
  number of processors and the strtod of libc are arguments.
\<close>

definition ARGUMENT_UNKNOWN_INDEX :: nat where "ARGUMENT_UNKNOWN_INDEX = 0"
definition ARGUMENT_PORT_INDEX :: nat where "ARGUMENT_PORT_INDEX = 1"
definition ARGUMENT_INTERVAL_INDEX :: nat where "ARGUMENT_INTERVAL_INDEX = 2"
definition ARGUMENT_WORKERS_INDEX :: nat where "ARGUMENT_WORKERS_INDEX = 3"
definition ARGUMENT_MAX_PEERS_PER_RESPONSE_INDEX :: nat where "ARGUMENT_MAX_PEERS_PER_RESPONSE_INDEX = 4"
definition ARGUMENT_SOCKET_TIMEOUT_INDEX :: nat where "ARGUMENT_SOCKET_TIMEOUT_INDEX = 5"
definition ARGUMENT_KEEP_ALIVE_INDEX :: nat where "ARGUMENT_KEEP_ALIVE_INDEX = 6"
definition ARGUMENT_HELP_INDEX :: nat where "ARGUMENT_HELP_INDEX = 7"
definition ARGUMENT_CHARSET_INDEX :: nat where "ARGUMENT_CHARSET_INDEX = 8"
definition ARGUMENT_MIN_INTERVAL_INDEX :: nat where "ARGUMENT_MIN_INTERVAL_INDEX = 9"
definition ARGUMENT_MAX_INTERVAL_INDEX :: nat where "ARGUMENT_MAX_INTERVAL_INDEX = 10"
definition ARGUMENT_NO_TCP_INDEX :: nat where "ARGUMENT_NO_TCP_INDEX = 11"
definition ARGUMENT_NO_UDP_INDEX :: nat where "ARGUMENT_NO_UDP_INDEX = 12"
definition ARGUMENT_LOCALE_INDEX :: nat where "ARGUMENT_LOCALE_INDEX = 13"
definition ARGUMENT_NOFILE_INDEX :: nat where "ARGUMENT_NOFILE_INDEX = 14"
definition ARGUMENT_CORE_INDEX :: nat where "ARGUMENT_CORE_INDEX = 15"
definition ARGUMENT_FAILED_INDEX :: nat where "ARGUMENT_FAILED_INDEX = 16"
definition ARGUMENT_NO_LOCATIONS :: nat where "ARGUMENT_NO_LOCATIONS = 17"
definition ARGUMENT_X_FORWARDED_FOR :: nat where "ARGUMENT_X_FORWARDED_FOR = 18"
definition ARGUMENT_MAX_LOAD_AVG :: nat where "ARGUMENT_MAX_LOAD_AVG = 19"

lemmas argument_indices = ARGUMENT_UNKNOWN_INDEX_def ARGUMENT_PORT_INDEX_def ARGUMENT_INTERVAL_INDEX_def
  ARGUMENT_WORKERS_INDEX_def ARGUMENT_MAX_PEERS_PER_RESPONSE_INDEX_def ARGUMENT_SOCKET_TIMEOUT_INDEX_def
  ARGUMENT_KEEP_ALIVE_INDEX_def ARGUMENT_HELP_INDEX_def ARGUMENT_CHARSET_INDEX_def
  ARGUMENT_MIN_INTERVAL_INDEX_def ARGUMENT_MAX_INTERVAL_INDEX_def ARGUMENT_NO_TCP_INDEX_def
  ARGUMENT_NO_UDP_INDEX_def ARGUMENT_LOCALE_INDEX_def ARGUMENT_NOFILE_INDEX_def ARGUMENT_CORE_INDEX_def
  ARGUMENT_FAILED_INDEX_def ARGUMENT_NO_LOCATIONS_def ARGUMENT_X_FORWARDED_FOR_def ARGUMENT_MAX_LOAD_AVG_def

definition ARGUMENT_MIN_INTERVAL_DEFAULT :: u32 where "ARGUMENT_MIN_INTERVAL_DEFAULT = 239"
definition ARGUMENT_MAX_INTERVAL_DEFAULT :: u32 where "ARGUMENT_MAX_INTERVAL_DEFAULT = 1799"
definition EXIT_SUCCESS :: nat where "EXIT_SUCCESS = 0"
definition EXIT_CODE_ARGUMENT_UNKNOWN :: nat where "EXIT_CODE_ARGUMENT_UNKNOWN = 224"

record arguments =
  a_port :: u16
  a_interval :: u32
  a_workers :: u64
  a_maxPeersPerResponse :: u32
  a_socketTimeout :: u16
  a_keepAlive :: byte
  a_charset :: "bytes option"
  a_minInterval :: u32
  a_maxInterval :: u32
  a_noTcp :: byte
  a_noUdp :: byte
  a_locale :: "bytes option"
  a_nofile :: u64
  a_core :: u64
  a_failed :: u32
  a_noLocations :: byte
  a_xForwardedFor :: "bytes option"
  a_maxLoadAvg :: rat

text \<open>The structure with its defaults.\<close>

definition arguments0 :: "u64 \<Rightarrow> arguments" where
  "arguments0 processors =
     \<lparr>a_port = 3000, a_interval = 1799, a_workers = processors, a_maxPeersPerResponse = 60,
      a_socketTimeout = 3, a_keepAlive = 0, a_charset = None,
      a_minInterval = ARGUMENT_MIN_INTERVAL_DEFAULT, a_maxInterval = ARGUMENT_MAX_INTERVAL_DEFAULT,
      a_noTcp = 0, a_noUdp = 0, a_locale = None, a_nofile = 0, a_core = 0, a_failed = 0,
      a_noLocations = 0, a_xForwardedFor = None, a_maxLoadAvg = 0\<rparr>"

definition getName :: "bytes \<Rightarrow> nat" where
  "getName name =
     (if strcmp_eq name (lit ''-p'') \<or> strcmp_eq name (lit ''--port'') then ARGUMENT_PORT_INDEX
      else if strcmp_eq name (lit ''-i'') \<or> strcmp_eq name (lit ''--interval'') then ARGUMENT_INTERVAL_INDEX
      else if strcmp_eq name (lit ''-w'') \<or> strcmp_eq name (lit ''--workers'') then ARGUMENT_WORKERS_INDEX
      else if strcmp_eq name (lit ''-e'') \<or> strcmp_eq name (lit ''--peers'') then ARGUMENT_MAX_PEERS_PER_RESPONSE_INDEX
      else if strcmp_eq name (lit ''-t'') \<or> strcmp_eq name (lit ''--timeout'') then ARGUMENT_SOCKET_TIMEOUT_INDEX
      else if strcmp_eq name (lit ''-k'') \<or> strcmp_eq name (lit ''--keep'') then ARGUMENT_KEEP_ALIVE_INDEX
      else if strcmp_eq name (lit ''-h'') \<or> strcmp_eq name (lit ''--help'') then ARGUMENT_HELP_INDEX
      else if strcmp_eq name (lit ''--charset'') then ARGUMENT_CHARSET_INDEX
      else if strcmp_eq name (lit ''--min-interval'') then ARGUMENT_MIN_INTERVAL_INDEX
      else if strcmp_eq name (lit ''--max-interval'') then ARGUMENT_MAX_INTERVAL_INDEX
      else if strcmp_eq name (lit ''--no-tcp'') then ARGUMENT_NO_TCP_INDEX
      else if strcmp_eq name (lit ''--no-udp'') then ARGUMENT_NO_UDP_INDEX
      else if strcmp_eq name (lit ''--locale'') then ARGUMENT_LOCALE_INDEX
      else if strcmp_eq name (lit ''--nofile'') then ARGUMENT_NOFILE_INDEX
      else if strcmp_eq name (lit ''--core'') then ARGUMENT_CORE_INDEX
      else if strcmp_eq name (lit ''-f'') then ARGUMENT_FAILED_INDEX
      else if strcmp_eq name (lit ''--no-locations'') then ARGUMENT_NO_LOCATIONS
      else if strcmp_eq name (lit ''-x'') then ARGUMENT_X_FORWARDED_FOR
      else if strcmp_eq name (lit ''-a'') then ARGUMENT_MAX_LOAD_AVG
      else ARGUMENT_UNKNOWN_INDEX)"

text \<open>
  One turn of the switch: the option's index, the argument behind it (None at the end of argv)
  and its atoi. The result says whether the argument behind is consumed (index++).
\<close>

definition parseOption ::
  "(bytes \<Rightarrow> rat) \<Rightarrow> nat \<Rightarrow> bytes option \<Rightarrow> u32 \<Rightarrow> arguments \<Rightarrow> (arguments \<times> bool) res" where
  "parseOption strtod i behind argumentValue a =
     (if i = ARGUMENT_PORT_INDEX then Inr (a\<lparr>a_port := ucast argumentValue\<rparr>, True)
      else if i = ARGUMENT_INTERVAL_INDEX then Inr (a\<lparr>a_interval := argumentValue\<rparr>, True)
      else if i = ARGUMENT_WORKERS_INDEX then Inr (a\<lparr>a_workers := scast argumentValue\<rparr>, True)
      else if i = ARGUMENT_MAX_PEERS_PER_RESPONSE_INDEX then Inr (a\<lparr>a_maxPeersPerResponse := argumentValue\<rparr>, True)
      else if i = ARGUMENT_SOCKET_TIMEOUT_INDEX then Inr (a\<lparr>a_socketTimeout := ucast argumentValue\<rparr>, True)
      else if i = ARGUMENT_KEEP_ALIVE_INDEX then Inr (a\<lparr>a_keepAlive := 1\<rparr>, False)
      else if i = ARGUMENT_HELP_INDEX then Inl (Exit EXIT_SUCCESS)
      else if i = ARGUMENT_CHARSET_INDEX then Inr (a\<lparr>a_charset := behind\<rparr>, True)
      else if i = ARGUMENT_MIN_INTERVAL_INDEX then Inr (a\<lparr>a_minInterval := argumentValue\<rparr>, True)
      else if i = ARGUMENT_MAX_INTERVAL_INDEX then Inr (a\<lparr>a_maxInterval := argumentValue\<rparr>, True)
      else if i = ARGUMENT_NO_TCP_INDEX then Inr (a\<lparr>a_noTcp := 1\<rparr>, False)
      else if i = ARGUMENT_NO_UDP_INDEX then Inr (a\<lparr>a_noUdp := 1\<rparr>, False)
      else if i = ARGUMENT_LOCALE_INDEX then Inr (a\<lparr>a_locale := behind\<rparr>, True)
      else if i = ARGUMENT_NOFILE_INDEX then Inr (a\<lparr>a_nofile := scast argumentValue\<rparr>, True)
      else if i = ARGUMENT_CORE_INDEX then Inr (a\<lparr>a_core := scast argumentValue\<rparr>, True)
      else if i = ARGUMENT_FAILED_INDEX then Inr (a\<lparr>a_failed := argumentValue\<rparr>, True)
      else if i = ARGUMENT_NO_LOCATIONS then Inr (a\<lparr>a_noLocations := 1\<rparr>, False)
      else if i = ARGUMENT_X_FORWARDED_FOR then Inr (a\<lparr>a_xForwardedFor := behind\<rparr>, True)
      else if i = ARGUMENT_MAX_LOAD_AVG then
        Inr (a\<lparr>a_maxLoadAvg := (case behind of None \<Rightarrow> 0 | Some s \<Rightarrow> strtod s)\<rparr>, True)
      else Inl (Exit EXIT_CODE_ARGUMENT_UNKNOWN))"

fun parseLoop :: "(bytes \<Rightarrow> rat) \<Rightarrow> bytes list \<Rightarrow> arguments \<Rightarrow> arguments res" where
  "parseLoop strtod [] a = Inr a"
| "parseLoop strtod [name] a =
     bindR (parseOption strtod (getName name) None 0 a) (\<lambda>(a', _). Inr a')"
| "parseLoop strtod (name # behind # rest) a =
     bindR (parseOption strtod (getName name) (Some behind) (atoi behind) a) (\<lambda>(a', consumed).
       parseLoop strtod (if consumed then rest else behind # rest) a')"

definition limitIntervals :: "arguments \<Rightarrow> arguments" where
  "limitIntervals a =
     (let lo = min ARGUMENT_MAX_INTERVAL_DEFAULT (max ARGUMENT_MIN_INTERVAL_DEFAULT (a_minInterval a));
          hi = min ARGUMENT_MAX_INTERVAL_DEFAULT (max lo (a_maxInterval a))
      in a\<lparr>a_minInterval := lo, a_maxInterval := hi\<rparr>)"

text \<open>argv without the name of the program.\<close>

definition parseArguments :: "(bytes \<Rightarrow> rat) \<Rightarrow> u64 \<Rightarrow> bytes list \<Rightarrow> arguments res" where
  "parseArguments strtod processors argv =
     (if argv \<noteq> [] \<and> atoi (hd argv) \<noteq> 0 then Inl (Exit EXIT_SUCCESS)
      else bindR (parseLoop strtod argv (arguments0 processors)) (\<lambda>a0.
        let a = limitIntervals a0 in
        if a_port a = 0 \<or> a_interval a = 0 \<or> a_workers a = 0 \<or> a_maxPeersPerResponse a = 0 \<or>
           a_socketTimeout a = 0 \<or> a_minInterval a = 0 \<or> a_maxInterval a = 0 \<or>
           (a_noTcp a \<noteq> 0 \<and> a_noUdp a \<noteq> 0)
        then Inl (Exit EXIT_SUCCESS) else Inr a))"

section \<open>The accepted configurations\<close>

text \<open>What the rest of the program may take for granted of its arguments.\<close>

definition valid_arguments :: "arguments \<Rightarrow> bool" where
  "valid_arguments a \<longleftrightarrow>
     a_port a \<noteq> 0 \<and> a_interval a \<noteq> 0 \<and> a_workers a \<noteq> 0 \<and> a_maxPeersPerResponse a \<noteq> 0 \<and>
     a_socketTimeout a \<noteq> 0 \<and> ARGUMENT_MIN_INTERVAL_DEFAULT \<le> a_minInterval a \<and>
     a_minInterval a \<le> a_maxInterval a \<and> a_maxInterval a \<le> ARGUMENT_MAX_INTERVAL_DEFAULT \<and>
     (a_noTcp a = 0 \<or> a_noUdp a = 0)"

lemma limitIntervals_bounds:
  "ARGUMENT_MIN_INTERVAL_DEFAULT \<le> a_minInterval (limitIntervals a) \<and>
   a_minInterval (limitIntervals a) \<le> a_maxInterval (limitIntervals a) \<and>
   a_maxInterval (limitIntervals a) \<le> ARGUMENT_MAX_INTERVAL_DEFAULT"
  by (auto simp: limitIntervals_def Let_def min_def max_def ARGUMENT_MIN_INTERVAL_DEFAULT_def
      ARGUMENT_MAX_INTERVAL_DEFAULT_def)

lemma limitIntervals_valid:
  "valid_arguments (limitIntervals a) \<longleftrightarrow>
   \<not> (a_port a = 0 \<or> a_interval a = 0 \<or> a_workers a = 0 \<or> a_maxPeersPerResponse a = 0 \<or>
      a_socketTimeout a = 0 \<or> (a_noTcp a \<noteq> 0 \<and> a_noUdp a \<noteq> 0))"
  using limitIntervals_bounds [of a]
  by (auto simp: valid_arguments_def) (simp_all add: limitIntervals_def Let_def)

lemma finish_arguments:
  "(let b = limitIntervals a in
     if a_port b = 0 \<or> a_interval b = 0 \<or> a_workers b = 0 \<or> a_maxPeersPerResponse b = 0 \<or>
        a_socketTimeout b = 0 \<or> a_minInterval b = 0 \<or> a_maxInterval b = 0 \<or>
        (a_noTcp b \<noteq> 0 \<and> a_noUdp b \<noteq> 0)
     then Inl (Exit EXIT_SUCCESS) else Inr b :: arguments res) =
   (if valid_arguments (limitIntervals a) then Inr (limitIntervals a) else Inl (Exit EXIT_SUCCESS))"
proof -
  let ?b = "limitIntervals a"
  have "a_minInterval ?b \<noteq> 0" "a_maxInterval ?b \<noteq> 0"
    using limitIntervals_bounds [of a]
    by (auto simp: ARGUMENT_MIN_INTERVAL_DEFAULT_def)
  then show ?thesis
    using limitIntervals_bounds [of a] by (auto simp: Let_def valid_arguments_def)
qed

section \<open>The options of the command line\<close>

text \<open>
  What a user can ask for, as values; how each is written on the command line, and what it
  means for the configuration.
\<close>

datatype setting =
    Port u16 | Interval u32 | Workers u32 | Peers u32 | Timeout u16 | Keep | Charset bytes
  | Min_interval u32 | Max_interval u32 | No_tcp | No_udp | Locale bytes | Nofile u32 | Core u32
  | Failed u32 | No_locations | Forwarded_for bytes | Max_load bytes

fun setting_argv :: "setting \<Rightarrow> bytes list" where
  "setting_argv (Port n) = [lit ''--port'', dec (unat n)]"
| "setting_argv (Interval n) = [lit ''--interval'', fmt_u n]"
| "setting_argv (Workers n) = [lit ''--workers'', fmt_u n]"
| "setting_argv (Peers n) = [lit ''--peers'', fmt_u n]"
| "setting_argv (Timeout n) = [lit ''--timeout'', dec (unat n)]"
| "setting_argv Keep = [lit ''--keep'']"
| "setting_argv (Charset s) = [lit ''--charset'', s]"
| "setting_argv (Min_interval n) = [lit ''--min-interval'', fmt_u n]"
| "setting_argv (Max_interval n) = [lit ''--max-interval'', fmt_u n]"
| "setting_argv No_tcp = [lit ''--no-tcp'']"
| "setting_argv No_udp = [lit ''--no-udp'']"
| "setting_argv (Locale s) = [lit ''--locale'', s]"
| "setting_argv (Nofile n) = [lit ''--nofile'', fmt_u n]"
| "setting_argv (Core n) = [lit ''--core'', fmt_u n]"
| "setting_argv (Failed n) = [lit ''-f'', fmt_u n]"
| "setting_argv No_locations = [lit ''--no-locations'']"
| "setting_argv (Forwarded_for s) = [lit ''-x'', s]"
| "setting_argv (Max_load s) = [lit ''-a'', s]"

fun apply_setting :: "(bytes \<Rightarrow> rat) \<Rightarrow> setting \<Rightarrow> arguments \<Rightarrow> arguments" where
  "apply_setting strtod (Port n) = a_port_update (\<lambda>_. n)"
| "apply_setting strtod (Interval n) = a_interval_update (\<lambda>_. n)"
| "apply_setting strtod (Workers n) = a_workers_update (\<lambda>_. scast n)"
| "apply_setting strtod (Peers n) = a_maxPeersPerResponse_update (\<lambda>_. n)"
| "apply_setting strtod (Timeout n) = a_socketTimeout_update (\<lambda>_. n)"
| "apply_setting strtod Keep = a_keepAlive_update (\<lambda>_. 1)"
| "apply_setting strtod (Charset s) = a_charset_update (\<lambda>_. Some s)"
| "apply_setting strtod (Min_interval n) = a_minInterval_update (\<lambda>_. n)"
| "apply_setting strtod (Max_interval n) = a_maxInterval_update (\<lambda>_. n)"
| "apply_setting strtod No_tcp = a_noTcp_update (\<lambda>_. 1)"
| "apply_setting strtod No_udp = a_noUdp_update (\<lambda>_. 1)"
| "apply_setting strtod (Locale s) = a_locale_update (\<lambda>_. Some s)"
| "apply_setting strtod (Nofile n) = a_nofile_update (\<lambda>_. scast n)"
| "apply_setting strtod (Core n) = a_core_update (\<lambda>_. scast n)"
| "apply_setting strtod (Failed n) = a_failed_update (\<lambda>_. n)"
| "apply_setting strtod No_locations = a_noLocations_update (\<lambda>_. 1)"
| "apply_setting strtod (Forwarded_for s) = a_xForwardedFor_update (\<lambda>_. Some s)"
| "apply_setting strtod (Max_load s) = a_maxLoadAvg_update (\<lambda>_. strtod s)"

lemmas option_lookup = getName_def strcmp_eq_def cstr_def lit_def argument_indices

lemma getName_of_setting:
  "getName (lit ''--port'') = ARGUMENT_PORT_INDEX"
  "getName (lit ''--interval'') = ARGUMENT_INTERVAL_INDEX"
  "getName (lit ''--workers'') = ARGUMENT_WORKERS_INDEX"
  "getName (lit ''--peers'') = ARGUMENT_MAX_PEERS_PER_RESPONSE_INDEX"
  "getName (lit ''--timeout'') = ARGUMENT_SOCKET_TIMEOUT_INDEX"
  "getName (lit ''--keep'') = ARGUMENT_KEEP_ALIVE_INDEX"
  "getName (lit ''--charset'') = ARGUMENT_CHARSET_INDEX"
  "getName (lit ''--min-interval'') = ARGUMENT_MIN_INTERVAL_INDEX"
  "getName (lit ''--max-interval'') = ARGUMENT_MAX_INTERVAL_INDEX"
  "getName (lit ''--no-tcp'') = ARGUMENT_NO_TCP_INDEX"
  "getName (lit ''--no-udp'') = ARGUMENT_NO_UDP_INDEX"
  "getName (lit ''--locale'') = ARGUMENT_LOCALE_INDEX"
  "getName (lit ''--nofile'') = ARGUMENT_NOFILE_INDEX"
  "getName (lit ''--core'') = ARGUMENT_CORE_INDEX"
  "getName (lit ''-f'') = ARGUMENT_FAILED_INDEX"
  "getName (lit ''--no-locations'') = ARGUMENT_NO_LOCATIONS"
  "getName (lit ''-x'') = ARGUMENT_X_FORWARDED_FOR"
  "getName (lit ''-a'') = ARGUMENT_MAX_LOAD_AVG"
  by (simp_all add: option_lookup)

lemma atoi_dec_u16 [simp]: "ucast (atoi (dec (unat (n :: u16)))) = n"
proof -
  have "unat n < 2 ^ 63" using unsigned_less [of n, where ?'a = nat] by simp
  then have "ucast (atoi (dec (unat n))) = (ucast (ucast n :: u32) :: u16)" by (simp add: atoi_dec)
  also have "\<dots> = n" by (rule bit_word_eqI) (simp add: bit_simps)
  finally show ?thesis .
qed

lemma parseLoop_single:
  "parseOption strtod (getName name) (case rest of [] \<Rightarrow> None | b # _ \<Rightarrow> Some b)
     (case rest of [] \<Rightarrow> 0 | b # _ \<Rightarrow> atoi b) a = Inr (a', False)
   \<Longrightarrow> parseLoop strtod (name # rest) a = parseLoop strtod rest a'"
  by (cases rest) simp_all

lemma parseLoop_setting:
  "parseLoop strtod (setting_argv s @ rest) a = parseLoop strtod rest (apply_setting strtod s a)"
proof (cases s)
  case Keep
  show ?thesis unfolding Keep setting_argv.simps append.simps
    by (rule parseLoop_single) (simp add: getName_of_setting parseOption_def argument_indices)
next
  case No_tcp
  show ?thesis unfolding No_tcp setting_argv.simps append.simps
    by (rule parseLoop_single) (simp add: getName_of_setting parseOption_def argument_indices)
next
  case No_udp
  show ?thesis unfolding No_udp setting_argv.simps append.simps
    by (rule parseLoop_single) (simp add: getName_of_setting parseOption_def argument_indices)
next
  case No_locations
  show ?thesis unfolding No_locations setting_argv.simps append.simps
    by (rule parseLoop_single) (simp add: getName_of_setting parseOption_def argument_indices)
qed (simp_all add: getName_of_setting parseOption_def argument_indices)

lemma parseLoop_settings:
  "parseLoop strtod (concat (map setting_argv ss)) a = Inr (fold (apply_setting strtod) ss a)"
  by (induction ss arbitrary: a) (simp_all add: parseLoop_setting)

lemma atoi_of_name: "atoi (hd (setting_argv s)) = 0"
  by (cases s) (simp_all add: atoi_def strtol_def lit_def cstr_def isspace_def digit_val_def saturate_long_def)

lemma setting_argv_not_Nil [simp]: "setting_argv s \<noteq> []"
  by (cases s) simp_all

lemma parseOption_errors:
  "parseOption strtod i behind v a = Inl e \<Longrightarrow> e = Exit EXIT_SUCCESS \<or> e = Exit EXIT_CODE_ARGUMENT_UNKNOWN"
  unfolding parseOption_def by (auto split: if_splits)

section \<open>Properties\<close>

text \<open>C37: Every command line that does not end the program gives a configuration the rest of the
program can rely on: a port, an interval, workers, a limit of peers and a timeout that are not
zero, 239 <= minInterval <= maxInterval <= 1799, and at least one of the two protocols; a command
line never fails in another way than by an exit.\<close>

theorem parseArguments_valid:
  "(case parseArguments strtod processors argv of
      Inr a \<Rightarrow> valid_arguments a
    | Inl e \<Rightarrow> e = Exit EXIT_SUCCESS \<or> e = Exit EXIT_CODE_ARGUMENT_UNKNOWN)"
proof -
  have loop: "parseLoop strtod argv a = Inl e \<Longrightarrow> e = Exit EXIT_SUCCESS \<or> e = Exit EXIT_CODE_ARGUMENT_UNKNOWN"
    for a e
  proof (induction strtod argv a rule: parseLoop.induct)
    case (2 strtod name a)
    then show ?case by (cases "parseOption strtod (getName name) None 0 a") (auto dest: parseOption_errors)
  next
    case (3 strtod name behind rest a)
    then show ?case
      by (cases "parseOption strtod (getName name) (Some behind) (atoi behind) a")
        (auto dest: parseOption_errors split: if_splits)
  qed simp
  show ?thesis
    unfolding parseArguments_def finish_arguments
    using loop [of "arguments0 processors"]
    by (cases "parseLoop strtod argv (arguments0 processors)") (auto split: sum.split)
qed

text \<open>C38: The command line is read back: the options of a list of settings, written one after the
other with their numbers in decimal, give the defaults changed by the settings in their order (a
later one wins) with the limits of the interval applied, and the program ends with the help exactly
when that configuration is not acceptable.\<close>

theorem parseArguments_reads_settings:
  "parseArguments strtod processors (concat (map setting_argv settings)) =
   (let a = limitIntervals (fold (apply_setting strtod) settings (arguments0 processors))
    in if valid_arguments a then Inr a else Inl (Exit EXIT_SUCCESS))"
proof -
  have "concat (map setting_argv settings) \<noteq> [] \<Longrightarrow>
      atoi (hd (concat (map setting_argv settings))) = 0"
    using atoi_of_name by (cases settings) simp_all
  then show ?thesis
    unfolding parseArguments_def finish_arguments by (auto simp: parseLoop_settings finish_arguments [unfolded Let_def] Let_def)
qed

end
