(* ===== verification/Data_Garbage.thy ===== *)
theory Data_Garbage
  imports Tracker_Laws
begin

text \<open>
  The garbage collector of peers and torrents (data\_garbage.h, data\_garbage.c): a pass over
  every torrent and every peer that removes the peers not heard of for too long, corrects the
  counters, and removes the torrents left without a peer, with its statistics. A leaf pointer
  is the path of the leaf (with the torrent's hash for a leaf of a peer list).
\<close>

definition DATA_GARBAGE_MAX_ALIVE_TIME :: int where "DATA_GARBAGE_MAX_ALIVE_TIME = 1800"

record garbageStats =
  g_totalPeers :: u32
  g_totalTorrents :: u32
  g_totalTorrentsWithChangeLimit :: u32
  g_maxPeersInOneTorrent :: u32
  g_maxPeersInLeaf :: u32
  g_maxTorrentsInOneLeaf :: u32
  g_currentPeersInTorrent :: u32
  g_currentPeersInLeaf :: u32
  g_currentTorrentsInLeaf :: u32
  g_removedPeers :: u32
  g_removedTorrents :: u32
  g_lastTorrentLeaf :: "nat list option"
  g_lastPeerLeaf :: "(bytes \<times> nat list) option"
  g_limitTime :: int
  g_currentTorrent :: "(bytes \<times> torrentDataL) option"

definition garbageStats0 :: garbageStats where
  "garbageStats0 = \<lparr>g_totalPeers = 0, g_totalTorrents = 0, g_totalTorrentsWithChangeLimit = 0,
     g_maxPeersInOneTorrent = 0, g_maxPeersInLeaf = 0, g_maxTorrentsInOneLeaf = 0,
     g_currentPeersInTorrent = 0, g_currentPeersInLeaf = 0, g_currentTorrentsInLeaf = 0,
     g_removedPeers = 0, g_removedTorrents = 0, g_lastTorrentLeaf = None, g_lastPeerLeaf = None,
     g_limitTime = 0, g_currentTorrent = None\<rparr>"

text \<open>The count of the peers of a leaf, the first half of the inner callback.\<close>

definition countPeerInLeaf :: "bytes \<Rightarrow> nat list \<Rightarrow> garbageStats \<Rightarrow> garbageStats" where
  "countPeerInLeaf h path g =
     (let n = (if g_lastPeerLeaf g \<noteq> Some (h, path) then 0 else g_currentPeersInLeaf g) + 1 in
      g\<lparr>g_currentPeersInLeaf := n, g_lastPeerLeaf := Some (h, path),
        g_maxPeersInLeaf := (if n > g_maxPeersInLeaf g then n else g_maxPeersInLeaf g)\<rparr>)"

definition runGarbageCollectorCallbackCallback :: "(peerDataL, garbageStats) callback" where
  "runGarbageCollectorCallbackCallback path hash d g =
     (case g_currentTorrent g of None \<Rightarrow> Inl Null_deref | Some (h, t) \<Rightarrow>
      case d of None \<Rightarrow> Inl Null_deref | Some p \<Rightarrow>
        (let g1 = countPeerInLeaf h path g in
         if p_updateTime p < g_limitTime g1 then
           (let t' = (if p_event p = URI_EVENT_ID_COMPLETED
                      then t\<lparr>t_complete := t_complete t - 1\<rparr>
                      else t\<lparr>t_incomplete := t_incomplete t - 1\<rparr>) in
            Inr (Remove, g1\<lparr>g_currentTorrent := Some (h, t'), g_removedPeers := g_removedPeers g1 + 1\<rparr>, False))
         else
           Inr (Keep d, g1\<lparr>g_totalPeers := g_totalPeers g1 + 1,
                           g_currentPeersInTorrent := g_currentPeersInTorrent g1 + 1\<rparr>, False)))"

definition countTorrentInLeaf :: "nat list \<Rightarrow> garbageStats \<Rightarrow> garbageStats" where
  "countTorrentInLeaf path g =
     (let n = (if g_lastTorrentLeaf g \<noteq> Some path then 0 else g_currentTorrentsInLeaf g) + 1 in
      g\<lparr>g_currentTorrentsInLeaf := n, g_lastTorrentLeaf := Some path,
        g_maxTorrentsInOneLeaf := (if n > g_maxTorrentsInOneLeaf g then n else g_maxTorrentsInOneLeaf g)\<rparr>)"

text \<open>The counts of a torrent that stays.\<close>

definition countKeptTorrent :: "garbageStats \<Rightarrow> garbageStats" where
  "countKeptTorrent g =
     (let g1 = g\<lparr>g_totalTorrents := g_totalTorrents g + 1\<rparr>;
          g2 = (if g_currentPeersInTorrent g1 > g_maxPeersInOneTorrent g1
                then g1\<lparr>g_maxPeersInOneTorrent := g_currentPeersInTorrent g1\<rparr> else g1)
      in if g_currentPeersInTorrent g2 > DATA_STRUCTURE_PEERS_FOR_LEVEL_0_LIMIT
         then g2\<lparr>g_totalTorrentsWithChangeLimit := g_totalTorrentsWithChangeLimit g2 + 1\<rparr> else g2)"

text \<open>
  The outer callback. The torrent's data is the one of currentTorrent after the pass over its
  peers, whose list is the one mapList leaves.
\<close>

definition runGarbageCollectorCallback :: "(torrentDataL, garbageStats) callback" where
  "runGarbageCollectorCallback path hash d g =
     (case d of None \<Rightarrow> Inl Null_deref | Some t \<Rightarrow>
        (let g1 = (countTorrentInLeaf path g)\<lparr>g_currentPeersInTorrent := 0, g_currentTorrent := Some (hash, t)\<rparr> in
         bindR (mapListPtr runGarbageCollectorCallbackCallback g1 (t_peerList t)) (\<lambda>(pl, g2, _).
           let t' = (case g_currentTorrent g2 of None \<Rightarrow> t | Some (h, u) \<Rightarrow> u)\<lparr>t_peerList := pl\<rparr> in
           if g_currentPeersInTorrent g2 = 0 then
             (case pl of
                None \<Rightarrow> Inl Null_deref
              | Some l \<Rightarrow> bindR (freeList True l) (\<lambda>_.
                  Inr (Remove, g2\<lparr>g_removedTorrents := g_removedTorrents g2 + 1\<rparr>, False)))
           else Inr (Keep (Some t'), countKeptTorrent g2, False))))"

definition garbageLimit :: "int \<Rightarrow> int" where
  "garbageLimit now = now - DATA_GARBAGE_MAX_ALIVE_TIME - uint INTERVAL_STEP_S"

definition runGarbageCollectorL ::
  "int \<Rightarrow> torrentDataL hlist \<Rightarrow> (torrentDataL hlist \<times> garbageStats) res" where
  "runGarbageCollectorL now torrentList =
     bindR (mapList runGarbageCollectorCallback [] (garbageStats0\<lparr>g_limitTime := garbageLimit now\<rparr>) torrentList)
       (\<lambda>(l, g, _). Inr (l, g))"

section \<open>What a pass does\<close>

definition expired :: "int \<Rightarrow> peerDataL \<Rightarrow> bool" where
  "expired limit p \<longleftrightarrow> p_updateTime p < limit"

definition fresh :: "int \<Rightarrow> peerDataL \<Rightarrow> bool" where
  "fresh limit p \<longleftrightarrow> \<not> expired limit p"

text \<open>The counters after the expired peers of M have been taken off.\<close>

definition counted_off :: "int \<Rightarrow> peerDataL multiset \<Rightarrow> torrentDataL \<Rightarrow> torrentDataL \<Rightarrow> bool" where
  "counted_off limit M t u \<longleftrightarrow>
     t_complete u = t_complete t - of_nat (size (filter_mset is_seeder (filter_mset (expired limit) M))) \<and>
     t_incomplete u = t_incomplete t
       - of_nat (size (filter_mset (Not \<circ> is_seeder) (filter_mset (expired limit) M))) \<and>
     t_downloaded u = t_downloaded t"

text \<open>The torrent a pass leaves: its fresh peers, and the counters without the expired ones.\<close>

definition gc_torrent :: "int \<Rightarrow> torrentDataL \<Rightarrow> torrentDataL \<Rightarrow> bool" where
  "gc_torrent limit t u \<longleftrightarrow> wf_torrent u \<and>
     peers_of u = (\<lambda>k. case peers_of t k of None \<Rightarrow> None
       | Some p \<Rightarrow> if fresh limit p then Some p else None) \<and>
     peersM u = filter_mset (fresh limit) (peersM t) \<and> counted_off limit (peersM t) t u"

definition all_expired :: "int \<Rightarrow> torrentDataL \<Rightarrow> bool" where
  "all_expired limit t \<longleftrightarrow> (\<forall>p \<in># peersM t. expired limit p)"

lemma all_expired_fresh: "filter_mset (fresh limit) (peersM t) = {#} \<longleftrightarrow> all_expired limit t"
  by (auto simp: all_expired_def fresh_def)

definition itemsM :: "peerDataL item list \<Rightarrow> peerDataL multiset" where
  "itemsM xs = mset (List.map_filter snd xs)"

lemma itemsM_append [simp]: "itemsM (xs @ ys) = itemsM xs + itemsM ys"
  by (simp add: itemsM_def List.map_filter_def)

lemma itemsM_simps [simp]: "itemsM [] = {#}" "itemsM ((k, Some p) # xs) = add_mset p (itemsM xs)"
  by (simp_all add: itemsM_def map_filter_simps)

definition fresh_item :: "int \<Rightarrow> peerDataL item \<Rightarrow> bool" where
  "fresh_item limit it \<longleftrightarrow> (case snd it of None \<Rightarrow> True | Some p \<Rightarrow> fresh limit p)"

definition peers_inv ::
  "bytes \<Rightarrow> torrentDataL \<Rightarrow> int \<Rightarrow> garbageStats \<Rightarrow> peerDataL item list \<Rightarrow> peerDataL item list \<Rightarrow> bool" where
  "peers_inv h t limit g pre acc \<longleftrightarrow> g_limitTime g = limit \<and> acc = filter (fresh_item limit) pre \<and>
     g_currentPeersInTorrent g = of_nat (length acc) \<and>
     (\<exists>u. g_currentTorrent g = Some (h, u) \<and> counted_off limit (itemsM pre) t u)"

lemma countPeerInLeaf_fields [simp]:
  "g_limitTime (countPeerInLeaf h p g) = g_limitTime g"
  "g_currentPeersInTorrent (countPeerInLeaf h p g) = g_currentPeersInTorrent g"
  "g_currentTorrent (countPeerInLeaf h p g) = g_currentTorrent g"
  by (simp_all add: countPeerInLeaf_def Let_def)

lemma countTorrentInLeaf_fields [simp]:
  "g_limitTime (countTorrentInLeaf p g) = g_limitTime g"
  by (simp add: countTorrentInLeaf_def Let_def)

lemma countKeptTorrent_fields [simp]: "g_limitTime (countKeptTorrent g) = g_limitTime g"
  by (simp add: countKeptTorrent_def Let_def)

lemma peers_callback_ok:
  assumes "\<And>k. (k, None) \<notin> set T"
  shows "callback_ok runGarbageCollectorCallbackCallback T (peers_inv h t limit) (\<lambda>_ _ _. False)"
  unfolding callback_ok_def
proof (intro allI impI)
  fix path g pre acc k d rest
  assume T: "T = pre @ (k, d) # rest" and I: "peers_inv h t limit g pre acc"
  from T assms [of k] have "d \<noteq> None" by (cases d) auto
  then obtain p where d: "d = Some p" by auto
  from I obtain u where u: "g_currentTorrent g = Some (h, u)" "counted_off limit (itemsM pre) t u"
    by (auto simp: peers_inv_def)
  show "\<exists>e s' b. runGarbageCollectorCallbackCallback path k d g = Inr (e, s', b) \<and>
      (if b then False else peers_inv h t limit s' (pre @ [(k, d)]) (acc @ effect_items k e))"
    using I u unfolding d
    by (cases "expired limit p")
      (auto simp: runGarbageCollectorCallbackCallback_def Let_def peers_inv_def fresh_item_def fresh_def
        expired_def counted_off_def is_seeder_def)
qed

lemma map_of_filter_snd:
  "distinct (map fst xs) \<Longrightarrow> map_of (filter P xs) k =
     (case map_of xs k of None \<Rightarrow> None | Some d \<Rightarrow> if P (k, d) then Some d else None)"
  by (induction xs) (auto split: option.splits simp: map_of_eq_None_iff)

text \<open>The pass over the peers of one torrent.\<close>

lemma gc_peers:
  assumes "wf_torrent t" "t_peerList t = Some pl" "g_limitTime g = limit"
    "g_currentPeersInTorrent g = 0" "g_currentTorrent g = Some (h, t)"
  obtains pl' g' u where
    "mapListPtr runGarbageCollectorCallbackCallback g (Some pl) = Inr (Some pl', g', False)"
    "g_limitTime g' = limit" "g_currentTorrent g' = Some (h, u)" "wf_hlist pl'"
    "gc_torrent limit t (u\<lparr>t_peerList := Some pl'\<rparr>)"
    "g_currentPeersInTorrent g' = of_nat (size (filter_mset (fresh limit) (peersM t)))"
    "allItems pl' = [] \<longleftrightarrow> all_expired limit t"
proof -
  have pl: "wf_hlist pl" "leaves_free pl" "\<And>k. (k, None) \<notin> set (allItems pl)"
    using assms(1,2) by (auto simp: wf_torrent_def)
  have "peers_inv h t limit g [] []" using assms(3-5) by (simp add: peers_inv_def counted_off_def)
  from mapList_all [OF pl(1,2) peers_callback_ok [OF pl(3)] this, of "[]"] obtain pl' g' where
    r: "mapList runGarbageCollectorCallbackCallback [] g pl = Inr (pl', g', False)" "wf_hlist pl'"
    "leaves_free pl'" "same_params pl pl'" "peers_inv h t limit g' (allItems pl) (allItems pl')" by blast
  then obtain u where u: "g_limitTime g' = limit" "allItems pl' = filter (fresh_item limit) (allItems pl)"
    "g_currentPeersInTorrent g' = of_nat (length (allItems pl'))" "g_currentTorrent g' = Some (h, u)"
    "counted_off limit (itemsM (allItems pl)) t u" by (auto simp: peers_inv_def)
  let ?u = "u\<lparr>t_peerList := Some pl'\<rparr>"
  have M: "peersM t = itemsM (allItems pl)" using assms(2) by (simp add: peersM_def peer_list_def itemsM_def)
  have "peersM ?u = itemsM (allItems pl')" by (simp add: peersM_def peer_list_def itemsM_def)
  moreover have filt: "itemsM (filter (fresh_item limit) xs) = filter_mset (fresh limit) (itemsM xs)"
    "size (filter_mset (fresh limit) (itemsM xs)) = length (filter (fresh_item limit) xs)"
    if "\<And>k. (k, None) \<notin> set xs" for xs
  proof -
    have "itemsM (filter (fresh_item limit) xs) = filter_mset (fresh limit) (itemsM xs) \<and>
       size (filter_mset (fresh limit) (itemsM xs)) = length (filter (fresh_item limit) xs)"
      using that
    proof (induction xs)
      case (Cons x xs)
      then obtain k p where "x = (k, Some p)" by (cases x; cases "snd x") auto
      with Cons show ?case by (auto simp: fresh_item_def)
    qed simp
    then show "itemsM (filter (fresh_item limit) xs) = filter_mset (fresh limit) (itemsM xs)"
      "size (filter_mset (fresh limit) (itemsM xs)) = length (filter (fresh_item limit) xs)" by auto
  qed
  ultimately have Mu: "peersM ?u = filter_mset (fresh limit) (peersM t)"
    unfolding M u(2) using filt(1) pl(3) by simp
  have size: "length (allItems pl') = size (filter_mset (fresh limit) (peersM t))"
    unfolding M u(2) using filt(2) pl(3) by simp
  have "wf_torrent ?u"
    using assms(1,2) r(2-4) pl(3) unfolding wf_torrent_def by (auto simp: same_params_def u(2))
  moreover have "peers_of ?u k = (case peers_of t k of None \<Rightarrow> None
       | Some p \<Rightarrow> if fresh limit p then Some p else None)" for k
    using assms(2) map_of_filter_snd [OF hl.its_distinct [OF pl(1)], of "fresh_item limit" k]
      map_of_SomeD [of "allItems pl" k None] pl(3)
    by (auto simp: peers_of_def u(2) fresh_item_def split: option.splits)
  moreover have "counted_off limit (peersM t) t ?u" using u(5) by (simp add: counted_off_def M)
  ultimately have "gc_torrent limit t ?u" using Mu by (simp add: gc_torrent_def fun_eq_iff)
  moreover have "allItems pl' = [] \<longleftrightarrow> all_expired limit t"
    unfolding all_expired_fresh [symmetric] using size by (metis length_0_conv size_eq_0_iff_empty)
  ultimately show thesis
    using r(1,2) u(1,3,4) size by (intro that) (auto simp: mapListPtr_def)
qed

text \<open>One item before and after a pass over the torrents.\<close>

definition gc_item :: "int \<Rightarrow> torrentDataL option option \<Rightarrow> torrentDataL option option \<Rightarrow> bool" where
  "gc_item limit d e \<longleftrightarrow>
     (case d of
        Some (Some t) \<Rightarrow>
          (if all_expired limit t then e = None
           else (\<exists>u. e = Some (Some u) \<and> gc_torrent limit t u))
      | _ \<Rightarrow> e = None)"

definition torrents_inv ::
  "int \<Rightarrow> garbageStats \<Rightarrow> torrentDataL item list \<Rightarrow> torrentDataL item list \<Rightarrow> bool" where
  "torrents_inv limit g pre acc \<longleftrightarrow> g_limitTime g = limit \<and>
     (\<forall>h. gc_item limit (map_of pre h) (map_of acc h)) \<and>
     (\<forall>h d. (h, d) \<in> set acc \<longrightarrow> (case d of None \<Rightarrow> False | Some u \<Rightarrow> wf_torrent u))"

text \<open>The peer counts of the pass are 32-bit, as the counters of the torrents are.\<close>

definition peers_fit :: "torrentDataL hlist \<Rightarrow> bool" where
  "peers_fit ts \<longleftrightarrow> all_torrents (\<lambda>t. size (peersM t) < 2 ^ 32) ts"

lemma map_of_snoc: "map_of (xs @ [(k, v)]) h = (case map_of xs h of None \<Rightarrow> if h = k then Some v else None | Some d \<Rightarrow> Some d)"
  by (auto simp: map_add_def split: option.split)

lemma of_nat_u32_eq_0: "n < 2 ^ 32 \<Longrightarrow> (of_nat n :: u32) = 0 \<longleftrightarrow> n = 0"
  by (auto simp: word_of_nat_eq_0_iff dest: nat_dvd_not_less)

lemma torrents_callback_ok:
  assumes wf: "\<And>h d. (h, d) \<in> set T \<Longrightarrow> \<exists>t. d = Some t \<and> wf_torrent t \<and> size (peersM t) < 2 ^ 32"
    and dist: "distinct (map fst T)"
  shows "callback_ok runGarbageCollectorCallback T (torrents_inv limit) (\<lambda>_ _ _. False)"
  unfolding callback_ok_def
proof (intro allI impI)
  fix path g pre acc k d rest
  assume T: "T = pre @ (k, d) # rest" and I: "torrents_inv limit g pre acc"
  from wf [of k d] T obtain t where t: "d = Some t" "wf_torrent t" "size (peersM t) < 2 ^ 32" by auto
  obtain pl where pl: "t_peerList t = Some pl" using t(2) by (auto simp: wf_torrent_def split: option.splits)
  have kn: "map_of pre k = None" using dist T by (auto simp: map_of_eq_None_iff)
  moreover have "gc_item limit (map_of pre k) (map_of acc k)" using I by (simp add: torrents_inv_def)
  ultimately have ka: "map_of acc k = None" by (simp add: gc_item_def)
  let ?g = "(countTorrentInLeaf path g)\<lparr>g_currentPeersInTorrent := 0, g_currentTorrent := Some (k, t)\<rparr>"
  have gl: "g_limitTime ?g = limit" using I by (simp add: torrents_inv_def)
  let ?F = "filter_mset (fresh limit) (peersM t)"
  have gp: "g_currentPeersInTorrent ?g = 0" "g_currentTorrent ?g = Some (k, t)" by simp_all
  from gc_peers [OF t(2) pl gl gp] obtain pl' g' u where r:
    "mapListPtr runGarbageCollectorCallbackCallback ?g (Some pl) = Inr (Some pl', g', False)"
    "g_limitTime g' = limit" "g_currentTorrent g' = Some (k, u)" "wf_hlist pl'"
    "gc_torrent limit t (u\<lparr>t_peerList := Some pl'\<rparr>)"
    "g_currentPeersInTorrent g' = of_nat (size ?F)" "allItems pl' = [] \<longleftrightarrow> all_expired limit t" by blast
  have "size ?F < 2 ^ 32" using t(3) size_filter_mset_lesseq [of "fresh limit" "peersM t"] by linarith
  then have zero: "g_currentPeersInTorrent g' = 0 \<longleftrightarrow> all_expired limit t"
    unfolding r(6) by (simp only: of_nat_u32_eq_0 size_eq_0_iff_empty all_expired_fresh)
  show "\<exists>e s' b. runGarbageCollectorCallback path k d g = Inr (e, s', b) \<and>
      (if b then False else torrents_inv limit s' (pre @ [(k, d)]) (acc @ effect_items k e))"
  proof (cases "all_expired limit t")
    case True
    then have "runGarbageCollectorCallback path k d g =
        Inr (Remove, g'\<lparr>g_removedTorrents := g_removedTorrents g' + 1\<rparr>, False)"
      using r zero t(1) pl by (simp add: runGarbageCollectorCallback_def Let_def freeList_wf)
    moreover have "torrents_inv limit (g'\<lparr>g_removedTorrents := g_removedTorrents g' + 1\<rparr>) (pre @ [(k, d)]) acc"
    proof -
      have "gc_item limit (map_of (pre @ [(k, d)]) h) (map_of acc h)" for h
      proof (cases "h = k")
        case True
        then show ?thesis unfolding map_of_snoc using kn ka \<open>all_expired limit t\<close> t(1)
          by (simp add: gc_item_def)
      next
        case False
        moreover have "gc_item limit (map_of pre h) (map_of acc h)" using I by (simp add: torrents_inv_def)
        ultimately show ?thesis unfolding map_of_snoc by (cases "map_of pre h") auto
      qed
      then show ?thesis using I r(2) by (simp add: torrents_inv_def)
    qed
    ultimately show ?thesis by auto
  next
    case False
    let ?u = "u\<lparr>t_peerList := Some pl'\<rparr>"
    have "runGarbageCollectorCallback path k d g = Inr (Keep (Some ?u), countKeptTorrent g', False)"
      using False r zero t(1) pl by (simp add: runGarbageCollectorCallback_def Let_def)
    moreover have "torrents_inv limit (countKeptTorrent g') (pre @ [(k, d)]) (acc @ [(k, Some ?u)])"
    proof -
      have "gc_item limit (map_of (pre @ [(k, d)]) h) (map_of (acc @ [(k, Some ?u)]) h)" for h
      proof (cases "h = k")
        case True
        then show ?thesis unfolding map_of_snoc using kn ka False t(1) r(5) by (simp add: gc_item_def)
      next
        case False
        moreover have "gc_item limit (map_of pre h) (map_of acc h)" using I by (simp add: torrents_inv_def)
        ultimately show ?thesis unfolding map_of_snoc
          by (cases "map_of pre h"; cases "map_of acc h") auto
      qed
      moreover have "wf_torrent ?u" using r(5) by (simp add: gc_torrent_def)
      ultimately show ?thesis using I r(2) by (auto simp: torrents_inv_def)
    qed
    ultimately show ?thesis by auto
  qed
qed


lemma runGarbageCollectorL_ok:
  assumes "wf_tracker ts" "peers_fit ts"
  obtains ts' g where "runGarbageCollectorL now ts = Inr (ts', g)" "wf_tracker ts'" "same_params ts ts'"
    "\<And>h. gc_item (garbageLimit now) (map_of (allItems ts) h) (map_of (allItems ts') h)"
proof -
  have wf: "wf_hlist ts" "leaves_free ts" using assms(1) by (simp_all add: wf_tracker_def)
  have T: "\<exists>t. d = Some t \<and> wf_torrent t \<and> size (peersM t) < 2 ^ 32" if "(h, d) \<in> set (allItems ts)" for h d
  proof -
    have "map_of (allItems ts) h = Some d" using that hl.its_distinct [OF wf(1)] by simp
    moreover from that assms(1) have "case d of None \<Rightarrow> False | Some t \<Rightarrow> wf_torrent t"
      by (simp add: wf_tracker_def)
    ultimately obtain t where t: "d = Some t" "wf_torrent t" "torrent_of ts h = Some t"
      by (cases d) (auto simp: torrent_of_def)
    with assms(2) have "size (peersM t) < 2 ^ 32" unfolding peers_fit_def all_torrents_def by blast
    with t show ?thesis by blast
  qed
  let ?I = "torrents_inv (garbageLimit now)" and ?g = "garbageStats0\<lparr>g_limitTime := garbageLimit now\<rparr>"
  have I0: "?I ?g [] []" by (simp add: torrents_inv_def gc_item_def)
  have cb: "callback_ok runGarbageCollectorCallback (allItems ts) ?I (\<lambda>_ _ _. False)"
    by (rule torrents_callback_ok [OF _ hl.its_distinct [OF wf(1)]]) (rule T)
  from mapList_all [OF wf cb I0, of "[]"]
  obtain ts' g where r: "mapList runGarbageCollectorCallback [] ?g ts = Inr (ts', g, False)" "wf_hlist ts'"
    "leaves_free ts'" "same_params ts ts'" "?I g (allItems ts) (allItems ts')" by blast
  have "wf_tracker ts'"
    using r assms(1) by (auto simp: wf_tracker_def torrents_inv_def same_params_def)
  with r show thesis by (intro that) (auto simp: runGarbageCollectorL_def torrents_inv_def)
qed

lemma gc_torrent_of:
  assumes "wf_tracker ts" "wf_tracker ts'" "gc_item limit (map_of (allItems ts) h) (map_of (allItems ts') h)"
  shows "case torrent_of ts h of None \<Rightarrow> torrent_of ts' h = None
    | Some t \<Rightarrow> (if all_expired limit t then torrent_of ts' h = None
        else (\<exists>u. torrent_of ts' h = Some u \<and> gc_torrent limit t u))"
proof (cases "map_of (allItems ts) h")
  case None
  with assms(3) show ?thesis by (simp add: torrent_of_def gc_item_def)
next
  case (Some d)
  with assms(1) have "case d of None \<Rightarrow> False | Some t \<Rightarrow> wf_torrent t"
    by (auto simp: wf_tracker_def dest!: map_of_SomeD)
  then obtain t where "d = Some t" by (cases d) auto
  with Some assms(3) show ?thesis
    by (cases "all_expired limit t") (auto simp: torrent_of_def gc_item_def)
qed

lemma counted_off_counters:
  assumes "counted_off limit (peersM t) t u" "peersM u = filter_mset (fresh limit) (peersM t)"
  shows "counters_sum t \<Longrightarrow> counters_sum u" "counters_exact t \<Longrightarrow> counters_exact u"
proof -
  have split: "filter_mset P (filter_mset (expired limit) M) + filter_mset P (filter_mset (fresh limit) M)
      = filter_mset P M" for P and M :: "peerDataL multiset"
    by (induction M) (auto simp: fresh_def)
  have n: "size (filter_mset P (peersM t)) = size (filter_mset P (filter_mset (expired limit) (peersM t)))
      + size (filter_mset P (peersM u))" for P
    unfolding assms(2) split [symmetric, of P "peersM t"] by simp
  have two: "size M = size (filter_mset is_seeder M) + size (filter_mset (Not \<circ> is_seeder) M)"
    for M :: "peerDataL multiset" by (induction M) auto
  show "counters_exact u" if "counters_exact t"
    using that assms n [of is_seeder] n [of "Not \<circ> is_seeder"]
    by (simp add: counters_exact_def counted_off_def)
  show "counters_sum u" if "counters_sum t"
  proof -
    from that have "t_complete t + t_incomplete t =
        of_nat (size (filter_mset is_seeder (peersM t)) + size (filter_mset (Not \<circ> is_seeder) (peersM t)))"
      unfolding counters_sum_def two [of "peersM t", symmetric] by simp
    moreover have "t_complete u + t_incomplete u = t_complete t + t_incomplete t
        - of_nat (size (filter_mset is_seeder (filter_mset (expired limit) (peersM t)))
          + size (filter_mset (Not \<circ> is_seeder) (filter_mset (expired limit) (peersM t))))"
      using assms(1) by (simp add: counted_off_def)
    ultimately have "t_complete u + t_incomplete u = of_nat (size (peersM u))"
      unfolding n [of is_seeder] n [of "Not \<circ> is_seeder"] two [of "peersM u"] by simp
    with that assms(2) show ?thesis by (simp add: counters_sum_def)
  qed
qed

section \<open>Properties\<close>

text \<open>C10: The garbage collector never fails or exits, and removes exactly the peers whose last
announce is older than the maximal age, and exactly the torrents this leaves without a peer;
every other peer of every torrent stays as it is.\<close>

theorem garbage_collector_removes_expired:
  assumes "wf_tracker ts" "peers_fit ts"
  shows "\<exists>ts' g. runGarbageCollectorL now ts = Inr (ts', g) \<and> wf_tracker ts' \<and>
    (\<forall>h k. tracker_map ts' h k =
       (case tracker_map ts h k of None \<Rightarrow> None
        | Some p \<Rightarrow> if p_updateTime p < now - 1860 then None else Some p)) \<and>
    (\<forall>h. torrent_of ts' h = None \<longleftrightarrow>
       (case torrent_of ts h of None \<Rightarrow> True
        | Some t \<Rightarrow> \<forall>p \<in># peersM t. p_updateTime p < now - 1860))"
proof -
  from runGarbageCollectorL_ok [OF assms, of now] obtain ts' g where r:
    "runGarbageCollectorL now ts = Inr (ts', g)" "wf_tracker ts'"
    "\<And>h. gc_item (garbageLimit now) (map_of (allItems ts) h) (map_of (allItems ts') h)" by metis
  have lim: "garbageLimit now = now - 1860"
    by (simp add: garbageLimit_def DATA_GARBAGE_MAX_ALIVE_TIME_def INTERVAL_STEP_S_def)
  have t: "case torrent_of ts h of None \<Rightarrow> torrent_of ts' h = None
    | Some t \<Rightarrow> (if all_expired (now - 1860) t then torrent_of ts' h = None
        else (\<exists>u. torrent_of ts' h = Some u \<and> gc_torrent (now - 1860) t u))" for h
    using gc_torrent_of [OF assms(1) r(2,3)] unfolding lim .
  have none: "all_expired (now - 1860) t = (\<forall>p \<in># peersM t. p_updateTime p < now - 1860)" for t
    by (simp add: all_expired_def expired_def)
  have "tracker_map ts' h k = (case tracker_map ts h k of None \<Rightarrow> None
        | Some p \<Rightarrow> if p_updateTime p < now - 1860 then None else Some p)" for h k
  proof (cases "torrent_of ts h")
    case None
    then show ?thesis using t [of h] by (simp add: tracker_map_def)
  next
    case (Some u)
    show ?thesis
    proof (cases "peers_of u k")
      case None
      then show ?thesis using t [of h] Some by (auto simp: tracker_map_def gc_torrent_def split: if_splits)
    next
      case p: (Some p)
      have "p \<in># peersM u" using peers_of_in_peersM [OF wf_tracker_torrent [OF assms(1) Some] p] .
      then show ?thesis using t [of h] Some p none [of u]
        by (auto simp: tracker_map_def gc_torrent_def fresh_def expired_def split: if_splits)
    qed
  qed
  moreover have "torrent_of ts' h = None \<longleftrightarrow>
       (case torrent_of ts h of None \<Rightarrow> True
        | Some t \<Rightarrow> \<forall>p \<in># peersM t. p_updateTime p < now - 1860)" for h
    using t [of h] none by (auto split: option.splits if_splits)
  ultimately show ?thesis using r(1,2) by blast
qed

lemma sample_fit: "peers_fit (sample_tracker e)"
  by (simp add: peers_fit_def sample_all_torrents sample_ok)

theorem garbage_collector_removes_expired_witness:
  "\<exists>ts' g. runGarbageCollectorL 1961 (sample_tracker 1) = Inr (ts', g) \<and> torrent_of ts' (replicate 20 1) = None"
proof -
  have "p_updateTime (sample_peer 1) = 100" by (simp add: sample_peer_def)
  with garbage_collector_removes_expired [OF sample_ok(2) sample_fit, of 1961 1] show ?thesis
    by (auto simp: sample_ok split: option.splits)
qed

text \<open>C25: A garbage collection keeps both readings of the counters: the peers it removes are
taken off complete or incomplete as their stored event says.\<close>

theorem garbage_collector_keeps_counters:
  assumes "wf_tracker ts" "peers_fit ts"
  shows "\<exists>ts' g. runGarbageCollectorL now ts = Inr (ts', g) \<and>
    (all_torrents counters_sum ts \<longrightarrow> all_torrents counters_sum ts') \<and>
    (all_torrents counters_exact ts \<longrightarrow> all_torrents counters_exact ts')"
proof -
  from runGarbageCollectorL_ok [OF assms, of now] obtain ts' g where r:
    "runGarbageCollectorL now ts = Inr (ts', g)" "wf_tracker ts'"
    "\<And>h. gc_item (garbageLimit now) (map_of (allItems ts) h) (map_of (allItems ts') h)" by metis
  have "\<exists>t. torrent_of ts h = Some t \<and> (counters_sum t \<longrightarrow> counters_sum u) \<and> (counters_exact t \<longrightarrow> counters_exact u)"
    if "torrent_of ts' h = Some u" for h u
    using that gc_torrent_of [OF assms(1) r(2) r(3) [of h]] counted_off_counters
    by (auto simp: gc_torrent_def split: option.splits if_splits)
  then have "(all_torrents counters_sum ts \<longrightarrow> all_torrents counters_sum ts') \<and>
      (all_torrents counters_exact ts \<longrightarrow> all_torrents counters_exact ts')"
    unfolding all_torrents_def by metis
  with r(1) show ?thesis by blast
qed

theorem garbage_collector_keeps_counters_witness:
  "\<exists>ts' g. runGarbageCollectorL 500 (sample_tracker 1) = Inr (ts', g) \<and> all_torrents counters_sum ts'"
proof -
  have "all_torrents counters_sum (sample_tracker 1)"
    by (simp add: sample_all_torrents counters_sum_def sample_ok)
      (simp add: sample_torrent_def sample_peer_def event_defs)
  with garbage_collector_keeps_counters [OF sample_ok(2) sample_fit, of 500 1] show ?thesis by blast
qed

end
