(* ===== verification/Tracker_System.thy ===== *)
theory Tracker_System
  imports Tcp_Worker Udp_Server Argument Data_Garbage
begin

text \<open>
  The tracker as a whole (server.c, and the threads of socket\_tcp.c, socket\_udp.c and
  thread\_garbage.c): the state the threads share, as main makes it from the arguments, and one
  turn of each thread on it. A turn is atomic here. What overlapping turns do is in other theories:
  the queue of datagrams in Udp\_Server, the torrents in Announce\_Threads, the order of the
  semaphores in Lock\_Order, the password of the settings in Authorization\_Race.
\<close>

section \<open>The shared state\<close>

text \<open>What main and the listeners fix when they start the workers.\<close>

record config =
  f_equeues :: "u32 list"
  f_charset :: "bytes option"
  f_webRoot :: bytes
  f_xForwardedFor :: "bytes option"
  f_maxLoadAvg :: rat
  f_processors :: nat

record system =
  m_torrentList :: "torrentDataL hlist"
  m_stats :: stats
  m_socketLists :: "socketData hlist list"
  m_interval :: interval
  m_rps :: rps
  m_authorizationHeader :: bytes
  m_maxPeersPerResponse :: u32
  m_socketTimeout :: u16
  m_keepAlive :: byte
  m_websockets :: "unit hlist"
  m_geoip :: "geoip list"
  m_deleteSocketLists :: "unit hlist list"
  m_currentThread :: nat
  m_receiveCount :: u64

definition EXIT_CODE_GEOIP_TEST_FAILED :: nat where "EXIT_CODE_GEOIP_TEST_FAILED = 225"

text \<open>The interval before the first change: the three values of the argument, the limits.\<close>

definition interval0 :: "arguments \<Rightarrow> interval" where
  "interval0 a = \<lparr>i_interval = a_interval a, i_requireInterval = a_interval a, i_previousInterval = a_interval a,
     i_maxInterval = a_maxInterval a, i_minInterval = a_minInterval a\<rparr>"

text \<open>The lists of the sockets of the workers, and their lists of sockets to delete.\<close>

definition socketLists0 :: "nat \<Rightarrow> socketData hlist list res" where
  "socketLists0 workers =
     bindR (initList 1 0 4 (LIST_SEMAPHORE_ENABLE_LEAF OR LIST_SEMAPHORE_ENABLE_GLOBAL) LITTLE_ENDIAN)
       (\<lambda>l. Inr (replicate workers l))"

definition deleteSocketList0 :: "unit hlist res" where
  "deleteSocketList0 = initList 0 0 4 LIST_SEMAPHORE_DISABLE LITTLE_ENDIAN"

text \<open>The number of workers is a long; the loops that start them do not run for a negative one.\<close>

definition workersOf :: "arguments \<Rightarrow> nat" where
  "workersOf a = nat (sint (a_workers a))"

definition main0 :: "arguments \<Rightarrow> int \<Rightarrow> system res" where
  "main0 a now =
     bindR (socketLists0 (workersOf a)) (\<lambda>socketLists.
     bindR (initList 2 0 URI_PARAM_VALUE_LENGTH LIST_SEMAPHORE_ENABLE_LEAF LITTLE_ENDIAN) (\<lambda>torrentList.
     bindR (initList 0 0 4 (LIST_SEMAPHORE_ENABLE_LEAF OR LIST_SEMAPHORE_ENABLE_GLOBAL) LITTLE_ENDIAN) (\<lambda>websockets.
     let geoip = initGeoip (a_noLocations a \<noteq> 0) in
     bindR (findGeoip geoip 0) (\<lambda>i.
     if g_startIp (geoip ! i) \<noteq> 0 then Inl (Exit EXIT_CODE_GEOIP_TEST_FAILED) else
     bindR deleteSocketList0 (\<lambda>deleteSocketList.
       Inr \<lparr>m_torrentList = torrentList, m_stats = (stats0 now)\<lparr>st_failed := sint (a_failed a)\<rparr>,
            m_socketLists = socketLists, m_interval = interval0 a, m_rps = rps0, m_authorizationHeader = [],
            m_maxPeersPerResponse = a_maxPeersPerResponse a, m_socketTimeout = a_socketTimeout a,
            m_keepAlive = a_keepAlive a, m_websockets = websockets, m_geoip = geoip,
            m_deleteSocketLists = replicate (workersOf a) deleteSocketList, m_currentThread = 0,
            m_receiveCount = 0\<rparr>)))))"

text \<open>The limit of a resource main asks for: none, the hard limit, or the one of the argument.\<close>

definition setLimit :: "u64 \<Rightarrow> (u64 \<times> u64) option \<Rightarrow> (u64 \<times> u64) option" where
  "setLimit soft rlimit =
     (if soft = 0 then None
      else case rlimit of None \<Rightarrow> None | Some (cur, mx) \<Rightarrow> Some (if soft = - 1 then mx else soft, mx))"

section \<open>The turns of the threads\<close>

text \<open>A TCP worker: its arguments and its part of the state, and the turn of its loop.\<close>

definition clientTcpArgs :: "config \<Rightarrow> nat \<Rightarrow> u32 \<Rightarrow> system \<Rightarrow> tcp_args" where
  "clientTcpArgs cfg threadNumber equeue s =
     \<lparr>e_threadNumber = int threadNumber, e_equeue = equeue, e_charset = f_charset cfg, e_webRoot = f_webRoot cfg,
      e_geoip = m_geoip s, e_xForwardedFor = f_xForwardedFor cfg\<rparr>"

definition tcpView :: "socketData hlist \<Rightarrow> unit hlist \<Rightarrow> system \<Rightarrow> tcp_state" where
  "tcpView socketList deleteSocketList s =
     \<lparr>c_torrentList = m_torrentList s, c_stats = m_stats s, c_socketList = socketList, c_interval = m_interval s,
      c_rps = m_rps s, c_authorizationHeader = m_authorizationHeader s,
      c_maxPeersPerResponse = m_maxPeersPerResponse s, c_socketTimeout = m_socketTimeout s,
      c_keepAlive = m_keepAlive s, c_websockets = m_websockets s, c_deleteSocketList = deleteSocketList,
      c_actions = []\<rparr>"

definition tcpTurn ::
  "config \<Rightarrow> nat \<Rightarrow> (u32 \<Rightarrow> int option) \<Rightarrow> (u32 \<times> tcp_event \<times> tcp_os) list \<Rightarrow> system \<Rightarrow>
   (system \<times> os_action list) res" where
  "tcpTurn cfg i closeErr events s =
     bindR (nth_res (f_equeues cfg) i) (\<lambda>equeue.
     bindR (nth_res (m_socketLists s) i) (\<lambda>socketList.
     bindR (nth_res (m_deleteSocketLists s) i) (\<lambda>deleteSocketList.
     bindR (clientTcpHandler (clientTcpArgs cfg i equeue s) closeErr events (tcpView socketList deleteSocketList s)) (\<lambda>w.
       Inr (s\<lparr>m_torrentList := c_torrentList w, m_stats := c_stats w,
              m_socketLists := (m_socketLists s)[i := c_socketList w], m_interval := c_interval w, m_rps := c_rps w,
              m_authorizationHeader := c_authorizationHeader w, m_maxPeersPerResponse := c_maxPeersPerResponse w,
              m_socketTimeout := c_socketTimeout w, m_keepAlive := c_keepAlive w, m_websockets := c_websockets w,
              m_deleteSocketLists := (m_deleteSocketLists s)[i := c_deleteSocketList w]\<rparr>, c_actions w)))))"

definition acceptTurn :: "config \<Rightarrow> int \<Rightarrow> accept_result \<Rightarrow> system \<Rightarrow> (system \<times> os_action list) res" where
  "acceptTurn cfg now ev s =
     bindR (acceptStep now (f_equeues cfg) ev (m_stats s) (m_currentThread s) (m_socketLists s)) (\<lambda>(st, t, sls, acts).
       Inr (s\<lparr>m_stats := st, m_currentThread := t, m_socketLists := sls\<rparr>, acts))"

text \<open>A datagram, from recvfrom to the answer and the location sent to the websockets.\<close>

record udp_os =
  u_now :: int
  u_ntop :: "bool \<Rightarrow> bytes \<Rightarrow> bytes"
  u_sendErr :: "int option"
  u_answers :: "u32 \<Rightarrow> bytes \<Rightarrow> send_result list"

fun deliverAll :: "(u32 \<Rightarrow> bytes \<Rightarrow> send_result list) \<Rightarrow> (u32 \<times> bytes) list \<Rightarrow> stats \<Rightarrow> stats res" where
  "deliverAll answers [] st = Inr st"
| "deliverAll answers ((socket, frame) # rest) st =
     bindR (deliver answers False socket frame st) (deliverAll answers rest)"

fun udpActions :: "udp_os \<Rightarrow> udp_action list \<Rightarrow> system \<Rightarrow> (system \<times> (u32 \<times> bytes) list) res" where
  "udpActions os [] s = Inr (s, [])"
| "udpActions os (Sendto msg # rest) s = udpActions os rest s"
| "udpActions os (Broadcast ip # rest) s =
     bindR (broadcast (m_websockets s) (m_geoip s) ip WEBSOCKET_PROTOCOL_UDP) (\<lambda>(ws, frames).
     bindR (deliverAll (u_answers os) frames (m_stats s)) (\<lambda>st.
     bindR (udpActions os rest (s\<lparr>m_websockets := ws, m_stats := st\<rparr>)) (\<lambda>(s', more).
       Inr (s', frames @ more))))"

definition udpTurn :: "udp_os \<Rightarrow> recv_result \<Rightarrow> system \<Rightarrow> (system \<times> udp_action list \<times> (u32 \<times> bytes) list) res" where
  "udpTurn os ev s =
     bindR (receiveStep ev (m_rps s) (m_stats s) (m_receiveCount s)) (\<lambda>(r, st, n, request).
     let s1 = s\<lparr>m_rps := r, m_stats := st, m_receiveCount := n\<rparr> in
     case request of
       None \<Rightarrow> Inr (s1, [], [])
     | Some (data, clientIp, receiveCount) \<Rightarrow>
         bindR (udpRequestStep (u_ntop os) (u_now os) (m_maxPeersPerResponse s1) (m_interval s1) (u_sendErr os) clientIp
                  receiveCount data (m_torrentList s1) (m_stats s1)) (\<lambda>(ts, st2, acts).
         bindR (udpActions os acts (s1\<lparr>m_torrentList := ts, m_stats := st2\<rparr>)) (\<lambda>(s2, frames).
           Inr (s2, acts, frames))))"

text \<open>
  The collector of the tracker: it waits while the interval changes, otherwise it collects, asks
  for a new interval, and sleeps for the longer of the old and the new one.
\<close>

definition THREAD_GARBAGE_LITTLE_SLEEP :: u32 where "THREAD_GARBAGE_LITTLE_SLEEP = 10"

definition collectorTurn ::
  "config \<Rightarrow> int \<Rightarrow> (rat \<times> rat \<times> rat) option \<Rightarrow> system \<Rightarrow> (system \<times> u32) res" where
  "collectorTurn cfg now load s =
     (if i_interval (m_interval s) \<noteq> i_requireInterval (m_interval s) then Inr (s, THREAD_GARBAGE_LITTLE_SLEEP)
      else bindR (runGarbageCollectorL now (m_torrentList s)) (\<lambda>(ts, _).
        let iv = updateInterval load (f_processors cfg) (f_maxLoadAvg cfg) (m_interval s) in
        Inr (s\<lparr>m_torrentList := ts, m_interval := iv\<rparr>, max (i_previousInterval iv) (i_requireInterval iv))))"

definition intervalTurn :: "system \<Rightarrow> system \<times> u32" where
  "intervalTurn s = (case stepInterval (m_interval s) of (iv, seconds) \<Rightarrow> (s\<lparr>m_interval := iv\<rparr>, seconds))"

definition socketCollectorTurn ::
  "(u32 \<Rightarrow> int option) \<Rightarrow> (u32 \<Rightarrow> bytes \<Rightarrow> send_result list) \<Rightarrow> int list \<Rightarrow> system \<Rightarrow> (system \<times> os_action list) res" where
  "socketCollectorTurn closeErr answers clocks s =
     bindR (garbageSocketTimeoutHandler closeErr answers (m_socketTimeout s) (zip clocks (m_socketLists s))
              (m_stats s, m_websockets s, [])) (\<lambda>(sls, st, ws, acts).
       Inr (s\<lparr>m_socketLists := sls, m_stats := st, m_websockets := ws\<rparr>, acts))"

text \<open>What happens to the tracker next.\<close>

datatype event =
    Tcp_turn nat "u32 \<Rightarrow> int option" "(u32 \<times> tcp_event \<times> tcp_os) list"
  | Accept_turn int accept_result
  | Udp_turn udp_os recv_result
  | Collector_turn int "(rat \<times> rat \<times> rat) option"
  | Interval_turn
  | Socket_collector_turn "u32 \<Rightarrow> int option" "u32 \<Rightarrow> bytes \<Rightarrow> send_result list" "int list"
  | Rps_turn
  | Reset_max
  | Locations "geoip list"

fun runEvent :: "config \<Rightarrow> event \<Rightarrow> system \<Rightarrow> system res" where
  "runEvent cfg (Tcp_turn i closeErr events) s = bindR (tcpTurn cfg i closeErr events s) (\<lambda>(s', _). Inr s')"
| "runEvent cfg (Accept_turn now ev) s = bindR (acceptTurn cfg now ev s) (\<lambda>(s', _). Inr s')"
| "runEvent cfg (Udp_turn os ev) s = bindR (udpTurn os ev s) (\<lambda>(s', _). Inr s')"
| "runEvent cfg (Collector_turn now load) s = bindR (collectorTurn cfg now load s) (\<lambda>(s', _). Inr s')"
| "runEvent cfg Interval_turn s = Inr (fst (intervalTurn s))"
| "runEvent cfg (Socket_collector_turn closeErr answers clocks) s =
     bindR (socketCollectorTurn closeErr answers clocks s) (\<lambda>(s', _). Inr s')"
| "runEvent cfg Rps_turn s = Inr (s\<lparr>m_rps := rpsTick (m_rps s)\<rparr>)"
| "runEvent cfg Reset_max s = Inr (s\<lparr>m_rps := resetMaxRps (m_rps s)\<rparr>)"
| "runEvent cfg (Locations table) s = Inr (s\<lparr>m_geoip := table\<rparr>)"

section \<open>The invariant\<close>

definition system_ok :: "config \<Rightarrow> system \<Rightarrow> bool" where
  "system_ok cfg s \<longleftrightarrow> wf_tracker (m_torrentList s) \<and> whole_addresses (m_torrentList s) \<and> wf_stats (m_stats s) \<and>
     wf_rps (m_rps s) \<and> wf_websockets (m_websockets s) \<and> geoip_ready (m_geoip s) \<and>
     (\<forall>sl \<in> set (m_socketLists s). wf_sockets sl) \<and>
     (\<forall>dl \<in> set (m_deleteSocketLists s). wf_websockets dl \<and> allItems dl = []) \<and>
     length (m_socketLists s) = length (f_equeues cfg) \<and> length (m_deleteSocketLists s) = length (f_equeues cfg) \<and>
     m_currentThread s < length (f_equeues cfg)"

text \<open>
  What the threads rely on: the answers of the system are those of its documentation, the table
  of locations is ready whenever it is read, and the peers of a torrent are fewer than 2 to the 32nd
  when they are collected.
\<close>

definition errors_ok :: "(u32 \<Rightarrow> int option) \<Rightarrow> bool" where
  "errors_ok closeErr \<longleftrightarrow> (\<forall>s e. closeErr s = Some e \<longrightarrow> 0 \<le> e)"

fun event_ok :: "config \<Rightarrow> system \<Rightarrow> event \<Rightarrow> bool" where
  "event_ok cfg s (Tcp_turn i closeErr events) =
     (i < length (f_equeues cfg) \<and> (\<forall>(k, ev, os) \<in> set events. os_ok os) \<and> errors_ok closeErr)"
| "event_ok cfg s (Accept_turn now ev) = (\<forall>e. ev = Accept_error e \<longrightarrow> 0 \<le> e)"
| "event_ok cfg s (Udp_turn os ev) =
     (recv_ok ev \<and> (case ev of Recv_error e \<Rightarrow> True | Received data clientIp \<Rightarrow> length clientIp = 16) \<and>
      (case u_sendErr os of None \<Rightarrow> True | Some n \<Rightarrow> 0 \<le> n) \<and> kernel_sends (u_answers os))"
| "event_ok cfg s (Collector_turn now load) = peers_fit (m_torrentList s)"
| "event_ok cfg s Interval_turn = True"
| "event_ok cfg s (Socket_collector_turn closeErr answers clocks) =
     (errors_ok closeErr \<and> kernel_sends answers \<and> length clocks = length (m_socketLists s))"
| "event_ok cfg s Rps_turn = True"
| "event_ok cfg s Reset_max = True"
| "event_ok cfg s (Locations table) = geoip_ready table"

lemma tcpTurn_ok:
  assumes "system_ok cfg s" "i < length (f_equeues cfg)" "\<forall>(k, ev, os) \<in> set events. os_ok os" "errors_ok closeErr"
  shows "\<exists>s' acts vs. tcpTurn cfg i closeErr events s = Inr (s', acts) \<and> system_ok cfg s' \<and>
    m_interval s' = foldl forceUpdateInterval (m_interval s) vs"
proof -
  let ?sl = "m_socketLists s ! i" and ?dl = "m_deleteSocketLists s ! i" and ?eq = "f_equeues cfg ! i"
  let ?w = "tcpView ?sl ?dl s" and ?env = "clientTcpArgs cfg i ?eq s"
  have i: "i < length (m_socketLists s)" "i < length (m_deleteSocketLists s)"
    using assms(1,2) by (simp_all add: system_ok_def)
  have sl: "wf_sockets ?sl" using assms(1) i(1) by (simp add: system_ok_def)
  have dl: "wf_websockets ?dl" "allItems ?dl = []" using assms(1) i(2) by (simp_all add: system_ok_def)
  have w: "worker_inv ?w" "wf_sockets (c_socketList ?w)" "allItems (c_deleteSocketList ?w) = []" "geoip_ready (e_geoip ?env)"
    using assms(1) sl dl by (simp_all add: worker_inv_def tcpView_def clientTcpArgs_def system_ok_def)
  from clientTcpHandler_ok [OF w assms(3) assms(4) [unfolded errors_ok_def]] obtain w' where
    r: "clientTcpHandler ?env closeErr events ?w = Inr w'" "worker_inv w'" "wf_sockets (c_socketList w')"
    "allItems (c_deleteSocketList w') = []" "interval_kept ?w w'" by blast
  have "\<forall>x \<in> set ((m_socketLists s)[i := c_socketList w']). wf_sockets x"
    using assms(1) r(3) set_update_subset_insert [of "m_socketLists s" i "c_socketList w'"] by (auto simp: system_ok_def)
  moreover have "\<forall>x \<in> set ((m_deleteSocketLists s)[i := c_deleteSocketList w']). wf_websockets x \<and> allItems x = []"
    using assms(1) r(2,4) set_update_subset_insert [of "m_deleteSocketLists s" i "c_deleteSocketList w'"]
    by (auto simp: system_ok_def worker_inv_def)
  ultimately show ?thesis
    using assms(1,2) i r(1,2,5) by (simp add: tcpTurn_def nth_res_def system_ok_def worker_inv_def interval_kept_def tcpView_def)
qed

lemma acceptTurn_ok:
  assumes "system_ok cfg s" "\<forall>e. ev = Accept_error e \<longrightarrow> 0 \<le> e"
  shows "\<exists>s' acts. acceptTurn cfg now ev s = Inr (s', acts) \<and> system_ok cfg s'"
proof -
  have a: "wf_stats (m_stats s)" "m_currentThread s < length (m_socketLists s)"
    "length (f_equeues cfg) = length (m_socketLists s)" "\<forall>sl \<in> set (m_socketLists s). wf_sockets sl"
    using assms(1) by (simp_all add: system_ok_def)
  from acceptStep_ok [OF a assms(2), of now] obtain st sls acts where
    "acceptStep now (f_equeues cfg) ev (m_stats s) (m_currentThread s) (m_socketLists s) =
      Inr (st, (m_currentThread s + length (accepted [(now, ev)])) mod length (m_socketLists s), sls, acts)"
    "wf_stats st" "length sls = length (m_socketLists s)" "\<forall>sl \<in> set sls. wf_sockets sl" by blast
  moreover have "0 < length (f_equeues cfg)" using a(2,3) by linarith
  ultimately show ?thesis using assms(1) a(3) by (simp add: acceptTurn_def system_ok_def)
qed

lemma deliverAll_ok:
  assumes "wf_stats st" "kernel_sends answers"
  shows "\<exists>st'. deliverAll answers ms st = Inr st' \<and> wf_stats st'"
  using assms(1)
proof (induction ms arbitrary: st)
  case (Cons x ms)
  obtain k m where x: "x = (k, m)" by (cases x)
  from deliver_ok [OF Cons.prems assms(2), of False k m] obtain st1 where
    "deliver answers False k m st = Inr st1" "wf_stats st1" by blast
  with Cons.IH [of st1] x show ?case by auto
qed simp

lemma broadcastAll_ok:
  assumes "system_ok cfg s" "kernel_sends (u_answers os)"
  shows "\<exists>s' frames. udpActions os [Broadcast ip] s = Inr (s', frames) \<and> system_ok cfg s'"
proof -
  let ?ws = "m_websockets s"
  have w: "wf_hlist ?ws" "leaves_free ?ws" "geoip_ready (m_geoip s)" "wf_stats (m_stats s)"
    using assms(1) by (simp_all add: system_ok_def wf_websockets_def)
  from findGeoip_ready [OF w(3), of "htonl (rd32 ip 12)"] obtain i where
    i: "findGeoip (m_geoip s) (htonl (rd32 ip 12)) = Inr i" "i < length (m_geoip s)" by blast
  from broadcast_ok [OF w(1,2) i, of WEBSOCKET_PROTOCOL_UDP] obtain ws f where b:
    "broadcast ?ws (m_geoip s) ip WEBSOCKET_PROTOCOL_UDP = Inr (ws, map (\<lambda>(k, d). (rd32 k 0, f)) (allItems ?ws))"
    "wf_hlist ws" "leaves_free ws" "same_params ?ws ws" by blast
  from deliverAll_ok [OF w(4) assms(2)] obtain st where
    "deliverAll (u_answers os) (map (\<lambda>(k, d). (rd32 k 0, f)) (allItems ?ws)) (m_stats s) = Inr st" "wf_stats st" by blast
  with b assms(1) show ?thesis by (simp add: system_ok_def wf_websockets_def same_params_def)
qed

lemma udpTurn_ok:
  assumes "system_ok cfg s" "event_ok cfg s (Udp_turn os ev)"
  shows "\<exists>s' acts frames. udpTurn os ev s = Inr (s', acts, frames) \<and> system_ok cfg s'"
proof -
  have w: "wf_rps (m_rps s)" "wf_stats (m_stats s)" using assms(1) by (simp_all add: system_ok_def)
  have ev: "recv_ok ev" "case u_sendErr os of None \<Rightarrow> True | Some n \<Rightarrow> 0 \<le> n" "kernel_sends (u_answers os)"
    using assms(2) by simp_all
  from receiveStep_ok [OF ev(1) w, of "m_receiveCount s"] obtain r st n q where
    q: "receiveStep ev (m_rps s) (m_stats s) (m_receiveCount s) = Inr (r, st, n, q)" "wf_rps r" "wf_stats st" by blast
  let ?s1 = "s\<lparr>m_rps := r, m_stats := st, m_receiveCount := n\<rparr>"
  have s1: "system_ok cfg ?s1" using assms(1) q(2,3) by (simp add: system_ok_def)
  show ?thesis
  proof (cases q)
    case None
    with q(1) s1 show ?thesis by (simp add: udpTurn_def)
  next
    case (Some x)
    obtain data ip count where x: "x = (data, ip, count)" by (cases x)
    have ip: "length ip = 16"
      using q(1) Some x assms(2) by (auto simp: receiveStep_def bindR_Inr_iff Let_def split: recv_result.splits if_splits)
    have t: "wf_tracker (m_torrentList s)" "whole_addresses (m_torrentList s)" using assms(1) by (simp_all add: system_ok_def)
    from udpRequestStep_ok [OF t(1) q(3) ev(2), of "u_ntop os" "u_now os" "m_maxPeersPerResponse s" "m_interval s" ip count data]
    obtain ts st2 acts where u: "udpRequestStep (u_ntop os) (u_now os) (m_maxPeersPerResponse s) (m_interval s) (u_sendErr os) ip
        count data (m_torrentList s) st = Inr (ts, st2, acts)" "wf_tracker ts" "wf_stats st2"
      "acts = [] \<or> (\<exists>msg rest. acts = Sendto msg # rest \<and> length msg < 65507 \<and> (rest = [] \<or> rest = [Broadcast ip]))"
      "whole_addresses ts" using t(2) ip by blast
    let ?s2 = "?s1\<lparr>m_torrentList := ts, m_stats := st2\<rparr>"
    have s2: "system_ok cfg ?s2" using s1 u(2,3,5) by (simp add: system_ok_def)
    have "\<exists>s' frames. udpActions os acts ?s2 = Inr (s', frames) \<and> system_ok cfg s'"
      using u(4) s2 broadcastAll_ok [OF s2 ev(3), of ip] by (elim disjE exE conjE) (simp_all del: udpActions.simps(3))
    with q(1) Some x u(1) show ?thesis by (auto simp: udpTurn_def)
  qed
qed

lemma collected_addresses:
  assumes "wf_tracker ts" "whole_addresses ts" "wf_tracker ts'"
    "\<And>h. gc_item limit (map_of (allItems ts) h) (map_of (allItems ts') h)"
  shows "whole_addresses ts'"
  unfolding whole_addresses_def
proof (intro allI impI)
  fix h u
  assume u: "torrent_of ts' h = Some u"
  with gc_torrent_of [OF assms(1,3,4), of h] obtain t where t: "torrent_of ts h = Some t" "gc_torrent limit t u"
    by (auto split: option.splits if_splits)
  then have "peersM u \<subseteq># peersM t" by (simp add: gc_torrent_def)
  moreover have "addresses_ok t" using assms(2) t(1) by (simp add: whole_addresses_def)
  ultimately show "addresses_ok u" by (auto simp: addresses_ok_def dest: mset_subset_eqD)
qed

lemma collectorTurn_ok:
  assumes "system_ok cfg s" "peers_fit (m_torrentList s)"
  shows "\<exists>s' seconds. collectorTurn cfg now load s = Inr (s', seconds) \<and> system_ok cfg s'"
proof (cases "i_interval (m_interval s) = i_requireInterval (m_interval s)")
  case True
  have t: "wf_tracker (m_torrentList s)" "whole_addresses (m_torrentList s)" using assms(1) by (simp_all add: system_ok_def)
  from runGarbageCollectorL_ok [OF t(1) assms(2), of now] obtain ts g where r: "runGarbageCollectorL now (m_torrentList s) = Inr (ts, g)" "wf_tracker ts" "same_params (m_torrentList s) ts"
    "\<And>h. gc_item (garbageLimit now) (map_of (allItems (m_torrentList s)) h) (map_of (allItems ts) h)"
    by metis
  with True assms(1) collected_addresses [OF t r(2,4)] show ?thesis
    by (simp add: collectorTurn_def Let_def system_ok_def)
qed (use assms in \<open>simp add: collectorTurn_def\<close>)

lemma garbageSocketTimeoutHandler_ok:
  assumes "\<forall>(now, sl) \<in> set xs. wf_sockets sl" "wf_stats st" "wf_websockets ws" "kernel_sends answers" "errors_ok closeErr"
  shows "\<exists>sls st' ws' acts'. garbageSocketTimeoutHandler closeErr answers socketTimeout xs (st, ws, acts) =
      Inr (sls, (st', ws', acts')) \<and> length sls = length xs \<and> (\<forall>sl \<in> set sls. wf_sockets sl) \<and> wf_stats st' \<and> wf_websockets ws'"
  using assms(1-3)
proof (induction xs arbitrary: st ws acts)
  case (Cons x xs)
  obtain now sl where x: "x = (now, sl)" by (cases x)
  have sl: "wf_sockets sl" "\<forall>(now, sl) \<in> set xs. wf_sockets sl" using Cons.prems(1) x by simp_all
  from garbageSocketPass_ok [OF sl(1) Cons.prems(2,3) assms(4) assms(5) [unfolded errors_ok_def] refl, of now socketTimeout acts]
  obtain sl' st1 ws1 acts1 where r: "garbageSocketPass closeErr answers now socketTimeout sl (st, ws, acts) = Inr (sl', (st1, ws1, acts1))"
    "wf_sockets sl'" "wf_stats st1" "wf_websockets ws1" by blast
  from Cons.IH [OF sl(2) r(3,4), of acts1] obtain sls st2 ws2 acts2 where
    "garbageSocketTimeoutHandler closeErr answers socketTimeout xs (st1, ws1, acts1) = Inr (sls, (st2, ws2, acts2))"
    "length sls = length xs" "\<forall>sl \<in> set sls. wf_sockets sl" "wf_stats st2" "wf_websockets ws2" by blast
  with r x show ?case by auto
qed simp

lemma socketCollectorTurn_ok:
  assumes "system_ok cfg s" "errors_ok closeErr" "kernel_sends answers" "length clocks = length (m_socketLists s)"
  shows "\<exists>s' acts. socketCollectorTurn closeErr answers clocks s = Inr (s', acts) \<and> system_ok cfg s'"
proof -
  have "\<forall>(now, sl) \<in> set (zip clocks (m_socketLists s)). wf_sockets sl"
    using assms(1) by (auto simp: system_ok_def dest: set_zip_rightD)
  moreover have "wf_stats (m_stats s)" "wf_websockets (m_websockets s)" using assms(1) by (simp_all add: system_ok_def)
  ultimately obtain sls st ws acts where
    "garbageSocketTimeoutHandler closeErr answers (m_socketTimeout s) (zip clocks (m_socketLists s)) (m_stats s, m_websockets s, []) =
      Inr (sls, (st, ws, acts))" "length sls = length (zip clocks (m_socketLists s))" "\<forall>sl \<in> set sls. wf_sockets sl" "wf_stats st"
    "wf_websockets ws" using garbageSocketTimeoutHandler_ok [OF _ _ _ assms(3,2)] by blast
  with assms(1,4) show ?thesis by (simp add: socketCollectorTurn_def system_ok_def)
qed

lemma runEvent_ok:
  assumes "system_ok cfg s" "event_ok cfg s ev"
  shows "\<exists>s'. runEvent cfg ev s = Inr s' \<and> system_ok cfg s'"
proof (cases ev)
  case (Tcp_turn i closeErr events)
  with assms tcpTurn_ok [OF assms(1), of i events closeErr] show ?thesis by auto
next
  case (Accept_turn now a)
  with assms acceptTurn_ok [OF assms(1), of a now] show ?thesis by auto
next
  case (Udp_turn os r)
  with assms udpTurn_ok [OF assms(1), of os r] show ?thesis by auto
next
  case (Collector_turn now load)
  with assms collectorTurn_ok [OF assms(1), of now load] show ?thesis by auto
next
  case (Socket_collector_turn closeErr answers clocks)
  with assms socketCollectorTurn_ok [OF assms(1), of closeErr answers clocks] show ?thesis by auto
next
  case Rps_turn
  have "wf_rps r \<Longrightarrow> wf_rps (rpsTick r)" for r
    by (auto simp: wf_rps_def rpsTick_def)
  with Rps_turn assms show ?thesis by (simp add: system_ok_def)
next
  case Reset_max
  have "wf_rps r \<Longrightarrow> wf_rps (resetMaxRps r)" for r by (auto simp: wf_rps_def resetMaxRps_def)
  with Reset_max assms show ?thesis by (simp add: system_ok_def)
qed (use assms in \<open>simp_all add: intervalTurn_def system_ok_def split_beta\<close>)

section \<open>The start\<close>

lemma main0_runs:
  "\<exists>s. main0 a now = Inr s \<and> length (m_socketLists s) = workersOf a \<and> m_currentThread s = 0 \<and>
    (0 < workersOf a \<and> length (f_equeues cfg) = workersOf a \<longrightarrow> system_ok cfg s)"
proof -
  have se: "(LIST_SEMAPHORE_ENABLE_LEAF OR LIST_SEMAPHORE_ENABLE_GLOBAL) AND LIST_SEMAPHORE_ENABLE_LEAF \<noteq> 0"
    "(LIST_SEMAPHORE_ENABLE_LEAF OR LIST_SEMAPHORE_ENABLE_GLOBAL) AND LIST_SEMAPHORE_ENABLE_GLOBAL \<noteq> 0"
    "LIST_SEMAPHORE_ENABLE_LEAF OR LIST_SEMAPHORE_ENABLE_GLOBAL \<noteq> 0" "LIST_SEMAPHORE_ENABLE_LEAF AND LIST_SEMAPHORE_ENABLE_LEAF \<noteq> 0"
    by (simp_all add: LIST_SEMAPHORE_ENABLE_LEAF_def LIST_SEMAPHORE_ENABLE_GLOBAL_def)
  have lim: "2 \<le> LIST_LIMIT_LEVEL" "1 \<le> LIST_LIMIT_LEVEL" "0 \<le> LIST_LIMIT_LEVEL" "2 \<le> URI_PARAM_VALUE_LENGTH" "(1 :: nat) \<le> 4" "(0 :: nat) \<le> 4"
    by (simp_all add: LIST_LIMIT_LEVEL_def URI_PARAM_VALUE_LENGTH_def)
  from initList_ok [OF lim(1,4), of LIST_SEMAPHORE_ENABLE_LEAF LITTLE_ENDIAN] se(4) obtain ts :: "torrentDataL hlist" where
    ts: "initList 2 0 URI_PARAM_VALUE_LENGTH LIST_SEMAPHORE_ENABLE_LEAF LITTLE_ENDIAN = Inr ts"
    "wf_hlist ts" "allItems ts = []" "leaves_free ts" "hashLength ts = URI_PARAM_VALUE_LENGTH" by metis
  then have t: "wf_tracker ts" "whole_addresses ts"
    by (simp_all add: wf_tracker_def whole_addresses_def torrent_of_def)
  from initList_ok [OF lim(2,5), of "LIST_SEMAPHORE_ENABLE_LEAF OR LIST_SEMAPHORE_ENABLE_GLOBAL" LITTLE_ENDIAN] se(1)
  obtain sl :: "socketData hlist" where
    sl: "initList 1 0 4 (LIST_SEMAPHORE_ENABLE_LEAF OR LIST_SEMAPHORE_ENABLE_GLOBAL) LITTLE_ENDIAN = Inr sl"
    "wf_hlist sl" "allItems sl = []" "leaves_free sl" "hashLength sl = 4" "level sl = 1"
    "semaphoreEnabled sl = LIST_SEMAPHORE_ENABLE_LEAF OR LIST_SEMAPHORE_ENABLE_GLOBAL" by metis
  have "semaphore sl = Some 1"
    using sl(1) [unfolded initList.simps [of 1]] se(2) by (auto simp: bindR_Inr_iff hasSemaphore_def split: if_splits)
  with sl se(3) have s: "wf_sockets sl" by (simp add: wf_sockets_def sockets_at_def)
  from initList_ok [OF lim(3,6), of "LIST_SEMAPHORE_ENABLE_LEAF OR LIST_SEMAPHORE_ENABLE_GLOBAL" LITTLE_ENDIAN] se(1)
  obtain ws :: "unit hlist" where
    ws: "initList 0 0 4 (LIST_SEMAPHORE_ENABLE_LEAF OR LIST_SEMAPHORE_ENABLE_GLOBAL) LITTLE_ENDIAN = Inr ws"
    "wf_hlist ws" "leaves_free ws" "hashLength ws = 4" "level ws = 0" by metis
  have d: "LIST_SEMAPHORE_DISABLE = 0" by (simp add: LIST_SEMAPHORE_DISABLE_def)
  from initList_ok [OF lim(3,6), of LIST_SEMAPHORE_DISABLE LITTLE_ENDIAN] d obtain dl :: "unit hlist" where
    dl: "initList 0 0 4 LIST_SEMAPHORE_DISABLE LITTLE_ENDIAN = Inr dl" "wf_hlist dl" "leaves_free dl" "hashLength dl = 4"
    "level dl = 0" "allItems dl = []" by metis
  let ?g = "initGeoip (a_noLocations a \<noteq> 0)"
  have g: "findGeoip ?g 0 = Inr 0" "g_startIp (?g ! 0) = 0"
    using GEOIP_FILE_LINES_pos by (auto simp: initGeoip_def findGeoip_def nth_res_def nth_list_update geoip0_def)
  have "wf_rps rps0" by (simp add: wf_rps_def rps0_def RPS_TIME_EVEN_def)
  moreover have "wf_stats ((stats0 now)\<lparr>st_failed := sint (a_failed a)\<rparr>)" using wf_stats0 [of now] by (simp add: wf_stats_def)
  moreover have "socketLists0 (workersOf a) = Inr (replicate (workersOf a) sl)" unfolding socketLists0_def sl(1) by simp
  ultimately show ?thesis
    using t s ws(2-5) dl(2-6) initGeoip_ready [of "a_noLocations a \<noteq> 0"]
    by (simp add: main0_def deleteSocketList0_def ts(1) ws(1) dl(1) g system_ok_def wf_websockets_def)
qed

lemma main0_ok:
  assumes "0 < sint (a_workers a)" "length (f_equeues cfg) = workersOf a"
  shows "\<exists>s. main0 a now = Inr s \<and> system_ok cfg s"
proof -
  have "0 < workersOf a" using assms(1) by (simp add: workersOf_def)
  with main0_runs [of a now cfg] assms(2) show ?thesis by blast
qed

text \<open>The states the tracker can be in, from its start with the arguments a.\<close>

inductive reachable :: "config \<Rightarrow> arguments \<Rightarrow> system \<Rightarrow> bool" for cfg a where
  start: "main0 a now = Inr s \<Longrightarrow> reachable cfg a s"
| turn: "reachable cfg a s \<Longrightarrow> event_ok cfg s ev \<Longrightarrow> runEvent cfg ev s = Inr s' \<Longrightarrow> reachable cfg a s'"


section \<open>The interval\<close>

text \<open>The interval in force and the required one lie between the limits, which are lo and hi.\<close>

definition interval_in :: "u32 \<Rightarrow> u32 \<Rightarrow> interval \<Rightarrow> bool" where
  "interval_in lo hi iv \<longleftrightarrow> i_minInterval iv = lo \<and> i_maxInterval iv = hi \<and> in_bounds iv (i_interval iv) \<and>
     in_bounds iv (i_requireInterval iv)"

lemma interval_in_force:
  assumes "lo \<le> hi" "interval_in lo hi iv"
  shows "interval_in lo hi (foldl forceUpdateInterval iv vs)"
  using assms(2)
proof (induction vs arbitrary: iv)
  case (Cons v vs)
  have "interval_in lo hi (forceUpdateInterval iv v)"
    using interval_within_limits [of iv _ _ _ v] assms(1) Cons.prems
    by (simp add: interval_in_def in_bounds_def forceUpdateInterval_def Let_def)
  then show ?case using Cons.IH by simp
qed simp

lemma interval_in_turns:
  assumes "lo \<le> hi" "interval_in lo hi iv"
  shows "interval_in lo hi (updateInterval load cpus limit iv)" "interval_in lo hi (fst (stepInterval iv))"
proof -
  have le: "i_minInterval iv \<le> i_maxInterval iv" using assms by (simp add: interval_in_def)
  show "interval_in lo hi (updateInterval load cpus limit iv)"
  proof (cases load)
    case None
    then show ?thesis using assms(2) by (simp add: updateInterval_def)
  next
    case (Some l)
    let ?iv = "updateInterval load cpus limit iv"
    have "in_bounds iv (i_requireInterval ?iv)" using interval_within_limits [OF le, of l cpus limit] Some by blast
    moreover have "i_interval ?iv = i_interval iv" "i_minInterval ?iv = i_minInterval iv" "i_maxInterval ?iv = i_maxInterval iv"
      by (cases l; simp add: Some updateInterval_def Let_def)+
    ultimately show ?thesis using assms(2) by (auto simp: interval_in_def in_bounds_def)
  qed
  show "interval_in lo hi (fst (stepInterval iv))"
    using interval_within_limits [OF le] assms(2) stepInterval_params [of iv]
    by (auto simp: interval_in_def in_bounds_def)
qed

lemma udpActions_interval: "udpActions os acts s = Inr (s', frames) \<Longrightarrow> m_interval s' = m_interval s"
proof (induction os acts s arbitrary: s' frames rule: udpActions.induct)
  case (3 os ip rest s)
  then show ?case by (fastforce simp: bindR_Inr_iff)
qed simp_all

lemma udpTurn_interval: "udpTurn os ev s = Inr (s', acts, frames) \<Longrightarrow> m_interval s' = m_interval s"
  by (auto simp: udpTurn_def Let_def bindR_Inr_iff dest!: udpActions_interval split: option.splits)

lemma main0_interval:
  assumes "main0 a now = Inr s"
  shows "m_interval s = interval0 a"
proof -
  obtain sls where sls: "socketLists0 (workersOf a) = Inr sls" using assms
    by (cases "socketLists0 (workersOf a)") (simp_all add: main0_def)
  obtain ts :: "torrentDataL hlist" where
    ts: "initList 2 0 URI_PARAM_VALUE_LENGTH LIST_SEMAPHORE_ENABLE_LEAF LITTLE_ENDIAN = Inr ts" using assms sls
    by (cases "initList 2 0 URI_PARAM_VALUE_LENGTH LIST_SEMAPHORE_ENABLE_LEAF LITTLE_ENDIAN :: torrentDataL hlist res")
      (simp_all add: main0_def)
  show ?thesis
    using assms sls ts by (auto simp: main0_def Let_def bindR_Inr_iff split: if_splits simp del: initList.simps)
qed

lemma runEvent_interval:
  assumes "system_ok cfg s" "event_ok cfg s ev" "runEvent cfg ev s = Inr s'" "lo \<le> hi" "interval_in lo hi (m_interval s)"
  shows "interval_in lo hi (m_interval s')"
proof (cases ev)
  case (Tcp_turn i closeErr events)
  with assms tcpTurn_ok [OF assms(1), of i events closeErr] show ?thesis
    by (auto intro: interval_in_force)
next
  case (Udp_turn os r)
  with assms show ?thesis by (auto simp: bindR_Inr_iff dest!: udpTurn_interval)
next
  case (Accept_turn now a)
  with assms show ?thesis by (auto simp: bindR_Inr_iff acceptTurn_def)
next
  case (Collector_turn now load)
  with assms interval_in_turns(1) [OF assms(4,5)] show ?thesis
    by (auto simp: bindR_Inr_iff collectorTurn_def Let_def split: if_splits)
next
  case (Socket_collector_turn closeErr answers clocks)
  with assms show ?thesis by (auto simp: bindR_Inr_iff socketCollectorTurn_def)
qed (use assms interval_in_turns(2) [OF assms(4,5)] in \<open>auto simp: intervalTurn_def split_beta\<close>)

text \<open>C13: When the interval of the arguments lies between their limits, the interval told to the clients
lies between them in every state the tracker can reach, whatever the load is and whatever interval
an administrator asks for; the limits themselves never change.\<close>

theorem announced_interval_in_limits:
  assumes "0 < sint (a_workers a)" "length (f_equeues cfg) = workersOf a" "a_minInterval a \<le> a_interval a"
    "a_interval a \<le> a_maxInterval a" "reachable cfg a s"
  shows "a_minInterval a \<le> i_interval (m_interval s) \<and> i_interval (m_interval s) \<le> a_maxInterval a \<and>
    i_minInterval (m_interval s) = a_minInterval a \<and> i_maxInterval (m_interval s) = a_maxInterval a"
proof -
  let ?P = "\<lambda>s. interval_in (a_minInterval a) (a_maxInterval a) (m_interval s)"
  have le: "a_minInterval a \<le> a_maxInterval a" using assms(3,4) by simp
  from assms(5) have "system_ok cfg s \<and> ?P s"
  proof induction
    case (start now s)
    have "m_interval s = interval0 a"
      by (rule main0_interval [OF start])
    moreover have "system_ok cfg s" using start main0_ok [OF assms(1,2), of now] by simp
    ultimately show ?case using assms(3,4) by (simp add: interval0_def interval_in_def in_bounds_def)
  next
    case (turn s ev s')
    with runEvent_ok [of cfg s ev] runEvent_interval [of cfg s ev s', OF _ _ _ le] show ?case by auto
  qed
  then show ?thesis by (auto simp: interval_in_def in_bounds_def)
qed

definition sample_config :: config where
  "sample_config = \<lparr>f_equeues = [7, 8], f_charset = None, f_webRoot = lit ''/srv/web/'', f_xForwardedFor = None,
     f_maxLoadAvg = 1, f_processors = 2\<rparr>"

definition sample_datagram :: event where
  "sample_datagram = Udp_turn \<lparr>u_now = 5, u_ntop = (\<lambda>_ _. []), u_sendErr = None, u_answers = (\<lambda>s m. [Sent (length m)])\<rparr>
     (Received (replicate 16 0) (replicate 16 0))"


theorem announced_interval_in_limits_witness:
  "\<exists>s. reachable sample_config (arguments0 2) s \<and> i_interval (m_interval s) \<le> 1799"
proof -
  have w: "0 < sint (a_workers (arguments0 2))" "length (f_equeues sample_config) = workersOf (arguments0 2)"
    by (simp_all add: arguments0_def sample_config_def workersOf_def)
  have b: "a_minInterval (arguments0 2) \<le> a_interval (arguments0 2)" "a_interval (arguments0 2) \<le> a_maxInterval (arguments0 2)"
    by (simp_all add: arguments0_def ARGUMENT_MIN_INTERVAL_DEFAULT_def ARGUMENT_MAX_INTERVAL_DEFAULT_def)
  from main0_ok [OF w] obtain s where "main0 (arguments0 2) 0 = Inr s" by blast
  then have r: "reachable sample_config (arguments0 2) s" by (rule start)
  from announced_interval_in_limits [OF w b r] have "i_interval (m_interval s) \<le> a_maxInterval (arguments0 2)" by blast
  with r show ?thesis by (auto simp: arguments0_def ARGUMENT_MAX_INTERVAL_DEFAULT_def)
qed

text \<open>A negative number of workers passes the check of the arguments (it is not zero), the program
starts without any worker, and the first connection that is accepted is dealt out to a worker that
does not exist.\<close>

theorem negative_workers_fail:
  "\<exists>a s. parseArguments strtod 4 [lit ''-w'', lit ''-1''] = Inr a \<and> main0 a now = Inr s \<and> workersOf a = 0 \<and>
     acceptTurn (cfg\<lparr>f_equeues := []\<rparr>) now (Accepted 4) s = Inl Out_of_bounds"
proof -
  let ?b = "(arguments0 4)\<lparr>a_workers := - 1\<rparr>"
  let ?a = "limitIntervals ?b"
  have e: "atoi (lit ''-w'') = 0" "getName (lit ''-w'') = ARGUMENT_WORKERS_INDEX" "atoi (lit ''-1'') = - 1" by code_simp+
  have o: "parseOption strtod ARGUMENT_WORKERS_INDEX (Some (lit ''-1'')) (- 1) (arguments0 4) = Inr (?b, True)"
    by (simp add: parseOption_def ARGUMENT_WORKERS_INDEX_def ARGUMENT_PORT_INDEX_def ARGUMENT_INTERVAL_INDEX_def)
  have v: "a_workers ?a = - 1" "\<not> (a_port ?a = 0 \<or> a_interval ?a = 0 \<or> a_workers ?a = 0 \<or> a_maxPeersPerResponse ?a = 0 \<or>
           a_socketTimeout ?a = 0 \<or> a_minInterval ?a = 0 \<or> a_maxInterval ?a = 0 \<or> (a_noTcp ?a \<noteq> 0 \<and> a_noUdp ?a \<noteq> 0))"
    by (simp_all add: limitIntervals_def arguments0_def ARGUMENT_MIN_INTERVAL_DEFAULT_def ARGUMENT_MAX_INTERVAL_DEFAULT_def)
  have p: "parseArguments strtod 4 [lit ''-w'', lit ''-1''] = Inr ?a"
    unfolding parseArguments_def parseLoop.simps list.sel e o bindR.simps prod.case if_True Let_def if_not_P [OF v(2)] by simp
  have n: "workersOf ?a = 0" using v(1) by (simp add: workersOf_def)
  from main0_runs [of ?a now] n obtain s where s: "main0 ?a now = Inr s" "m_socketLists s = []" "m_currentThread s = 0" by auto
  have "acceptTurn (cfg\<lparr>f_equeues := []\<rparr>) now (Accepted 4) s = Inl Out_of_bounds"
    using s(2,3) by (simp add: acceptTurn_def acceptStep_def nextWorker_def nth_res_def Let_def)
  with p n s(1) show ?thesis by blast
qed

end
