(* ===== verification/Startup.thy ===== *)
theory Startup
  imports Tracker_System
begin

text \<open>
  The start of the tracker (server.c, socket\_tcp.c, socket\_udp.c): the system calls a listener makes
  before its loop, each with the exit of the code when it fails, and the workers it starts. What
  the calls return is an input; what they do (a bound socket, a running thread) is not modelled,
  and the threads main starts are taken in the order it starts them.
\<close>

definition EXIT_CODE_CHDIR :: nat where "EXIT_CODE_CHDIR = 250"
definition EXIT_CODE_CWD :: nat where "EXIT_CODE_CWD = 249"
definition EXIT_CODE_SOCKET_TCP_CREATE :: nat where "EXIT_CODE_SOCKET_TCP_CREATE = 248"
definition EXIT_CODE_REUSEADDR :: nat where "EXIT_CODE_REUSEADDR = 247"
definition EXIT_CODE_BIND_TCP :: nat where "EXIT_CODE_BIND_TCP = 246"
definition EXIT_CODE_TCP_CLIENT_THREAD :: nat where "EXIT_CODE_TCP_CLIENT_THREAD = 245"
definition EXIT_CODE_SOCKET_UDP_CREATE :: nat where "EXIT_CODE_SOCKET_UDP_CREATE = 238"
definition EXIT_CODE_BIND_UDP :: nat where "EXIT_CODE_BIND_UDP = 237"
definition EXIT_CODE_UDP_CLIENT_THREAD :: nat where "EXIT_CODE_UDP_CLIENT_THREAD = 236"
definition SOCKET_TCP_MAX_CWD :: nat where "SOCKET_TCP_MAX_CWD = 500"

section \<open>The calls of the listeners\<close>

text \<open>
  What the calls return. getcwd writes a path and its NUL into the space it is given and fails
  (None) when they do not fit; a thread is numbered by its worker, a listener's own threads by the
  fields for main.
\<close>

record start_os =
  b_chdir :: int
  b_getcwd :: "nat \<Rightarrow> bytes option"
  b_tcpSocket :: int
  b_setsockopt :: int
  b_tcpBind :: int
  b_initEqueue :: "nat \<Rightarrow> u32"
  b_tcpThread :: "nat \<Rightarrow> int"
  b_udpSocket :: int
  b_udpBind :: int
  b_udpThread :: "nat \<Rightarrow> int"
  b_tcpServerThread :: int
  b_udpServerThread :: int
  b_processors :: nat

text \<open>The loop that starts the workers: a thread that cannot be created ends the program.\<close>

fun startWorkers :: "nat \<Rightarrow> (nat \<Rightarrow> int) \<Rightarrow> nat list \<Rightarrow> unit res" where
  "startWorkers code create [] = Inr ()"
| "startWorkers code create (threadNumber # rest) =
     (if create threadNumber \<noteq> 0 then Inl (Exit code) else startWorkers code create rest)"

text \<open>The web root: the working directory with a separator, in a buffer of one byte more.\<close>

definition webRootOf :: "start_os \<Rightarrow> bytes res" where
  "webRootOf os =
     (case b_getcwd os SOCKET_TCP_MAX_CWD of
        None \<Rightarrow> Inl (Exit EXIT_CODE_CWD)
      | Some cwd \<Rightarrow>
          if length cwd + length (lit ''/'') + 1 \<le> SOCKET_TCP_MAX_CWD + 1 then Inr (cwd @ lit ''/'') else Inl Out_of_bounds)"

definition serverTcpStart :: "arguments \<Rightarrow> start_os \<Rightarrow> config res" where
  "serverTcpStart a os =
     (if b_chdir os = - 1 then Inl (Exit EXIT_CODE_CHDIR) else
      bindR (webRootOf os) (\<lambda>webRoot.
      if b_tcpSocket os = - 1 then Inl (Exit EXIT_CODE_SOCKET_TCP_CREATE)
      else if b_setsockopt os < 0 then Inl (Exit EXIT_CODE_REUSEADDR)
      else if b_tcpBind os < 0 then Inl (Exit EXIT_CODE_BIND_TCP)
      else bindR (startWorkers EXIT_CODE_TCP_CLIENT_THREAD (b_tcpThread os) [0..<workersOf a]) (\<lambda>_.
        Inr \<lparr>f_equeues = map (b_initEqueue os) [0..<workersOf a], f_charset = a_charset a, f_webRoot = webRoot,
             f_xForwardedFor = a_xForwardedFor a, f_maxLoadAvg = a_maxLoadAvg a, f_processors = b_processors os\<rparr>)))"

definition serverUdpStart :: "arguments \<Rightarrow> start_os \<Rightarrow> unit res" where
  "serverUdpStart a os =
     bindR checkSize (\<lambda>_.
     if b_udpSocket os < 0 then Inl (Exit EXIT_CODE_SOCKET_UDP_CREATE)
     else if b_udpBind os < 0 then Inl (Exit EXIT_CODE_BIND_UDP)
     else startWorkers EXIT_CODE_UDP_CLIENT_THREAD (b_udpThread os) [0..<workersOf a])"

text \<open>
  The listeners main starts: it returns 101 or 102 when one of their threads cannot be created. The
  result is the configuration of the TCP workers, None when there are none.
\<close>

definition startListeners :: "arguments \<Rightarrow> start_os \<Rightarrow> config option res" where
  "startListeners a os =
     bindR (if a_noTcp a \<noteq> 0 then Inr None
            else if b_tcpServerThread os \<noteq> 0 then Inl (Exit 101)
            else bindR (serverTcpStart a os) (\<lambda>cfg. Inr (Some cfg))) (\<lambda>cfg.
     bindR (if a_noUdp a \<noteq> 0 then Inr ()
            else if b_udpServerThread os \<noteq> 0 then Inl (Exit 102)
            else serverUdpStart a os) (\<lambda>_. Inr cfg))"

section \<open>What the start does\<close>

text \<open>getcwd as it is documented: what it writes fits the space it is given.\<close>

definition getcwd_ok :: "start_os \<Rightarrow> bool" where
  "getcwd_ok os \<longleftrightarrow> (\<forall>n cwd. b_getcwd os n = Some cwd \<longrightarrow> length cwd < n)"

lemma startWorkers_iff:
  "startWorkers code create ns = (if \<forall>n \<in> set ns. create n = 0 then Inr () else Inl (Exit code))"
  by (induction ns) auto

lemma webRootOf_fits:
  assumes "getcwd_ok os"
  shows "webRootOf os = (case b_getcwd os SOCKET_TCP_MAX_CWD of None \<Rightarrow> Inl (Exit EXIT_CODE_CWD) | Some cwd \<Rightarrow> Inr (cwd @ lit ''/''))"
proof (cases "b_getcwd os SOCKET_TCP_MAX_CWD")
  case (Some cwd)
  with assms have "length cwd < SOCKET_TCP_MAX_CWD" unfolding getcwd_ok_def by blast
  with Some show ?thesis by (simp add: webRootOf_def)
qed (simp add: webRootOf_def)

text \<open>The conditions under which every call of a listener succeeds.\<close>

definition tcp_calls_ok :: "arguments \<Rightarrow> start_os \<Rightarrow> bool" where
  "tcp_calls_ok a os \<longleftrightarrow> b_chdir os \<noteq> - 1 \<and> b_getcwd os SOCKET_TCP_MAX_CWD \<noteq> None \<and> b_tcpSocket os \<noteq> - 1 \<and>
     0 \<le> b_setsockopt os \<and> 0 \<le> b_tcpBind os \<and> (\<forall>n < workersOf a. b_tcpThread os n = 0)"

definition udp_calls_ok :: "arguments \<Rightarrow> start_os \<Rightarrow> bool" where
  "udp_calls_ok a os \<longleftrightarrow> 0 \<le> b_udpSocket os \<and> 0 \<le> b_udpBind os \<and> (\<forall>n < workersOf a. b_udpThread os n = 0)"

text \<open>The codes a listener ends with.\<close>

definition tcp_codes :: "nat set" where
  "tcp_codes = {EXIT_CODE_CHDIR, EXIT_CODE_CWD, EXIT_CODE_SOCKET_TCP_CREATE, EXIT_CODE_REUSEADDR, EXIT_CODE_BIND_TCP,
     EXIT_CODE_TCP_CLIENT_THREAD}"

definition udp_codes :: "nat set" where
  "udp_codes = {EXIT_CODE_SOCKET_UDP_CREATE, EXIT_CODE_BIND_UDP, EXIT_CODE_UDP_CLIENT_THREAD}"

lemma serverTcpStart_cases:
  assumes "getcwd_ok os"
  shows "if tcp_calls_ok a os then \<exists>cfg. serverTcpStart a os = Inr cfg \<and> length (f_equeues cfg) = workersOf a
    else \<exists>code \<in> tcp_codes. serverTcpStart a os = Inl (Exit code)"
  by (auto simp: serverTcpStart_def webRootOf_fits [OF assms] startWorkers_iff tcp_calls_ok_def tcp_codes_def
      split: option.split)

lemma serverUdpStart_cases:
  "if udp_calls_ok a os then serverUdpStart a os = Inr () else \<exists>code \<in> udp_codes. serverUdpStart a os = Inl (Exit code)"
  by (auto simp: serverUdpStart_def checkSize_passes startWorkers_iff udp_calls_ok_def udp_codes_def)


definition sample_start :: start_os where
  "sample_start = \<lparr>b_chdir = 0, b_getcwd = (\<lambda>n. if 8 < n then Some (lit ''/srv/web'') else None), b_tcpSocket = 5,
     b_setsockopt = 0, b_tcpBind = 0, b_initEqueue = (\<lambda>n. of_nat (6 + n)), b_tcpThread = (\<lambda>_. 0), b_udpSocket = 9,
     b_udpBind = - 1, b_udpThread = (\<lambda>_. 0), b_tcpServerThread = 0, b_udpServerThread = 0, b_processors = 2\<rparr>"


end
