(* ===== verification/Leaf_Threads.thy ===== *)
theory Leaf_Threads
  imports Leaf_Lock
begin

text \<open>
  Threads that share a list of list.c, each changing it one leaf at a time while it holds the
  semaphore of the leaf (waitSemaphoreLeaf, postSemaphoreLeaf): what threads do between a wait and
  a post comes to the same as if each had done it in one step. A leaf pointer is the path of the
  leaf, the indices of the tables on the way to it.
\<close>

section \<open>The leaf at the end of a path\<close>

fun leafAt :: "nat list \<Rightarrow> 'a hlist \<Rightarrow> 'a hlist" where
  "leafAt [] l = l"
| "leafAt (i # p) l = leafAt p (subLists l ! i)"

fun updAt :: "nat list \<Rightarrow> ('a hlist \<Rightarrow> 'a hlist) \<Rightarrow> 'a hlist \<Rightarrow> 'a hlist" where
  "updAt [] f l = f l"
| "updAt (i # p) f l = set_subLists ((subLists l)[i := updAt p f (subLists l ! i)]) l"

definition leafPath :: "'a hlist \<Rightarrow> bytes \<Rightarrow> nat list" where
  "leafPath l h = map (\<lambda>nest. route (endianness l) (hashLength l) nest h) [0..<level l]"

definition is_path :: "nat \<Rightarrow> nat list \<Rightarrow> bool" where
  "is_path n p \<longleftrightarrow> length p = n \<and> (\<forall>i \<in> set p. i < LIST_BYTE_SIZE)"

text \<open>Two lists with the same tables: they may differ in their leaves only.\<close>

fun same_spine :: "nat \<Rightarrow> 'a hlist \<Rightarrow> 'a hlist \<Rightarrow> bool" where
  "same_spine 0 l S \<longleftrightarrow> level l = 0 \<and> level S = 0"
| "same_spine (Suc n) l S \<longleftrightarrow> level S = Suc n \<and> l = set_subLists (subLists l) S \<and>
     length (subLists l) = LIST_BYTE_SIZE \<and> length (subLists S) = LIST_BYTE_SIZE \<and>
     (\<forall>i < LIST_BYTE_SIZE. same_spine n (subLists l ! i) (subLists S ! i))"

definition same_tables :: "'a hlist \<Rightarrow> 'a hlist \<Rightarrow> bool" where
  "same_tables l S \<longleftrightarrow> same_params S l \<and> same_spine (level S) l S"

lemma is_path_0 [simp]: "is_path 0 p \<longleftrightarrow> p = []"
  by (auto simp: is_path_def)

lemma is_path_Suc: "is_path (Suc n) p \<longleftrightarrow> (\<exists>i q. p = i # q \<and> i < LIST_BYTE_SIZE \<and> is_path n q)"
  by (cases p) (auto simp: is_path_def)

lemma set_subLists_subLists [simp]: "set_subLists (subLists l) l = l"
  by (cases l) simp

lemma same_spine_sym: "same_spine n l S \<Longrightarrow> same_spine n S l"
proof (induction n l S rule: same_spine.induct)
  case (2 n l S)
  then have l: "l = set_subLists (subLists l) S" by simp
  then have "level l = level S" by (metis set_fields(13))
  moreover have "S = set_subLists (subLists S) l" by (subst l) simp
  ultimately show ?case using 2 by simp
qed simp

lemma same_spine_trans: "same_spine n a b \<Longrightarrow> same_spine n b c \<Longrightarrow> same_spine n a c"
proof (induction n a b arbitrary: c rule: same_spine.induct)
  case (2 n a b)
  then have "a = set_subLists (subLists a) b" "b = set_subLists (subLists b) c" by simp_all
  then have "a = set_subLists (subLists a) c" by (metis set_subLists_twice)
  with 2 show ?case by auto
qed simp

lemma same_spine_level: "same_spine n l S \<Longrightarrow> level l = n \<and> level S = n"
  using same_spine_sym [of n l S] by (cases n) simp_all

lemma same_spine_ext:
  assumes "same_spine n l S" "\<And>p. is_path n p \<Longrightarrow> leafAt p l = leafAt p S"
  shows "l = S"
  using assms
proof (induction n l S rule: same_spine.induct)
  case (1 l S)
  from "1.prems"(2) [of "[]"] show ?case by simp
next
  case (2 n l S)
  have "subLists l ! i = subLists S ! i" if i: "i < LIST_BYTE_SIZE" for i
  proof (rule "2.IH" [OF i])
    show "leafAt p (subLists l ! i) = leafAt p (subLists S ! i)" if "is_path n p" for p
      using "2.prems"(2) [of "i # p"] that i by (simp add: is_path_Suc)
  qed (use "2.prems"(1) i in simp)
  then have "subLists l = subLists S" using "2.prems"(1) by (intro nth_equalityI) simp_all
  then show ?case using "2.prems"(1) by (metis same_spine.simps(2) set_subLists_subLists)
qed

lemma leafAt_level: "same_spine n l S \<Longrightarrow> is_path n p \<Longrightarrow> level (leafAt p l) = 0"
  by (induction n l S arbitrary: p rule: same_spine.induct) (auto simp: is_path_Suc)

lemma updAt_spine:
  assumes "same_spine n l S" "is_path n p" "level (f (leafAt p l)) = 0"
  shows "same_spine n (updAt p f l) S"
  using assms
proof (induction n l S arbitrary: p rule: same_spine.induct)
  case (2 n l S)
  then obtain i q where p: "p = i # q" "i < LIST_BYTE_SIZE" "is_path n q" by (auto simp: is_path_Suc)
  have "same_spine n (updAt q f (subLists l ! i)) (subLists S ! i)"
    by (rule "2.IH" [OF p(2) _ p(3)]) (use 2 p in simp_all)
  then have "same_spine n ((subLists l)[i := updAt q f (subLists l ! i)] ! j) (subLists S ! j)" if "j < LIST_BYTE_SIZE" for j
    using "2.prems"(1) that p(2) by (cases "j = i") simp_all
  moreover have "set_subLists xs l = set_subLists xs S" for xs
    using "2.prems"(1) by (metis same_spine.simps(2) set_subLists_twice)
  ultimately show ?case using "2.prems"(1) p by simp
qed simp

lemma leafAt_updAt:
  assumes "same_spine n l S" "is_path n p" "is_path n q"
  shows "leafAt q (updAt p f l) = (if q = p then f (leafAt p l) else leafAt q l)"
  using assms
proof (induction n l S arbitrary: p q rule: same_spine.induct)
  case (2 n l S)
  then obtain i p1 j q1 where p: "p = i # p1" "i < LIST_BYTE_SIZE" "is_path n p1"
    and q: "q = j # q1" "j < LIST_BYTE_SIZE" "is_path n q1" by (auto simp: is_path_Suc)
  have s: "same_spine n (subLists l ! i) (subLists S ! i)" "length (subLists l) = LIST_BYTE_SIZE"
    using "2.prems"(1) p(2) by simp_all
  from "2.IH" [OF p(2) s(1) p(3) q(3)] s(2) p q show ?case by (cases "j = i") simp_all
qed simp

lemma updAt_same: "same_spine n l S \<Longrightarrow> is_path n p \<Longrightarrow> f (leafAt p l) = leafAt p l \<Longrightarrow> updAt p f l = l"
proof (induction n l S arbitrary: p rule: same_spine.induct)
  case (2 n l S)
  then obtain i q where "p = i # q" "i < LIST_BYTE_SIZE" "is_path n q" by (auto simp: is_path_Suc)
  with 2 show ?case by simp
qed simp

lemma updAt_updAt:
  assumes "same_spine n l S" "is_path n p"
  shows "updAt p g (updAt p f l) = updAt p (\<lambda>x. g (f x)) l"
  using assms
proof (induction n l S arbitrary: p rule: same_spine.induct)
  case (2 n l S)
  then obtain i q where p: "p = i # q" "i < LIST_BYTE_SIZE" "is_path n q" by (auto simp: is_path_Suc)
  moreover have "length (subLists l) = LIST_BYTE_SIZE" "same_spine n (subLists l ! i) (subLists S ! i)"
    using "2.prems"(1) p(2) by simp_all
  ultimately show ?case using "2.IH" [of i q] by simp
qed simp

lemma updAt_cong: "f (leafAt p l) = g (leafAt p l) \<Longrightarrow> updAt p f l = updAt p g l"
  by (induction p arbitrary: l) simp_all

section \<open>The leaf of a hash\<close>

lemma route_lt [simp]: "route en hl nest h < LIST_BYTE_SIZE"
  by (rule route_less)

lemma leafPath_is_path [simp]: "level l = n \<Longrightarrow> is_path n (leafPath l h)"
  by (auto simp: is_path_def leafPath_def)

lemma path_from:
  assumes "same_spine n l S" "length h = hl" "n + nest \<le> hl"
  shows "getLeafFrom en hl h nest l = Inr (leafAt (map (\<lambda>k. route en hl k h) [nest..<n + nest]) l) \<and>
    updLeafFrom en hl h nest f l = Inr (updAt (map (\<lambda>k. route en hl k h) [nest..<n + nest]) f l)"
  using assms
proof (induction n l S arbitrary: nest rule: same_spine.induct)
  case (2 n l S)
  let ?i = "route en hl nest h"
  have l: "level l > 0" "length (subLists l) = LIST_BYTE_SIZE" "same_spine n (subLists l ! ?i) (subLists S ! ?i)"
    using "2.prems"(1) same_spine_level [OF "2.prems"(1)] by simp_all
  have ix: "leafIndex en hl nest h = Inr ?i" using "2.prems"(2,3) by (simp add: leafIndex_route)
  have up: "[nest..<Suc n + nest] = nest # [nest + 1..<n + (nest + 1)]" by (simp add: upt_rec)
  from "2.IH" [OF route_lt l(3) "2.prems"(2), of "nest + 1"] "2.prems"(3) l ix show ?case
    unfolding up by (simp add: getLeafFrom.simps [of _ _ _ _ l] updLeafFrom.simps [of _ _ _ _ _ l])
qed simp

lemma leaf_of_hash:
  assumes "same_tables l S" "length h = hashLength S" "level S \<le> hashLength S"
  shows "getLeaf l h = Inr (leafAt (leafPath S h) l)" "updLeaf l h f = Inr (updAt (leafPath S h) f l)"
  using assms path_from [of "level S" l S h "hashLength S" 0 "endianness S" f]
  by (simp_all add: same_tables_def same_params_def getLeaf_def updLeaf_def leafPath_def)

lemma wf_node_spine: "wf_node n nest en hl se l \<Longrightarrow> same_spine n l l"
  by (induction n arbitrary: nest l) auto

lemma same_tables_refl: "wf_hlist l \<Longrightarrow> same_tables l l"
  by (auto simp: same_tables_def wf_hlist_def dest: wf_node_spine)

lemma same_tables_spine: "same_tables l S \<Longrightarrow> same_spine (level S) l S"
  by (simp add: same_tables_def)

lemma same_tables_upd:
  assumes "same_tables l S" "is_path (level S) p" "same_params (leafAt p l) leaf"
  shows "same_tables (updAt p (\<lambda>_. leaf) l) S"
proof -
  have "level leaf = 0"
    using leafAt_level [OF same_tables_spine [OF assms(1)] assms(2)] assms(3) by (simp add: same_params_def)
  from updAt_spine [OF same_tables_spine [OF assms(1)] assms(2), of "\<lambda>_. leaf"] this
  have "same_spine (level S) (updAt p (\<lambda>_. leaf) l) S" by simp
  moreover have "same_params l (updAt p (\<lambda>_. leaf) l)"
    using assms(3) by (cases p) (simp_all add: same_params_def)
  ultimately show ?thesis using assms(1) same_params_trans by (auto simp: same_tables_def)
qed


section \<open>Operations on one leaf\<close>

text \<open>
  An operation on the list that reads and writes one leaf only: on two lists with the same tables
  and that leaf in common it does the same, to the leaf and in what it returns.
\<close>

definition on_leaf :: "'a hlist \<Rightarrow> nat list \<Rightarrow> ('a hlist \<Rightarrow> ('a hlist \<times> 'r) res) \<Rightarrow> bool" where
  "on_leaf S p f \<longleftrightarrow> (\<forall>l l'. same_tables l S \<longrightarrow> same_tables l' S \<longrightarrow> leafAt p l' = leafAt p l \<longrightarrow>
     (case f l of
        Inl e \<Rightarrow> f l' = Inl e
      | Inr (m, r) \<Rightarrow> same_params (leafAt p l) (leafAt p m) \<and> m = updAt p (\<lambda>_. leafAt p m) l \<and>
          f l' = Inr (updAt p (\<lambda>_. leafAt p m) l', r)))"

text \<open>It leaves the semaphore of the leaf as it is.\<close>

definition keeps_lock :: "'a hlist \<Rightarrow> nat list \<Rightarrow> ('a hlist \<Rightarrow> ('a hlist \<times> 'r) res) \<Rightarrow> bool" where
  "keeps_lock S p f \<longleftrightarrow> (\<forall>l m r. same_tables l S \<longrightarrow> f l = Inr (m, r) \<longrightarrow> semaphore (leafAt p m) = semaphore (leafAt p l))"

text \<open>It does not empty the leaf.\<close>

definition keeps_items :: "'a hlist \<Rightarrow> nat list \<Rightarrow> ('a hlist \<Rightarrow> ('a hlist \<times> 'r) res) \<Rightarrow> bool" where
  "keeps_items S p f \<longleftrightarrow> (\<forall>l m r. same_tables l S \<longrightarrow> f l = Inr (m, r) \<longrightarrow> leafItems (leafAt p l) \<noteq> [] \<longrightarrow> leafItems (leafAt p m) \<noteq> [])"

lemma on_leafD:
  assumes "on_leaf S p f" "same_tables l S" "f l = Inr (m, r)" "is_path (level S) p"
  shows "same_params (leafAt p l) (leafAt p m)" "m = updAt p (\<lambda>_. leafAt p m) l" "same_tables m S"
    "same_tables l' S \<Longrightarrow> leafAt p l' = leafAt p l \<Longrightarrow> f l' = Inr (updAt p (\<lambda>_. leafAt p m) l', r)"
proof -
  show a: "same_params (leafAt p l) (leafAt p m)" "m = updAt p (\<lambda>_. leafAt p m) l"
    "same_tables l' S \<Longrightarrow> leafAt p l' = leafAt p l \<Longrightarrow> f l' = Inr (updAt p (\<lambda>_. leafAt p m) l', r)"
    using assms(1-3) unfolding on_leaf_def by fastforce+
  show "same_tables m S"
    by (subst a(2)) (rule same_tables_upd [OF assms(2,4) a(1)])
qed

lemma on_leaf_elsewhere:
  assumes "on_leaf S p f" "same_tables l S" "f l = Inr (m, r)" "is_path (level S) p" "is_path (level S) q" "q \<noteq> p"
  shows "leafAt q m = leafAt q l"
proof -
  have "leafAt q (updAt p (\<lambda>_. leafAt p m) l) = leafAt q l"
    using leafAt_updAt [OF same_tables_spine [OF assms(2)] assms(4,5)] assms(6) by simp
  with on_leafD(2) [OF assms(1-4)] show ?thesis by simp
qed

lemma on_leaf_bind:
  assumes "is_path (level S) p" "on_leaf S p f" "\<And>r. on_leaf S p (g r)"
  shows "on_leaf S p (\<lambda>l. bindR (f l) (\<lambda>(l1, r). g r l1))"
  unfolding on_leaf_def
proof (intro allI impI)
  fix l l'
  assume l: "same_tables l S" "same_tables l' S" "leafAt p l' = leafAt p l"
  show "case bindR (f l) (\<lambda>(l1, r). g r l1) of Inl e \<Rightarrow> bindR (f l') (\<lambda>(l1, r). g r l1) = Inl e
    | Inr (m, r) \<Rightarrow> same_params (leafAt p l) (leafAt p m) \<and> m = updAt p (\<lambda>_. leafAt p m) l \<and>
        bindR (f l') (\<lambda>(l1, r). g r l1) = Inr (updAt p (\<lambda>_. leafAt p m) l', r)"
  proof (cases "f l")
    case (Inl e)
    then have "f l' = Inl e" using assms(2) l unfolding on_leaf_def by fastforce
    with Inl show ?thesis by simp
  next
    case (Inr x)
    obtain m1 r1 where m1: "f l = Inr (m1, r1)" using Inr by (cases x) simp
    let ?m1 = "updAt p (\<lambda>_. leafAt p m1) l'"
    note a = on_leafD [OF assms(2) l(1) m1 assms(1)]
    have f': "f l' = Inr (?m1, r1)" using a(4) [OF l(2,3)] .
    have "same_params (leafAt p l') (leafAt p m1)" using a(1) l(3) by simp
    then have t': "same_tables ?m1 S" by (rule same_tables_upd [OF l(2) assms(1)])
    have p': "leafAt p ?m1 = leafAt p m1"
      using leafAt_updAt [OF same_tables_spine [OF l(2)] assms(1,1)] by simp
    show ?thesis
    proof (cases "g r1 m1")
      case (Inl e)
      then have "g r1 ?m1 = Inl e" using assms(3) [of r1] a(3) t' p' unfolding on_leaf_def by fastforce
      with Inl m1 f' show ?thesis by simp
    next
      case (Inr y)
      obtain m2 r2 where m2: "g r1 m1 = Inr (m2, r2)" using Inr by (cases y) simp
      note b = on_leafD [OF assms(3) a(3) m2 assms(1)]
      have "updAt p (\<lambda>_. leafAt p m2) m1 = updAt p (\<lambda>_. leafAt p m2) l"
        by (subst a(2)) (simp add: updAt_updAt [OF same_tables_spine [OF l(1)] assms(1)])
      moreover have "updAt p (\<lambda>_. leafAt p m2) ?m1 = updAt p (\<lambda>_. leafAt p m2) l'"
        by (simp add: updAt_updAt [OF same_tables_spine [OF l(2)] assms(1)])
      ultimately show ?thesis
        using m1 f' m2 b(2) b(4) [OF t' p'] same_params_trans [OF a(1) b(1)] by simp
    qed
  qed
qed

lemma keeps_lock_bind:
  assumes "is_path (level S) p" "on_leaf S p f" "keeps_lock S p f" "\<And>r. keeps_lock S p (g r)"
  shows "keeps_lock S p (\<lambda>l. bindR (f l) (\<lambda>(l1, r). g r l1))"
  unfolding keeps_lock_def
proof (intro allI impI)
  fix l m r
  assume l: "same_tables l S" and r: "bindR (f l) (\<lambda>(l1, r). g r l1) = Inr (m, r)"
  then obtain l1 r1 where f: "f l = Inr (l1, r1)" "g r1 l1 = Inr (m, r)" by (auto simp: bindR_Inr_iff)
  from on_leafD(3) [OF assms(2) l f(1) assms(1)] have l1: "same_tables l1 S" .
  have "semaphore (leafAt p l1) = semaphore (leafAt p l)" using assms(3) l f(1) by (simp add: keeps_lock_def)
  moreover have "semaphore (leafAt p m) = semaphore (leafAt p l1)" using assms(4) [of r1] l1 f(2) by (simp add: keeps_lock_def)
  ultimately show "semaphore (leafAt p m) = semaphore (leafAt p l)" by simp
qed

lemma keeps_items_bind:
  assumes "is_path (level S) p" "on_leaf S p f" "keeps_items S p f" "\<And>r. keeps_items S p (g r)"
  shows "keeps_items S p (\<lambda>l. bindR (f l) (\<lambda>(l1, r). g r l1))"
  unfolding keeps_items_def
proof (intro allI impI)
  fix l m r
  assume l: "same_tables l S" "leafItems (leafAt p l) \<noteq> []" and r: "bindR (f l) (\<lambda>(l1, r). g r l1) = Inr (m, r)"
  then obtain l1 r1 where f: "f l = Inr (l1, r1)" "g r1 l1 = Inr (m, r)" by (auto simp: bindR_Inr_iff)
  have "leafItems (leafAt p l1) \<noteq> []" using assms(3) l f(1) by (simp add: keeps_items_def)
  with on_leafD(3) [OF assms(2) l(1) f(1) assms(1)] assms(4) [of r1] f(2)
  show "leafItems (leafAt p m) \<noteq> []" by (simp add: keeps_items_def)
qed

lemma on_leaf_pure:
  assumes "is_path (level S) p"
  shows "on_leaf S p (\<lambda>l. Inr (l, r))" "on_leaf S p (\<lambda>l. Inl e)" "keeps_lock S p (\<lambda>l. Inr (l, r))" "keeps_lock S p (\<lambda>l. Inl e)"
    "keeps_items S p (\<lambda>l. Inr (l, r))" "keeps_items S p (\<lambda>l. Inl e)"
proof -
  have "updAt p (\<lambda>_. leafAt p l) l' = l'" if "same_tables l' S" "leafAt p l' = leafAt p l" for l l'
    by (rule updAt_same [OF same_tables_spine [OF that(1)] assms]) (simp add: that(2))
  then show "on_leaf S p (\<lambda>l. Inr (l, r))" "on_leaf S p (\<lambda>l. Inl e)" by (auto simp: on_leaf_def)
qed (auto simp: keeps_lock_def keeps_items_def)

text \<open>What does not use the list at all.\<close>

lemma on_leaf_value:
  assumes "is_path (level S) p" "\<And>v. on_leaf S p (g v)"
  shows "on_leaf S p (\<lambda>l. bindR x (\<lambda>v. g v l))"
  by (cases x) (use assms(2) on_leaf_pure(2) [OF assms(1)] in simp_all)

lemma keeps_lock_value:
  assumes "is_path (level S) p" "\<And>v. keeps_lock S p (g v)"
  shows "keeps_lock S p (\<lambda>l. bindR x (\<lambda>v. g v l))"
  by (cases x) (use assms(2) on_leaf_pure(4) [OF assms(1)] in simp_all)

text \<open>An operation given by what it does to the leaf.\<close>

lemma on_leaf_of:
  assumes p: "is_path (level S) p"
    and f: "\<And>l. same_tables l S \<Longrightarrow> f l = bindR (F (leafAt p l)) (\<lambda>(leaf, r). Inr (updAt p (\<lambda>_. leaf) l, r))"
    and F: "\<And>leaf leaf' r. F leaf = Inr (leaf', r) \<Longrightarrow> same_params leaf leaf'"
  shows "on_leaf S p f"
  unfolding on_leaf_def
proof (intro allI impI)
  fix l l'
  assume l: "same_tables l S" "same_tables l' S" "leafAt p l' = leafAt p l"
  show "case f l of Inl e \<Rightarrow> f l' = Inl e
    | Inr (m, r) \<Rightarrow> same_params (leafAt p l) (leafAt p m) \<and> m = updAt p (\<lambda>_. leafAt p m) l \<and>
        f l' = Inr (updAt p (\<lambda>_. leafAt p m) l', r)"
  proof (cases "F (leafAt p l)")
    case (Inr x)
    obtain leaf r where x: "F (leafAt p l) = Inr (leaf, r)" using Inr by (cases x) simp
    have "leafAt p (updAt p (\<lambda>_. leaf) l) = leaf"
      using leafAt_updAt [OF same_tables_spine [OF l(1)] p p] by simp
    with x F [OF x] f [OF l(1)] f [OF l(2)] l(3) show ?thesis by simp
  qed (use f [OF l(1)] f [OF l(2)] l(3) in simp)
qed

lemma keeps_lock_of:
  assumes p: "is_path (level S) p"
    and f: "\<And>l. same_tables l S \<Longrightarrow> f l = bindR (F (leafAt p l)) (\<lambda>(leaf, r). Inr (updAt p (\<lambda>_. leaf) l, r))"
    and F: "\<And>leaf leaf' r. F leaf = Inr (leaf', r) \<Longrightarrow> semaphore leaf' = semaphore leaf"
  shows "keeps_lock S p f"
  unfolding keeps_lock_def
proof (intro allI impI)
  fix l m r
  assume l: "same_tables l S" and r: "f l = Inr (m, r)"
  then obtain leaf where x: "F (leafAt p l) = Inr (leaf, r)" "m = updAt p (\<lambda>_. leaf) l"
    by (auto simp: f bindR_Inr_iff)
  have "leafAt p m = leaf" unfolding x(2) using leafAt_updAt [OF same_tables_spine [OF l] p p] by simp
  with F [OF x(1)] show "semaphore (leafAt p m) = semaphore (leafAt p l)" by simp
qed

lemma keeps_items_of:
  assumes p: "is_path (level S) p"
    and f: "\<And>l. same_tables l S \<Longrightarrow> f l = bindR (F (leafAt p l)) (\<lambda>(leaf, r). Inr (updAt p (\<lambda>_. leaf) l, r))"
    and F: "\<And>leaf leaf' r. F leaf = Inr (leaf', r) \<Longrightarrow> leafItems leaf \<noteq> [] \<Longrightarrow> leafItems leaf' \<noteq> []"
  shows "keeps_items S p f"
  unfolding keeps_items_def
proof (intro allI impI)
  fix l m r
  assume l: "same_tables l S" "leafItems (leafAt p l) \<noteq> []" and r: "f l = Inr (m, r)"
  then obtain leaf where x: "F (leafAt p l) = Inr (leaf, r)" "m = updAt p (\<lambda>_. leaf) l"
    by (auto simp: f bindR_Inr_iff)
  have "leafAt p m = leaf" unfolding x(2) using leafAt_updAt [OF same_tables_spine [OF l(1)] p p] by simp
  with F [OF x(1) l(2)] show "leafItems (leafAt p m) \<noteq> []" by simp
qed

text \<open>The operations of list.c on the leaf of a hash.\<close>

lemma setItems_not_empty: "fst (setItems n h xs) \<noteq> []"
  by (cases xs) (auto simp: Let_def split_beta split: if_splits)

lemma putItem_empty [simp]: "putItem k v xs = [] \<longleftrightarrow> xs = []"
  by (cases xs) (auto split: if_splits)

lemma list_operations:
  fixes S :: "'a hlist"
  assumes h: "length h = hashLength S" "level S \<le> hashLength S"
  defines "p \<equiv> leafPath S h"
  shows getHash_on_leaf: "on_leaf S p (\<lambda>l. bindR (getHash l h) (\<lambda>x. Inr (l, x)))"
      "keeps_lock S p (\<lambda>l. bindR (getHash l h) (\<lambda>x. Inr (l, x)))" "keeps_items S p (\<lambda>l. bindR (getHash l h) (\<lambda>x. Inr (l, x)))"
    and setHash_on_leaf: "on_leaf S p (\<lambda>l. setHash l h)" "keeps_lock S p (\<lambda>l. setHash l h)" "keeps_items S p (\<lambda>l. setHash l h)"
    and putData_on_leaf: "on_leaf S p (\<lambda>l. bindR (putData l h v) (\<lambda>m. Inr (m, ())))"
      "keeps_lock S p (\<lambda>l. bindR (putData l h v) (\<lambda>m. Inr (m, ())))" "keeps_items S p (\<lambda>l. bindR (putData l h v) (\<lambda>m. Inr (m, ())))"
    and deleteItem_on_leaf: "on_leaf S p (\<lambda>l. bindR (deleteItem l h) (\<lambda>m. Inr (m, ())))"
      "keeps_lock S p (\<lambda>l. bindR (deleteItem l h) (\<lambda>m. Inr (m, ())))"
proof -
  have p: "is_path (level S) p" by (simp add: p_def)
  note leaf = leaf_of_hash [OF _ h, folded p_def]
  have same: "updAt p (\<lambda>_. leafAt p l) l = l" if "same_tables l S" for l
    by (rule updAt_same [OF same_tables_spine [OF that] p]) simp
  let ?get = "\<lambda>leaf :: 'a hlist. Inr (leaf, getItems (hashLength leaf) h (leafItems leaf)) :: ('a hlist \<times> 'a item option) res"
  let ?set = "\<lambda>leaf :: 'a hlist. (case setItems (hashLength leaf) h (leafItems leaf) of (xs, d) \<Rightarrow> Inr (set_items xs leaf, d)) :: ('a hlist \<times> 'a option) res"
  let ?put = "\<lambda>leaf :: 'a hlist. Inr (set_items (putItem h v (leafItems leaf)) leaf, ()) :: ('a hlist \<times> unit) res"
  let ?del = "\<lambda>leaf :: 'a hlist. Inr (set_items (delItem h (leafItems leaf)) leaf, ()) :: ('a hlist \<times> unit) res"
  have "bindR (getHash l h) (\<lambda>x. Inr (l, x)) = bindR (?get (leafAt p l)) (\<lambda>(leaf, r). Inr (updAt p (\<lambda>_. leaf) l, r))"
    if "same_tables l S" for l using leaf(1) [OF that] same [OF that] by (simp add: getHash_def)
  from on_leaf_of [OF p this] keeps_lock_of [OF p this]
    keeps_items_of [OF p this]
  show "on_leaf S p (\<lambda>l. bindR (getHash l h) (\<lambda>x. Inr (l, x)))" "keeps_lock S p (\<lambda>l. bindR (getHash l h) (\<lambda>x. Inr (l, x)))"
    "keeps_items S p (\<lambda>l. bindR (getHash l h) (\<lambda>x. Inr (l, x)))"
    by simp_all
  have "setHash l h = bindR (?set (leafAt p l)) (\<lambda>(leaf, r). Inr (updAt p (\<lambda>_. leaf) l, r))"
    if "same_tables l S" for l using leaf [OF that] by (simp add: setHash_def split_beta updAt_cong [of "set_items _" _ _ "\<lambda>_. set_items _ _"])
  from on_leaf_of [OF p this] keeps_lock_of [OF p this]
    keeps_items_of [OF p this]
  show "on_leaf S p (\<lambda>l. setHash l h)" "keeps_lock S p (\<lambda>l. setHash l h)" "keeps_items S p (\<lambda>l. setHash l h)"
    by (auto simp: same_params_def split_beta setItems_not_empty)
  have "bindR (putData l h v) (\<lambda>m. Inr (m, ())) = bindR (?put (leafAt p l)) (\<lambda>(leaf, r). Inr (updAt p (\<lambda>_. leaf) l, r))"
    if "same_tables l S" for l using leaf [OF that]
      updAt_cong [of "\<lambda>leaf. set_items (putItem h v (leafItems leaf)) leaf" p l "\<lambda>_. set_items (putItem h v (leafItems (leafAt p l))) (leafAt p l)"]
    by (simp add: putData_def)
  from on_leaf_of [OF p this] keeps_lock_of [OF p this]
    keeps_items_of [OF p this]
  show "on_leaf S p (\<lambda>l. bindR (putData l h v) (\<lambda>m. Inr (m, ())))" "keeps_lock S p (\<lambda>l. bindR (putData l h v) (\<lambda>m. Inr (m, ())))"
    "keeps_items S p (\<lambda>l. bindR (putData l h v) (\<lambda>m. Inr (m, ())))"
    by (auto simp: same_params_def putItem_empty)
  have "bindR (deleteItem l h) (\<lambda>m. Inr (m, ())) = bindR (?del (leafAt p l)) (\<lambda>(leaf, r). Inr (updAt p (\<lambda>_. leaf) l, r))"
    if "same_tables l S" for l using leaf [OF that]
      updAt_cong [of "\<lambda>leaf. set_items (delItem h (leafItems leaf)) leaf" p l "\<lambda>_. set_items (delItem h (leafItems (leafAt p l))) (leafAt p l)"]
    by (simp add: deleteItem_def)
  from on_leaf_of [OF p this] keeps_lock_of [OF p this]
  show "on_leaf S p (\<lambda>l. bindR (deleteItem l h) (\<lambda>m. Inr (m, ())))" "keeps_lock S p (\<lambda>l. bindR (deleteItem l h) (\<lambda>m. Inr (m, ())))"
    by (auto simp: same_params_def)
qed


section \<open>Threads and their sections\<close>

text \<open>
  An operation on the shared list and the thread's own state; a section, what the thread does
  before it comes to a leaf and the operations between the wait for the leaf and its post; mapList
  (but no other function) passes over a leaf whose firstItem is NULL, without a wait. A thread with
  its own state, where it is, and its sections, the one it has started first.
\<close>

type_synonym ('a, 's) op = "'a hlist \<Rightarrow> 's \<Rightarrow> ('a hlist \<times> 's) res"

datatype ('a, 's) leaf_section =
  Section (sec_before: "'s \<Rightarrow> 's") (sec_leaf: "nat list") (sec_passes_empty: bool) (sec_ops: "('a, 's) op list")

datatype ('a, 's) phase = Outside | Waiting | Inside "('a, 's) op list"

datatype ('a, 's) leaf_thread =
  Thread (th_state: 's) (th_phase: "('a, 's) phase") (th_program: "('a, 's) leaf_section list")

definition lockAt :: "nat list \<Rightarrow> 'a hlist \<Rightarrow> 'a hlist res" where
  "lockAt p l = bindR (waitSemaphoreLeaf (leafAt p l)) (\<lambda>leaf. Inr (updAt p (\<lambda>_. leaf) l))"

definition unlockAt :: "nat list \<Rightarrow> 'a hlist \<Rightarrow> 'a hlist res" where
  "unlockAt p l = bindR (postSemaphoreLeaf (leafAt p l)) (\<lambda>leaf. Inr (updAt p (\<lambda>_. leaf) l))"

fun runOps :: "('a, 's) op list \<Rightarrow> 'a hlist \<Rightarrow> 's \<Rightarrow> ('a hlist \<times> 's) res" where
  "runOps [] l s = Inr (l, s)"
| "runOps (f # fs) l s = bindR (f l s) (\<lambda>(l1, s1). runOps fs l1 s1)"

definition runSection :: "('a, 's) leaf_section \<Rightarrow> 'a hlist \<Rightarrow> 's \<Rightarrow> ('a hlist \<times> 's) res" where
  "runSection c l s =
     bindR (lockAt (sec_leaf c) l) (\<lambda>l1. bindR (runOps (sec_ops c) l1 (sec_before c s)) (\<lambda>(l2, s').
     bindR (unlockAt (sec_leaf c) l2) (\<lambda>l3. Inr (l3, s'))))"

text \<open>A leaf that the section passes over.\<close>

definition passes :: "('a, 's) leaf_section \<Rightarrow> 'a hlist \<Rightarrow> bool" where
  "passes c l \<longleftrightarrow> sec_passes_empty c \<and> leafItems (leafAt (sec_leaf c) l) = []"

text \<open>
  One step of one thread: it comes to a leaf, and passes over it or starts to wait; the wait
  returns; one operation; the post. A wait on a leaf that is held does not return.
\<close>

inductive leaf_step ::
  "'a hlist \<times> ('a, 's) leaf_thread list \<Rightarrow> 'a hlist \<times> ('a, 's) leaf_thread list \<Rightarrow> bool" where
  pass: "i < length ts \<Longrightarrow> ts ! i = Thread s Outside (c # cs) \<Longrightarrow> passes c l \<Longrightarrow>
    leaf_step (l, ts) (l, ts[i := Thread (sec_before c s) Outside cs])"
| start: "i < length ts \<Longrightarrow> ts ! i = Thread s Outside (c # cs) \<Longrightarrow> \<not> passes c l \<Longrightarrow>
    leaf_step (l, ts) (l, ts[i := Thread (sec_before c s) Waiting (c # cs)])"
| enter: "i < length ts \<Longrightarrow> ts ! i = Thread s Waiting (c # cs) \<Longrightarrow> lockAt (sec_leaf c) l = Inr l' \<Longrightarrow>
    leaf_step (l, ts) (l', ts[i := Thread s (Inside (sec_ops c)) (c # cs)])"
| act: "i < length ts \<Longrightarrow> ts ! i = Thread s (Inside (f # fs)) (c # cs) \<Longrightarrow> f l s = Inr (l', s') \<Longrightarrow>
    leaf_step (l, ts) (l', ts[i := Thread s' (Inside fs) (c # cs)])"
| leave: "i < length ts \<Longrightarrow> ts ! i = Thread s (Inside []) (c # cs) \<Longrightarrow> unlockAt (sec_leaf c) l = Inr l' \<Longrightarrow>
    leaf_step (l, ts) (l', ts[i := Thread s Outside cs])"

text \<open>The same threads, a section of one of them at a time.\<close>

inductive section_step ::
  "'a hlist \<times> ('a, 's) leaf_thread list \<Rightarrow> 'a hlist \<times> ('a, 's) leaf_thread list \<Rightarrow> bool" where
  over: "i < length ts \<Longrightarrow> ts ! i = Thread s Outside (c # cs) \<Longrightarrow> passes c l \<Longrightarrow>
    section_step (l, ts) (l, ts[i := Thread (sec_before c s) Outside cs])"
| turn: "i < length ts \<Longrightarrow> ts ! i = Thread s Outside (c # cs) \<Longrightarrow> runSection c l s = Inr (l', s') \<Longrightarrow>
    section_step (l, ts) (l', ts[i := Thread s' Outside cs])"

text \<open>
  The sections of a program work on their leaf only and leave its semaphore to the wait and the
  post; only one that passes over empty leaves may empty its leaf.
\<close>

definition section_ok :: "'a hlist \<Rightarrow> ('a, 's) leaf_section \<Rightarrow> bool" where
  "section_ok S c \<longleftrightarrow> is_path (level S) (sec_leaf c) \<and>
     (\<forall>f \<in> set (sec_ops c). \<forall>s. on_leaf S (sec_leaf c) (\<lambda>l. f l s) \<and> keeps_lock S (sec_leaf c) (\<lambda>l. f l s) \<and>
        (\<not> sec_passes_empty c \<longrightarrow> keeps_items S (sec_leaf c) (\<lambda>l. f l s)))"

text \<open>Only one thread has sections of that kind: it is the only one that removes items.\<close>

definition passes_any :: "('a, 's) leaf_thread \<Rightarrow> bool" where
  "passes_any t \<longleftrightarrow> (\<exists>c \<in> set (th_program t). sec_passes_empty c)"

definition one_collector :: "('a, 's) leaf_thread list \<Rightarrow> bool" where
  "one_collector ts \<longleftrightarrow> (\<forall>i < length ts. \<forall>j < length ts. passes_any (ts ! i) \<longrightarrow> passes_any (ts ! j) \<longrightarrow> i = j)"

definition unlocked :: "'a hlist \<Rightarrow> bool" where
  "unlocked l \<longleftrightarrow> (\<forall>p. is_path (level l) p \<longrightarrow> semaphoreEnabled (leafAt p l) \<noteq> 0 \<and> semaphore (leafAt p l) = Some 1)"

lemma runOps_on_leaf:
  assumes "is_path (level S) p" "\<forall>f \<in> set fs. \<forall>s. on_leaf S p (\<lambda>l. f l s) \<and> keeps_lock S p (\<lambda>l. f l s)"
  shows "on_leaf S p (\<lambda>l. runOps fs l s) \<and> keeps_lock S p (\<lambda>l. runOps fs l s)"
  using assms(2)
proof (induction fs arbitrary: s)
  case Nil
  show ?case by (auto intro: on_leaf_pure [OF assms(1)])
next
  case (Cons f fs)
  then have f: "on_leaf S p (\<lambda>l. f l s)" "keeps_lock S p (\<lambda>l. f l s)"
    and fs: "\<And>r. on_leaf S p (\<lambda>l. runOps fs l r)" "\<And>r. keeps_lock S p (\<lambda>l. runOps fs l r)" by auto
  from on_leaf_bind [OF assms(1) f(1) fs(1)] keeps_lock_bind [OF assms(1) f fs(2)] show ?case by simp
qed

lemma runOps_keeps_items:
  assumes "is_path (level S) p" "\<forall>f \<in> set fs. \<forall>s. on_leaf S p (\<lambda>l. f l s) \<and> keeps_items S p (\<lambda>l. f l s)"
  shows "keeps_items S p (\<lambda>l. runOps fs l s)"
  using assms(2)
proof (induction fs arbitrary: s)
  case Nil
  show ?case by (auto intro: on_leaf_pure [OF assms(1)])
next
  case (Cons f fs)
  then have "on_leaf S p (\<lambda>l. f l s)" "keeps_items S p (\<lambda>l. f l s)" "\<And>r. keeps_items S p (\<lambda>l. runOps fs l r)" by auto
  from keeps_items_bind [OF assms(1) this] show ?case by simp
qed

lemma runOps_snoc: "runOps (fs @ [f]) l s = bindR (runOps fs l s) (\<lambda>(l1, s1). f l1 s1)"
proof (induction fs arbitrary: l s)
  case Nil
  show ?case by (cases "f l s") auto
next
  case (Cons g fs)
  then show ?case by (cases "g l s") auto
qed


section \<open>A section is one step\<close>

text \<open>
  How the state of the threads (l, ts) follows a state (S, us) in which no thread is inside a
  section: a thread inside one has done there, on its leaf, what it does after a wait in S.
\<close>

definition follows :: "'a hlist \<Rightarrow> 'a hlist \<Rightarrow> ('a, 's) leaf_thread \<Rightarrow> ('a, 's) leaf_thread \<Rightarrow> bool" where
  "follows l S t u \<longleftrightarrow>
     (case th_phase t of
        Outside \<Rightarrow> u = t
      | Waiting \<Rightarrow> \<exists>c cs s. th_program t = c # cs \<and> u = Thread s Outside (c # cs) \<and> th_state t = sec_before c s
      | Inside rest \<Rightarrow> \<exists>c cs fs s S1 Sp. th_program t = c # cs \<and> sec_ops c = fs @ rest \<and> u = Thread s Outside (c # cs) \<and>
          lockAt (sec_leaf c) S = Inr S1 \<and> runOps fs S1 (sec_before c s) = Inr (Sp, th_state t) \<and>
          leafAt (sec_leaf c) l = leafAt (sec_leaf c) Sp)"

definition in_leaf :: "('a, 's) leaf_thread \<Rightarrow> nat list \<Rightarrow> bool" where
  "in_leaf t p \<longleftrightarrow> (\<exists>rest. th_phase t = Inside rest) \<and> (\<exists>c cs. th_program t = c # cs \<and> sec_leaf c = p)"

definition tracks ::
  "'a hlist \<Rightarrow> 'a hlist \<Rightarrow> ('a, 's) leaf_thread list \<Rightarrow> 'a hlist \<Rightarrow> ('a, 's) leaf_thread list \<Rightarrow> bool" where
  "tracks R l ts S us \<longleftrightarrow> same_tables l R \<and> same_tables S R \<and> unlocked S \<and> length us = length ts \<and>
     (\<forall>i < length ts. follows l S (ts ! i) (us ! i)) \<and>
     (\<forall>i < length ts. \<forall>j < length ts. \<forall>p. in_leaf (ts ! i) p \<longrightarrow> in_leaf (ts ! j) p \<longrightarrow> i = j) \<and>
     (\<forall>p. is_path (level R) p \<longrightarrow> (\<forall>i < length ts. \<not> in_leaf (ts ! i) p) \<longrightarrow> leafAt p l = leafAt p S) \<and>
     (\<forall>t \<in> set ts. \<forall>c \<in> set (th_program t). section_ok R c) \<and> one_collector ts"

lemma tracksD:
  assumes "tracks R l ts S us"
  shows "same_tables l R" "same_tables S R" "unlocked S" "length us = length ts"
    "i < length ts \<Longrightarrow> follows l S (ts ! i) (us ! i)"
    "i < length ts \<Longrightarrow> j < length ts \<Longrightarrow> in_leaf (ts ! i) p \<Longrightarrow> in_leaf (ts ! j) p \<Longrightarrow> i = j"
    "is_path (level R) p \<Longrightarrow> (\<And>i. i < length ts \<Longrightarrow> \<not> in_leaf (ts ! i) p) \<Longrightarrow> leafAt p l = leafAt p S"
    "i < length ts \<Longrightarrow> c \<in> set (th_program (ts ! i)) \<Longrightarrow> section_ok R c"
    "one_collector ts"
  using assms unfolding tracks_def by (blast dest: nth_mem)+

lemma same_tables_level: "same_tables l S \<Longrightarrow> level l = level S"
  by (simp add: same_tables_def same_params_def)

lemma lockAt_ok:
  assumes "same_tables S R" "is_path (level R) p" "semaphoreEnabled (leafAt p S) \<noteq> 0" "semaphore (leafAt p S) = Some (Suc v)"
  shows "lockAt p S = Inr (updAt p (\<lambda>_. set_semaphore (Some v) (leafAt p S)) S)"
    "same_tables (updAt p (\<lambda>_. set_semaphore (Some v) (leafAt p S)) S) R"
    "leafAt p (updAt p (\<lambda>_. set_semaphore (Some v) (leafAt p S)) S) = set_semaphore (Some v) (leafAt p S)"
    "q \<noteq> p \<Longrightarrow> is_path (level R) q \<Longrightarrow> leafAt q (updAt p (\<lambda>_. set_semaphore (Some v) (leafAt p S)) S) = leafAt q S"
  using assms leafAt_updAt [OF same_tables_spine [OF assms(1)] assms(2)] same_tables_upd [OF assms(1,2)]
  by (simp_all add: lockAt_def waitSemaphoreLeaf_def same_params_def)

lemma lockAt_blocked:
  "semaphoreEnabled (leafAt p l) \<noteq> 0 \<Longrightarrow> semaphore (leafAt p l) = Some 0 \<Longrightarrow> lockAt p l = Inl Blocked"
  by (simp add: lockAt_def waitSemaphoreLeaf_def)

text \<open>A section leaves the leaves free.\<close>

lemma runSection_unlocked:
  assumes "same_tables S R" "unlocked S" "section_ok R c" "runSection c S s = Inr (S', s')"
  shows "same_tables S' R \<and> unlocked S'"
proof -
  let ?p = "sec_leaf c"
  have p: "is_path (level R) ?p" using assms(3) by (simp add: section_ok_def)
  have sem: "semaphoreEnabled (leafAt ?p S) \<noteq> 0" "semaphore (leafAt ?p S) = Some (Suc 0)"
    using assms(2) p same_tables_level [OF assms(1)] by (simp_all add: unlocked_def)
  note lk = lockAt_ok [OF assms(1) p sem]
  let ?S1 = "updAt ?p (\<lambda>_. set_semaphore (Some 0) (leafAt ?p S)) S"
  obtain S2 where r: "runOps (sec_ops c) ?S1 (sec_before c s) = Inr (S2, s')" "unlockAt ?p S2 = Inr S'"
    using assms(4) lk(1) by (auto simp: runSection_def bindR_Inr_iff)
  have ops: "on_leaf R ?p (\<lambda>l. runOps (sec_ops c) l (sec_before c s))" "keeps_lock R ?p (\<lambda>l. runOps (sec_ops c) l (sec_before c s))"
    using runOps_on_leaf [OF p, of "sec_ops c"] assms(3) by (auto simp: section_ok_def)
  note t = on_leafD [OF ops(1) lk(2) r(1) p]
  have "semaphore (leafAt ?p S2) = Some 0" using ops(2) lk(2,3) r(1) by (simp add: keeps_lock_def)
  moreover have "semaphoreEnabled (leafAt ?p S2) \<noteq> 0" using t(1) lk(3) sem(1) by (simp add: same_params_def)
  ultimately have S': "S' = updAt ?p (\<lambda>_. set_semaphore (Some 1) (leafAt ?p S2)) S2" "semaphoreEnabled (leafAt ?p S2) \<noteq> 0"
    using r(2) by (auto simp: unlockAt_def postSemaphoreLeaf_def)
  have t': "same_tables S' R" unfolding S'(1) by (rule same_tables_upd [OF t(3) p]) (simp add: same_params_def)
  have "semaphoreEnabled (leafAt q S') \<noteq> 0 \<and> semaphore (leafAt q S') = Some 1" if q: "is_path (level R) q" for q
  proof (cases "q = ?p")
    case True
    then show ?thesis unfolding S'(1) using leafAt_updAt [OF same_tables_spine [OF t(3)] p p] S'(2) by simp
  next
    case False
    then have "leafAt q S' = leafAt q S"
      unfolding S'(1) using leafAt_updAt [OF same_tables_spine [OF t(3)] p q] on_leaf_elsewhere [OF ops(1) lk(2) r(1) p q] lk(4) q by simp
    then show ?thesis using assms(2) q same_tables_level [OF assms(1)] by (simp add: unlocked_def)
  qed
  with t' same_tables_level [OF t'] show ?thesis by (simp add: unlocked_def)
qed

text \<open>The leaf a thread is inside is locked, and the run of its section so far is a run from S.\<close>

lemma follows_inside:
  assumes "same_tables S R" "unlocked S" "follows l S (Thread s (Inside rest) (c # cs)) u" "section_ok R c"
  obtains fs s0 S1 Sp where "sec_ops c = fs @ rest" "u = Thread s0 Outside (c # cs)" "lockAt (sec_leaf c) S = Inr S1"
    "same_tables S1 R" "runOps fs S1 (sec_before c s0) = Inr (Sp, s)" "same_tables Sp R" "leafAt (sec_leaf c) l = leafAt (sec_leaf c) Sp"
    "semaphoreEnabled (leafAt (sec_leaf c) l) \<noteq> 0" "semaphore (leafAt (sec_leaf c) l) = Some 0"
    "S1 = updAt (sec_leaf c) (\<lambda>_. set_semaphore (Some 0) (leafAt (sec_leaf c) S)) S"
    "Sp = updAt (sec_leaf c) (\<lambda>_. leafAt (sec_leaf c) Sp) S"
    "on_leaf R (sec_leaf c) (\<lambda>l. runOps fs l (sec_before c s0))" "same_params (leafAt (sec_leaf c) S) (leafAt (sec_leaf c) Sp)"
    "\<not> sec_passes_empty c \<longrightarrow> leafItems (leafAt (sec_leaf c) l) = [] \<longrightarrow> leafItems (leafAt (sec_leaf c) S) = []"
proof -
  let ?p = "sec_leaf c"
  from assms(3) obtain fs s0 S1 Sp where u: "sec_ops c = fs @ rest" "u = Thread s0 Outside (c # cs)" "lockAt ?p S = Inr S1"
    "runOps fs S1 (sec_before c s0) = Inr (Sp, s)" "leafAt ?p l = leafAt ?p Sp" by (auto simp: follows_def)
  have p: "is_path (level R) ?p" using assms(4) by (simp add: section_ok_def)
  have sem: "semaphoreEnabled (leafAt ?p S) \<noteq> 0" "semaphore (leafAt ?p S) = Some (Suc 0)"
    using assms(2) p same_tables_level [OF assms(1)] by (simp_all add: unlocked_def)
  note lk = lockAt_ok [OF assms(1) p sem]
  have S1: "S1 = updAt ?p (\<lambda>_. set_semaphore (Some 0) (leafAt ?p S)) S" using lk(1) u(3) by simp
  have run: "on_leaf R ?p (\<lambda>l. runOps fs l (sec_before c s0))" "keeps_lock R ?p (\<lambda>l. runOps fs l (sec_before c s0))"
    using runOps_on_leaf [OF p, of fs] assms(4) u(1) by (auto simp: section_ok_def)
  have t1: "same_tables S1 R" "leafAt ?p S1 = set_semaphore (Some 0) (leafAt ?p S)" using lk(2,3) S1 by simp_all
  note r = on_leafD [OF run(1) t1(1) u(4) p]
  have "semaphore (leafAt ?p Sp) = Some 0" using run(2) t1 u(4) by (simp add: keeps_lock_def)
  moreover have "semaphoreEnabled (leafAt ?p Sp) \<noteq> 0" using r(1) t1(2) sem(1) by (simp add: same_params_def)
  moreover have "Sp = updAt ?p (\<lambda>_. leafAt ?p Sp) S"
    by (subst r(2)) (simp add: S1 updAt_updAt [OF same_tables_spine [OF assms(1)] p])
  moreover have "same_params (leafAt ?p S) (leafAt ?p Sp)" using r(1) t1(2) by (simp add: same_params_def)
  moreover have "leafItems (leafAt ?p S) = []" if "\<not> sec_passes_empty c" "leafItems (leafAt ?p l) = []"
  proof -
    have "keeps_items R ?p (\<lambda>l. runOps fs l (sec_before c s0))"
      using runOps_keeps_items [OF p, of fs] assms(4) u(1) that(1) by (auto simp: section_ok_def)
    moreover have "leafItems (leafAt ?p Sp) = []" using u(5) that(2) by simp
    ultimately have "leafItems (leafAt ?p S1) = []" using t1(1) u(4) unfolding keeps_items_def by blast
    then show ?thesis using t1(2) by simp
  qed
  ultimately show thesis using u t1(1) S1 run(1) r(3) by (intro that) auto
qed


lemma follows_cong:
  assumes "follows l S t u" "\<And>p. in_leaf t p \<Longrightarrow> leafAt p l' = leafAt p l"
  shows "follows l' S t u"
  using assms by (cases "th_phase t") (auto simp: follows_def in_leaf_def)

text \<open>The programs only get shorter.\<close>

lemma one_collector_update:
  assumes "one_collector ts" "i < length ts" "set (th_program t') \<subseteq> set (th_program (ts ! i))"
  shows "one_collector (ts[i := t'])"
proof -
  have "passes_any (ts ! a)" if "passes_any (ts[i := t'] ! a)" for a
    using that assms(2,3) by (cases "a = i") (auto simp: passes_any_def)
  with assms(1) show ?thesis unfolding one_collector_def by (metis length_list_update)
qed

lemma tracks_programs:
  assumes "tracks R l ts S us" "i < length ts" "set (th_program t') \<subseteq> set (th_program (ts ! i))"
  shows "(\<forall>t \<in> set (ts[i := t']). \<forall>c \<in> set (th_program t). section_ok R c) \<and> one_collector (ts[i := t'])"
proof -
  have "\<forall>c \<in> set (th_program t'). section_ok R c" using tracksD(8) [OF assms(1,2)] assms(3) by blast
  then have "\<forall>t \<in> set (ts[i := t']). \<forall>c \<in> set (th_program t). section_ok R c"
    using assms(1) set_update_subset_insert [of ts i t'] by (auto simp: tracks_def)
  with one_collector_update [OF tracksD(9) [OF assms(1)] assms(2,3)] show ?thesis by blast
qed

text \<open>A step of thread i that changes the leaf it is inside only.\<close>

lemma tracks_own:
  assumes t: "tracks R l ts S us" and i: "i < length ts" and l': "same_tables l' R"
    and own: "follows l' S t' (us ! i)" "set (th_program t') \<subseteq> set (th_program (ts ! i))" "\<And>q. in_leaf (ts ! i) q \<Longrightarrow> in_leaf t' q"
    and excl: "\<And>q j. in_leaf t' q \<Longrightarrow> j < length ts \<Longrightarrow> in_leaf (ts ! j) q \<Longrightarrow> j = i"
    and keep: "\<And>q. is_path (level R) q \<Longrightarrow> \<not> in_leaf t' q \<Longrightarrow> leafAt q l' = leafAt q l"
  shows "tracks R l' (ts[i := t']) S us"
proof -
  note d = tracksD [OF t]
  have hold_path: "is_path (level R) q" if "j < length ts" "in_leaf (ts ! j) q" for j q
    using d(8) [OF that(1)] that(2) by (auto simp: in_leaf_def section_ok_def)
  have fol: "follows l' S (ts[i := t'] ! j) (us ! j)" if j: "j < length ts" for j
  proof (cases "j = i")
    case False
    have "follows l' S (ts ! j) (us ! j)"
      by (rule follows_cong [OF d(5) [OF j] keep]) (use False excl j hold_path in blast)+
    with False show ?thesis by simp
  qed (use i own(1) in simp)
  have ex: "a = b" if "a < length ts" "b < length ts" "in_leaf (ts[i := t'] ! a) q" "in_leaf (ts[i := t'] ! b) q" for a b q
  proof (cases "a = i"; cases "b = i")
    assume "a = i" "b \<noteq> i"
    then show ?thesis using that excl [of q b] i by simp
  next
    assume "a \<noteq> i" "b = i"
    then show ?thesis using that excl [of q a] i by simp
  next
    assume "a \<noteq> i" "b \<noteq> i"
    then show ?thesis using that d(6) [of a b q] by simp
  qed simp
  have un: "leafAt q l' = leafAt q S" if q: "is_path (level R) q" "\<And>j. j < length ts \<Longrightarrow> \<not> in_leaf (ts[i := t'] ! j) q" for q
  proof -
    have n: "\<not> in_leaf t' q" using q(2) [OF i] i by simp
    have "\<not> in_leaf (ts ! j) q" if "j < length ts" for j
      using q(2) [OF that] n own(3) by (cases "j = i") auto
    with d(7) [OF q(1)] keep [OF q(1) n] show ?thesis by simp
  qed
  with fol ex un d(2-4) l' tracks_programs [OF t i own(2)] show ?thesis unfolding tracks_def by simp
qed

lemma tracks_enter:
  assumes t: "tracks R l ts S us" and i: "i < length ts" "ts ! i = Thread s Waiting (c # cs)" and lock: "lockAt (sec_leaf c) l = Inr l'"
  shows "tracks R l' (ts[i := Thread s (Inside (sec_ops c)) (c # cs)]) S us"
proof -
  note d = tracksD [OF t]
  let ?p = "sec_leaf c"
  have ok: "section_ok R c" using d(8) [OF i(1)] i(2) by simp
  then have p: "is_path (level R) ?p" by (simp add: section_ok_def)
  have free: "\<not> in_leaf (ts ! j) ?p" if j: "j < length ts" for j
  proof
    assume h: "in_leaf (ts ! j) ?p"
    then obtain s1 rest c1 cs1 where tj: "ts ! j = Thread s1 (Inside rest) (c1 # cs1)" "sec_leaf c1 = ?p"
      by (cases "ts ! j") (auto simp: in_leaf_def)
    have "section_ok R c1" using d(8) [OF j] tj(1) by simp
    from follows_inside [OF d(2,3) d(5) [OF j, unfolded tj(1)] this]
    have "semaphoreEnabled (leafAt ?p l) \<noteq> 0" "semaphore (leafAt ?p l) = Some 0" using tj(2) by metis+
    from lockAt_blocked [OF this] lock show False by simp
  qed
  have same: "leafAt ?p l = leafAt ?p S" using d(7) [OF p] free by blast
  have sem: "semaphoreEnabled (leafAt ?p S) \<noteq> 0" "semaphore (leafAt ?p S) = Some (Suc 0)"
    using d(3) p same_tables_level [OF d(2)] by (simp_all add: unlocked_def)
  note lS = lockAt_ok [OF d(2) p sem]
  note ll = lockAt_ok [OF d(1) p, unfolded same, OF sem]
  have l': "l' = updAt ?p (\<lambda>_. set_semaphore (Some 0) (leafAt ?p S)) l" using ll(1) lock by simp
  obtain s0 where u: "us ! i = Thread s0 Outside (c # cs)" "s = sec_before c s0" using d(5) [OF i(1)] i(2) by (auto simp: follows_def)
  let ?t = "Thread s (Inside (sec_ops c)) (c # cs)"
  have h: "in_leaf ?t q \<longleftrightarrow> q = ?p" for q by (auto simp: in_leaf_def)
  show ?thesis
  proof (rule tracks_own [OF t i(1)])
    show "same_tables l' R" unfolding l' by (rule ll(2))
    show "follows l' S ?t (us ! i)"
      using lS(1,3) ll(3) u by (simp add: follows_def l')
    show "set (th_program ?t) \<subseteq> set (th_program (ts ! i))" using i(2) by simp
    show "in_leaf ?t q" if "in_leaf (ts ! i) q" for q using that i(2) by (simp add: in_leaf_def)
    show "j = i" if "in_leaf ?t q" "j < length ts" "in_leaf (ts ! j) q" for q j using free that h by auto
    show "leafAt q l' = leafAt q l" if "is_path (level R) q" "\<not> in_leaf ?t q" for q
      unfolding l' using ll(4) [of q] that h by simp
  qed
qed

lemma tracks_act:
  assumes t: "tracks R l ts S us" and i: "i < length ts" "ts ! i = Thread s (Inside (f # fs)) (c # cs)" and f: "f l s = Inr (l', s')"
  shows "tracks R l' (ts[i := Thread s' (Inside fs) (c # cs)]) S us"
proof -
  note d = tracksD [OF t]
  let ?p = "sec_leaf c" and ?t = "Thread s' (Inside fs) (c # cs)"
  have ok: "section_ok R c" using d(8) [OF i(1)] i(2) by simp
  then have p: "is_path (level R) ?p" by (simp add: section_ok_def)
  obtain gs s0 S1 Sp where b: "sec_ops c = gs @ f # fs" "us ! i = Thread s0 Outside (c # cs)" "lockAt ?p S = Inr S1"
    "runOps gs S1 (sec_before c s0) = Inr (Sp, s)" "same_tables Sp R" "leafAt ?p l = leafAt ?p Sp"
    using follows_inside [OF d(2,3) d(5) [OF i(1), unfolded i(2)] ok] by metis
  have loc: "on_leaf R ?p (\<lambda>l. f l s)" using ok b(1) by (auto simp: section_ok_def)
  note r = on_leafD [OF loc d(1) f p]
  let ?Sp = "updAt ?p (\<lambda>_. leafAt ?p l') Sp"
  have "f Sp s = Inr (?Sp, s')" using r(4) [OF b(5)] b(6) by simp
  with b(4) have run: "runOps (gs @ [f]) S1 (sec_before c s0) = Inr (?Sp, s')" by (simp add: runOps_snoc)
  have lp: "leafAt ?p ?Sp = leafAt ?p l'" using leafAt_updAt [OF same_tables_spine [OF b(5)] p p] by simp
  have h: "in_leaf ?t q \<longleftrightarrow> q = ?p" "in_leaf (ts ! i) q \<longleftrightarrow> q = ?p" for q using i(2) by (auto simp: in_leaf_def)
  show ?thesis
  proof (rule tracks_own [OF t i(1) r(3)])
    show "follows l' S ?t (us ! i)"
      using b(1-3) run lp by (simp add: follows_def)
    show "set (th_program ?t) \<subseteq> set (th_program (ts ! i))" using i(2) by simp
    show "in_leaf ?t q" if "in_leaf (ts ! i) q" for q using that h by simp
    show "j = i" if "in_leaf ?t q" "j < length ts" "in_leaf (ts ! j) q" for q j
      using d(6) [OF that(2) i(1) that(3)] that(1) h by simp
    show "leafAt q l' = leafAt q l" if "is_path (level R) q" "\<not> in_leaf ?t q" for q
      using on_leaf_elsewhere [OF loc d(1) f p that(1)] that(2) h by simp
  qed
qed


text \<open>A thread inside a section of one leaf does not see that another leaf of S is written.\<close>

lemma follows_elsewhere:
  assumes "same_tables S R" "unlocked S" "follows l S t u" "\<forall>c \<in> set (th_program t). section_ok R c" "same_tables S' R"
    "\<And>q. is_path (level R) q \<Longrightarrow> in_leaf t q \<Longrightarrow> leafAt q S' = leafAt q S"
  shows "follows l S' t u"
proof (cases "th_phase t")
  case (Inside rest)
  obtain s c cs where t: "t = Thread s (Inside rest) (c # cs)"
    using assms(3) Inside by (cases t) (auto simp: follows_def)
  let ?p = "sec_leaf c"
  have ok: "section_ok R c" using assms(4) t by simp
  then have p: "is_path (level R) ?p" by (simp add: section_ok_def)
  obtain fs s0 S1 Sp where b: "sec_ops c = fs @ rest" "u = Thread s0 Outside (c # cs)"
    "same_tables S1 R" "runOps fs S1 (sec_before c s0) = Inr (Sp, s)" "leafAt ?p l = leafAt ?p Sp"
    "S1 = updAt ?p (\<lambda>_. set_semaphore (Some 0) (leafAt ?p S)) S" "on_leaf R ?p (\<lambda>l. runOps fs l (sec_before c s0))"
    using follows_inside [OF assms(1,2) assms(3) [unfolded t] ok] by metis
  have "in_leaf t ?p" by (simp add: t in_leaf_def)
  then have eq: "leafAt ?p S' = leafAt ?p S" by (rule assms(6) [OF p])
  have sem: "semaphoreEnabled (leafAt ?p S) \<noteq> 0" "semaphore (leafAt ?p S) = Some (Suc 0)"
    using assms(2) p same_tables_level [OF assms(1)] by (simp_all add: unlocked_def)
  note l1 = lockAt_ok [OF assms(1) p sem]
  note l2 = lockAt_ok [OF assms(5) p, unfolded eq, OF sem]
  let ?S1 = "updAt ?p (\<lambda>_. set_semaphore (Some 0) (leafAt ?p S)) S'"
  have "leafAt ?p ?S1 = leafAt ?p S1" using l1(3) l2(3) b(6) by simp
  from on_leafD(4) [OF b(7,3,4) p l2(2) this]
  have "runOps fs ?S1 (sec_before c s0) = Inr (updAt ?p (\<lambda>_. leafAt ?p Sp) ?S1, s)" .
  moreover have "leafAt ?p (updAt ?p (\<lambda>_. leafAt ?p Sp) ?S1) = leafAt ?p Sp"
    using leafAt_updAt [OF same_tables_spine [OF l2(2)] p p] by simp
  ultimately show ?thesis using b(1,2,5) l2(1) by (auto simp: t follows_def)
qed (use assms(3) in \<open>simp_all add: follows_def\<close>)

lemma tracks_leave:
  assumes t: "tracks R l ts S us" and i: "i < length ts" "ts ! i = Thread s (Inside []) (c # cs)" and un: "unlockAt (sec_leaf c) l = Inr l'"
  obtains S' us' where "section_step (S, us) (S', us')" "tracks R l' (ts[i := Thread s Outside cs]) S' us'"
proof -
  note d = tracksD [OF t]
  let ?p = "sec_leaf c" and ?t = "Thread s Outside cs"
  have ok: "section_ok R c" using d(8) [OF i(1)] i(2) by simp
  then have p: "is_path (level R) ?p" by (simp add: section_ok_def)
  obtain s0 S1 Sp where b: "us ! i = Thread s0 Outside (c # cs)" "lockAt ?p S = Inr S1"
    "runOps (sec_ops c) S1 (sec_before c s0) = Inr (Sp, s)" "leafAt ?p l = leafAt ?p Sp"
    "semaphoreEnabled (leafAt ?p l) \<noteq> 0" "semaphore (leafAt ?p l) = Some 0" "Sp = updAt ?p (\<lambda>_. leafAt ?p Sp) S"
    "same_params (leafAt ?p S) (leafAt ?p Sp)"
    using follows_inside [OF d(2,3) d(5) [OF i(1), unfolded i(2)] ok] by (metis append_Nil2)
  let ?leaf = "set_semaphore (Some 1) (leafAt ?p l)"
  let ?S' = "updAt ?p (\<lambda>_. ?leaf) S"
  have post: "postSemaphoreLeaf (leafAt ?p l) = Inr ?leaf" using b(5,6) by (simp add: postSemaphoreLeaf_def)
  have l': "l' = updAt ?p (\<lambda>_. ?leaf) l" using un post by (simp add: unlockAt_def)
  have "unlockAt ?p Sp = Inr (updAt ?p (\<lambda>_. ?leaf) Sp)" using post b(4) by (simp add: unlockAt_def)
  moreover have "updAt ?p (\<lambda>_. ?leaf) Sp = ?S'"
    by (subst b(7)) (simp add: updAt_updAt [OF same_tables_spine [OF d(2)] p])
  ultimately have "runSection c S s0 = Inr (?S', s)" using b(2,3) by (simp add: runSection_def)
  then have step: "section_step (S, us) (?S', us[i := ?t])"
    using i(1) d(4) b(1) by (intro section_step.turn) simp_all
  have tS: "same_tables ?S' R"
    by (rule same_tables_upd [OF d(2) p]) (use b(4,8) in \<open>simp add: same_params_def\<close>)
  have tl: "same_tables l' R" unfolding l'
    by (rule same_tables_upd [OF d(1) p]) (simp add: same_params_def)
  have atS: "leafAt q ?S' = (if q = ?p then ?leaf else leafAt q S)" if "is_path (level R) q" for q
    using leafAt_updAt [OF same_tables_spine [OF d(2)] p that] by simp
  have atl: "leafAt q l' = (if q = ?p then ?leaf else leafAt q l)" if "is_path (level R) q" for q
    unfolding l' using leafAt_updAt [OF same_tables_spine [OF d(1)] p that] by simp
  have un': "unlocked ?S'"
    using d(3) atS b(5) same_tables_level [OF d(2)] same_tables_level [OF tS] by (simp add: unlocked_def)
  have hi: "in_leaf (ts ! i) q \<longleftrightarrow> q = ?p" for q using i(2) by (auto simp: in_leaf_def)
  have path: "is_path (level R) q" if "j < length ts" "in_leaf (ts ! j) q" for j q
    using d(8) [OF that(1)] that(2) by (auto simp: in_leaf_def section_ok_def)
  have other: "q \<noteq> ?p" if "j < length ts" "j \<noteq> i" "in_leaf (ts ! j) q" for j q
    using d(6) [OF that(1) i(1) that(3)] that(2) hi by blast
  have fol: "follows l' ?S' (ts[i := ?t] ! j) (us[i := ?t] ! j)" if j: "j < length ts" for j
  proof (cases "j = i")
    case True
    with i(1) d(4) show ?thesis by (simp add: follows_def)
  next
    case False
    have "follows l' S (ts ! j) (us ! j)"
      by (rule follows_cong [OF d(5) [OF j]]) (use atl path [OF j] other [OF j False] in auto)
    then have "follows l' ?S' (ts ! j) (us ! j)"
      by (rule follows_elsewhere [OF d(2,3) _ _ tS]) (use d(8) [OF j] atS other [OF j False] in auto)
    with False show ?thesis by simp
  qed
  have nh: "\<not> in_leaf ?t q" for q by (simp add: in_leaf_def)
  have ex: "a = b" if "a < length ts" "b < length ts" "in_leaf (ts[i := ?t] ! a) q" "in_leaf (ts[i := ?t] ! b) q" for a b q
  proof -
    have "a \<noteq> i" "b \<noteq> i" using that nh i(1) by (metis nth_list_update_eq)+
    with that d(6) [of a b q] show ?thesis by simp
  qed
  have unheld: "leafAt q l' = leafAt q ?S'" if q: "is_path (level R) q" "\<And>j. j < length ts \<Longrightarrow> \<not> in_leaf (ts[i := ?t] ! j) q" for q
  proof (cases "q = ?p")
    case False
    have "\<not> in_leaf (ts ! j) q" if "j < length ts" for j
      using q(2) [OF that] False hi by (cases "j = i") auto
    with d(7) [OF q(1)] atS [OF q(1)] atl [OF q(1)] False show ?thesis by simp
  qed (use atS [OF q(1)] atl [OF q(1)] in simp)
  have "set (th_program ?t) \<subseteq> set (th_program (ts ! i))" using i(2) by auto
  with fol ex unheld d(4) tl tS un' tracks_programs [OF t i(1), of ?t] have "tracks R l' (ts[i := ?t]) ?S' (us[i := ?t])" unfolding tracks_def by simp
  with step show thesis by (rule that)
qed

text \<open>A step before the wait.\<close>

lemma tracks_before:
  assumes t: "tracks R l ts S us" and i: "i < length ts" "ts ! i = Thread s Outside (c # cs)"
  shows "tracks R l (ts[i := Thread (sec_before c s) Waiting (c # cs)]) S us"
proof -
  note d = tracksD [OF t]
  have "us ! i = Thread s Outside (c # cs)" using d(5) [OF i(1)] i(2) by (simp add: follows_def)
  then show ?thesis
    by (intro tracks_own [OF t i(1) d(1)]) (use i in \<open>auto simp: follows_def in_leaf_def\<close>)
qed

text \<open>A leaf that is empty, as the threads are, is empty between the sections: only the thread that
comes to it could have emptied it.\<close>

lemma tracks_passes:
  assumes t: "tracks R l ts S us" and i: "i < length ts" "ts ! i = Thread s Outside (c # cs)" and pass: "passes c l"
  shows "passes c S"
proof -
  note d = tracksD [OF t]
  let ?p = "sec_leaf c"
  have p: "is_path (level R) ?p" using d(8) [OF i(1)] i(2) by (simp add: section_ok_def)
  have "leafItems (leafAt ?p S) = []"
  proof (cases "\<exists>j < length ts. in_leaf (ts ! j) ?p")
    case False
    then have "leafAt ?p l = leafAt ?p S" using d(7) [OF p] by blast
    with pass show ?thesis by (simp add: passes_def)
  next
    case True
    then obtain j where j: "j < length ts" "in_leaf (ts ! j) ?p" by blast
    then obtain s1 rest c1 cs1 where tj: "ts ! j = Thread s1 (Inside rest) (c1 # cs1)" "sec_leaf c1 = ?p"
      by (cases "ts ! j") (auto simp: in_leaf_def)
    have "j \<noteq> i" using tj(1) i(2) by auto
    moreover have "passes_any (ts ! i)" using pass i(2) by (auto simp: passes_any_def passes_def)
    ultimately have "\<not> passes_any (ts ! j)" using d(9) i(1) j(1) by (auto simp: one_collector_def)
    then have n: "\<not> sec_passes_empty c1" using tj(1) by (auto simp: passes_any_def)
    have "section_ok R c1" using d(8) [OF j(1)] tj(1) by simp
    from follows_inside [OF d(2,3) d(5) [OF j(1), unfolded tj(1)] this]
    show ?thesis using n pass tj(2) unfolding passes_def by metis
  qed
  with pass show ?thesis by (simp add: passes_def)
qed

lemma tracks_pass:
  assumes t: "tracks R l ts S us" and i: "i < length ts" "ts ! i = Thread s Outside (c # cs)" and pass: "passes c l"
  shows "section_step (S, us) (S, us[i := Thread (sec_before c s) Outside cs])"
    "tracks R l (ts[i := Thread (sec_before c s) Outside cs]) S (us[i := Thread (sec_before c s) Outside cs])"
proof -
  note d = tracksD [OF t]
  let ?t = "Thread (sec_before c s) Outside cs"
  have u: "us ! i = Thread s Outside (c # cs)" "i < length us" using d(5) [OF i(1)] i d(4) by (simp_all add: follows_def)
  show "section_step (S, us) (S, us[i := ?t])"
    by (rule section_step.over [OF u(2,1) tracks_passes [OF t i pass]])
  have h: "in_leaf (ts[i := ?t] ! j) q \<longleftrightarrow> j \<noteq> i \<and> in_leaf (ts ! j) q" "\<not> in_leaf (ts ! i) q" if "j < length ts" for j q
    using i that by (cases "j = i"; simp add: in_leaf_def)+
  have "follows l S (ts[i := ?t] ! j) (us[i := ?t] ! j)" if "j < length ts" for j
    using d(5) [OF that] i(1) u(2) by (cases "j = i") (simp_all add: follows_def)
  moreover have "set (th_program ?t) \<subseteq> set (th_program (ts ! i))" using i(2) by auto
  moreover have "leafAt q l = leafAt q S" if "is_path (level R) q" "\<forall>j < length ts. \<not> in_leaf (ts[i := ?t] ! j) q" for q
    using d(7) [OF that(1)] that(2) h by blast
  moreover have "a = b" if "a < length ts" "b < length ts" "in_leaf (ts[i := ?t] ! a) q" "in_leaf (ts[i := ?t] ! b) q" for a b q
    using that h(1) d(6) [of a b q] by simp
  ultimately show "tracks R l (ts[i := ?t]) S (us[i := ?t])"
    using d(1-4) tracks_programs [OF t i(1), of ?t] unfolding tracks_def by simp
qed

text \<open>The threads as they are follow the threads whose sections are single steps.\<close>

lemma leaf_step_tracks:
  assumes "tracks R l ts S us" "leaf_step (l, ts) (l', ts')"
  obtains S' us' where "section_step\<^sup>*\<^sup>* (S, us) (S', us')" "tracks R l' ts' S' us'"
  using assms(2)
proof cases
  case (pass i s c cs)
  from tracks_pass [OF assms(1) pass(3-5)] pass(1,2) show thesis by (intro that) auto
next
  case (start i s c cs)
  from tracks_before [OF assms(1) start(3,4)] start(1,2) show thesis by (intro that) auto
next
  case (enter i s c cs)
  from tracks_enter [OF assms(1) enter(2-4)] enter(1) show thesis by (intro that) auto
next
  case (act i s f fs c cs s')
  from tracks_act [OF assms(1) act(2-4)] act(1) show thesis by (intro that) auto
next
  case (leave i s c cs)
  from tracks_leave [OF assms(1) leave(2-4)] obtain S' us' where "section_step (S, us) (S', us')"
    "tracks R l' (ts[i := Thread s Outside cs]) S' us'" .
  with leave(1) show thesis by (intro that) auto
qed

lemma tracks_start:
  assumes "wf_hlist l" "unlocked l" "\<forall>t \<in> set ts. th_phase t = Outside" "\<forall>t \<in> set ts. \<forall>c \<in> set (th_program t). section_ok l c"
    "one_collector ts"
  shows "tracks l l ts l ts"
  using assms same_tables_refl [OF assms(1)] by (auto simp: tracks_def follows_def in_leaf_def)

lemma tracks_outside:
  assumes "tracks R l ts S us" "\<forall>t \<in> set ts. th_phase t = Outside"
  shows "l = S \<and> us = ts"
proof
  note d = tracksD [OF assms(1)]
  have in_i: "th_phase (ts ! i) = Outside" if "i < length ts" for i using assms(2) that by simp
  have "same_spine (level R) l S"
    using same_spine_trans [OF same_tables_spine [OF d(1)] same_spine_sym [OF same_tables_spine [OF d(2)]]] .
  then show "l = S"
    by (rule same_spine_ext) (rule d(7), use in_i in \<open>simp_all add: in_leaf_def\<close>)
  show "us = ts"
    using d(4) d(5) in_i by (intro nth_equalityI) (auto simp: follows_def)
qed

lemma leaf_steps_track:
  assumes "wf_hlist l" "unlocked l" "\<forall>t \<in> set ts. th_phase t = Outside" "\<forall>t \<in> set ts. \<forall>c \<in> set (th_program t). section_ok l c"
    "one_collector ts" "leaf_step\<^sup>*\<^sup>* (l, ts) (l', ts')"
  obtains S us where "section_step\<^sup>*\<^sup>* (l, ts) (S, us)" "tracks l l' ts' S us"
proof -
  have "\<exists>S us. section_step\<^sup>*\<^sup>* (l, ts) (S, us) \<and> tracks l (fst x) (snd x) S us" if "leaf_step\<^sup>*\<^sup>* (l, ts) x" for x
    using that
  proof induction
    case base
    show ?case using tracks_start [OF assms(1-5)] by auto
  next
    case (step x y)
    then obtain S us where "section_step\<^sup>*\<^sup>* (l, ts) (S, us)" "tracks l (fst x) (snd x) S us" by blast
    with leaf_step_tracks [of l "fst x" "snd x" S us "fst y" "snd y"] step.hyps(2) show ?case
      by (metis prod.collapse rtranclp_trans)
  qed
  from this [OF assms(6)] that show thesis by auto
qed


section \<open>The threads go on\<close>

text \<open>
  Nobody is stuck: a thread inside a section can do its next operation, and when nobody is inside
  one, the leaves are free. This needs that the sections themselves do not fail.
\<close>

lemma runOps_prefix: "runOps (fs @ gs) l s = Inr r \<Longrightarrow> \<exists>l1 s1. runOps fs l s = Inr (l1, s1) \<and> runOps gs l1 s1 = Inr r"
proof (induction fs arbitrary: l s)
  case (Cons f fs)
  then obtain l1 s1 where "f l s = Inr (l1, s1)" "runOps (fs @ gs) l1 s1 = Inr r" by (auto simp: bindR_Inr_iff)
  with Cons.IH [OF this(2)] show ?case by simp
qed simp

lemma leaf_step_inside:
  assumes t: "tracks R l ts S us" and i: "i < length ts" "ts ! i = Thread s (Inside rest) (c # cs)"
    and run: "\<And>s. us ! i = Thread s Outside (c # cs) \<Longrightarrow> \<exists>r. runSection c S s = Inr r"
  shows "\<exists>y. leaf_step (l, ts) y"
proof -
  note d = tracksD [OF t]
  let ?p = "sec_leaf c"
  have ok: "section_ok R c" using d(8) [OF i(1)] i(2) by simp
  then have p: "is_path (level R) ?p" by (simp add: section_ok_def)
  obtain fs s0 S1 Sp where b: "sec_ops c = fs @ rest" "us ! i = Thread s0 Outside (c # cs)" "lockAt ?p S = Inr S1"
    "runOps fs S1 (sec_before c s0) = Inr (Sp, s)" "same_tables Sp R" "leafAt ?p l = leafAt ?p Sp"
    "semaphoreEnabled (leafAt ?p l) \<noteq> 0" "semaphore (leafAt ?p l) = Some 0"
    using follows_inside [OF d(2,3) d(5) [OF i(1), unfolded i(2)] ok] by metis
  show ?thesis
  proof (cases rest)
    case Nil
    have "\<exists>l'. unlockAt ?p l = Inr l'" using b(7,8) by (simp add: unlockAt_def postSemaphoreLeaf_def)
    with i Nil leaf_step.leave [of i ts s c cs l] show ?thesis by blast
  next
    case (Cons f gs)
    from run [OF b(2)] obtain r where "runOps (sec_ops c) S1 (sec_before c s0) = Inr r" using b(3) by (auto simp: runSection_def bindR_Inr_iff)
    with b(1,4) Cons obtain S2 s2 where f: "f Sp s = Inr (S2, s2)" by (auto dest!: runOps_prefix simp: bindR_Inr_iff)
    have "on_leaf R ?p (\<lambda>l. f l s)" using ok b(1) Cons by (auto simp: section_ok_def)
    from on_leafD(4) [OF this b(5) f p d(1) b(6)] i Cons leaf_step.act [of i ts s f gs c cs l] show ?thesis by blast
  qed
qed

lemma leaf_step_progress:
  assumes t: "tracks R l ts S us" and some: "\<exists>t \<in> set ts. th_phase t \<noteq> Outside \<or> th_program t \<noteq> []"
    and run: "\<And>i s c cs. i < length us \<Longrightarrow> us ! i = Thread s Outside (c # cs) \<Longrightarrow> \<exists>r. runSection c S s = Inr r"
  shows "\<exists>y. leaf_step (l, ts) y"
proof (cases "\<exists>i < length ts. \<exists>rest. th_phase (ts ! i) = Inside rest")
  case True
  note d = tracksD [OF t]
  from True obtain i rest where i: "i < length ts" "th_phase (ts ! i) = Inside rest" by auto
  with d(5) [OF i(1)] obtain s c cs where "ts ! i = Thread s (Inside rest) (c # cs)"
    by (cases "ts ! i") (auto simp: follows_def)
  from leaf_step_inside [OF t i(1) this] run i(1) d(4) show ?thesis by simp
next
  case False
  note d = tracksD [OF t]
  from some obtain i where i: "i < length ts" "th_phase (ts ! i) \<noteq> Outside \<or> th_program (ts ! i) \<noteq> []"
    by (auto simp: in_set_conv_nth)
  show ?thesis
  proof (cases "th_phase (ts ! i)")
    case Outside
    with i(2) obtain s c cs where "ts ! i = Thread s Outside (c # cs)" by (cases "ts ! i"; cases "th_program (ts ! i)") auto
    with i(1) leaf_step.pass [of i ts s c cs l] leaf_step.start [of i ts s c cs l] show ?thesis by blast
  next
    case Waiting
    with d(5) [OF i(1)] obtain s c cs where c: "ts ! i = Thread s Waiting (c # cs)"
      by (cases "ts ! i") (auto simp: follows_def)
    let ?p = "sec_leaf c"
    have p: "is_path (level R) ?p" using d(8) [OF i(1)] c by (simp add: section_ok_def)
    have "leafAt ?p l = leafAt ?p S" by (rule d(7) [OF p]) (use False in \<open>auto simp: in_leaf_def\<close>)
    moreover have "semaphoreEnabled (leafAt ?p S) \<noteq> 0" "semaphore (leafAt ?p S) = Some (Suc 0)"
      using d(3) p same_tables_level [OF d(2)] by (simp_all add: unlocked_def)
    ultimately have "\<exists>l'. lockAt ?p l = Inr l'" using lockAt_ok(1) [OF d(1) p] by simp
    with i(1) c leaf_step.enter [of i ts s c cs l] show ?thesis by blast
  qed (use i(1) False in blast)
qed

section \<open>The threads come to an end\<close>

text \<open>The steps a thread has left at most.\<close>

definition sections_work :: "('a, 's) leaf_section list \<Rightarrow> nat" where
  "sections_work cs = sum_list (map (\<lambda>c. length (sec_ops c) + 3) cs)"

definition thread_work :: "('a, 's) leaf_thread \<Rightarrow> nat" where
  "thread_work t = (case th_phase t of Outside \<Rightarrow> sections_work (th_program t)
     | Waiting \<Rightarrow> sections_work (th_program t) - 1
     | Inside fs \<Rightarrow> length fs + 1 + sections_work (tl (th_program t)))"

definition threads_work :: "('a, 's) leaf_thread list \<Rightarrow> nat" where
  "threads_work ts = sum_list (map thread_work ts)"

lemma threads_work_update:
  assumes "i < length ts" "thread_work t < thread_work (ts ! i)"
  shows "threads_work (ts[i := t]) < threads_work ts"
proof -
  have "ts = take i ts @ ts ! i # drop (Suc i) ts" by (rule id_take_nth_drop [OF assms(1)])
  moreover have "ts[i := t] = take i ts @ t # drop (Suc i) ts" by (rule upd_conv_take_nth_drop [OF assms(1)])
  moreover have "threads_work (xs @ t # ys) < threads_work (xs @ ts ! i # ys)" for xs ys
    using assms(2) by (simp add: threads_work_def)
  ultimately show ?thesis by metis
qed

lemma leaf_step_work: "leaf_step x y \<Longrightarrow> threads_work (snd y) < threads_work (snd x)"
  by (induction rule: leaf_step.induct)
    (simp_all add: threads_work_update thread_work_def sections_work_def)

lemma leaf_steps_work: "(leaf_step ^^ k) x y \<Longrightarrow> k + threads_work (snd y) \<le> threads_work (snd x)"
proof (induction k arbitrary: y)
  case (Suc k)
  then obtain z where z: "(leaf_step ^^ k) x z" "leaf_step z y" by auto
  from Suc.IH [OF z(1)] leaf_step_work [OF z(2)] show ?case by linarith
qed simp

section \<open>Operations on the leaf of a hash\<close>

text \<open>The operation does to a list with the leaf of h locked what it does to the list.\<close>

definition lock_blind :: "bytes \<Rightarrow> ('a hlist \<Rightarrow> ('a hlist \<times> 'r) res) \<Rightarrow> bool" where
  "lock_blind h f \<longleftrightarrow> (\<forall>l l1 l' r. lockLeaf l h = Inr l1 \<longrightarrow> f l = Inr (l', r) \<longrightarrow>
     (\<exists>l1'. f l1 = Inr (l1', r) \<and> lockLeaf l' h = Inr l1'))"

definition leaf_op :: "'a hlist \<Rightarrow> bytes \<Rightarrow> ('a hlist \<Rightarrow> ('a hlist \<times> 'r) res) \<Rightarrow> bool" where
  "leaf_op S h f \<longleftrightarrow> on_leaf S (leafPath S h) f \<and> keeps_lock S (leafPath S h) f \<and> keeps_items S (leafPath S h) f \<and> lock_blind h f"

lemma lock_blind_bind:
  assumes "lock_blind h f" "\<And>r. lock_blind h (g r)"
  shows "lock_blind h (\<lambda>l. bindR (f l) (\<lambda>(l1, r). g r l1))"
  using assms unfolding lock_blind_def by (clarsimp simp: bindR_Inr_iff) metis

lemma leaf_op_bind:
  "leaf_op S h f \<Longrightarrow> (\<And>r. leaf_op S h (g r)) \<Longrightarrow> leaf_op S h (\<lambda>l. bindR (f l) (\<lambda>(l1, r). g r l1))"
  unfolding leaf_op_def
  by (intro conjI on_leaf_bind keeps_lock_bind keeps_items_bind lock_blind_bind) (simp_all add: leafPath_is_path)

lemma leaf_op_return: "leaf_op S h (\<lambda>l. Inr (l, r))" "leaf_op S h (\<lambda>l. Inl e)"
  by (auto simp: leaf_op_def lock_blind_def intro!: on_leaf_pure)

lemma leaf_op_value: "(\<And>v. leaf_op S h (g v)) \<Longrightarrow> leaf_op S h (\<lambda>l. bindR x (\<lambda>v. g v l))"
  by (cases x) (auto intro: leaf_op_return)

lemma leaf_op_option:
  "leaf_op S h f \<Longrightarrow> (\<And>x. leaf_op S h (g x)) \<Longrightarrow> leaf_op S h (\<lambda>l. case v of None \<Rightarrow> f l | Some x \<Rightarrow> g x l)"
  by (cases v) auto

lemma leaf_op_prod: "(\<And>a b. leaf_op S h (g a b)) \<Longrightarrow> leaf_op S h (\<lambda>l. case v of (a, b) \<Rightarrow> g a b l)"
  by (cases v) auto

lemma leaf_op_if: "leaf_op S h f \<Longrightarrow> leaf_op S h g \<Longrightarrow> leaf_op S h (\<lambda>l. if b then f l else g l)"
  by (cases b) auto

definition getItem :: "'a hlist \<Rightarrow> bytes \<Rightarrow> ('a hlist \<times> 'a item option) res" where
  "getItem l h = bindR (getHash l h) (\<lambda>x. Inr (l, x))"

definition setData :: "'a hlist \<Rightarrow> bytes \<Rightarrow> 'a option \<Rightarrow> ('a hlist \<times> unit) res" where
  "setData l h v = bindR (putData l h v) (\<lambda>m. Inr (m, ()))"

lemma leaf_op_list:
  assumes "length h = hashLength S" "level S \<le> hashLength S"
  shows "leaf_op S h (\<lambda>l. setHash l h)" "leaf_op S h (\<lambda>l. getItem l h)" "leaf_op S h (\<lambda>l. setData l h v)"
proof -
  have "lock_blind h (\<lambda>l. setHash l h)" using locked_setHash by (fastforce simp: lock_blind_def)
  then show "leaf_op S h (\<lambda>l. setHash l h)" using setHash_on_leaf [OF assms] by (simp add: leaf_op_def)
  have "lock_blind h (\<lambda>l. getItem l h)" using locked_getHash by (fastforce simp: lock_blind_def getItem_def bindR_Inr_iff)
  then show "leaf_op S h (\<lambda>l. getItem l h)" using getHash_on_leaf [OF assms] by (simp add: leaf_op_def getItem_def)
  have "lock_blind h (\<lambda>l. setData l h v)" using locked_putData by (fastforce simp: lock_blind_def setData_def bindR_Inr_iff)
  then show "leaf_op S h (\<lambda>l. setData l h v)" using putData_on_leaf [OF assms] by (simp add: leaf_op_def setData_def)
qed

text \<open>A section of such operations does what they do without the wait and the post.\<close>

lemma lockAt_lockLeaf:
  assumes "same_tables l S" "length h = hashLength S" "level S \<le> hashLength S"
  shows "lockAt (leafPath S h) l = lockLeaf l h" "unlockAt (leafPath S h) l = unlockLeaf l h"
  using leaf_of_hash [OF assms] by (simp_all add: lockAt_def unlockAt_def lockLeaf_def unlockLeaf_def)

lemma runOps_blind:
  assumes "\<forall>f \<in> set fs. \<forall>s. lock_blind h (\<lambda>l. f l s)" "lockLeaf l h = Inr l1" "runOps fs l s = Inr (l', s')"
  shows "\<exists>l1'. runOps fs l1 s = Inr (l1', s') \<and> lockLeaf l' h = Inr l1'"
  using assms
proof (induction fs arbitrary: l l1 s)
  case (Cons f fs)
  from Cons.prems(3) obtain m t where m: "f l s = Inr (m, t)" "runOps fs m t = Inr (l', s')" by (auto simp: bindR_Inr_iff)
  have "lock_blind h (\<lambda>l. f l s)" using Cons.prems(1) by simp
  with Cons.prems(2) m(1) obtain m1 where m1: "f l1 s = Inr (m1, t)" "lockLeaf m h = Inr m1"
    unfolding lock_blind_def by blast
  from Cons.IH [OF _ m1(2) m(2)] Cons.prems(1) m1(1) show ?case by simp
qed simp

lemma runSection_plain:
  assumes "same_tables l S" "length h = hashLength S" "level S \<le> hashLength S" "lockLeaf l h = Inr l1"
    "\<forall>f \<in> set fs. \<forall>s. leaf_op S h (\<lambda>l. f l s)" "runOps fs l s = Inr (l', s')"
  shows "runSection (Section id (leafPath S h) False fs) l s = Inr (l', s') \<and> same_tables l' S"
proof -
  have p: "is_path (level S) (leafPath S h)" by simp
  have "\<forall>f \<in> set fs. \<forall>s. lock_blind h (\<lambda>l. f l s)" using assms(5) by (simp add: leaf_op_def)
  from runOps_blind [OF this assms(4,6)] obtain l1' where r: "runOps fs l1 s = Inr (l1', s')" "lockLeaf l' h = Inr l1'" by blast
  have ol: "on_leaf S (leafPath S h) (\<lambda>l. runOps fs l s)"
    using runOps_on_leaf [OF p, of fs] assms(5) by (simp add: leaf_op_def)
  have lk: "lockAt (leafPath S h) l = Inr l1" using lockAt_lockLeaf(1) [OF assms(1-3)] assms(4) by simp
  have t: "same_tables l' S" by (rule on_leafD(3) [OF ol assms(1,6) p])
  have lk': "lockAt (leafPath S h) l' = Inr l1'" using lockAt_lockLeaf(1) [OF t assms(2,3)] r(2) by simp
  have t1: "same_tables l1' S"
  proof -
    obtain leaf where w: "waitSemaphoreLeaf (leafAt (leafPath S h) l') = Inr leaf" "l1' = updAt (leafPath S h) (\<lambda>_. leaf) l'"
      using lk' by (auto simp: lockAt_def bindR_Inr_iff)
    have "same_params (leafAt (leafPath S h) l') leaf" using wait_keeps(1) [OF w(1)] by (simp add: keeps_params_def same_params_def)
    from same_tables_upd [OF t p this] w(2) show ?thesis by simp
  qed
  have "unlockAt (leafPath S h) l1' = Inr l'" using lockAt_lockLeaf(2) [OF t1 assms(2,3)] locked_unlock [OF r(2)] by simp
  with lk r(1) t show ?thesis by (simp add: runSection_def)
qed

lemma leaf_section_ok:
  "\<forall>f \<in> set fs. \<forall>s. leaf_op S h (\<lambda>l. f l s) \<Longrightarrow> section_ok S (Section id (leafPath S h) False fs)"
  by (simp add: section_ok_def leaf_op_def)

end
