(* ===== verification/Leaf_Pass.thy ===== *)
theory Leaf_Pass
  imports Leaf_Threads
begin

text \<open>
  mapList leaf by leaf (list.c): a pass over a list is the visits of its leaves one after the other,
  in the order of the tables, each under the semaphore of its leaf. So a thread that runs mapList on
  a list it shares with others is a thread of Leaf\_Threads with a section for each leaf.
\<close>

section \<open>A pass is the visits of the leaves\<close>

text \<open>The paths of the leaves below a table of the given level, in the order of mapList.\<close>

fun leafPaths :: "nat \<Rightarrow> nat list list" where
  "leafPaths 0 = [[]]"
| "leafPaths (Suc n) = concat (map (\<lambda>i. map ((#) i) (leafPaths n)) [0..<LIST_BYTE_SIZE])"

text \<open>mapList at the leaf of a path, where pre is the path of the list itself.\<close>

definition mapLeaf :: "('a, 's) callback \<Rightarrow> nat list \<Rightarrow> nat list \<Rightarrow> ('a, 's) op" where
  "mapLeaf cb pre p l s = bindR (mapList cb (pre @ p) s (leafAt p l)) (\<lambda>(leaf, s', _). Inr (updAt p (\<lambda>_. leaf) l, s'))"

fun mapLeaves :: "('a, 's) callback \<Rightarrow> nat list \<Rightarrow> nat list list \<Rightarrow> ('a, 's) op" where
  "mapLeaves cb pre [] l s = Inr (l, s)"
| "mapLeaves cb pre (p # ps) l s = bindR (mapLeaf cb pre p l s) (\<lambda>(l1, s1). mapLeaves cb pre ps l1 s1)"

definition goes_on :: "('a, 's) callback \<Rightarrow> bool" where
  "goes_on cb \<longleftrightarrow> (\<forall>p k d s e s' b. cb p k d s = Inr (e, s', b) \<longrightarrow> \<not> b)"

lemma set_leafPaths: "p \<in> set (leafPaths n) \<longleftrightarrow> is_path n p"
proof (induction n arbitrary: p)
  case (Suc n)
  have "p \<in> set (leafPaths (Suc n)) \<longleftrightarrow> (\<exists>i \<in> {0..<LIST_BYTE_SIZE}. \<exists>q \<in> set (leafPaths n). p = i # q)" by auto
  with Suc.IH show ?case by (auto simp: is_path_Suc)
qed simp

lemma mapLeaves_append:
  "mapLeaves cb pre (ps @ qs) l s = bindR (mapLeaves cb pre ps l s) (\<lambda>(l1, s1). mapLeaves cb pre qs l1 s1)"
proof (induction ps arbitrary: l s)
  case (Cons p ps)
  then show ?case by (cases "mapLeaf cb pre p l s") auto
qed simp

lemma mapItems_goes_on: "goes_on cb \<Longrightarrow> mapItems cb p s xs = Inr (ys, s', b) \<Longrightarrow> \<not> b"
proof (induction xs arbitrary: s ys s' b)
  case (Cons x xs)
  obtain k d where x: "x = (k, d)" by (cases x)
  with Cons.prems(2) obtain e s1 b1 where e: "cb p k d s = Inr (e, s1, b1)" by (auto simp: bindR_Inr_iff)
  with Cons.prems(1) have "\<not> b1" unfolding goes_on_def by blast
  with e x Cons.prems Cons.IH show ?case by (auto simp: bindR_Inr_iff)
qed simp

lemma mapSubLists_goes_on:
  "(\<And>i u c c' u'. c \<in> set cs \<Longrightarrow> f i u c \<noteq> Inr (c', u', True)) \<Longrightarrow> mapSubLists f i s cs = Inr (ds, s', b) \<Longrightarrow> \<not> b"
proof (induction cs arbitrary: i s ds s' b)
  case (Cons c cs)
  from Cons.prems(2) obtain c1 u1 b1 where c: "f i s c = Inr (c1, u1, b1)" by (auto simp: bindR_Inr_iff)
  then have "\<not> b1" using Cons.prems(1) by (cases b1) auto
  with c Cons.prems(2) obtain ds1 where "mapSubLists f (Suc i) u1 cs = Inr (ds1, s', b)" by (auto simp: bindR_Inr_iff)
  from Cons.IH [OF _ this] Cons.prems(1) show ?case by simp
qed simp

lemma mapList_goes_on: "same_spine n l S \<Longrightarrow> goes_on cb \<Longrightarrow> mapList cb p s l = Inr (l', s', b) \<Longrightarrow> \<not> b"
proof (induction n arbitrary: l S p s l' s' b)
  case 0
  then show ?case by (auto simp: mapList.simps [of cb p s l] bindR_Inr_iff split: if_splits dest: mapItems_goes_on)
next
  case (Suc n)
  have lv: "level l > 0" using same_spine_level [OF Suc.prems(1)] by simp
  have sub: "\<exists>T. same_spine n c T" if "c \<in> set (subLists l)" for c
    using Suc.prems(1) that by (auto simp: in_set_conv_nth)
  from Suc.prems(3) lv obtain ds where "mapSubLists (\<lambda>i u c. mapList cb (p @ [i]) u c) 0 s (subLists l) = Inr (ds, s', b)"
    by (auto simp: mapList.simps [of cb p s l] bindR_Inr_iff)
  then show ?case
    by (rule mapSubLists_goes_on [rotated]) (use sub Suc.IH Suc.prems(2) in blast)
qed

text \<open>The leaves below one entry of a table.\<close>

lemma mapLeaves_entry:
  assumes "i < length (subLists l)"
  shows "mapLeaves cb pre (map ((#) i) ps) l s =
    bindR (mapLeaves cb (pre @ [i]) ps (subLists l ! i) s) (\<lambda>(c, s'). Inr (set_subLists ((subLists l)[i := c]) l, s'))"
  using assms
proof (induction ps arbitrary: l s)
  case (Cons p ps)
  show ?case
  proof (cases "mapLeaf cb (pre @ [i]) p (subLists l ! i) s")
    case (Inl e)
    then have "mapLeaf cb pre (i # p) l s = Inl e"
      by (cases "mapList cb (pre @ i # p) s (leafAt p (subLists l ! i))") (auto simp: mapLeaf_def)
    with Inl show ?thesis by simp
  next
    case (Inr x)
    obtain c s1 where c: "mapLeaf cb (pre @ [i]) p (subLists l ! i) s = Inr (c, s1)" using Inr by (cases x) simp
    then have "mapLeaf cb pre (i # p) l s = Inr (set_subLists ((subLists l)[i := c]) l, s1)"
      by (auto simp: mapLeaf_def bindR_Inr_iff)
    with c Cons.IH [of "set_subLists ((subLists l)[i := c]) l" s1] Cons.prems show ?thesis by simp
  qed
qed simp

text \<open>The entries of a table from the one at i on.\<close>

lemma mapLeaves_table:
  assumes go: "goes_on cb"
    and sub: "\<And>i s c. c \<in> set rest \<Longrightarrow> bindR (mapList cb (pre @ [i]) s c) (\<lambda>(c', s', _). Inr (c', s')) = mapLeaves cb (pre @ [i]) ps c s"
      "\<And>i s c c' s'. c \<in> set rest \<Longrightarrow> mapList cb (pre @ [i]) s c \<noteq> Inr (c', s', True)"
    and l: "subLists l = start @ rest" "i = length start"
  shows "bindR (mapSubLists (\<lambda>i u c. mapList cb (pre @ [i]) u c) i s rest) (\<lambda>(cs, s', _). Inr (set_subLists (start @ cs) l, s')) =
    mapLeaves cb pre (concat (map (\<lambda>i. map ((#) i) ps) [i..<i + length rest])) l s"
  using sub l
proof (induction rest arbitrary: start i l s)
  case Nil
  then have "set_subLists start l = l" by (metis append_Nil2 set_subLists_subLists)
  then show ?case by simp
next
  case (Cons c rest)
  have up: "[i..<i + length (c # rest)] = i # [Suc i..<Suc i + length rest]" by (simp add: upt_rec)
  have i: "i < length (subLists l)" "subLists l ! i = c" using Cons.prems(3,4) by simp_all
  have e: "mapLeaves cb (pre @ [i]) ps c s = bindR (mapList cb (pre @ [i]) s c) (\<lambda>(c', s', _). Inr (c', s'))"
    by (rule Cons.prems(1) [symmetric]) simp
  show ?case
  proof (cases "mapList cb (pre @ [i]) s c")
    case (Inl e)
    with e i show ?thesis unfolding up by (simp add: mapLeaves_append mapLeaves_entry)
  next
    case (Inr x)
    obtain c1 s1 b where c1: "mapList cb (pre @ [i]) s c = Inr (c1, s1, b)" using Inr by (cases x) simp
    then have b: "\<not> b" using Cons.prems(2) [of c] by (cases b) auto
    let ?l = "set_subLists (start @ c1 # rest) l"
    have "(subLists l)[i := c1] = start @ c1 # rest" using Cons.prems(3,4) by simp
    then have step: "mapLeaves cb pre (map ((#) i) ps) l s = Inr (?l, s1)"
      using e c1 i by (simp add: mapLeaves_entry)
    have "bindR (mapSubLists (\<lambda>i u c. mapList cb (pre @ [i]) u c) (Suc i) s1 rest)
        (\<lambda>(cs, s', _). Inr (set_subLists ((start @ [c1]) @ cs) ?l, s')) =
      mapLeaves cb pre (concat (map (\<lambda>i. map ((#) i) ps) [Suc i..<Suc i + length rest])) ?l s1"
      by (rule Cons.IH) (use Cons.prems in simp_all)
    then show ?thesis unfolding up using c1 b step
      by (cases "mapSubLists (\<lambda>i u c. mapList cb (pre @ [i]) u c) (Suc i) s1 rest") (auto simp: mapLeaves_append)
  qed
qed

lemma mapList_leaves:
  assumes "same_spine n l S" "goes_on cb"
  shows "bindR (mapList cb pre s l) (\<lambda>(l', s', _). Inr (l', s')) = mapLeaves cb pre (leafPaths n) l s"
  using assms(1)
proof (induction n arbitrary: l S pre s)
  case 0
  then show ?case by (cases "mapList cb pre s l") (auto simp: mapLeaf_def)
next
  case (Suc n)
  have l: "level l > 0" "length (subLists l) = LIST_BYTE_SIZE"
    using Suc.prems same_spine_level [OF Suc.prems] by simp_all
  have sub: "\<exists>T. same_spine n c T" if "c \<in> set (subLists l)" for c
    using Suc.prems that by (auto simp: in_set_conv_nth)
  have "bindR (mapSubLists (\<lambda>i u c. mapList cb (pre @ [i]) u c) 0 s (subLists l)) (\<lambda>(cs, s', _). Inr (set_subLists ([] @ cs) l, s')) =
    mapLeaves cb pre (concat (map (\<lambda>i. map ((#) i) (leafPaths n)) [0..<0 + length (subLists l)])) l s"
  proof (rule mapLeaves_table [OF assms(2)])
    show "bindR (mapList cb (pre @ [i]) u c) (\<lambda>(c', s', _). Inr (c', s')) = mapLeaves cb (pre @ [i]) (leafPaths n) c u"
      if "c \<in> set (subLists l)" for i u c using Suc.IH sub [OF that] by blast
    show "mapList cb (pre @ [i]) u c \<noteq> Inr (c', s', True)" if "c \<in> set (subLists l)" for i u c c' s'
      using mapList_goes_on [OF _ assms(2)] sub [OF that] by blast
  qed simp_all
  then show ?case using l
    by (cases "mapSubLists (\<lambda>i u c. mapList cb (pre @ [i]) u c) 0 s (subLists l)")
      (auto simp: mapList.simps [of cb pre s l])
qed

section \<open>A visit is a section\<close>

text \<open>What mapList does at a leaf between the wait and the post.\<close>

definition visitItems :: "('a, 's) callback \<Rightarrow> nat list \<Rightarrow> ('a, 's) op" where
  "visitItems cb p l s = bindR (mapItems cb p s (leafItems (leafAt p l))) (\<lambda>(xs, s', _). Inr (updAt p (set_items xs) l, s'))"

lemma visitItems_on_leaf:
  assumes p: "is_path (level S) p"
  shows "on_leaf S p (\<lambda>l. visitItems cb p l s)" "keeps_lock S p (\<lambda>l. visitItems cb p l s)"
proof -
  let ?F = "\<lambda>leaf. bindR (mapItems cb p s (leafItems leaf)) (\<lambda>(xs, s', _). Inr (set_items xs leaf, s'))"
  have F: "visitItems cb p l s = bindR (?F (leafAt p l)) (\<lambda>(leaf, r). Inr (updAt p (\<lambda>_. leaf) l, r))" for l
    by (cases "mapItems cb p s (leafItems (leafAt p l))")
      (auto simp: visitItems_def updAt_cong [of "set_items _" _ _ "\<lambda>_. set_items _ _"])
  show "on_leaf S p (\<lambda>l. visitItems cb p l s)"
    by (rule on_leaf_of [OF p F]) (auto simp: bindR_Inr_iff same_params_def)
  show "keeps_lock S p (\<lambda>l. visitItems cb p l s)"
    by (rule keeps_lock_of [OF p F]) (auto simp: bindR_Inr_iff)
qed

text \<open>A visit of a free leaf is the wait, the items, the post.\<close>

lemma mapLeaf_free:
  assumes "same_tables l S" "is_path (level S) p" "leaves_free (leafAt p l)"
  shows "mapLeaf cb [] p l s = visitItems cb p l s"
proof -
  have lv: "level (leafAt p l) = 0" by (rule leafAt_level [OF same_tables_spine [OF assms(1)] assms(2)])
  have same: "updAt p (\<lambda>_. leafAt p l) l = l" by (rule updAt_same [OF same_tables_spine [OF assms(1)] assms(2)]) simp
  have set: "updAt p (set_items xs) l = updAt p (\<lambda>_. set_items xs (leafAt p l)) l" for xs by (rule updAt_cong) simp
  show ?thesis
  proof (cases "leafItems (leafAt p l) = []")
    case True
    then have "set_items [] (leafAt p l) = leafAt p l" by (cases "leafAt p l") simp
    with True lv same set [of "[]"] show ?thesis by (simp add: mapLeaf_def visitItems_def mapList.simps [of cb p s "leafAt p l"])
  next
    case False
    obtain l1 where "waitSemaphoreLeaf (leafAt p l) = Inr l1" "leafItems l1 = leafItems (leafAt p l)"
      "\<And>xs. postSemaphoreLeaf (set_items xs l1) = Inr (set_items xs (leafAt p l))" by (rule wait_post [OF lv assms(3)]) (rule that)
    with False lv show ?thesis
      by (cases "mapItems cb p s (leafItems (leafAt p l))")
        (auto simp: mapLeaf_def visitItems_def mapList.simps [of cb p s "leafAt p l"] set)
  qed
qed

lemma unlocked_leaf: "unlocked S \<Longrightarrow> same_tables S R \<Longrightarrow> is_path (level R) p \<Longrightarrow>
  semaphoreEnabled (leafAt p S) \<noteq> 0 \<and> semaphore (leafAt p S) = Some (Suc 0) \<and> leaves_free (leafAt p S)"
  using leafAt_level [OF same_tables_spine, of S R p] same_tables_level [of S R]
  by (auto simp: unlocked_def leaves_free_leaf)

lemma visit_section:
  assumes "same_tables S R" "is_path (level R) p" "unlocked S" "visitItems cb p S s = Inr (S', s')"
  obtains S1 S2 where "lockAt p S = Inr S1" "visitItems cb p S1 s = Inr (S2, s')" "unlockAt p S2 = Inr S'"
    "same_tables S1 R" "same_tables S' R"
proof -
  note u = unlocked_leaf [OF assms(3,1,2)]
  let ?leaf = "leafAt p S" and ?S1 = "updAt p (\<lambda>_. set_semaphore (Some 0) (leafAt p S)) S"
  have sem: "semaphoreEnabled ?leaf \<noteq> 0" "semaphore ?leaf = Some (Suc 0)" using u by simp_all
  note lk = lockAt_ok [OF assms(1,2) sem]
  obtain xs b where xs: "mapItems cb p s (leafItems ?leaf) = Inr (xs, s', b)" "S' = updAt p (set_items xs) S"
    using assms(4) by (auto simp: visitItems_def bindR_Inr_iff)
  let ?S2 = "updAt p (set_items xs) ?S1"
  have two: "visitItems cb p ?S1 s = Inr (?S2, s')" using xs(1) lk(3) by (simp add: visitItems_def)
  have leaf: "leafAt p ?S2 = set_items xs (set_semaphore (Some 0) ?leaf)"
    using leafAt_updAt [OF same_tables_spine [OF lk(2)] assms(2,2)] lk(3) by simp
  have "set_semaphore (Some (Suc 0)) (set_items xs (set_semaphore (Some 0) ?leaf)) = set_items xs ?leaf"
    using sem(2) by (cases ?leaf) simp
  then have post: "unlockAt p ?S2 = Inr (updAt p (\<lambda>_. set_items xs ?leaf) ?S2)"
    using leaf sem(1) by (simp add: unlockAt_def postSemaphoreLeaf_def)
  have "updAt p (\<lambda>_. set_items xs ?leaf) ?S2 = updAt p (\<lambda>_. set_items xs ?leaf) S"
    by (simp add: updAt_updAt [OF same_tables_spine [OF lk(2)] assms(2)] updAt_updAt [OF same_tables_spine [OF assms(1)] assms(2)])
  also have "\<dots> = S'" unfolding xs(2) by (rule updAt_cong) simp
  finally have "unlockAt p ?S2 = Inr S'" using post by simp
  moreover have "same_tables S' R"
    using on_leafD(3) [OF visitItems_on_leaf(1) [OF assms(2)] assms(1,4,2)] .
  ultimately show thesis by (rule that [OF lk(1) two _ lk(2)])
qed

section \<open>What a visit does to the list\<close>

text \<open>Every leaf is the leaf of a hash.\<close>

lemma path_of_hash:
  assumes "is_path (level S) p" "level S \<le> hashLength S"
  obtains h where "length h = hashLength S" "leafPath S h = p"
proof
  let ?n = "hashLength S"
  let ?h = "map (\<lambda>k. of_nat (p ! (if endianness S = BIG_ENDIAN then ?n - 1 - k else k)) :: byte) [0..<?n]"
  show "length ?h = ?n" by simp
  have p: "length p = level S" "\<And>k. k < level S \<Longrightarrow> p ! k < 256"
    using assms(1) by (auto simp: is_path_def LIST_BYTE_SIZE_def)
  have "route (endianness S) ?n k ?h = p ! k" if k: "k < level S" for k
  proof -
    have "?n - 1 - (?n - 1 - k) = k" "?n - 1 - k < ?n" "k < ?n" using k assms(2) by simp_all
    with p(2) [OF k] show ?thesis by (simp add: route_def unat_of_nat)
  qed
  then show "leafPath S ?h = p" using p(1) by (intro nth_equalityI) (simp_all add: leafPath_def)
qed

lemma visitItems_rule:
  assumes "wf_hlist l" "leaves_free l" "is_path (level l) p"
    "callback_ok cb (leafItems (leafAt p l)) I (\<lambda>_ _ _. False)" "I s [] []"
  obtains l' s' A B xs where "visitItems cb p l s = Inr (l', s')" "wf_hlist l'" "leaves_free l'" "same_params l l'"
    "allItems l = A @ leafItems (leafAt p l) @ B" "allItems l' = A @ xs @ B" "I s' (leafItems (leafAt p l)) xs"
    "keys xs \<subseteq> keys (leafItems (leafAt p l))"
proof -
  have lv: "level l \<le> hashLength l" using assms(1) by (simp add: wf_hlist_def)
  obtain h where h: "length h = hashLength l" "leafPath l h = p" by (rule path_of_hash [OF assms(3) lv])
  note at = leaf_of_hash [OF same_tables_refl [OF assms(1)] h(1) lv, unfolded h(2)]
  from assms(1) h(1) obtain leaf A B where F: "getLeaf l h = Inr leaf" "allItems l = A @ leafItems leaf @ B"
    "sorted_wrt (<) (map fst (leafItems leaf))"
    "\<And>f xs. f leaf = set_items xs leaf \<Longrightarrow> sorted_wrt (<) (map fst xs) \<Longrightarrow> keys xs \<subseteq> insert h (keys (leafItems leaf)) \<Longrightarrow>
       \<exists>l'. updLeaf l h f = Inr l' \<and> wf_hlist l' \<and> same_params l l' \<and> allItems l' = A @ xs @ B"
    by (rule updLeaf_rule) (rule that)
  have leaf: "leaf = leafAt p l" using F(1) at(1) by simp
  from mapItems_rule [OF assms(4) _ assms(5), of "leafItems leaf" "[]" p] obtain xs s' b where
    m: "mapItems cb p s (leafItems leaf) = Inr (xs, s', b)" "sorted_wrt (<) (map fst xs)" "keys xs \<subseteq> keys (leafItems leaf)"
    "I s' (leafItems leaf) xs" using F(3) unfolding leaf by (fastforce simp: segment_post_def split: if_splits)
  from F(4) [of "set_items xs" xs] m(2,3) obtain l' where l': "updLeaf l h (set_items xs) = Inr l'" "wf_hlist l'" "same_params l l'"
    "allItems l' = A @ xs @ B" by blast
  have "leaves_free l'" using l'(1) assms(2) by (auto simp: updLeaf_def elim!: updLeafFrom_leaves_free)
  moreover have "visitItems cb p l s = Inr (l', s')" using m(1) l'(1) at(2) leaf by (simp add: visitItems_def)
  ultimately show thesis using that l' F(2) m(3,4) leaf by simp
qed

end
