(* ===== verification/Announce_Threads.thy ===== *)
theory Announce_Threads
  imports Leaf_Pass Udp_Worker Data_Garbage
begin

text \<open>
  The workers and the collector at the same torrents: an announce (thread\_client\_tcp.c,
  thread\_client\_udp.c) and an entry of a scrape (data.c) between the wait for the leaf of their
  torrent and its post, read by read and write by write, and the visits of the leaves by the
  collector (data\_garbage.c), interleaved with each other. An item pointer is read through the list
  each time it is used. The counters of stats.c are atomic; what a worker adds to them is kept with
  the worker.
\<close>

section \<open>The operations between the wait and the post\<close>

text \<open>A thread's own state: its counters, the statistics of its pass when it is the collector, whether
torrent is not NULL, and its answers.\<close>

record job_state =
  v_stats :: stats
  v_garbage :: garbageStats
  v_torrent :: bool
  v_answers :: "bytes list"

type_synonym torrent_op = "(torrentDataL, job_state) op"

definition insertTorrent :: "bytes \<Rightarrow> torrent_op" where
  "insertTorrent h l s = bindR (setHash l h) (\<lambda>(l1, d). Inr (l1, s\<lparr>v_torrent := True\<rparr>))"

definition fillTorrent :: "bytes \<Rightarrow> torrent_op" where
  "fillTorrent h l s =
     bindR (getItem l h) (\<lambda>(l1, torrent).
       case torrent of
         None \<Rightarrow> Inl Null_deref
       | Some (k, d) \<Rightarrow>
           (case d of
              None \<Rightarrow>
                bindR (initList 0 0 URI_PARAM_VALUE_LENGTH LIST_SEMAPHORE_DISABLE BIG_ENDIAN) (\<lambda>pl.
                bindR (setData l1 h (Some (torrentDataL0\<lparr>t_peerList := Some pl\<rparr>))) (\<lambda>(l2, _). Inr (l2, s)))
            | Some t \<Rightarrow> Inr (l1, s)))"

definition updatePeer :: "int \<Rightarrow> query \<Rightarrow> byte \<Rightarrow> torrent_op" where
  "updatePeer now q protocol l s =
     bindR (getItem l (q_info_hash q)) (\<lambda>(l1, torrent).
       case torrent of
         None \<Rightarrow> Inl Null_deref
       | Some (k, d) \<Rightarrow>
           (case d of
              None \<Rightarrow> Inl Null_deref
            | Some t \<Rightarrow>
                bindR (grownPeerList t) (\<lambda>pl.
                bindR (setHash pl (q_peer_id q)) (\<lambda>(pl1, peer).
                bindR (updatePeerStat (v_stats s) (updateDelay now (case peer of None \<Rightarrow> peerDataL0 | Some p \<Rightarrow> p))) (\<lambda>st.
                bindR (putData pl1 (q_peer_id q)
                  (Some (updatedPeer now q protocol (case peer of None \<Rightarrow> peerDataL0 | Some p \<Rightarrow> p)))) (\<lambda>pl2.
                bindR (setData l1 (q_info_hash q)
                  (Some ((changeTorrentStatsL t (case peer of None \<Rightarrow> URI_EVENT_ID_NONE | Some p \<Rightarrow> p_event p) (q_event q))
                    \<lparr>t_peerList := Some pl2\<rparr>))) (\<lambda>(l2, _). Inr (l2, s\<lparr>v_stats := st\<rparr>))))))))"

definition removePeer :: "query \<Rightarrow> torrent_op" where
  "removePeer q l s =
     bindR (getItem l (q_info_hash q)) (\<lambda>(l1, torrent).
       case torrent of
         None \<Rightarrow> Inr (l1, s\<lparr>v_torrent := False\<rparr>)
       | Some (k, d) \<Rightarrow>
           (case d of
              None \<Rightarrow> Inl Null_deref
            | Some t \<Rightarrow>
                (case t_peerList t of
                   None \<Rightarrow> Inl Null_deref
                 | Some pl \<Rightarrow>
                     bindR (getHash pl (q_peer_id q)) (\<lambda>peer.
                       case peer of
                         None \<Rightarrow> Inr (l1, s\<lparr>v_torrent := True\<rparr>)
                       | Some (pk, pd) \<Rightarrow>
                           (case pd of
                              None \<Rightarrow> Inl Null_deref
                            | Some p \<Rightarrow>
                                bindR (deleteItem pl pk) (\<lambda>pl1.
                                bindR (setData l1 (q_info_hash q)
                                  (Some ((changeTorrentStatsL t (p_event p) URI_EVENT_ID_NONE)\<lparr>t_peerList := Some pl1\<rparr>)))
                                  (\<lambda>(l2, _). Inr (l2, s\<lparr>v_torrent := True\<rparr>))))))))"

definition answered :: "bytes \<Rightarrow> job_state \<Rightarrow> job_state" where
  "answered msg s = s\<lparr>v_torrent := False, v_answers := v_answers s @ [msg]\<rparr>"

definition renderTorrent :: "(bool \<Rightarrow> bytes \<Rightarrow> bytes) \<Rightarrow> query \<Rightarrow> interval \<Rightarrow> torrent_op" where
  "renderTorrent ntop q iv l s =
     bindR (getItem l (q_info_hash q)) (\<lambda>(l1, torrent).
     bindR (renderAnnouncePublic ntop q iv (if v_torrent s then torrent else None) []) (\<lambda>msg. Inr (l1, answered msg s)))"

definition renderEntry :: "bytes \<Rightarrow> bool \<Rightarrow> torrent_op" where
  "renderEntry h udp l s =
     bindR (getItem l h) (\<lambda>(l1, torrent).
     bindR (renderScrapeTorrentL [] torrent h udp) (\<lambda>msg. Inr (l1, answered msg s)))"

text \<open>The collector: the start of a pass, and what it does between the wait and the post of a leaf.\<close>

definition startPass :: "int option \<Rightarrow> job_state \<Rightarrow> job_state" where
  "startPass begins s = (case begins of None \<Rightarrow> s
     | Some now \<Rightarrow> s\<lparr>v_garbage := garbageStats0\<lparr>g_limitTime := garbageLimit now\<rparr>\<rparr>)"

definition collectLeaf :: "nat list \<Rightarrow> torrent_op" where
  "collectLeaf p l s = bindR (visitItems runGarbageCollectorCallback p l (v_garbage s)) (\<lambda>(l1, g). Inr (l1, s\<lparr>v_garbage := g\<rparr>))"

section \<open>The jobs of a thread\<close>

text \<open>An announce, an entry of a scrape, or the visit of a leaf, which may be the first of a pass.\<close>

datatype job = Announce_job int query byte interval | Scrape_job bytes bool | Collect_job "int option" "nat list"

fun jobPath :: "torrentDataL hlist \<Rightarrow> job \<Rightarrow> nat list" where
  "jobPath ts (Announce_job now q protocol iv) = leafPath ts (q_info_hash q)"
| "jobPath ts (Scrape_job h udp) = leafPath ts h"
| "jobPath ts (Collect_job begins p) = p"

text \<open>The jobs of a pass of the collector.\<close>

definition passJobs :: "int \<Rightarrow> torrentDataL hlist \<Rightarrow> job list" where
  "passJobs now ts = (case leafPaths (level ts) of [] \<Rightarrow> []
     | p # ps \<Rightarrow> Collect_job (Some now) p # map (Collect_job None) ps)"

fun jobOps :: "(bool \<Rightarrow> bytes \<Rightarrow> bytes) \<Rightarrow> job \<Rightarrow> torrent_op list" where
  "jobOps ntop (Announce_job now q protocol iv) =
     (if q_event q = URI_EVENT_ID_STOPPED then [removePeer q, renderTorrent ntop q iv]
      else [insertTorrent (q_info_hash q), fillTorrent (q_info_hash q), updatePeer now q protocol, renderTorrent ntop q iv])"
| "jobOps ntop (Scrape_job h udp) = [renderEntry h udp]"
| "jobOps ntop (Collect_job begins p) = [collectLeaf p]"

fun jobSection :: "(bool \<Rightarrow> bytes \<Rightarrow> bytes) \<Rightarrow> torrentDataL hlist \<Rightarrow> job \<Rightarrow> (torrentDataL, job_state) leaf_section" where
  "jobSection ntop ts (Collect_job begins p) = Section (startPass begins) p True (jobOps ntop (Collect_job begins p))"
| "jobSection ntop ts j = Section id (jobPath ts j) False (jobOps ntop j)"

text \<open>The job in one step, as the threads are modelled alone.\<close>

fun runJob :: "(bool \<Rightarrow> bytes \<Rightarrow> bytes) \<Rightarrow> job \<Rightarrow> torrent_op" where
  "runJob ntop (Announce_job now q protocol iv) ts s =
     bindR (if q_event q = URI_EVENT_ID_STOPPED
            then bindR (deletePeerPublic ts q) (\<lambda>(ts', torrent). Inr (ts', torrent, v_stats s))
            else setPeerPublic now ts q protocol (v_stats s)) (\<lambda>(ts', torrent, st').
     bindR (renderAnnouncePublic ntop q iv torrent []) (\<lambda>msg. Inr (ts', answered msg (s\<lparr>v_stats := st'\<rparr>))))"
| "runJob ntop (Scrape_job h udp) ts s =
     bindR (getHash ts h) (\<lambda>torrent. bindR (renderScrapeTorrentL [] torrent h udp) (\<lambda>msg. Inr (ts, answered msg s)))"
| "runJob ntop (Collect_job begins p) ts s =
     bindR (mapLeaf runGarbageCollectorCallback [] p ts (v_garbage (startPass begins s))) (\<lambda>(ts', g). Inr (ts', s\<lparr>v_garbage := g\<rparr>))"

text \<open>A thread: the jobs it still has to do and its state.\<close>

type_synonym worker = "job list \<times> job_state"

definition jobThread :: "(bool \<Rightarrow> bytes \<Rightarrow> bytes) \<Rightarrow> torrentDataL hlist \<Rightarrow> worker \<Rightarrow> (torrentDataL, job_state) leaf_thread" where
  "jobThread ntop ts w = (case w of (jobs, s) \<Rightarrow> Thread s Outside (map (jobSection ntop ts) jobs))"

inductive job_step ::
  "(bool \<Rightarrow> bytes \<Rightarrow> bytes) \<Rightarrow> torrentDataL hlist \<times> worker list \<Rightarrow> torrentDataL hlist \<times> worker list \<Rightarrow> bool" for ntop where
  "i < length ws \<Longrightarrow> ws ! i = (j # jobs, s) \<Longrightarrow> runJob ntop j ts s = Inr (ts', s') \<Longrightarrow>
    job_step ntop (ts, ws) (ts', ws[i := (jobs, s')])"

definition job_ok :: "torrentDataL hlist \<Rightarrow> job \<Rightarrow> bool" where
  "job_ok ts j \<longleftrightarrow> (case j of Announce_job now q protocol iv \<Rightarrow> query_ok q
     | Scrape_job h udp \<Rightarrow> length h = URI_PARAM_VALUE_LENGTH | Collect_job begins p \<Rightarrow> is_path (level ts) p)"

fun is_collect :: "job \<Rightarrow> bool" where
  "is_collect (Collect_job begins p) \<longleftrightarrow> True"
| "is_collect _ \<longleftrightarrow> False"

text \<open>The jobs are well formed and one thread at most collects.\<close>

definition workers_ok :: "torrentDataL hlist \<Rightarrow> worker list \<Rightarrow> bool" where
  "workers_ok ts ws \<longleftrightarrow> (\<forall>(jobs, s) \<in> set ws. wf_stats (v_stats s) \<and> (\<forall>j \<in> set jobs. job_ok ts j)) \<and>
     (\<forall>a < length ws. \<forall>b < length ws. (\<exists>j \<in> set (fst (ws ! a)). is_collect j) \<longrightarrow> (\<exists>j \<in> set (fst (ws ! b)). is_collect j) \<longrightarrow> a = b)"

text \<open>A collector counts the peers of a torrent in 32 bits. A job adds one peer at most.\<close>

definition peers_room :: "nat \<Rightarrow> torrentDataL hlist \<Rightarrow> bool" where
  "peers_room n ts \<longleftrightarrow> n < 2 ^ 32 \<and> all_torrents (\<lambda>t. size (peersM t) + n < 2 ^ 32) ts"

definition pending :: "worker list \<Rightarrow> nat" where
  "pending ws = sum_list (map (\<lambda>w. length (fst w)) ws)"

section \<open>The operations work on the leaf of their torrent\<close>

lemma torrent_ops_leaf:
  assumes h: "length h = hashLength S" "level S \<le> hashLength S"
  shows "leaf_op S h (\<lambda>l. insertTorrent h l s)" "leaf_op S h (\<lambda>l. fillTorrent h l s)" "leaf_op S h (\<lambda>l. renderEntry h udp l s)"
  by (auto simp: insertTorrent_def fillTorrent_def renderEntry_def
      intro!: leaf_op_list [OF h] leaf_op_bind [where f = "\<lambda>l. getItem l _"] leaf_op_bind [where f = "\<lambda>l. setHash l _"]
        leaf_op_bind [where f = "\<lambda>l. setData l _ _"] leaf_op_return leaf_op_value leaf_op_option leaf_op_prod)

lemma peer_ops_leaf:
  assumes h: "length (q_info_hash q) = hashLength S" "level S \<le> hashLength S"
  shows "leaf_op S (q_info_hash q) (\<lambda>l. updatePeer now q protocol l s)" "leaf_op S (q_info_hash q) (\<lambda>l. removePeer q l s)"
    "leaf_op S (q_info_hash q) (\<lambda>l. renderTorrent ntop q iv l s)"
  by (auto simp: updatePeer_def removePeer_def renderTorrent_def
      intro!: leaf_op_list [OF h] leaf_op_bind [where f = "\<lambda>l. getItem l _"] leaf_op_bind [where f = "\<lambda>l. setHash l _"]
        leaf_op_bind [where f = "\<lambda>l. setData l _ _"] leaf_op_return leaf_op_value leaf_op_option leaf_op_prod)

lemma jobOps_leaf:
  assumes "job_ok S j" "\<not> is_collect j" "hashLength S = URI_PARAM_VALUE_LENGTH" "level S \<le> hashLength S"
  obtains h where "length h = hashLength S" "jobPath S j = leafPath S h" "\<forall>f \<in> set (jobOps ntop j). \<forall>s. leaf_op S h (\<lambda>l. f l s)"
proof (cases j)
  case (Announce_job now q protocol iv)
  with assms(1,3) have "length (q_info_hash q) = hashLength S" by (simp add: job_ok_def query_ok_def)
  with torrent_ops_leaf [OF this assms(4)] peer_ops_leaf [OF this assms(4)] Announce_job show thesis
    by (intro that [of "q_info_hash q"]) auto
next
  case (Scrape_job h udp)
  with assms(1,3) have "length h = hashLength S" by (simp add: job_ok_def)
  with torrent_ops_leaf [OF this assms(4)] Scrape_job show thesis by (intro that [of h]) auto
qed (use assms(2) in simp)

lemma collectLeaf_on_leaf:
  assumes "is_path (level S) p"
  shows "on_leaf S p (\<lambda>l. collectLeaf p l s) \<and> keeps_lock S p (\<lambda>l. collectLeaf p l s)"
  unfolding collectLeaf_def
  by (intro conjI on_leaf_bind keeps_lock_bind visitItems_on_leaf on_leaf_pure assms)

lemma jobSection_ok:
  assumes "job_ok S j" "hashLength S = URI_PARAM_VALUE_LENGTH" "level S \<le> hashLength S"
  shows "section_ok S (jobSection ntop S j)"
proof (cases "is_collect j")
  case True
  then obtain begins p where "j = Collect_job begins p" by (cases j) auto
  with assms(1) collectLeaf_on_leaf show ?thesis by (auto simp: section_ok_def job_ok_def)
next
  case False
  from jobOps_leaf [OF assms(1) False assms(2,3)] obtain h where
    "jobPath S j = leafPath S h" "\<forall>f \<in> set (jobOps ntop j). \<forall>s. leaf_op S h (\<lambda>l. f l s)" by metis
  from leaf_section_ok [OF this(2)] this(1) False show ?thesis by (cases j) simp_all
qed

section \<open>The operations together do the job\<close>

lemma getItem_stored:
  assumes "wf_tracker ts" "length h = URI_PARAM_VALUE_LENGTH"
  shows "getItem ts h = Inr (ts, case torrent_of ts h of None \<Rightarrow> None | Some t \<Rightarrow> Some (h, Some t))"
  using getHash_torrent_of [OF assms] by (simp add: getItem_def)

text \<open>setTorrentL is the first two operations, and the torrent is there for the third.\<close>

lemma insert_fill:
  assumes "wf_tracker ts" "length h = URI_PARAM_VALUE_LENGTH" "setTorrentL ts h = Inr (ts', t)"
  shows "runOps [insertTorrent h, fillTorrent h] ts s = Inr (ts', s\<lparr>v_torrent := True\<rparr>) \<and> wf_tracker ts' \<and> torrent_of ts' h = Some t"
proof -
  have wf: "wf_hlist ts" "length h = hashLength ts" using assms(1,2) by (auto simp: wf_tracker_def)
  from assms(1,2) obtain u v where "setTorrentL ts h = Inr (u, v)" "wf_tracker u" "torrent_of u = (torrent_of ts)(h \<mapsto> v)"
    by (rule setTorrentL_ok)
  with assms(3) have t: "wf_tracker ts'" "torrent_of ts' h = Some t" by simp_all
  have "runOps [insertTorrent h, fillTorrent h] ts s = Inr (ts', s\<lparr>v_torrent := True\<rparr>)"
  proof (cases "map_of (allItems ts) h")
    case None
    from hl.upsert_new [OF wf None] obtain l1 P Q where l1: "setHash ts h = Inr (l1, None)" "wf_hlist l1"
      "same_params ts l1" "allItems l1 = P @ (h, None) # Q" by metis
    have "getHash l1 h = Inr (Some (h, None))"
      using getHash_map_of [OF l1(2)] hl.split_map_of [OF l1(2,4)] wf(2) l1(3) by (simp add: same_params_def)
    moreover obtain pl where "initList 0 0 URI_PARAM_VALUE_LENGTH LIST_SEMAPHORE_DISABLE BIG_ENDIAN = Inr pl"
      "putData l1 h (Some (torrentDataL0\<lparr>t_peerList := Some pl\<rparr>)) = Inr ts'"
      using assms(3) l1(1) by (auto simp: setTorrentL_def Let_def bindR_Inr_iff simp del: initList.simps)
    ultimately show ?thesis
      using l1(1) by (simp add: insertTorrent_def fillTorrent_def getItem_def setData_def)
  next
    case (Some d)
    have "(h, d) \<in> set (allItems ts)" using Some by (rule map_of_SomeD)
    with assms(1) have "case d of None \<Rightarrow> False | Some t \<Rightarrow> wf_torrent t" by (simp add: wf_tracker_def)
    then obtain u where u: "d = Some u" by (cases d) auto
    from hl.upsert_found [OF wf(1) Some] obtain l1 where l1: "setHash ts h = Inr (l1, d)" "wf_hlist l1"
      "same_params ts l1" "allItems l1 = allItems ts" by metis
    have "getHash l1 h = Inr (Some (h, d))"
      using getHash_map_of [OF l1(2)] Some wf(2) l1(3,4) by (simp add: same_params_def)
    with l1(1) assms(3) u show ?thesis
      by (simp add: insertTorrent_def fillTorrent_def getItem_def setTorrentL_def)
  qed
  with t show ?thesis by simp
qed

lemma runOps_append: "runOps (fs @ gs) l s = bindR (runOps fs l s) (\<lambda>(l1, s1). runOps gs l1 s1)"
proof (induction fs arbitrary: l s)
  case (Cons f fs)
  then show ?case by (cases "f l s") auto
qed simp

lemma set_peer_ops:
  assumes "wf_tracker ts" "query_ok q" "setPeerPublic now ts q protocol (v_stats s) = Inr (ts', torrent, st')"
  shows "runOps [insertTorrent (q_info_hash q), fillTorrent (q_info_hash q), updatePeer now q protocol] ts s =
    Inr (ts', s\<lparr>v_torrent := True, v_stats := st'\<rparr>)"
proof -
  let ?h = "q_info_hash q"
  have h: "length ?h = URI_PARAM_VALUE_LENGTH" using assms(2) by (simp add: query_ok_def)
  obtain ts1 t where t: "setTorrentL ts ?h = Inr (ts1, t)" using assms(3) by (auto simp: setPeerPublic_def bindR_Inr_iff)
  from insert_fill [OF assms(1) h t, of s] have
    i: "runOps [insertTorrent ?h, fillTorrent ?h] ts s = Inr (ts1, s\<lparr>v_torrent := True\<rparr>)"
    "wf_tracker ts1" "torrent_of ts1 ?h = Some t" by simp_all
  have "updatePeer now q protocol ts1 (s\<lparr>v_torrent := True\<rparr>) = Inr (ts', s\<lparr>v_torrent := True, v_stats := st'\<rparr>)"
    using assms(3) getItem_stored [OF i(2) h] i(3) t
    by (auto simp: setPeerPublic_def updatePeer_def setData_def Let_def bindR_Inr_iff)
  with i(1) runOps_append [of "[insertTorrent ?h, fillTorrent ?h]" "[updatePeer now q protocol]" ts s]
  show ?thesis by simp
qed

lemma remove_peer_ops:
  assumes "wf_tracker ts" "query_ok q" "deletePeerPublic ts q = Inr (ts', torrent)"
  shows "removePeer q ts s = Inr (ts', s\<lparr>v_torrent := torrent \<noteq> None\<rparr>)"
proof -
  let ?h = "q_info_hash q"
  have h: "length ?h = URI_PARAM_VALUE_LENGTH" using assms(2) by (simp add: query_ok_def)
  note g = getItem_stored [OF assms(1) h] getHash_torrent_of [OF assms(1) h]
  show ?thesis
  proof (cases "torrent_of ts ?h")
    case None
    with assms(3) g show ?thesis by (simp add: deletePeerPublic_def removePeer_def)
  next
    case (Some t)
    with assms(3) g obtain pl where pl: "t_peerList t = Some pl"
      by (cases "t_peerList t") (simp_all add: deletePeerPublic_def)
    obtain peer where peer: "getHash pl (q_peer_id q) = Inr peer"
      using assms(3) g Some pl by (cases "getHash pl (q_peer_id q)") (simp_all add: deletePeerPublic_def)
    show ?thesis
    proof (cases peer)
      case None
      with assms(3) g Some pl peer show ?thesis by (auto simp: deletePeerPublic_def removePeer_def)
    next
      case (Some kd)
      obtain pk p where p: "peer = Some (pk, Some p)"
        using assms(3) g \<open>torrent_of ts ?h = Some t\<close> pl peer Some by (cases kd; cases "snd kd") (auto simp: deletePeerPublic_def)
      show ?thesis
        using assms(3) g \<open>torrent_of ts ?h = Some t\<close> pl peer p
        by (auto simp: deletePeerPublic_def removePeer_def setData_def Let_def bindR_Inr_iff)
    qed
  qed
qed

text \<open>A job is done in every state of the tracker, and by its operations under the lock.\<close>

lemma renderScrapeTorrentL_ok:
  assumes "wf_tracker ts" "length h = URI_PARAM_VALUE_LENGTH"
  shows "\<exists>torrent msg. getHash ts h = Inr torrent \<and> renderScrapeTorrentL [] torrent h udp = Inr msg"
  using getHash_torrent_of [OF assms] by (auto simp: renderScrapeTorrentL_def torrentCopy_def split: option.split)

lemma peers_room_mono: "peers_room (Suc n) ts \<Longrightarrow> peers_room n ts"
  by (fastforce simp: peers_room_def all_torrents_def)

lemma peers_room_fit: "peers_room n ts \<Longrightarrow> torrent_of ts h = Some t \<Longrightarrow> size (peersM t) < 2 ^ 32"
  by (fastforce simp: peers_room_def all_torrents_def)

lemma peers_room_update:
  assumes "peers_room (Suc n) ts" "torrent_of ts' = (torrent_of ts)(h \<mapsto> u)" "size (peersM u) \<le> Suc (case torrent_of ts h of None \<Rightarrow> 0 | Some t \<Rightarrow> size (peersM t))"
  shows "peers_room n ts'"
proof -
  have room: "size (peersM t) + Suc n < 2 ^ 32" if "torrent_of ts k = Some t" for k t
    using assms(1) that by (auto simp: peers_room_def all_torrents_def)
  have "Suc n < 2 ^ 32" using assms(1) by (simp add: peers_room_def)
  then have "size (peersM u) + n < 2 ^ 32" using assms(3) room [of h] by (cases "torrent_of ts h") simp_all
  moreover have "size (peersM t) + n < 2 ^ 32" if "torrent_of ts k = Some t" for k t using room [OF that] by simp
  ultimately have "size (peersM t) + n < 2 ^ 32" if "torrent_of ts' k = Some t" for k t
    using that assms(2) by (cases "k = h") auto
  then show ?thesis using \<open>Suc n < 2 ^ 32\<close> by (auto simp: peers_room_def all_torrents_def)
qed

lemma announce_room:
  assumes "wf_tracker ts" "query_ok q" "wf_stats st" "peers_room (Suc n) ts"
    "(if q_event q = URI_EVENT_ID_STOPPED then bindR (deletePeerPublic ts q) (\<lambda>(ts', torrent). Inr (ts', torrent, st))
      else setPeerPublic now ts q protocol st) = Inr (ts', torrent, st')"
  shows "peers_room n ts'"
proof (cases "q_event q = URI_EVENT_ID_STOPPED")
  case True
  then have d: "deletePeerPublic ts q = Inr (ts', torrent)" using assms(5) by (auto simp: bindR_Inr_iff)
  show ?thesis
  proof (cases "torrent_of ts (q_info_hash q)")
    case None
    then have "ts' = ts" using deletePeerPublic_ok [OF assms(1,2)] d by simp
    with assms(4) peers_room_mono show ?thesis by simp
  next
    case (Some t)
    show ?thesis
    proof (cases "peers_of t (q_peer_id q)")
      case None
      then have "ts' = ts" using deletePeerPublic_ok [OF assms(1,2)] d Some by simp
      with assms(4) peers_room_mono show ?thesis by simp
    next
      case p: (Some p)
      with deletePeerPublic_ok [OF assms(1,2)] d Some obtain t' where
        "torrent_of ts' = (torrent_of ts)(q_info_hash q \<mapsto> t')" "peersM t' = peersM t - {#p#}" by auto
      from peers_room_update [OF assms(4) this(1)] size_mset_mono [OF diff_subset_eq_self, of "peersM t" "{#p#}"] this(2) Some
      show ?thesis by simp
    qed
  qed
next
  case False
  then have d: "setPeerPublic now ts q protocol st = Inr (ts', torrent, st')" using assms(5) by simp
  obtain u t t' sx where u: "setPeerPublic now ts q protocol st = Inr (u, Some (q_info_hash q, Some t'), sx)"
    "torrent_before ts (q_info_hash q) t" "torrent_of u = (torrent_of ts)(q_info_hash q \<mapsto> t')"
    "peersM t' = add_mset (updatedPeer now q protocol (old_peer t q))
       (peersM t - (case peers_of t (q_peer_id q) of None \<Rightarrow> {#} | Some p \<Rightarrow> {#p#}))"
    by (rule setPeerPublic_ok [OF assms(1-3), of now protocol]) (rule that)
  have "size (peersM t') \<le> Suc (size (peersM t))" unfolding u(4) by (simp add: diff_size_le_size_Diff size_mset_mono)
  moreover have "size (peersM t) \<le> (case torrent_of ts (q_info_hash q) of None \<Rightarrow> 0 | Some t \<Rightarrow> size (peersM t))"
    using u(2) by (auto simp: torrent_before_def split: option.splits)
  ultimately have "size (peersM t') \<le> Suc (case torrent_of ts (q_info_hash q) of None \<Rightarrow> 0 | Some t \<Rightarrow> size (peersM t))"
    by linarith
  from peers_room_update [OF assms(4) u(3) this] u(1) d show ?thesis by simp
qed

text \<open>A visit of the collector keeps the tracker well formed and adds no peer.\<close>

lemma collect_ok:
  assumes "wf_tracker ts" "is_path (level ts) p" "peers_room n ts"
  obtains ts' g' where "visitItems runGarbageCollectorCallback p ts g = Inr (ts', g')" "wf_tracker ts'" "same_params ts ts'" "peers_room n ts'"
proof -
  let ?T = "leafItems (leafAt p ts)" and ?I = "torrents_inv (g_limitTime g)"
  have wf: "wf_hlist ts" "leaves_free ts" using assms(1) by (simp_all add: wf_tracker_def)
  have dist: "distinct (map fst (allItems ts))" by (rule hl.its_distinct [OF wf(1)])
  have lv: "level ts \<le> hashLength ts" using wf(1) by (simp add: wf_hlist_def)
  obtain h where h: "length h = hashLength ts" "leafPath ts h = p" by (rule path_of_hash [OF assms(2) lv])
  from wf(1) h(1) obtain leaf A B where F: "getLeaf ts h = Inr leaf" "allItems ts = A @ leafItems leaf @ B"
    by (rule updLeaf_rule) (rule that)
  have leaf: "leafItems leaf = ?T" using F(1) leaf_of_hash(1) [OF same_tables_refl [OF wf(1)] h(1) lv] h(2) by simp
  have sub: "set ?T \<subseteq> set (allItems ts)" "distinct (map fst ?T)" using F(2) leaf dist by auto
  have T: "\<exists>t. d = Some t \<and> wf_torrent t \<and> size (peersM t) < 2 ^ 32" if "(k, d) \<in> set ?T" for k d
  proof -
    have "(k, d) \<in> set (allItems ts)" using that sub(1) by blast
    then have "map_of (allItems ts) k = Some d" "case d of None \<Rightarrow> False | Some t \<Rightarrow> wf_torrent t"
      using dist assms(1) by (simp_all add: wf_tracker_def)
    with peers_room_fit [OF assms(3), of k] show ?thesis by (cases d) (auto simp: torrent_of_def)
  qed
  have cb: "callback_ok runGarbageCollectorCallback ?T ?I (\<lambda>_ _ _. False)"
    by (rule torrents_callback_ok [OF _ sub(2)]) (rule T)
  have I0: "?I g [] []" by (simp add: torrents_inv_def gc_item_def)
  obtain ts' g' A' B' xs where r: "visitItems runGarbageCollectorCallback p ts g = Inr (ts', g')" "wf_hlist ts'" "leaves_free ts'"
    "same_params ts ts'" "allItems ts = A' @ ?T @ B'" "allItems ts' = A' @ xs @ B'" "?I g' ?T xs"
    by (rule visitItems_rule [OF wf assms(2) cb I0]) (rule that)
  have dist': "distinct (map fst (allItems ts'))" by (rule hl.its_distinct [OF r(2)])
  have wt: "wf_tracker ts'"
    using assms(1) r(2-4,7) by (auto simp: wf_tracker_def torrents_inv_def same_params_def r(5,6))
  have "size (peersM u) + n < 2 ^ 32" if u: "torrent_of ts' k = Some u" for k u
  proof -
    have room: "size (peersM t) + n < 2 ^ 32" if "(k, Some t) \<in> set (allItems ts)" for t
    proof -
      have "torrent_of ts k = Some t" using map_of_is_SomeI [OF dist that] by (simp add: torrent_of_def)
      with assms(3) show ?thesis unfolding peers_room_def all_torrents_def by blast
    qed
    have "(k, Some u) \<in> set (allItems ts')"
      using u by (auto simp: torrent_of_def split: option.splits dest: map_of_SomeD)
    then consider "(k, Some u) \<in> set (allItems ts)" | "(k, Some u) \<in> set xs" using r(5,6) by auto
    then show ?thesis
    proof cases
      case 2
      then have "map_of xs k = Some (Some u)" using dist' r(6) by simp
      moreover have "gc_item (g_limitTime g) (map_of ?T k) (map_of xs k)" using r(7) by (simp add: torrents_inv_def)
      ultimately obtain t where t: "map_of ?T k = Some (Some t)" "gc_torrent (g_limitTime g) t u"
        by (auto simp: gc_item_def split: option.splits if_splits)
      have "(k, Some t) \<in> set (allItems ts)" using map_of_SomeD [OF t(1)] sub(1) by blast
      moreover have "size (peersM u) \<le> size (peersM t)" using t(2) by (simp add: gc_torrent_def size_filter_mset_lesseq)
      ultimately show ?thesis using room by fastforce
    qed (use room in blast)
  qed
  then have "peers_room n ts'" using assms(3) by (auto simp: peers_room_def all_torrents_def)
  with r(1,4) wt show thesis by (intro that)
qed

lemma runJob_ok:
  assumes "wf_tracker ts" "wf_stats (v_stats s)" "job_ok ts j" "\<not> is_collect j" "peers_room (Suc n) ts"
  obtains ts' s' where "runJob ntop j ts s = Inr (ts', s')" "wf_tracker ts'" "wf_stats (v_stats s')" "peers_room n ts'"
    "runOps (jobOps ntop j) ts s = Inr (ts', s')"
proof (cases j)
  case (Scrape_job h udp)
  with renderScrapeTorrentL_ok [OF assms(1), of h udp] assms peers_room_mono that show thesis
    by (auto simp: job_ok_def renderEntry_def getItem_def answered_def)
next
  case (Announce_job now q protocol iv)
  let ?h = "q_info_hash q"
  have q: "query_ok q" "length ?h = URI_PARAM_VALUE_LENGTH" using assms(3) Announce_job by (simp_all add: job_ok_def query_ok_def)
  obtain ts' torrent st' where u: "(if q_event q = URI_EVENT_ID_STOPPED
      then bindR (deletePeerPublic ts q) (\<lambda>(ts', torrent). Inr (ts', torrent, v_stats s))
      else setPeerPublic now ts q protocol (v_stats s)) = Inr (ts', torrent, st')" "wf_tracker ts'" "same_params ts ts'" "wf_stats st'"
    "stored ts' ?h torrent" by (rule announce_update [OF assms(1) q(1) assms(2)])
  have room: "peers_room n ts'" by (rule announce_room [OF assms(1) q(1) assms(2,5) u(1)])
  from u(5) have "case torrent of None \<Rightarrow> True | Some (k, d) \<Rightarrow> \<exists>t. d = Some t \<and> wf_torrent t"
    by (auto simp: stored_def split: option.splits)
  then obtain msg where msg: "renderAnnouncePublic ntop q iv torrent [] = Inr msg" using renderAnnouncePublic_total by blast
  have "getItem ts' ?h = Inr (ts', case torrent_of ts' ?h of None \<Rightarrow> None | Some t \<Rightarrow> Some (?h, Some t))"
    by (rule getItem_stored [OF u(2) q(2)])
  then have "getItem ts' ?h = Inr (ts', torrent)" using u(5) by (auto simp: stored_def split: option.splits)
  with msg have render: "renderTorrent ntop q iv ts' (s\<lparr>v_torrent := torrent \<noteq> None, v_stats := st'\<rparr>) =
      Inr (ts', answered msg (s\<lparr>v_stats := st'\<rparr>))"
    by (cases torrent) (simp_all add: renderTorrent_def answered_def)
  have job: "runJob ntop j ts s = Inr (ts', answered msg (s\<lparr>v_stats := st'\<rparr>))" using u(1) msg Announce_job by simp
  have ws: "wf_stats (v_stats (answered msg (s\<lparr>v_stats := st'\<rparr>)))" using u(4) by (simp add: answered_def)
  show thesis
  proof (cases "q_event q = URI_EVENT_ID_STOPPED")
    case True
    then have d: "deletePeerPublic ts q = Inr (ts', torrent)" "st' = v_stats s" using u(1) by (auto simp: bindR_Inr_iff)
    from remove_peer_ops [OF assms(1) q(1) d(1), of s] render d(2) True Announce_job
    show thesis by (intro that [OF job u(2) ws room]) simp
  next
    case False
    then have p: "setPeerPublic now ts q protocol (v_stats s) = Inr (ts', torrent, st')" using u(1) by simp
    then have t: "torrent \<noteq> None" by (auto simp: setPeerPublic_def Let_def bindR_Inr_iff)
    from set_peer_ops [OF assms(1) q(1) p] render t False Announce_job
      runOps_append [of "[insertTorrent ?h, fillTorrent ?h, updatePeer now q protocol]" "[renderTorrent ntop q iv]" ts s]
    show thesis by (intro that [OF job u(2) ws room]) simp
  qed
qed (use assms(4) in simp)

section \<open>A pass is its jobs\<close>

lemma collector_goes_on: "goes_on runGarbageCollectorCallback"
  by (auto simp: goes_on_def runGarbageCollectorCallback_def Let_def bindR_Inr_iff split: option.splits if_splits)

fun runJobs :: "(bool \<Rightarrow> bytes \<Rightarrow> bytes) \<Rightarrow> job list \<Rightarrow> torrent_op" where
  "runJobs ntop [] ts s = Inr (ts, s)"
| "runJobs ntop (j # js) ts s = bindR (runJob ntop j ts s) (\<lambda>(ts1, s1). runJobs ntop js ts1 s1)"

lemma runJobs_leaves:
  "runJobs ntop (map (Collect_job None) ps) ts s =
     bindR (mapLeaves runGarbageCollectorCallback [] ps ts (v_garbage s)) (\<lambda>(ts', g). Inr (ts', s\<lparr>v_garbage := g\<rparr>))"
proof (induction ps arbitrary: ts s)
  case (Cons p ps)
  then show ?case
    by (cases "mapLeaf runGarbageCollectorCallback [] p ts (v_garbage s)") (auto simp: startPass_def)
qed simp

text \<open>The jobs of a pass, when nothing comes between them, are runGarbageCollectorL.\<close>

lemma passJobs_collect:
  assumes "wf_tracker ts"
  shows "runJobs ntop (passJobs now ts) ts s = bindR (runGarbageCollectorL now ts) (\<lambda>(ts', g). Inr (ts', s\<lparr>v_garbage := g\<rparr>))"
proof -
  let ?g = "garbageStats0\<lparr>g_limitTime := garbageLimit now\<rparr>"
  have "same_spine (level ts) ts ts"
    using same_tables_spine [OF same_tables_refl [of ts]] assms by (simp add: wf_tracker_def)
  from mapList_leaves [OF this collector_goes_on, of "[]" ?g]
  have "runGarbageCollectorL now ts = mapLeaves runGarbageCollectorCallback [] (leafPaths (level ts)) ts ?g"
    by (simp add: runGarbageCollectorL_def)
  moreover obtain p ps where p: "leafPaths (level ts) = p # ps"
    using set_leafPaths [of "replicate (level ts) 0" "level ts"]
    by (cases "leafPaths (level ts)") (auto simp: is_path_def LIST_BYTE_SIZE_def)
  ultimately show ?thesis
    by (cases "mapLeaf runGarbageCollectorCallback [] p ts ?g") (auto simp: passJobs_def startPass_def runJobs_leaves)
qed

section \<open>Sections are jobs\<close>

lemma jobThread_simps:
  "th_phase (jobThread ntop ts w) = Outside"
  "jobThread ntop ts w = Thread s Outside (c # cs) \<longleftrightarrow>
     (\<exists>j jobs. w = (j # jobs, s) \<and> c = jobSection ntop ts j \<and> cs = map (jobSection ntop ts) jobs)"
  by (auto simp: jobThread_def split: prod.splits)

lemma tracker_params: "wf_tracker ts \<Longrightarrow> hashLength ts = URI_PARAM_VALUE_LENGTH \<and> level ts \<le> hashLength ts \<and> wf_hlist ts"
proof -
  assume "wf_tracker ts"
  then have "wf_hlist ts" "hashLength ts = URI_PARAM_VALUE_LENGTH" by (simp_all add: wf_tracker_def)
  moreover from this(1) have "level ts \<le> hashLength ts" by (simp add: wf_hlist_def)
  ultimately show ?thesis by blast
qed

lemma job_ok_same: "same_tables S R \<Longrightarrow> job_ok S j = job_ok R j"
  by (cases j) (simp_all add: job_ok_def same_tables_level)

lemma startPass_same: "s\<lparr>v_garbage := v_garbage (startPass begins s)\<rparr> = startPass begins s"
  "(startPass begins s)\<lparr>v_garbage := g\<rparr> = s\<lparr>v_garbage := g\<rparr>" "v_stats (startPass begins s) = v_stats s"
  by (simp_all add: startPass_def split: option.split)

lemma job_section:
  assumes "wf_tracker R" "wf_tracker S" "same_tables S R" "unlocked S" "wf_stats (v_stats s)" "job_ok R j" "peers_room (Suc n) S"
  obtains S' s' where "runJob ntop j S s = Inr (S', s')" "wf_tracker S'" "wf_stats (v_stats s')" "peers_room n S'"
    "runSection (jobSection ntop R j) S s = Inr (S', s')" "same_tables S' R" "unlocked S'"
proof -
  have ok: "job_ok S j" using assms(3,6) job_ok_same by blast
  note R = tracker_params [OF assms(1)]
  have sec: "section_ok R (jobSection ntop R j)" using jobSection_ok [OF assms(6)] R by simp
  have "\<exists>S' s'. runJob ntop j S s = Inr (S', s') \<and> wf_tracker S' \<and> wf_stats (v_stats s') \<and> peers_room n S' \<and>
    runSection (jobSection ntop R j) S s = Inr (S', s')"
  proof (cases "is_collect j")
    case False
    obtain S' s' where r: "runJob ntop j S s = Inr (S', s')" "wf_tracker S'" "wf_stats (v_stats s')" "peers_room n S'"
      "runOps (jobOps ntop j) S s = Inr (S', s')" by (rule runJob_ok [OF assms(2,5) ok False assms(7)])
    obtain h where h: "length h = hashLength R" "jobPath R j = leafPath R h" "\<forall>f \<in> set (jobOps ntop j). \<forall>s. leaf_op R h (\<lambda>l. f l s)"
      by (rule jobOps_leaf [OF assms(6) False]) (use R in auto)
    have "wf_hlist S" "leaves_free S" "length h = hashLength S"
      using assms(2) h(1) R by (simp_all add: wf_tracker_def)
    from lockLeaf_ok [OF this] obtain l1 where "lockLeaf S h = Inr l1" by blast
    from runSection_plain [OF assms(3) h(1) _ this h(3) r(5)] R h(2) False
    have "runSection (jobSection ntop R j) S s = Inr (S', s')" by (cases j) auto
    with r show ?thesis by blast
  next
    case True
    then obtain begins p where j: "j = Collect_job begins p" by (cases j) auto
    have p: "is_path (level R) p" "is_path (level S) p" using assms(6) ok by (simp_all add: j job_ok_def)
    let ?g = "v_garbage (startPass begins s)"
    obtain S' g' where v: "visitItems runGarbageCollectorCallback p S ?g = Inr (S', g')" "wf_tracker S'" "peers_room n S'"
      by (rule collect_ok [OF assms(2) p(2) peers_room_mono [OF assms(7)]]) (rule that)
    obtain S1 S2 where w: "lockAt p S = Inr S1" "visitItems runGarbageCollectorCallback p S1 ?g = Inr (S2, g')" "unlockAt p S2 = Inr S'"
      by (rule visit_section [OF assms(3) p(1) assms(4) v(1)]) (rule that)
    have "mapLeaf runGarbageCollectorCallback [] p S ?g = Inr (S', g')"
      using mapLeaf_free [OF assms(3) p(1), of runGarbageCollectorCallback ?g] unlocked_leaf [OF assms(4,3) p(1)] v(1) by simp
    then have "runJob ntop j S s = Inr (S', s\<lparr>v_garbage := g'\<rparr>)" by (simp add: j)
    moreover have "runSection (jobSection ntop R j) S s = Inr (S', s\<lparr>v_garbage := g'\<rparr>)"
      using w by (simp add: j runSection_def collectLeaf_def startPass_same)
    ultimately show ?thesis using v(2,3) assms(5) by simp
  qed
  then obtain S' s' where r: "runJob ntop j S s = Inr (S', s')" "wf_tracker S'" "wf_stats (v_stats s')" "peers_room n S'"
    "runSection (jobSection ntop R j) S s = Inr (S', s')" by blast
  from runSection_unlocked [OF assms(3,4) sec r(5)] show thesis by (intro that [OF r]) simp_all
qed

text \<open>A leaf that the collector passes over is one whose visit changes nothing.\<close>

lemma job_passes:
  assumes "wf_tracker S" "same_tables S R" "unlocked S" "job_ok R j" "passes (jobSection ntop R j) S"
  shows "runJob ntop j S s = Inr (S, sec_before (jobSection ntop R j) s)" "v_stats (sec_before (jobSection ntop R j) s) = v_stats s"
proof -
  from assms(5) obtain begins p where j: "j = Collect_job begins p" "leafItems (leafAt p S) = []" by (cases j) (auto simp: passes_def)
  have p: "is_path (level R) p" using assms(4) by (simp add: j job_ok_def)
  have "set_items [] (leafAt p S) = leafAt p S" using j(2) by (cases "leafAt p S") simp
  then have "updAt p (set_items []) S = S" by (intro updAt_same [OF same_tables_spine [OF assms(2)] p])
  then have "mapLeaf runGarbageCollectorCallback [] p S (v_garbage (startPass begins s)) = Inr (S, v_garbage (startPass begins s))"
    using mapLeaf_free [OF assms(2) p, of runGarbageCollectorCallback] unlocked_leaf [OF assms(3,2) p] j(2) by (simp add: visitItems_def)
  then show "runJob ntop j S s = Inr (S, sec_before (jobSection ntop R j) s)" by (simp add: j(1) startPass_same)
  show "v_stats (sec_before (jobSection ntop R j) s) = v_stats s" by (simp add: j(1) startPass_same)
qed

text \<open>The sections of the threads one after the other are their jobs one after the other.\<close>

lemma pending_update:
  assumes "i < length ws" "ws ! i = (j # jobs, s)"
  shows "pending ws = Suc (pending (ws[i := (jobs, s')]))"
proof -
  have "ws = take i ws @ (j # jobs, s) # drop (Suc i) ws" using id_take_nth_drop [OF assms(1)] assms(2) by simp
  moreover have "ws[i := (jobs, s')] = take i ws @ (jobs, s') # drop (Suc i) ws" by (rule upd_conv_take_nth_drop [OF assms(1)])
  moreover have "pending (xs @ (j # jobs, s) # ys) = Suc (pending (xs @ (jobs, s') # ys))" for xs ys by (simp add: pending_def)
  ultimately show ?thesis by metis
qed

lemma workers_ok_update:
  assumes "workers_ok R ws" "i < length ws" "ws ! i = (j # jobs, s)" "wf_stats (v_stats s')"
  shows "workers_ok R (ws[i := (jobs, s')])"
proof -
  let ?ws = "ws[i := (jobs, s')]" and ?c = "\<lambda>w :: worker. \<exists>j \<in> set (fst w). is_collect j"
  have "(j # jobs, s) \<in> set ws" using nth_mem [OF assms(2)] assms(3) by simp
  then have ok: "\<forall>k \<in> set jobs. job_ok R k" using assms(1) by (auto simp: workers_ok_def)
  have all: "\<forall>(jobs, s) \<in> set ?ws. wf_stats (v_stats s) \<and> (\<forall>j \<in> set jobs. job_ok R j)"
    using assms(1,4) ok by (auto simp: workers_ok_def dest!: subsetD [OF set_update_subset_insert])
  have c: "?c (ws ! a)" if "?c (?ws ! a)" for a
    using that assms(2,3) by (cases "a = i") auto
  have one: "a = b" if "a < length ?ws" "b < length ?ws" "?c (?ws ! a)" "?c (?ws ! b)" for a b
  proof -
    have "a < length ws" "b < length ws" using that(1,2) by simp_all
    with c [OF that(3)] c [OF that(4)] assms(1) show ?thesis unfolding workers_ok_def by blast
  qed
  show ?thesis unfolding workers_ok_def using all one by blast
qed

lemma worker_job_ok:
  assumes "workers_ok R ws" "i < length ws" "ws ! i = (j # jobs, s)"
  shows "wf_stats (v_stats s)" "job_ok R j"
  using assms nth_mem [OF assms(2)] by (auto simp: workers_ok_def)

lemma section_jobs:
  assumes "wf_tracker R" "unlocked R" "section_step\<^sup>*\<^sup>* (R, map (jobThread ntop R) ws) x" "workers_ok R ws" "peers_room (pending ws) R"
  shows "\<exists>S ws'. x = (S, map (jobThread ntop R) ws') \<and> (job_step ntop)\<^sup>*\<^sup>* (R, ws) (S, ws') \<and> wf_tracker S \<and> same_tables S R \<and>
    unlocked S \<and> workers_ok R ws' \<and> peers_room (pending ws') S"
  using assms(3)
proof induction
  case base
  show ?case using assms same_tables_refl tracker_params [OF assms(1)] by blast
next
  case (step x y)
  from step.IH obtain S ws' where x: "x = (S, map (jobThread ntop R) ws')" "(job_step ntop)\<^sup>*\<^sup>* (R, ws) (S, ws')"
    "wf_tracker S" "same_tables S R" "unlocked S" "workers_ok R ws'" "peers_room (pending ws') S" by blast
  have go: ?case if i: "i < length ws'" "ws' ! i = (j # jobs, s)" and run: "runJob ntop j S s = Inr (T, s')"
    and T: "wf_tracker T" "same_tables T R" "unlocked T" "wf_stats (v_stats s')" "peers_room (pending (ws'[i := (jobs, s')])) T"
    and y: "y = (T, (map (jobThread ntop R) ws')[i := Thread s' Outside (map (jobSection ntop R) jobs)])" for i j jobs s T s'
  proof -
    let ?ws = "ws'[i := (jobs, s')]"
    have "y = (T, map (jobThread ntop R) ?ws)" using y by (simp add: map_update jobThread_def)
    moreover have "job_step ntop (S, ws') (T, ?ws)" by (rule job_step.intros [OF i run])
    with x(2) have "(job_step ntop)\<^sup>*\<^sup>* (R, ws) (T, ?ws)" by (rule rtranclp.rtrancl_into_rtrancl)
    ultimately show ?thesis using workers_ok_update [OF x(6) i T(4)] T by blast
  qed
  from step.hyps(2) [unfolded x(1)] show ?case
  proof cases
    case (over i s c cs)
    have i: "i < length ws'" using over(2) by simp
    with over(3) obtain j jobs where w: "ws' ! i = (j # jobs, s)" "c = jobSection ntop R j" "cs = map (jobSection ntop R) jobs"
      by (auto simp: jobThread_simps)
    note ok = worker_job_ok [OF x(6) i w(1)]
    note r = job_passes [OF x(3,4,5) ok(2) over(4) [unfolded w(2)], of s]
    have "peers_room (pending (ws'[i := (jobs, sec_before c s)])) S"
      using x(7) pending_update [OF i w(1)] peers_room_mono by metis
    with go [OF i w(1) r(1) x(3-5)] r(2) ok(1) over(1) w(2,3) show ?thesis by simp
  next
    case (turn i s c cs S' s')
    have i: "i < length ws'" using turn(2) by simp
    with turn(3) obtain j jobs where w: "ws' ! i = (j # jobs, s)" "c = jobSection ntop R j" "cs = map (jobSection ntop R) jobs"
      by (auto simp: jobThread_simps)
    note ok = worker_job_ok [OF x(6) i w(1)]
    have room: "peers_room (Suc (pending (ws'[i := (jobs, s')]))) S" using x(7) pending_update [OF i w(1), of s'] by simp
    obtain T t where r: "runJob ntop j S s = Inr (T, t)" "wf_tracker T" "wf_stats (v_stats t)" "peers_room (pending (ws'[i := (jobs, s')])) T"
      "runSection (jobSection ntop R j) S s = Inr (T, t)" "same_tables T R" "unlocked T"
      by (rule job_section [OF assms(1) x(3-5) ok room])
    have "S' = T" "s' = t" using turn(4) r(5) w(2) by simp_all
    with go [OF i w(1) r(1,2,6,7,3)] r(4) turn(1) w(3) show ?thesis by simp
  qed
qed

lemma jobThreads_start:
  assumes "wf_tracker ts" "workers_ok ts ws"
  shows "\<forall>t \<in> set (map (jobThread ntop ts) ws). th_phase t = Outside"
    "\<forall>t \<in> set (map (jobThread ntop ts) ws). \<forall>c \<in> set (th_program t). section_ok ts c" "one_collector (map (jobThread ntop ts) ws)"
proof -
  have "section_ok ts (jobSection ntop ts j)" if "job_ok ts j" for j
    using jobSection_ok [OF that] tracker_params [OF assms(1)] by simp
  with assms(2) show "\<forall>t \<in> set (map (jobThread ntop ts) ws). \<forall>c \<in> set (th_program t). section_ok ts c"
    by (fastforce simp: jobThread_def workers_ok_def)
  have e: "sec_passes_empty (jobSection ntop ts j) = is_collect j" for j by (cases j) simp_all
  have "passes_any (jobThread ntop ts w) \<longleftrightarrow> (\<exists>j \<in> set (fst w). is_collect j)" for w
    by (auto simp: passes_any_def jobThread_def e split: prod.split)
  then show "one_collector (map (jobThread ntop ts) ws)" using assms(2) by (simp add: one_collector_def workers_ok_def)
qed (simp add: jobThread_simps)

section \<open>Properties\<close>


text \<open>C8: The threads come to an end: a run of workers and a collector has no more steps than their
jobs have waits, operations and posts, and in every state it reaches either all of them have done their
jobs or one of them can do its next step; there is no deadlock and no step fails.\<close>

theorem workers_go_on:
  assumes "wf_tracker ts" "unlocked ts" "workers_ok ts ws" "peers_room (pending ws) ts"
    "(leaf_step ^^ k) (ts, map (jobThread ntop ts) ws) (ts', ths)"
  shows "k \<le> threads_work (map (jobThread ntop ts) ws) \<and>
    (\<forall>t \<in> set ths. th_phase t = Outside \<and> th_program t = []) \<noteq> (\<exists>y. leaf_step (ts', ths) y)"
proof
  from leaf_steps_work [OF assms(5)] show "k \<le> threads_work (map (jobThread ntop ts) ws)" by simp
  have "leaf_step\<^sup>*\<^sup>* (ts, map (jobThread ntop ts) ws) (ts', ths)" by (rule relpowp_imp_rtranclp [OF assms(5)])
  moreover have "wf_hlist ts" using tracker_params [OF assms(1)] by simp
  ultimately obtain S us where
    r: "section_step\<^sup>*\<^sup>* (ts, map (jobThread ntop ts) ws) (S, us)" "tracks ts ts' ths S us"
    using leaf_steps_track [OF _ assms(2) jobThreads_start [OF assms(1,3)]] by metis
  from section_jobs [OF assms(1,2) r(1) assms(3,4)] obtain ws' where
    w: "us = map (jobThread ntop ts) ws'" "wf_tracker S" "same_tables S ts" "unlocked S" "workers_ok ts ws'"
    "peers_room (pending ws') S" by blast
  have run: "\<exists>r. runSection c S s = Inr r" if i: "i < length us" "us ! i = Thread s Outside (c # cs)" for i s c cs
  proof -
    from i w(1) obtain j jobs where j: "ws' ! i = (j # jobs, s)" "c = jobSection ntop ts j" by (auto simp: jobThread_simps)
    have iw: "i < length ws'" using i(1) w(1) by simp
    have "peers_room (Suc (pending (ws'[i := (jobs, s)]))) S" using w(6) pending_update [OF iw j(1), of s] by simp
    from job_section [OF assms(1) w(2-4) worker_job_ok [OF w(5) iw j(1)] this] show ?thesis unfolding j(2) by metis
  qed
  have "\<exists>y. leaf_step (ts', ths) y" if "\<exists>t \<in> set ths. th_phase t \<noteq> Outside \<or> th_program t \<noteq> []"
    by (rule leaf_step_progress [OF r(2) that run])
  moreover have "\<not> leaf_step (ts', ths) y" if "\<forall>t \<in> set ths. th_phase t = Outside \<and> th_program t = []" for y
  proof
    assume "leaf_step (ts', ths) y"
    then show False using that by cases (auto dest!: nth_mem)
  qed
  ultimately show "(\<forall>t \<in> set ths. th_phase t = Outside \<and> th_program t = []) \<noteq> (\<exists>y. leaf_step (ts', ths) y)" by blast
qed

definition sample_job_state :: job_state where
  "sample_job_state = \<lparr>v_stats = stats0 0, v_garbage = garbageStats0, v_torrent = False, v_answers = []\<rparr>"

definition sample_workers :: "worker list" where
  "sample_workers =
     [([Scrape_job (replicate 20 1) True], sample_job_state),
      ([Announce_job 5 (sample_query 2) 1 sample_interval, Scrape_job (replicate 20 1) False], sample_job_state),
      ([Collect_job (Some 5000) [0, 0], Collect_job None [0, 1]], sample_job_state)]"

definition sample_torrents :: "torrentDataL hlist" where
  "sample_torrents = HList [] [] (Some 1) LITTLE_ENDIAN 20 0 1"

lemma sample_torrents_ok: "wf_tracker sample_torrents" "unlocked sample_torrents" "n < 2 ^ 32 \<Longrightarrow> peers_room n sample_torrents"
proof -
  have none: "allItems sample_torrents = []" by (simp add: allItems_leaf sample_torrents_def)
  then show "wf_tracker sample_torrents"
    by (simp add: wf_tracker_def wf_hlist_def header_def hasSemaphore_def sample_torrents_def leaves_free_leaf
        URI_PARAM_VALUE_LENGTH_def LIST_SEMAPHORE_ENABLE_LEAF_def)
  show "unlocked sample_torrents" by (simp add: unlocked_def sample_torrents_def)
  show "peers_room n sample_torrents" if "n < 2 ^ 32"
    using that none by (simp add: peers_room_def all_torrents_def torrent_of_def)
qed


text \<open>The list of the torrents as main makes it has free leaves.\<close>

lemma initList_unlocked:
  assumes "initList n nest hl se en = Inr l" "se AND LIST_SEMAPHORE_ENABLE_LEAF \<noteq> 0" "is_path n p"
  shows "semaphoreEnabled (leafAt p l) \<noteq> 0 \<and> semaphore (leafAt p l) = Some 1"
  using assms(1,3)
proof (induction n arbitrary: nest l p)
  case 0
  then show ?case using assms(2) by (auto simp: initList.simps [of 0] hasSemaphore_def bindR_Inr_iff split: if_splits)
next
  case (Suc n)
  obtain i q where p: "p = i # q" "i < LIST_BYTE_SIZE" "is_path n q" using Suc.prems(2) by (auto simp: is_path_Suc)
  from Suc.prems(1) [unfolded initList.simps [of "Suc n"]] obtain c where c: "initList n (nest + 1) hl se en = Inr c"
    "subLists l = replicate LIST_BYTE_SIZE c" by (auto simp: bindR_Inr_iff split: if_splits)
  from Suc.IH [OF c(1) p(3)] c(2) p show ?case by simp
qed

theorem workers_go_on_witness:
  "\<exists>ts y. initList 2 0 URI_PARAM_VALUE_LENGTH LIST_SEMAPHORE_ENABLE_LEAF LITTLE_ENDIAN = Inr ts \<and>
     leaf_step (ts, map (jobThread (\<lambda>_ _. []) ts) sample_workers) y"
proof -
  have lim: "2 \<le> LIST_LIMIT_LEVEL" "2 \<le> URI_PARAM_VALUE_LENGTH" "LIST_SEMAPHORE_ENABLE_LEAF AND LIST_SEMAPHORE_ENABLE_LEAF \<noteq> 0"
    by (simp_all add: LIST_LIMIT_LEVEL_def URI_PARAM_VALUE_LENGTH_def LIST_SEMAPHORE_ENABLE_LEAF_def)
  from initList_ok [OF lim(1,2), of LIST_SEMAPHORE_ENABLE_LEAF LITTLE_ENDIAN] lim(3) obtain ts :: "torrentDataL hlist" where
    ts: "initList 2 0 URI_PARAM_VALUE_LENGTH LIST_SEMAPHORE_ENABLE_LEAF LITTLE_ENDIAN = Inr ts"
    "wf_hlist ts" "allItems ts = []" "leaves_free ts" "hashLength ts = URI_PARAM_VALUE_LENGTH" "level ts = 2" by metis
  have t: "wf_tracker ts" using ts(2-5) by (simp add: wf_tracker_def)
  have u: "unlocked ts" unfolding unlocked_def ts(6) using initList_unlocked [OF ts(1) lim(3)] by blast
  have w: "workers_ok ts sample_workers"
    by (simp add: workers_ok_def sample_workers_def sample_job_state_def job_ok_def query_ok_def sample_query_def
        URI_PARAM_VALUE_LENGTH_def wf_stats0 All_less_Suc ts(6) is_path_def LIST_BYTE_SIZE_def numeral_2_eq_2)
  have room: "peers_room (pending sample_workers) ts"
    by (simp add: peers_room_def pending_def sample_workers_def all_torrents_def torrent_of_def ts(3))
  have "\<not> (\<forall>t \<in> set (map (jobThread (\<lambda>_ _. []) ts) sample_workers). th_phase t = Outside \<and> th_program t = [])"
    by (simp add: sample_workers_def jobThread_def)
  with workers_go_on [OF t u w room relpowp_0_I] ts(1) show ?thesis by blast
qed

end
