(* ===== verification/Lock_Order.thy ===== *)
theory Lock_Order
  imports C_Prelude
begin

text \<open>
  The semaphores the threads hold one inside another: the semaphore of a worker's list of sockets
  (its global one), the leaf of a socket, the leaf of a torrent, the list of websockets and the queue
  of datagrams. A turn of a thread (thread\_client\_tcp.c, thread\_client\_udp.c, thread\_garbage.c,
  data\_garbage.c, socket\_tcp.c, socket\_udp.c) is here the waits and posts it makes, in order. They are taken in
  the order of a rank, so no set of threads can wait for each other.
\<close>

section \<open>Locks that are taken in the order of a rank\<close>

datatype 'l lock_op = Wait 'l | Post 'l

text \<open>A thread with the locks it holds and the waits and posts it still has to make; the threads one step further.\<close>

type_synonym 'l locker = "'l list \<times> 'l lock_op list"

definition held :: "'l locker list \<Rightarrow> 'l \<Rightarrow> bool" where
  "held ts x \<longleftrightarrow> (\<exists>t \<in> set ts. x \<in> set (fst t))"

inductive lock_step :: "'l locker list \<Rightarrow> 'l locker list \<Rightarrow> bool" where
  wait: "i < length ts \<Longrightarrow> ts ! i = (hs, Wait x # p) \<Longrightarrow> \<not> held ts x \<Longrightarrow> lock_step ts (ts[i := (x # hs, p)])"
| post: "i < length ts \<Longrightarrow> ts ! i = (hs, Post x # p) \<Longrightarrow> lock_step ts (ts[i := (remove1 x hs, p)])"

inductive_cases lock_stepE: "lock_step ts us"

text \<open>No lock is held by two threads, nor twice by one.\<close>

definition exclusive :: "'l locker list \<Rightarrow> bool" where
  "exclusive ts \<longleftrightarrow> (\<forall>t \<in> set ts. distinct (fst t)) \<and>
     (\<forall>i < length ts. \<forall>j < length ts. \<forall>x. x \<in> set (fst (ts ! i)) \<longrightarrow> x \<in> set (fst (ts ! j)) \<longrightarrow> i = j)"

definition locks_work :: "'l locker list \<Rightarrow> nat" where
  "locks_work ts = sum_list (map (\<lambda>t. length (snd t)) ts)"

text \<open>A program that waits only for locks above those it holds, and posts those it holds in the end.\<close>

fun disciplined :: "('l \<Rightarrow> nat) \<Rightarrow> 'l list \<Rightarrow> 'l lock_op list \<Rightarrow> bool" where
  "disciplined rank hs [] \<longleftrightarrow> hs = []"
| "disciplined rank hs (Wait x # p) \<longleftrightarrow> (\<forall>h \<in> set hs. rank h < rank x) \<and> disciplined rank (x # hs) p"
| "disciplined rank hs (Post x # p) \<longleftrightarrow> x \<in> set hs \<and> disciplined rank (remove1 x hs) p"

text \<open>The contract: locks have ranks and every turn of a thread is disciplined.\<close>

locale ranked_turns =
  fixes rank :: "'l \<Rightarrow> nat" and turn_ops :: "'t \<Rightarrow> 'l lock_op list"
  assumes turn_disciplined: "disciplined rank [] (turn_ops t)"
begin

lemma disciplined_append: "disciplined rank hs p \<Longrightarrow> disciplined rank [] q \<Longrightarrow> disciplined rank hs (p @ q)"
  by (induction rank hs p rule: disciplined.induct) auto

lemma turns_disciplined: "disciplined rank [] (concat (map turn_ops ts))"
  by (induction ts) (auto intro: disciplined_append turn_disciplined)

definition in_order :: "'l locker list \<Rightarrow> bool" where
  "in_order ts \<longleftrightarrow> exclusive ts \<and> (\<forall>t \<in> set ts. disciplined rank (fst t) (snd t))"

lemma in_order_start: "in_order (map (\<lambda>ts. ([], concat (map turn_ops ts))) programs)"
  by (auto simp: in_order_def exclusive_def turns_disciplined)

text \<open>A thread that gets or gives back a lock.\<close>

lemma in_order_update:
  assumes "in_order ts" "i < length ts" "distinct hs" "disciplined rank hs p" "\<And>x. x \<in> set hs \<Longrightarrow> x \<in> set (fst (ts ! i)) \<or> \<not> held ts x"
  shows "in_order (ts[i := (hs, p)])"
proof -
  let ?ts = "ts[i := (hs, p)]"
  have ex: "a = b" if "a < length ts" "b < length ts" "x \<in> set (fst (ts ! a))" "x \<in> set (fst (ts ! b))" for a b x
    using assms(1) that unfolding in_order_def exclusive_def by blast
  have own: "a = i" if "a < length ts" "x \<in> set (fst (ts ! a))" "x \<in> set hs" for a x
  proof (rule ccontr)
    assume "a \<noteq> i"
    then have "x \<notin> set (fst (ts ! i))" using ex [OF that(1) assms(2) that(2)] by blast
    with assms(5) [OF that(3)] have "\<not> held ts x" by blast
    with that(1,2) show False by (auto simp: held_def)
  qed
  have "a = b" if "a < length ts" "b < length ts" "x \<in> set (fst (?ts ! a))" "x \<in> set (fst (?ts ! b))" for a b x
  proof (cases "x \<in> set hs")
    case True
    have "c = i" if c: "c < length ts" "x \<in> set (fst (?ts ! c))" for c
    proof (rule ccontr)
      assume "c \<noteq> i"
      with c own [OF c(1) _ True] show False by simp
    qed
    with that show ?thesis by blast
  next
    case False
    then have "a \<noteq> i" "b \<noteq> i" using that(3,4) assms(2) by auto
    then have "x \<in> set (fst (ts ! a))" "x \<in> set (fst (ts ! b))" using that(3,4) by simp_all
    with that(1,2) show ?thesis by (rule ex)
  qed
  moreover have "distinct (fst t) \<and> disciplined rank (fst t) (snd t)" if "t \<in> set ?ts" for t
    using that assms(1,3,4) set_update_subset_insert [of ts i "(hs, p)"] by (auto simp: in_order_def exclusive_def)
  ultimately show ?thesis unfolding in_order_def exclusive_def by simp
qed

lemma in_order_nth: "in_order ts \<Longrightarrow> i < length ts \<Longrightarrow> ts ! i = (hs, p) \<Longrightarrow> distinct hs \<and> disciplined rank hs p"
  using nth_mem [of i ts] by (auto simp: in_order_def exclusive_def)

lemma lock_step_in_order: "lock_step ts us \<Longrightarrow> in_order ts \<Longrightarrow> in_order us"
proof (induction rule: lock_step.induct)
  case (wait i ts hs x p)
  have ok: "distinct hs" "disciplined rank hs (Wait x # p)" using in_order_nth [OF wait(4,1,2)] by simp_all
  have "x \<notin> set hs" using wait(1-3) nth_mem [of i ts] by (auto simp: held_def)
  then show ?case by (intro in_order_update [OF wait(4,1)]) (use ok wait(2,3) in auto)
next
  case (post i ts hs x p)
  have ok: "distinct hs" "disciplined rank hs (Post x # p)" using in_order_nth [OF post(3,1,2)] by simp_all
  then show ?case by (intro in_order_update [OF post(3,1)]) (use post(2) in \<open>auto dest: notin_set_remove1\<close>)
qed

lemma lock_steps_in_order: "(lock_step ^^ k) ts us \<Longrightarrow> in_order ts \<Longrightarrow> in_order us"
  by (induction k arbitrary: us) (auto dest: lock_step_in_order)

text \<open>Of the threads that wait for a lock another one holds, the one whose lock has the highest rank
would wait for a thread that waits for a still higher one.\<close>

lemma someone_steps:
  assumes "in_order ts" "\<exists>t \<in> set ts. t \<noteq> ([], [])"
  shows "\<exists>us. lock_step ts us"
proof (rule ccontr)
  assume none: "\<nexists>us. lock_step ts us"
  define waits where "waits = {x. \<exists>i < length ts. \<exists>hs p. ts ! i = (hs, Wait x # p)}"
  have fin: "finite waits"
  proof (rule finite_subset)
    show "waits \<subseteq> (\<lambda>i. case snd (ts ! i) of Wait x # p \<Rightarrow> x | _ \<Rightarrow> undefined) ` {..<length ts}"
      by (force simp: waits_def image_iff)
  qed simp
  have waiting: "\<exists>hs x p. ts ! i = (hs, Wait x # p) \<and> held ts x" if i: "i < length ts" "ts ! i \<noteq> ([], [])" for i
  proof -
    obtain hs q where t: "ts ! i = (hs, q)" by (cases "ts ! i")
    have "disciplined rank hs q" using in_order_nth [OF assms(1) i(1) t] by simp
    with i(2) t obtain o1 p where q: "q = o1 # p" by (cases q) auto
    show ?thesis
    proof (cases o1)
      case (Wait x)
      with none lock_step.wait [OF i(1)] t q show ?thesis by auto
    next
      case (Post x)
      with none lock_step.post [OF i(1)] t q show ?thesis by auto
    qed
  qed
  from assms(2) obtain i where "i < length ts" "ts ! i \<noteq> ([], [])" by (metis in_set_conv_nth)
  from waiting [OF this] this(1) have "waits \<noteq> {}" unfolding waits_def by blast
  with fin have "finite (rank ` waits)" "rank ` waits \<noteq> {}" by simp_all
  from Max_in [OF this] obtain x where x: "x \<in> waits" "rank x = Max (rank ` waits)" by (metis imageE)
  have above: "rank y \<le> rank x" if "y \<in> waits" for y
    unfolding x(2) by (rule Max_ge [OF finite_imageI [OF fin] imageI [OF that]])
  from x(1) obtain j hs p where j: "j < length ts" "ts ! j = (hs, Wait x # p)" unfolding waits_def by blast
  with waiting [of j] have "held ts x" by auto
  then obtain t where "t \<in> set ts" "x \<in> set (fst t)" unfolding held_def by blast
  then obtain a where a: "a < length ts" "x \<in> set (fst (ts ! a))" by (metis in_set_conv_nth)
  then have "ts ! a \<noteq> ([], [])" by auto
  from waiting [OF a(1) this] obtain hs' y p' where y: "ts ! a = (hs', Wait y # p')" by blast
  with in_order_nth [OF assms(1) a(1) y] a(2) have "rank x < rank y" by auto
  moreover have "y \<in> waits" using a(1) y unfolding waits_def by blast
  ultimately show False using above [of y] by simp
qed

lemma finished_or_steps:
  assumes "in_order ts"
  shows "(\<forall>t \<in> set ts. t = ([], [])) \<noteq> (\<exists>us. lock_step ts us)"
proof -
  have "\<not> lock_step ts us" if "\<forall>t \<in> set ts. t = ([], [])" for us
    using that by (auto elim!: lock_stepE dest!: nth_mem)
  with someone_steps [OF assms] show ?thesis by blast
qed

end

lemma lock_step_work: "lock_step ts us \<Longrightarrow> Suc (locks_work us) = locks_work ts"
proof (induction rule: lock_step.induct)
  case (wait i ts hs x p)
  from id_take_nth_drop [OF wait(1)] wait(2) have "ts = take i ts @ (hs, Wait x # p) # drop (Suc i) ts" by simp
  moreover have "ts[i := (x # hs, p)] = take i ts @ (x # hs, p) # drop (Suc i) ts" by (rule upd_conv_take_nth_drop [OF wait(1)])
  moreover have "Suc (locks_work (xs @ (x # hs, p) # ys)) = locks_work (xs @ (hs, Wait x # p) # ys)" for xs ys
    by (simp add: locks_work_def)
  ultimately show ?case by metis
next
  case (post i ts hs x p)
  from id_take_nth_drop [OF post(1)] post(2) have "ts = take i ts @ (hs, Post x # p) # drop (Suc i) ts" by simp
  moreover have "ts[i := (remove1 x hs, p)] = take i ts @ (remove1 x hs, p) # drop (Suc i) ts" by (rule upd_conv_take_nth_drop [OF post(1)])
  moreover have "Suc (locks_work (xs @ (remove1 x hs, p) # ys)) = locks_work (xs @ (hs, Post x # p) # ys)" for xs ys
    by (simp add: locks_work_def)
  ultimately show ?case by metis
qed

lemma lock_steps_work: "(lock_step ^^ k) ts us \<Longrightarrow> k + locks_work us = locks_work ts"
proof (induction k arbitrary: us)
  case (Suc k)
  then obtain b where "(lock_step ^^ k) ts b" "lock_step b us" by auto
  from Suc.IH [OF this(1)] lock_step_work [OF this(2)] show ?case by simp
qed simp

section \<open>The turns of the threads\<close>

text \<open>The leaves of a worker's sockets go by the first byte of the socket, those of the torrents by their path.\<close>

datatype lock = Socket_list nat | Socket_leaf nat nat | Torrent_leaf "nat list" | Websocket_list | Request_queue

fun lockRank :: "lock \<Rightarrow> nat" where
  "lockRank (Socket_list w) = 0"
| "lockRank (Socket_leaf w b) = 1"
| "lockRank (Torrent_leaf p) = 2"
| "lockRank Websocket_list = 3"
| "lockRank Request_queue = 4"

definition under :: "'l \<Rightarrow> 'l lock_op list \<Rightarrow> 'l lock_op list" where
  "under x p = Wait x # p @ [Post x]"

text \<open>An announce waits for its torrent, and broadcasts when a websocket is open; a scrape waits for its torrents in turn.\<close>

definition announceLocks :: "nat list \<Rightarrow> lock lock_op list" where
  "announceLocks p = under (Torrent_leaf p) []"

definition scrapeLocks :: "nat list list \<Rightarrow> lock lock_op list" where
  "scrapeLocks ps = concat (map (\<lambda>p. under (Torrent_leaf p) []) ps)"

definition broadcastLocks :: "bool \<Rightarrow> lock lock_op list" where
  "broadcastLocks someOpen = (if someOpen then under Websocket_list [] else [])"

text \<open>
  What processRead meets: nothing to read, a request that is not complete, an announce (with its
  leaf, unless it is malformed, and whether it is broadcast to an open websocket), a scrape, a
  handshake (and whether it is accepted), any other request.
\<close>

datatype reading = No_request | Unfinished | Announce "nat list option" bool | Scrape "nat list list" | Handshake bool | Other_request

fun processReadLocks :: "reading \<Rightarrow> lock lock_op list" where
  "processReadLocks No_request = []"
| "processReadLocks Unfinished = under Websocket_list []"
| "processReadLocks (Announce leaf someOpen) = under Websocket_list [] @
     (case leaf of None \<Rightarrow> [] | Some p \<Rightarrow> announceLocks p) @ broadcastLocks someOpen"
| "processReadLocks (Scrape ps) = under Websocket_list [] @ scrapeLocks ps"
| "processReadLocks (Handshake accepted) = under Websocket_list [] @ (if accepted then under Websocket_list [] else [])"
| "processReadLocks Other_request = under Websocket_list []"

text \<open>The turn of the worker: its list for the whole turn, each event under the leaf of its socket,
then the sockets that are deleted.\<close>

definition tcpTurnLocks :: "nat \<Rightarrow> (nat \<times> reading) list \<Rightarrow> nat list \<Rightarrow> lock lock_op list" where
  "tcpTurnLocks w events deleted = under (Socket_list w)
     (concat (map (\<lambda>(b, r). under (Socket_leaf w b) (processReadLocks r)) events) @
      concat (map (\<lambda>b. under (Socket_leaf w b) [] @ under Websocket_list []) deleted))"

text \<open>The collector of connections, at each leaf that is not empty with the number of sockets it closes there.\<close>

definition socketCollectorLocks :: "nat \<Rightarrow> (nat \<times> nat) list \<Rightarrow> lock lock_op list" where
  "socketCollectorLocks w leaves = under (Socket_list w)
     (concat (map (\<lambda>(b, n). under (Socket_leaf w b) (concat (replicate n (under Websocket_list [])))) leaves))"

datatype datagram_kind = Empty_queue | Udp_announce "nat list" bool | Udp_scrape "nat list list" | Udp_other

fun udpTurnLocks :: "datagram_kind \<Rightarrow> lock lock_op list" where
  "udpTurnLocks Empty_queue = under Request_queue []"
| "udpTurnLocks (Udp_announce p someOpen) = under Request_queue [] @ announceLocks p @ broadcastLocks someOpen"
| "udpTurnLocks (Udp_scrape ps) = under Request_queue [] @ scrapeLocks ps"
| "udpTurnLocks Udp_other = under Request_queue []"

datatype turn = Tcp_turn nat "(nat \<times> reading) list" "nat list" | Socket_collector nat "(nat \<times> nat) list" | Udp_turn datagram_kind
  | Accept nat nat | Receive | Garbage_pass "nat list list"

fun turnLocks :: "turn \<Rightarrow> lock lock_op list" where
  "turnLocks (Tcp_turn w events deleted) = tcpTurnLocks w events deleted"
| "turnLocks (Socket_collector w leaves) = socketCollectorLocks w leaves"
| "turnLocks (Udp_turn d) = udpTurnLocks d"
| "turnLocks (Accept w b) = under (Socket_leaf w b) []"
| "turnLocks Receive = under Request_queue []"
| "turnLocks (Garbage_pass leaves) = concat (map (\<lambda>p. under (Torrent_leaf p) []) leaves)"

section \<open>The turns take the locks in order\<close>

text \<open>A piece that comes back to the locks it started with.\<close>

definition balanced :: "lock list \<Rightarrow> lock lock_op list \<Rightarrow> bool" where
  "balanced hs p \<longleftrightarrow> (\<forall>q. disciplined lockRank hs q \<longrightarrow> disciplined lockRank hs (p @ q))"

named_theorems balanced_intros \<open>the pieces of a turn are balanced\<close>

lemma balanced_Nil [balanced_intros]: "balanced hs []"
  by (simp add: balanced_def)

lemma balanced_append [balanced_intros]: "balanced hs p \<Longrightarrow> balanced hs q \<Longrightarrow> balanced hs (p @ q)"
  by (simp add: balanced_def)

lemma balanced_concat [balanced_intros]: "(\<And>p. p \<in> set ps \<Longrightarrow> balanced hs p) \<Longrightarrow> balanced hs (concat ps)"
  by (induction ps) (auto intro: balanced_intros)

lemma balanced_under [balanced_intros]: "\<forall>h \<in> set hs. lockRank h < lockRank x \<Longrightarrow> balanced (x # hs) p \<Longrightarrow> balanced hs (under x p)"
  by (simp add: balanced_def under_def)

lemma balanced_turn: "balanced [] (turnLocks t)"
proof (cases t)
  case (Tcp_turn w events deleted)
  have "balanced [Socket_leaf w b, Socket_list w] (processReadLocks r)" for b r
    by (cases r) (auto simp: announceLocks_def scrapeLocks_def broadcastLocks_def split: option.split intro!: balanced_intros)
  then show ?thesis by (auto simp: Tcp_turn tcpTurnLocks_def intro!: balanced_intros)
next
  case (Udp_turn d)
  then show ?thesis by (cases d) (auto simp: announceLocks_def scrapeLocks_def broadcastLocks_def intro!: balanced_intros)
qed (auto simp: socketCollectorLocks_def intro!: balanced_intros)

interpretation tl: ranked_turns lockRank turnLocks
proof
  show "disciplined lockRank [] (turnLocks t)" for t
    using balanced_turn [of t] by (auto simp: balanced_def dest: spec [of _ "[]"])
qed

section \<open>Properties\<close>

text \<open>C16: The threads never wait for each other in a circle: whatever turns any number of threads make,
in whatever order their waits and posts come, no semaphore is ever held twice, some thread can go on as
long as one has a wait or a post to make, and after as many steps as the turns have waits and posts
all of them have been made and no semaphore is held.\<close>

theorem locks_never_deadlock:
  assumes "(lock_step ^^ k) (map (\<lambda>turns. ([], concat (map turnLocks turns))) programs) ts"
  shows "exclusive ts \<and> k + locks_work ts = locks_work (map (\<lambda>turns. ([], concat (map turnLocks turns))) programs) \<and>
    (\<forall>t \<in> set ts. t = ([], [])) \<noteq> (\<exists>us. lock_step ts us)"
proof (intro conjI)
  have ok: "tl.in_order ts" by (rule tl.lock_steps_in_order [OF assms tl.in_order_start])
  then show "exclusive ts" by (simp add: tl.in_order_def)
  show "k + locks_work ts = locks_work (map (\<lambda>turns. ([], concat (map turnLocks turns))) programs)"
    by (rule lock_steps_work [OF assms])
  show "(\<forall>t \<in> set ts. t = ([], [])) \<noteq> (\<exists>us. lock_step ts us)" by (rule tl.finished_or_steps [OF ok])
qed

lemma first_waits: "\<not> held ((hs, Wait x # p) # ts) x \<Longrightarrow> lock_step ((hs, Wait x # p) # ts) ((x # hs, p) # ts)"
  using lock_step.wait [of 0 "(hs, Wait x # p) # ts"] by simp

theorem locks_never_deadlock_witness:
  "\<exists>us. lock_step [([Websocket_list, Socket_leaf 0 5, Socket_list 0], [Post Websocket_list, Post (Socket_leaf 0 5), Post (Socket_list 0)]),
     ([], turnLocks (Udp_turn (Udp_announce [1, 2] True)))] us"
proof -
  let ?p = "[[Tcp_turn 0 [(5, Unfinished)] []], [Udp_turn (Udp_announce [1, 2] True)]]"
  let ?w = "\<lambda>hs p. [(hs, p), ([], turnLocks (Udp_turn (Udp_announce [1, 2] True)))]"
  let ?s = "map (\<lambda>turns. ([], concat (map turnLocks turns))) ?p"
  let ?r = "[Post Websocket_list, Post (Socket_leaf 0 5), Post (Socket_list 0)]"
  have start: "?s = ?w [] (Wait (Socket_list 0) # Wait (Socket_leaf 0 5) # Wait Websocket_list # ?r)"
    by (simp add: tcpTurnLocks_def under_def)
  have "lock_step ?s (?w [Socket_list 0] (Wait (Socket_leaf 0 5) # Wait Websocket_list # ?r))"
    unfolding start by (rule first_waits) (simp add: held_def)
  moreover have "lock_step (?w [Socket_list 0] (Wait (Socket_leaf 0 5) # Wait Websocket_list # ?r))
      (?w [Socket_leaf 0 5, Socket_list 0] (Wait Websocket_list # ?r))"
    by (rule first_waits) (simp add: held_def)
  moreover have "lock_step (?w [Socket_leaf 0 5, Socket_list 0] (Wait Websocket_list # ?r)) (?w [Websocket_list, Socket_leaf 0 5, Socket_list 0] ?r)"
    by (rule first_waits) (simp add: held_def)
  ultimately have "(lock_step ^^ Suc (Suc (Suc 0))) ?s (?w [Websocket_list, Socket_leaf 0 5, Socket_list 0] ?r)"
    by (intro relpowp_Suc_I [OF relpowp_Suc_I [OF relpowp_Suc_I [OF relpowp_0_I]]])
  note r = locks_never_deadlock [OF this]
  have "\<not> (\<forall>t \<in> set (?w [Websocket_list, Socket_leaf 0 5, Socket_list 0] ?r). t = ([], []))" by simp
  with r show ?thesis by blast
qed

end
