(* ===== verification/Semaphore.thy ===== *)
theory Semaphore
  imports Lock_Order
begin

text \<open>
  The semaphores (sem.c, on Linux): the wrappers of sem\_init, sem\_wait, sem\_post and sem\_destroy
  over the value of a semaphore, and the threads of Lock\_Order on semaphores of this kind. A semaphore
  that starts with the value 1 is a lock: the runs of the threads are those of Lock\_Order.
\<close>

section \<open>sem.c\<close>

definition EXIT_CODE_SEMAPHORE_INIT :: nat where "EXIT_CODE_SEMAPHORE_INIT = 230"
definition EXIT_CODE_SEMAPHORE_POST :: nat where "EXIT_CODE_SEMAPHORE_POST = 229"
definition EXIT_CODE_SEMAPHORE_DESTROY :: nat where "EXIT_CODE_SEMAPHORE_DESTROY = 228"

text \<open>The limit of the values on Linux, and the number of the error of an interrupted call.\<close>

definition SEM_VALUE_MAX :: nat where "SEM_VALUE_MAX = 2147483647"
definition EINTR :: nat where "EINTR = 4"

text \<open>sem\_init refuses a value above the limit, sem\_post a semaphore at the limit.\<close>

definition rk_sema_init :: "u32 \<Rightarrow> nat res" where
  "rk_sema_init value = (if unat value \<le> SEM_VALUE_MAX then Inr (unat value) else Inl (Exit EXIT_CODE_SEMAPHORE_INIT))"

definition rk_sema_post :: "nat \<Rightarrow> nat res" where
  "rk_sema_post v = (if v < SEM_VALUE_MAX then Inr (v + 1) else Inl (Exit EXIT_CODE_SEMAPHORE_POST))"

text \<open>What sem\_destroy returns is an input; nothing of the semaphore is left.\<close>

definition rk_sema_destroy :: "int \<Rightarrow> unit res" where
  "rk_sema_destroy r = (if r \<noteq> 0 then Inl (Exit EXIT_CODE_SEMAPHORE_DESTROY) else Inr ())"

text \<open>
  The returns of sem\_wait, one for each turn of the loop: it has taken one off the value, or it
  fails with an errno (the one the condition of the loop reads). None: the last call has not
  returned yet; sem\_wait does not return with 0 while the value is 0.
\<close>

datatype wait_return = Taken | Errno nat

fun rk_sema_wait :: "wait_return list \<Rightarrow> nat \<Rightarrow> nat option" where
  "rk_sema_wait [] v = None"
| "rk_sema_wait (Taken # rs) v = (if v = 0 then None else Some (v - 1))"
| "rk_sema_wait (Errno e # rs) v = (if e = EINTR then rk_sema_wait rs v else Some v)"

text \<open>The only errors are interruptions.\<close>

definition interruptions :: "wait_return list \<Rightarrow> bool" where
  "interruptions rs \<longleftrightarrow> (\<forall>r \<in> set rs. r = Taken \<or> r = Errno EINTR)"

lemma rk_sema_wait_takes: "interruptions rs \<Longrightarrow> rk_sema_wait rs v = Some n \<Longrightarrow> v = Suc n"
  by (induction rs v rule: rk_sema_wait.induct) (auto simp: interruptions_def split: if_splits)

lemma rk_sema_wait_returns: "rk_sema_wait (replicate k (Errno EINTR) @ [Taken]) (Suc n) = Some n"
  by (induction k) auto

text \<open>Any other error ends the loop as if the semaphore had been taken.\<close>

lemma rk_sema_wait_gives_up: "e \<noteq> EINTR \<Longrightarrow> rk_sema_wait (replicate k (Errno EINTR) @ Errno e # rs) v = Some v"
  by (induction k) auto

section \<open>Threads on semaphores\<close>

text \<open>The values of the semaphores, and the threads with what they hold and have to do.\<close>

inductive sem_step :: "('l \<Rightarrow> nat) \<times> 'l locker list \<Rightarrow> ('l \<Rightarrow> nat) \<times> 'l locker list \<Rightarrow> bool" where
  sem_wait: "i < length ts \<Longrightarrow> ts ! i = (hs, Wait x # p) \<Longrightarrow> interruptions rs \<Longrightarrow> rk_sema_wait rs (v x) = Some n \<Longrightarrow>
    sem_step (v, ts) (v(x := n), ts[i := (x # hs, p)])"
| sem_post: "i < length ts \<Longrightarrow> ts ! i = (hs, Post x # p) \<Longrightarrow> rk_sema_post (v x) = Inr n \<Longrightarrow>
    sem_step (v, ts) (v(x := n), ts[i := (remove1 x hs, p)])"

inductive_cases sem_stepE: "sem_step (v, ts) c"

text \<open>The value is 0 for a semaphore that is held and 1 for the others.\<close>

definition lock_values :: "'l locker list \<Rightarrow> 'l \<Rightarrow> nat" where
  "lock_values ts x = (if held ts x then 0 else 1)"

lemma held_nth: "held ts y \<longleftrightarrow> (\<exists>j < length ts. y \<in> set (fst (ts ! j)))"
  unfolding held_def by (metis in_set_conv_nth)

lemma held_split: "i < length ts \<Longrightarrow> held ts y \<longleftrightarrow> y \<in> set (fst (ts ! i)) \<or> (\<exists>j < length ts. j \<noteq> i \<and> y \<in> set (fst (ts ! j)))"
  unfolding held_nth by metis

lemma held_update:
  assumes "i < length ts"
  shows "held (ts[i := (hs, p)]) y \<longleftrightarrow> y \<in> set hs \<or> (\<exists>j < length ts. j \<noteq> i \<and> y \<in> set (fst (ts ! j)))"
proof -
  have "held (ts[i := (hs, p)]) y \<longleftrightarrow> y \<in> set (fst (ts[i := (hs, p)] ! i)) \<or>
    (\<exists>j < length ts. j \<noteq> i \<and> y \<in> set (fst (ts[i := (hs, p)] ! j)))" using held_split [of i "ts[i := (hs, p)]" y] assms by simp
  with assms show ?thesis by (simp cong: conj_cong)
qed

lemma lock_values_wait:
  assumes "i < length ts" "ts ! i = (hs, Wait x # p)"
  shows "lock_values (ts[i := (x # hs, p)]) = (lock_values ts)(x := 0)"
  using assms by (auto simp: lock_values_def held_update held_split [OF assms(1)] fun_eq_iff)

lemma lock_values_post:
  assumes "exclusive ts" "i < length ts" "ts ! i = (hs, Post x # p)" "x \<in> set hs"
  shows "lock_values (ts[i := (remove1 x hs, p)]) = (lock_values ts)(x := 1)"
proof -
  have "distinct (fst (ts ! i))" using assms(1,2) nth_mem [of i ts] unfolding exclusive_def by blast
  then have "distinct hs" using assms(3) by simp
  moreover have "x \<notin> set (fst (ts ! j))" if "j < length ts" "j \<noteq> i" for j
    using assms that unfolding exclusive_def by (metis fst_conv)
  ultimately show ?thesis
    using assms(2,3) by (auto simp: lock_values_def held_update held_split [OF assms(2)] fun_eq_iff)
qed

context ranked_turns
begin

lemma post_held: "in_order ts \<Longrightarrow> i < length ts \<Longrightarrow> ts ! i = (hs, Post x # p) \<Longrightarrow> x \<in> set hs \<and> held ts x"
  using in_order_nth [of ts i hs "Post x # p"] nth_mem [of i ts] by (force simp: held_def)

lemma sem_step_locks:
  assumes "sem_step (v, ts) (w, us)" "in_order ts" "v = lock_values ts"
  shows "lock_step ts us \<and> w = lock_values us"
  using assms(1)
proof (cases rule: sem_step.cases)
  case (sem_wait i hs x p rs n)
  from rk_sema_wait_takes [OF sem_wait(5,6)] assms(3) have "\<not> held ts x" "n = 0"
    by (simp_all add: lock_values_def split: if_splits)
  with sem_wait(1-4) lock_step.wait [OF sem_wait(3,4)] lock_values_wait [OF sem_wait(3,4)] assms(3) show ?thesis by simp
next
  case (sem_post i hs x p n)
  note h = post_held [OF assms(2) sem_post(3,4)]
  have ex: "exclusive ts" using assms(2) by (simp add: in_order_def)
  have "n = 1" using sem_post(5) h assms(3) by (simp add: lock_values_def rk_sema_post_def split: if_splits)
  with sem_post(1-4) lock_step.post [OF sem_post(3,4)] lock_values_post [OF ex sem_post(3,4)] h assms(3)
  show ?thesis by simp
qed

lemma lock_step_sems:
  assumes "lock_step ts us" "in_order ts"
  shows "sem_step (lock_values ts, ts) (lock_values us, us)"
  using assms(1)
proof (cases rule: lock_step.cases)
  case (wait i hs x p)
  have t: "interruptions [Taken]" "rk_sema_wait [Taken] (lock_values ts x) = Some 0"
    using wait(4) by (simp_all add: lock_values_def interruptions_def)
  show ?thesis
    unfolding wait(1) lock_values_wait [OF wait(2,3)] by (rule sem_step.sem_wait [where v = "lock_values ts", OF wait(2,3) t])
next
  case (post i hs x p)
  note h = post_held [OF assms(2) post(2,3)]
  have ex: "exclusive ts" using assms(2) by (simp add: in_order_def)
  have "rk_sema_post (lock_values ts x) = Inr 1" using h by (simp add: lock_values_def rk_sema_post_def SEM_VALUE_MAX_def)
  note r = this
  show ?thesis
    unfolding post(1) lock_values_post [OF ex post(2,3) conjunct1 [OF h]] by (rule sem_step.sem_post [where v = "lock_values ts", OF post(2,3) r])
qed

lemma sem_steps_locks:
  "(sem_step ^^ k) (lock_values ts, ts) c \<Longrightarrow> in_order ts \<Longrightarrow>
   (lock_step ^^ k) ts (snd c) \<and> fst c = lock_values (snd c) \<and> in_order (snd c)"
proof (induction k arbitrary: c)
  case (Suc k)
  from Suc.prems(1) obtain b where s: "(sem_step ^^ k) (lock_values ts, ts) b" "sem_step b c" by (rule relpowp_Suc_E)
  from Suc.IH [OF s(1) Suc.prems(2)] have ih: "(lock_step ^^ k) ts (snd b)" "fst b = lock_values (snd b)" "in_order (snd b)" by simp_all
  from s(2) have "sem_step (fst b, snd b) (fst c, snd c)" by simp
  from sem_step_locks [OF this ih(3,2)] have l: "lock_step (snd b) (snd c)" "fst c = lock_values (snd c)" by simp_all
  show ?case by (intro conjI relpowp_Suc_I [OF ih(1) l(1)] l(2) lock_step_in_order [OF l(1) ih(3)])
qed simp

end

lemma lock_values_start: "lock_values (map (\<lambda>ts. ([], f ts)) programs) = (\<lambda>_. 1)"
  by (auto simp: lock_values_def held_def fun_eq_iff)

section \<open>Properties\<close>

text \<open>C17: Semaphores that start with 1 are locks, with interrupted waits and all: a run of any number
of threads over them is a run over locks of the same length, every value is 0 while its semaphore is held
and 1 otherwise, no post fails, and as long as a thread has something to do some thread can go on.\<close>

theorem semaphores_are_locks:
  assumes "rk_sema_init 1 = Inr n" "start = map (\<lambda>turns. ([], concat (map turnLocks turns))) programs"
    "(sem_step ^^ k) (\<lambda>_. n, start) (v, ts)"
  shows "(lock_step ^^ k) start ts \<and> (\<forall>x. v x = (if held ts x then 0 else 1)) \<and>
    (\<forall>i < length ts. \<forall>hs x p. ts ! i = (hs, Post x # p) \<longrightarrow> rk_sema_post (v x) = Inr 1) \<and>
    (\<forall>t \<in> set ts. t = ([], [])) \<noteq> (\<exists>c. sem_step (v, ts) c)"
proof -
  have "n = 1" using assms(1) by (simp add: rk_sema_init_def SEM_VALUE_MAX_def)
  then have "(sem_step ^^ k) (lock_values start, start) (v, ts)" using assms(2,3) by (simp add: lock_values_start)
  from tl.sem_steps_locks [OF this] have r: "(lock_step ^^ k) start ts" "v = lock_values ts" "tl.in_order ts"
    using tl.in_order_start [of programs] assms(2) by simp_all
  have "(\<exists>c. sem_step (v, ts) c) \<longleftrightarrow> (\<exists>us. lock_step ts us)"
  proof
    assume "\<exists>c. sem_step (v, ts) c"
    then obtain w us where "sem_step (v, ts) (w, us)" by (metis surj_pair)
    from tl.sem_step_locks [OF this r(3,2)] show "\<exists>us. lock_step ts us" by blast
  next
    assume "\<exists>us. lock_step ts us"
    then obtain us where "lock_step ts us" by blast
    from tl.lock_step_sems [OF this r(3)] show "\<exists>c. sem_step (v, ts) c" unfolding r(2) by blast
  qed
  moreover have "(\<forall>t \<in> set ts. t = ([], [])) \<noteq> (\<exists>us. lock_step ts us)" by (rule tl.finished_or_steps [OF r(3)])
  moreover have "rk_sema_post (v x) = Inr 1" if "i < length ts" "ts ! i = (hs, Post x # p)" for i hs x p
    using tl.post_held [OF r(3) that] by (simp add: r(2) lock_values_def rk_sema_post_def SEM_VALUE_MAX_def)
  ultimately show ?thesis using r(1,2) by (auto simp: lock_values_def)
qed

theorem semaphores_are_locks_witness:
  "\<exists>c. sem_step ((\<lambda>_. 1)(Request_queue := 0), [([Request_queue], [Post Request_queue]), ([], [Wait Request_queue, Post Request_queue])]) c"
proof -
  let ?ops = "[Wait Request_queue, Post Request_queue]"
  let ?c = "((\<lambda>_. 1)(Request_queue := 0), [([Request_queue], [Post Request_queue]), ([], ?ops)])"
  have init: "rk_sema_init 1 = Inr 1" by (simp add: rk_sema_init_def SEM_VALUE_MAX_def)
  have start: "[([], ?ops), ([], ?ops)] = map (\<lambda>turns. ([], concat (map turnLocks turns))) [[Receive], [Udp_turn Empty_queue]]"
    by (simp add: under_def)
  have w: "interruptions [Errno EINTR, Taken]" "rk_sema_wait [Errno EINTR, Taken] 1 = Some 0" by (simp_all add: interruptions_def)
  have "sem_step (\<lambda>_. 1, [([], ?ops), ([], ?ops)]) ?c"
    using sem_step.sem_wait [where v = "\<lambda>_. 1" and i = 0 and ts = "[([], ?ops), ([], ?ops)]", OF _ _ w] by simp
  then have "(sem_step ^^ Suc 0) (\<lambda>_. 1, [([], ?ops), ([], ?ops)]) ?c" by (rule relpowp_Suc_I [OF relpowp_0_I])
  from semaphores_are_locks [OF init start this] show ?thesis by auto
qed

end
