(* ===== verification/Memory.thy ===== *)
theory Memory
  imports Block_Buffer Stats_Page
begin

text \<open>
  The memory the program takes and gives back (alloc.c): the counters the statistics page shows, and
  the blocks of memory that are in use. What malloc, calloc and realloc return is an input (None for
  NULL): an address that is not in use. The lifetime of a block of block.c over these calls. The
  semaphore of the counters is switched off (ALLOC\_STRICT\_MEMORY\_ENABLE), the counters are atomic.
\<close>

section \<open>alloc.c\<close>

type_synonym address = nat

record memory =
  y_malloc :: u64
  y_calloc :: u64
  y_free :: u64
  y_live :: "address set"

definition memory0 :: memory where
  "memory0 = \<lparr>y_malloc = 0, y_calloc = 0, y_free = 0, y_live = {}\<rparr>"

definition taken :: "address option \<Rightarrow> memory \<Rightarrow> memory" where
  "taken answer m = (case answer of None \<Rightarrow> m | Some a \<Rightarrow> m\<lparr>y_live := insert a (y_live m)\<rparr>)"

definition c_malloc :: "address option \<Rightarrow> memory \<Rightarrow> memory" where
  "c_malloc answer m = taken answer (m\<lparr>y_malloc := y_malloc m + 1\<rparr>)"

definition c_calloc :: "address option \<Rightarrow> memory \<Rightarrow> memory" where
  "c_calloc answer m = taken answer (m\<lparr>y_calloc := y_calloc m + 1\<rparr>)"

text \<open>free(NULL) does nothing; an address that is not in use must not be freed.\<close>

definition c_free :: "address option \<Rightarrow> memory \<Rightarrow> memory res" where
  "c_free pointer m =
     (let m1 = m\<lparr>y_free := y_free m + 1\<rparr> in
      case pointer of
        None \<Rightarrow> Inr m1
      | Some a \<Rightarrow> if a \<in> y_live m then Inr (m1\<lparr>y_live := y_live m - {a}\<rparr>) else Inl Out_of_bounds)"

text \<open>A realloc that fails leaves the old memory as it is, and still in use.\<close>

definition c_realloc :: "address option \<Rightarrow> address option \<Rightarrow> memory \<Rightarrow> memory res" where
  "c_realloc answer pointer m =
     (case pointer of
        None \<Rightarrow> Inr (taken answer m)
      | Some a \<Rightarrow>
          if a \<notin> y_live m then Inl Out_of_bounds
          else (case answer of None \<Rightarrow> Inr m | Some b \<Rightarrow> Inr (m\<lparr>y_live := insert b (y_live m - {a})\<rparr>)))"

text \<open>A call with its argument and the answer of the system.\<close>

datatype mem_call = Malloc "address option" | Calloc "address option" | Free "address option" | Realloc "address option" "address option"

fun memCall :: "memory \<Rightarrow> mem_call \<Rightarrow> memory res" where
  "memCall m (Malloc answer) = Inr (c_malloc answer m)"
| "memCall m (Calloc answer) = Inr (c_calloc answer m)"
| "memCall m (Free pointer) = c_free pointer m"
| "memCall m (Realloc answer pointer) = c_realloc answer pointer m"

text \<open>The system gives no address that is in use (realloc may give the one it was called with).\<close>

fun fresh_answer :: "memory \<Rightarrow> mem_call \<Rightarrow> bool" where
  "fresh_answer m (Malloc answer) \<longleftrightarrow> answer \<notin> Some ` y_live m"
| "fresh_answer m (Calloc answer) \<longleftrightarrow> answer \<notin> Some ` y_live m"
| "fresh_answer m (Free pointer) \<longleftrightarrow> True"
| "fresh_answer m (Realloc answer pointer) \<longleftrightarrow> answer = None \<or> answer = pointer \<or> answer \<notin> Some ` y_live m"

inductive mem_run :: "memory \<Rightarrow> mem_call list \<Rightarrow> memory \<Rightarrow> bool" where
  mem_Nil: "mem_run m [] m"
| mem_Cons: "fresh_answer m c \<Longrightarrow> memCall m c = Inr m1 \<Longrightarrow> mem_run m1 cs m2 \<Longrightarrow> mem_run m (c # cs) m2"

inductive_simps mem_run_simps [simp]: "mem_run m [] m'" "mem_run m (c # cs) m'"

lemma mem_run_append: "mem_run m (cs @ ds) m2 \<longleftrightarrow> (\<exists>m1. mem_run m cs m1 \<and> mem_run m1 ds m2)"
  by (induction cs arbitrary: m) auto

section \<open>The counters\<close>

text \<open>What a call counts without a block in use for it, or the other way round: an allocation that
fails, a free of NULL, a realloc of NULL.\<close>

fun miscount :: "mem_call \<Rightarrow> int" where
  "miscount (Malloc answer) = (if answer = None then 1 else 0)"
| "miscount (Calloc answer) = (if answer = None then 1 else 0)"
| "miscount (Free pointer) = (if pointer = None then - 1 else 0)"
| "miscount (Realloc answer pointer) = (if pointer = None \<and> answer \<noteq> None then - 1 else 0)"

definition counted :: "memory \<Rightarrow> u64" where
  "counted m = y_malloc m + y_calloc m - y_free m"

lemma card_replace: "finite A \<Longrightarrow> a \<in> A \<Longrightarrow> b = a \<or> b \<notin> A \<Longrightarrow> card (insert b (A - {a})) = card A"
  using card_Suc_Diff1 [of A a] card_insert_disjoint [of "A - {a}" b] by (cases "b = a") (simp_all add: insert_absorb del: card_Diff_insert card_Diff_singleton)

lemma memCall_counts:
  assumes "finite (y_live m)" "fresh_answer m c" "memCall m c = Inr m1"
  shows "finite (y_live m1) \<and> counted m1 = counted m + of_int (int (card (y_live m1)) - int (card (y_live m)) + miscount c)"
proof (cases c)
  case (Malloc a)
  then show ?thesis using assms by (cases a) (auto simp: c_malloc_def taken_def counted_def image_iff)
next
  case (Calloc a)
  then show ?thesis using assms by (cases a) (auto simp: c_calloc_def taken_def counted_def image_iff)
next
  case (Free p)
  show ?thesis
  proof (cases p)
    case None
    then show ?thesis using assms Free by (auto simp: c_free_def counted_def Let_def)
  next
    case (Some a)
    with assms Free have a: "a \<in> y_live m" "m1 = m\<lparr>y_free := y_free m + 1, y_live := y_live m - {a}\<rparr>"
      by (simp_all add: c_free_def Let_def split: if_splits)
    have "int (card (y_live m - {a})) = int (card (y_live m)) - 1"
      using card_Suc_Diff1 [OF assms(1) a(1)] by linarith
    then show ?thesis using assms(1) Free Some by (simp add: a(2) counted_def)
  qed
next
  case (Realloc a p)
  show ?thesis
  proof (cases p)
    case None
    then show ?thesis using assms Realloc by (cases a) (auto simp: c_realloc_def taken_def counted_def image_iff)
  next
    case (Some q)
    show ?thesis
    proof (cases a)
      case None
      then show ?thesis using assms Realloc Some by (auto simp: c_realloc_def split: if_splits)
    next
      case b: (Some b)
      have r: "q \<in> y_live m" "m1 = m\<lparr>y_live := insert b (y_live m - {q})\<rparr>"
        using assms(3) by (simp_all add: Realloc Some b c_realloc_def split: if_splits)
      have "b = q \<or> b \<notin> y_live m" using assms(2) by (auto simp: Realloc Some b)
      from card_replace [OF assms(1) r(1) this] have "card (y_live m1) = card (y_live m)" by (simp add: r(2))
      then show ?thesis using assms(1) by (simp add: Realloc Some r(2) counted_def)
    qed
  qed
qed

lemma mem_run_counts:
  "mem_run m cs m2 \<Longrightarrow> finite (y_live m) \<Longrightarrow>
   counted m2 = counted m + of_int (int (card (y_live m2)) - int (card (y_live m)) + sum_list (map miscount cs))"
proof (induction m cs m2 rule: mem_run.induct)
  case (mem_Cons m c m1 cs m2)
  note c = memCall_counts [OF mem_Cons(5,1,2)]
  with mem_Cons(4) show ?case by simp
qed simp

section \<open>The lifetime of a block of block.c\<close>

text \<open>The addresses of a block: its record and its data.\<close>

definition initBlockCalls :: "address \<Rightarrow> address \<Rightarrow> mem_call list" where
  "initBlockCalls block data = [Calloc (Some block), Malloc (Some data)]"

text \<open>Every growth gives the data a new address.\<close>

fun growCalls :: "address \<Rightarrow> address list \<Rightarrow> mem_call list \<times> address" where
  "growCalls data [] = ([], data)"
| "growCalls data (a # as) = (case growCalls a as of (cs, d1) \<Rightarrow> (Realloc (Some a) (Some data) # cs, d1))"

definition freeBlock :: "(address \<times> address) option \<Rightarrow> mem_call list" where
  "freeBlock p = (case p of None \<Rightarrow> [] | Some (block, data) \<Rightarrow> [Free (Some data), Free (Some block)])"

definition blockLife :: "address \<Rightarrow> address \<Rightarrow> address list \<Rightarrow> mem_call list" where
  "blockLife block data grown =
     (case growCalls data grown of (cs, d1) \<Rightarrow> initBlockCalls block data @ cs @ freeBlock (Some (block, d1)))"

text \<open>The answers are fresh: no address in use, and none that the block already has.\<close>

fun fresh_block :: "address set \<Rightarrow> address \<Rightarrow> address \<Rightarrow> address list \<Rightarrow> bool" where
  "fresh_block L block data [] \<longleftrightarrow> block \<notin> L \<and> data \<notin> L \<and> block \<noteq> data"
| "fresh_block L block data (a # as) \<longleftrightarrow> block \<notin> L \<and> data \<notin> L \<and> block \<noteq> data \<and> fresh_block L block a as"

lemma growCalls_run:
  assumes "y_live m = insert data (insert block L)" "fresh_block L block data grown" "growCalls data grown = (cs, d1)"
  shows "mem_run m cs (m\<lparr>y_live := insert d1 (insert block L)\<rparr>) \<and> d1 \<notin> L \<and> d1 \<noteq> block"
  using assms
proof (induction grown arbitrary: m data cs)
  case (Cons a as)
  obtain cs' where cs: "growCalls a as = (cs', d1)" "cs = Realloc (Some a) (Some data) # cs'"
    using Cons.prems(3) by (auto split: prod.splits)
  let ?m = "m\<lparr>y_live := insert a (insert block L)\<rparr>"
  have "fresh_block L block a as" using Cons.prems(2) by simp
  moreover from this have "a \<notin> L" "a \<noteq> block" by (cases as; auto)+
  moreover have "insert data (insert block L) - {data} = insert block L" using Cons.prems(2) by auto
  ultimately have "memCall m (Realloc (Some a) (Some data)) = Inr ?m" "fresh_answer m (Realloc (Some a) (Some data))"
    using Cons.prems(1) by (auto simp: c_realloc_def image_iff)
  moreover have "mem_run ?m cs' (?m\<lparr>y_live := insert d1 (insert block L)\<rparr>) \<and> d1 \<notin> L \<and> d1 \<noteq> block"
    by (rule Cons.IH [OF _ \<open>fresh_block L block a as\<close> cs(1)]) simp
  ultimately show ?case by (auto simp: cs(2))
qed auto

lemma block_life:
  assumes "fresh_block (y_live m) block data grown"
  shows "\<exists>m'. mem_run m (blockLife block data grown) m' \<and> y_live m' = y_live m \<and> counted m' = counted m"
proof -
  let ?L = "y_live m"
  obtain cs d1 where g: "growCalls data grown = (cs, d1)" by (cases "growCalls data grown")
  have f: "block \<notin> ?L" "data \<notin> ?L" "block \<noteq> data" using assms by (cases grown; auto)+
  let ?m1 = "c_malloc (Some data) (c_calloc (Some block) m)"
  have m1: "y_live ?m1 = insert data (insert block ?L)" by (simp add: c_malloc_def c_calloc_def taken_def)
  let ?m2 = "?m1\<lparr>y_live := insert d1 (insert block ?L)\<rparr>"
  from growCalls_run [OF m1 assms g] have m2: "mem_run ?m1 cs ?m2" "d1 \<notin> ?L" "d1 \<noteq> block" by simp_all
  let ?m3 = "?m2\<lparr>y_free := y_free ?m2 + 1 + 1, y_live := ?L\<rparr>"
  have d: "insert d1 (insert block ?L) - {d1} = insert block ?L" "insert block ?L - {block} = ?L"
    "insert d1 (insert block ?L) - {d1} - {block} = ?L" using m2 f by auto
  have "mem_run m (initBlockCalls block data) ?m1"
    using f by (simp add: initBlockCalls_def image_iff) (simp add: c_calloc_def taken_def)
  moreover have "mem_run ?m2 (freeBlock (Some (block, d1))) ?m3"
    by (simp add: freeBlock_def c_free_def Let_def d)
  ultimately have "mem_run m (blockLife block data grown) ?m3"
    using m2(1) unfolding blockLife_def g prod.case mem_run_append by blast
  moreover have "counted ?m3 = counted m" by (simp add: counted_def c_malloc_def c_calloc_def taken_def)
  ultimately show ?thesis by fastforce
qed

section \<open>Properties\<close>

text \<open>C22: The row of the statistics page that subtracts the frees from the allocations is the number of
blocks of memory in use, apart from the calls that are counted without one: it is too high by one for
every allocation that failed and too low by one for every free of NULL.\<close>

theorem page_shows_blocks_in_use:
  assumes "mem_run memory0 calls m" "y_countMalloc y = y_malloc m" "y_countCalloc y = y_calloc m" "y_countFree y = y_free m"
  shows "snd (last (allocRows y)) = of_int (int (card (y_live m)) + sum_list (map miscount calls))"
proof -
  have "counted m = of_int (int (card (y_live m)) + sum_list (map miscount calls))"
    using mem_run_counts [OF assms(1)] by (simp add: counted_def memory0_def)
  with assms(2-4) show ?thesis by (simp add: counted_def allocRows_def)
qed

theorem page_shows_blocks_in_use_witness:
  "snd (last (allocRows (sample_page\<lparr>y_countMalloc := 1, y_countCalloc := 1, y_countFree := 2\<rparr>))) = of_int (0 + (1 - 1))"
proof -
  have "mem_run memory0 [Calloc (Some 7), Malloc None, Free (Some 7), Free None]
      \<lparr>y_malloc = 1, y_calloc = 1, y_free = 2, y_live = {}\<rparr>"
    by (simp add: memory0_def c_calloc_def c_malloc_def c_free_def taken_def)
  from page_shows_blocks_in_use [OF this, of "sample_page\<lparr>y_countMalloc := 1, y_countCalloc := 1, y_countFree := 2\<rparr>"]
  show ?thesis by simp
qed

end
