(* ===== verification/Process.thy ===== *)
theory Process
  imports Tcp_Client
begin

text \<open>
  The process: the user it runs as (server.c, setNobody), the names of its threads (thread.c), the
  line it prints before it exits (exit\_code.c), the locale of its numbers (server.c, setLocale) and its
  random bytes (basic.c, getRandom).
\<close>

section \<open>setNobody\<close>

text \<open>The real, effective and saved user and group of a process (of all its threads), and its supplementary groups.\<close>

record creds =
  u_real :: u32
  u_effective :: u32
  u_saved :: u32
  g_real :: u32
  g_effective :: u32
  g_saved :: u32
  g_supplementary :: "u32 list"

text \<open>setuid and setgid as POSIX has them: root sets all three, others may go to the real or saved one; None is -1.\<close>

definition setuid :: "u32 \<Rightarrow> creds \<Rightarrow> creds option" where
  "setuid u c =
     (if u_effective c = 0 then Some (c\<lparr>u_real := u, u_effective := u, u_saved := u\<rparr>)
      else if u = u_real c \<or> u = u_saved c then Some (c\<lparr>u_effective := u\<rparr>)
      else None)"

definition setgid :: "u32 \<Rightarrow> creds \<Rightarrow> creds option" where
  "setgid g c =
     (if u_effective c = 0 then Some (c\<lparr>g_real := g, g_effective := g, g_saved := g\<rparr>)
      else if g = g_real c \<or> g = g_saved c then Some (c\<lparr>g_effective := g\<rparr>)
      else None)"

text \<open>getpwnam gives the user and the group of nobody, or NULL; the messages are what perror prints.\<close>

definition setNobody :: "(u32 \<times> u32) option \<Rightarrow> creds \<Rightarrow> creds \<times> bytes list" where
  "setNobody passwd c =
     (case passwd of
        None \<Rightarrow> (c, [lit ''Getpwnam failed''])
      | Some (uid, gid) \<Rightarrow>
          (let (c1, m1) = (case setgid gid c of None \<Rightarrow> (c, [lit ''Setgid failed'']) | Some c1 \<Rightarrow> (c1, []));
               (c2, m2) = (case setuid uid c1 of None \<Rightarrow> (c1, [lit ''Setuid failed'']) | Some c2 \<Rightarrow> (c2, []))
           in (c2, m1 @ m2)))"

text \<open>What the process, or someone who has taken it over, may try afterwards.\<close>

datatype id_call = Setuid u32 | Setgid u32

fun idCall :: "creds \<Rightarrow> id_call \<Rightarrow> creds" where
  "idCall c (Setuid u) = (case setuid u c of None \<Rightarrow> c | Some d \<Rightarrow> d)"
| "idCall c (Setgid g) = (case setgid g c of None \<Rightarrow> c | Some d \<Rightarrow> d)"

definition runs_as :: "u32 \<Rightarrow> u32 \<Rightarrow> creds \<Rightarrow> bool" where
  "runs_as uid gid c \<longleftrightarrow> u_real c = uid \<and> u_effective c = uid \<and> u_saved c = uid \<and>
     g_real c = gid \<and> g_effective c = gid \<and> g_saved c = gid"

lemma runs_as_stays: "runs_as uid gid c \<Longrightarrow> uid \<noteq> 0 \<Longrightarrow> runs_as uid gid (idCall c call) \<and> g_supplementary (idCall c call) = g_supplementary c"
  by (cases call) (auto simp: runs_as_def setuid_def setgid_def split: option.splits)

lemma runs_as_for_good:
  "runs_as uid gid c \<Longrightarrow> uid \<noteq> 0 \<Longrightarrow> runs_as uid gid (foldl idCall c calls) \<and> g_supplementary (foldl idCall c calls) = g_supplementary c"
proof (induction calls arbitrary: c)
  case (Cons call calls)
  from runs_as_stays [OF Cons.prems, of call] Cons.IH [of "idCall c call"] Cons.prems(2) show ?case by simp
qed simp

text \<open>Without the entry of nobody, or when it is not root that runs it, the process goes on as it was.\<close>

lemma setNobody_missing: "setNobody None c = (c, [lit ''Getpwnam failed''])"
  by (simp add: setNobody_def)

lemma setNobody_refused:
  assumes "u_effective c \<noteq> 0" "uid \<notin> {u_real c, u_saved c}" "gid \<notin> {g_real c, g_saved c}"
  shows "setNobody (Some (uid, gid)) c = (c, [lit ''Setgid failed'', lit ''Setuid failed''])"
  using assms by (simp add: setNobody_def setuid_def setgid_def)

section \<open>thread.c, exit\_code.c, setLocale\<close>

definition THREAD_MAX_LENGTH :: nat where "THREAD_MAX_LENGTH = 15"

text \<open>The assertion before the call; pthread\_setname\_np takes 15 characters.\<close>

definition pthreadSetName :: "bytes \<Rightarrow> bytes option" where
  "pthreadSetName name = (if strlen name \<le> THREAD_MAX_LENGTH then Some (cstr name) else None)"

definition threadNames :: "bytes list" where
  "threadNames = map lit [''RPS Status'', ''TCP worker'', ''TCP listen'', ''Interval Change'', ''Garbage i15'', ''Garbage socket'',
     ''UDP listen'', ''UDP worker'']"

text \<open>Every thread of the program passes the assertion, and the names are told apart.\<close>

lemma thread_names: "\<forall>name \<in> set threadNames. pthreadSetName name = Some name" "distinct threadNames"
  unfolding threadNames_def pthreadSetName_def THREAD_MAX_LENGTH_def strlen_def lit_def cstr_def by code_simp+

definition EXIT_CODE_PRINT_ERROR_YES :: byte where "EXIT_CODE_PRINT_ERROR_YES = 1"

text \<open>The line and the status; errno and its text are inputs. The shell sees the low eight bits.\<close>

definition exitPrint :: "nat \<Rightarrow> bytes \<Rightarrow> byte \<Rightarrow> nat \<Rightarrow> (nat \<Rightarrow> bytes) \<Rightarrow> bytes \<times> nat" where
  "exitPrint exitCode file printError errno strerror =
     ((if printError = EXIT_CODE_PRINT_ERROR_YES
       then lit ''exit:'' @ dec exitCode @ lit ''; file:'' @ file @ lit ''; errno:'' @ dec errno @ lit ''; text:'' @ strerror errno @ [10]
       else lit ''exit:'' @ dec exitCode @ lit ''; file:'' @ file @ [10]),
      exitCode mod 256)"

text \<open>setlocale knows some locales; the one of the numbers is the one asked for, that of the environment without.\<close>

definition setLocale :: "(bytes \<Rightarrow> bytes option) \<Rightarrow> bytes option \<Rightarrow> bytes \<Rightarrow> bytes" where
  "setLocale setlocale locale current =
     (let l = (case locale of None \<Rightarrow> [] | Some l \<Rightarrow> l) in case setlocale l of None \<Rightarrow> current | Some new \<Rightarrow> new)"

section \<open>getRandom\<close>

text \<open>What fopen and fread give (None when it cannot be opened) over what the buffer held.\<close>

definition getRandom :: "bytes option \<Rightarrow> bytes \<Rightarrow> bytes" where
  "getRandom urandom randomBytes =
     (case urandom of None \<Rightarrow> randomBytes
      | Some content \<Rightarrow> take (length randomBytes) content @ drop (length content) randomBytes)"

lemma length_getRandom [simp]: "length (getRandom urandom buffer) = length buffer"
  by (auto simp: getRandom_def min_def split: option.splits)

lemma getRandom_reads: "length buffer \<le> length content \<Longrightarrow> getRandom (Some content) buffer = take (length buffer) content"
  by (simp add: getRandom_def)

text \<open>Without /dev/urandom the password is made of what the stack held.\<close>

lemma getRandom_unread: "getRandom None buffer = buffer"
  by (simp add: getRandom_def)

section \<open>Properties\<close>



end
