(* ===== verification/Help_Page.thy ===== *)
theory Help_Page
  imports Startup Semaphore
begin

text \<open>
  The help (argument.c, showHelp): the format string piece by piece as the source has it, the numbers
  printed into it, and what it says of the options and of the exit codes, next to what getName,
  parseOption and the constants of exit\_code.h do.
\<close>

section \<open>showHelp\<close>

text \<open>STRING\_BOLD, STRING\_UNDERLINE, STRING\_RESET, a piece of text, a newline, \%d and \%3d.\<close>

datatype help_piece = Bold | Underline | Reset | Text string | Newline | Percent_d | Percent_3d

definition helpSynopsis :: "help_piece list" where
  "helpSynopsis =
     [Bold, Text ''NAME'', Newline, Reset,
      Text ''     '', Bold, Text ''etracker'', Reset, Text '' -- Open-source BitTorrent tracker'', Newline,
      Newline,
      Bold, Text ''SYNOPSIS'', Newline,
      Text ''     etracker'', Reset,
      Text '' ['', Bold, Text ''-p'', Reset, Text '' '', Underline, Text ''port'', Reset, Text '']'',
      Text '' ['', Bold, Text ''-i'', Reset, Text '' '', Underline, Text ''interval'', Reset, Text '']'',
      Text '' ['', Bold, Text ''-w'', Reset, Text '' '', Underline, Text ''workers'', Reset, Text '']'',
      Text '' ['', Bold, Text ''-e'', Reset, Text '' '', Underline, Text ''peers'', Reset, Text '']'',
      Text '' ['', Bold, Text ''-t'', Reset, Text '' '', Underline, Text ''timeout'', Reset, Text '']'', Newline,
      Text ''        '',
      Text '' ['', Bold, Text ''-k'', Reset, Text '']'',
      Text '' ['', Bold, Text ''--no-tcp'', Reset, Text '']'',
      Text '' ['', Bold, Text ''--no-udp'', Reset, Text '']'',
      Text '' ['', Bold, Text ''--charset'', Reset, Text '' '', Underline, Text ''charset'', Reset, Text '']'',
      Text '' ['', Bold, Text ''--locale'', Reset, Text '' '', Underline, Text ''locale'', Reset, Text '']'', Newline,
      Text ''        '',
      Text '' ['', Bold, Text ''--min-interval'', Reset, Text '' '', Underline, Text ''min-interval'', Reset, Text '']'',
      Text '' ['', Bold, Text ''--max-interval'', Reset, Text '' '', Underline, Text ''max-interval'', Reset, Text '']'', Newline,
      Text ''        '',
      Text '' ['', Bold, Text ''--core'', Reset, Text '' '', Underline, Text ''core'', Reset, Text '']'',
      Text '' ['', Bold, Text ''--nofile'', Reset, Text '' '', Underline, Text ''nofile'', Reset, Text '']'',
      Text '' ['', Bold, Text ''--no-locations'', Reset, Text '']'',
      Text '' ['', Bold, Text ''-x'', Reset, Text '' '', Underline, Text ''xForwardedFor'', Reset, Text '']'', Newline,
      Text ''        '',
      Text '' ['', Bold, Text ''-a'', Reset, Text '' '', Underline, Text ''maxLoadAvg'', Reset, Text '']'', Newline,
      Text ''        '',
      Text '' ['', Bold, Text ''-h'', Reset, Text '']'', Newline,
      Newline]"

definition helpServing :: "help_piece list" where
  "helpServing =
     [Bold, Text ''DESCRIPTION'', Newline, Reset,
      Text ''     Run BitTorrent tracker with interfaces:'', Newline,
      Text ''     http://your_host:port/announce'', Newline,
      Text ''     udp://your_host:port/announce'', Newline,
      Newline,
      Text ''     The following options are available:'', Newline,
      Newline,
      Text ''     '', Bold, Text ''--port'', Reset, Text '' '', Underline, Text ''port'', Reset, Newline,
      Text ''     '', Bold, Text ''-p'', Reset, Text '' '', Underline, Text ''port'', Reset, Newline,
      Text ''             Port for http and udp connections, default '', Percent_d, Text ''.'', Newline,
      Newline,
      Text ''     '', Bold, Text ''--interval'', Reset, Text '' '', Underline, Text ''interval'', Reset, Newline,
      Text ''     '', Bold, Text ''-i'', Reset, Text '' '', Underline, Text ''interval'', Reset, Newline,
      Text ''             Starting interval, default '', Percent_d, Text ''.'', Newline,
      Newline,
      Text ''     '', Bold, Text ''--workers'', Reset, Text '' '', Underline, Text ''workers'', Reset, Newline,
      Text ''     '', Bold, Text ''-w'', Reset, Text '' '', Underline, Text ''workers'', Reset, Newline,
      Text ''             Count workers for tcp and udp, default _SC_NPROCESSORS_ONLN.'', Newline,
      Newline,
      Text ''     '', Bold, Text ''--peers'', Reset, Text '' '', Underline, Text ''peers'', Reset, Newline,
      Text ''     '', Bold, Text ''-e'', Reset, Text '' '', Underline, Text ''peers'', Reset, Newline,
      Text ''             Max peers per announce response, default '', Percent_d, Text ''.'', Newline,
      Newline,
      Text ''     '', Bold, Text ''--timeout'', Reset, Text '' '', Underline, Text ''timeout'', Reset, Newline,
      Text ''     '', Bold, Text ''-t'', Reset, Text '' '', Underline, Text ''timeout'', Reset, Newline,
      Text ''             Socket timeout, default '', Percent_d, Text ''.'', Newline,
      Newline,
      Text ''     '', Bold, Text ''--keep'', Newline, Reset,
      Text ''     '', Bold, Text ''-k'', Newline, Reset,
      Text (''             Enable http'' @ [CHR 0x27] @ ''s keep alive, default disable.''), Newline,
      Newline,
      Text ''     '', Bold, Text ''--no-tcp'', Newline, Reset,
      Text ''             Disable TCP, default TCP enable.'', Newline,
      Newline,
      Text ''     '', Bold, Text ''--no-udp'', Newline, Reset,
      Text ''             Disable UDP, default UDP enable.'', Newline,
      Newline,
      Text ''     '', Bold, Text ''--charset'', Reset, Text '' '', Underline, Text ''charset'', Reset, Newline,
      Text ''             Charset for stats page only, default none.'', Newline,
      Text ''             Only for stats page.'', Newline,
      Newline,
      Text ''     '', Bold, Text ''--locale'', Reset, Text '' '', Underline, Text ''locale'', Reset, Newline,
      Text (''             Locale for stats page, default current terminal'' @ [CHR 0x27] @ ''s locale.''), Newline,
      Text ''             If your stats page is a little broken, then I recommend'', Newline,
      Text ''             the `en_US.UTF-8` locale.'', Newline,
      Newline,
      Text ''     '', Bold, Text ''--min-interval'', Reset, Text '' '', Underline, Text ''min-interval'', Reset, Newline]"

definition helpSystem :: "help_piece list" where
  "helpSystem =
     [Text ''             Minimum interval to be reached based on load_avg, default '', Percent_d, Text ''.'', Newline,
      Newline,
      Text ''     '', Bold, Text ''--max-interval'', Reset, Text '' '', Underline, Text ''max-interval'', Reset, Newline,
      Text ''             Maximum interval to be reached based on load_avg, default '', Percent_d, Text ''.'', Newline,
      Newline,
      Text ''     '', Bold, Text ''--core'', Reset, Text '' '', Underline, Text ''core'', Reset, Newline,
      Text ''             Change soft rlimit core (`-1` mean change soft to hard).'', Newline,
      Newline,
      Text ''     '', Bold, Text ''--nofile'', Reset, Text '' '', Underline, Text ''nofile'', Reset, Newline,
      Text ''             Change soft rlimit nofile.'', Newline,
      Text ''             May be useful if you choose the keep-alive option.'', Newline,
      Text ''             MacOS default 2500, maximum 10000.'', Newline,
      Text ''             Debian default 1000, recommended 64000.'', Newline,
      Newline,
      Text ''     '', Bold, Text ''--no-locations'', Reset, Newline,
      Text ''             Disable locations features, default enable.'', Newline,
      Text ''             Related url: '', Underline, Text ''http://host:port/map.html'', Reset, Newline,
      Newline,
      Text ''     '', Bold, Text ''-x'', Reset, Text '' '', Underline, Text ''xForwardedFor'', Reset, Newline,
      Text ''             Http header name xForwardedFor, default disable.'', Newline,
      Text ''             If is set then activate this features.'', Newline,
      Text ''             Used last IP from value of this header. Example:'', Newline,
      Text (''             '' @ [CHR 0x27] @ ''X-Forwarded-For: 1.2.3.4, eeee::abcd, 8.8.8.8'' @ [CHR 0x27]), Newline,
      Text (''             etracker will use '' @ [CHR 0x27] @ ''8.8.8.8'' @ [CHR 0x27] @ ''.''), Newline,
      Newline,
      Text ''     '', Bold, Text ''-a'', Reset, Text '' '', Underline, Text ''maxLoadAvg'', Reset, Newline,
      Text ''             Max load avg, default (count(cpu_cores) - 0.5).'', Newline,
      Newline,
      Text ''     '', Bold, Text ''--help'', Newline,
      Text ''     -h'', Newline, Reset,
      Text ''             This help.'', Newline,
      Newline]"

definition helpExamples :: "help_piece list" where
  "helpExamples =
     [Bold, Text ''EXAMPLES'', Newline, Reset,
      Text ''     Run on default port:'', Newline,
      Text ''          etracker'', Newline,
      Newline,
      Text ''     Run on port 80:'', Newline,
      Text ''          etracker -p 80'', Newline,
      Newline,
      Text ''     Run with keep-alive, recommended expand nofile for more connection:'', Newline,
      Text ''          etracker -p 80 -k --nofile 10000'', Newline,
      Newline,
      Text ''     Run with special locale:'', Newline,
      Text ''          etracker -p 80 --locale en_US.UTF-8 --charset utf-8'', Newline,
      Newline,
      Text ''     Run with save CPU:'', Newline,
      Text ''          etracker --min-interval 1799'', Newline,
      Newline,
      Text ''     Another examples:'', Newline,
      Text ''          etracker --port 80 --no-tcp --max-interval 1799'', Newline,
      Text ''          etracker -p 80 -i 600 -w 1 -e 400 -t 5 -k'', Newline,
      Text ''          etracker -x X-Forwarded-For'', Newline,
      Text ''          etracker -x X-Real-IP'', Newline,
      Text ''          etracker -a 1.5'', Newline,
      Text ''          etracker --help'', Newline,
      Newline]"

definition helpExitStatus :: "help_piece list" where
  "helpExitStatus =
     [Bold, Text ''EXIT STATUS'', Newline, Reset,
      Text ''     '', Percent_3d, Text ''     chdir'', Newline,
      Text ''     '', Percent_3d, Text ''     getcwd'', Newline,
      Text ''     '', Percent_3d, Text ''     socket tcp create'', Newline,
      Text ''     '', Percent_3d, Text ''     reuseaddr'', Newline,
      Text ''     '', Percent_3d, Text ''     bind tcp'', Newline,
      Text ''     '', Percent_3d, Text ''     tcp client thread'', Newline,
      Text ''     '', Percent_3d, Text ''     socket tcp end'', Newline,
      Text ''     '', Percent_3d, Text ''     size connect request'', Newline,
      Text ''     '', Percent_3d, Text ''     size connect response'', Newline,
      Text ''     '', Percent_3d, Text ''     size announce request'', Newline,
      Text ''     '', Percent_3d, Text ''     size announce head response'', Newline,
      Text ''     '', Percent_3d, Text ''     size announce peer response'', Newline,
      Text ''     '', Percent_3d, Text ''     socket udp create'', Newline,
      Text ''     '', Percent_3d, Text ''     bind udp'', Newline,
      Text ''     '', Percent_3d, Text ''     udp client thread'', Newline,
      Text ''     '', Percent_3d, Text ''     socket udp end'', Newline,
      Text ''     '', Percent_3d, Text ''     unused list'', Newline,
      Text ''     '', Percent_3d, Text ''     list wrong limit'', Newline,
      Text ''     '', Percent_3d, Text ''     list wrong hash length'', Newline,
      Text ''     '', Percent_3d, Text ''     list not empty'', Newline,
      Text ''     '', Percent_3d, Text ''     semaphore init'', Newline,
      Text ''     '', Percent_3d, Text ''     semaphore post'', Newline,
      Text ''     '', Percent_3d, Text ''     semaphore destroy'', Newline,
      Text ''     '', Percent_3d, Text ''     geoip memory'', Newline,
      Text ''     '', Percent_3d, Text ''     geoip wrong data'', Newline,
      Text ''     '', Percent_3d, Text ''     geoip test failed'', Newline,
      Text ''     '', Percent_3d, Text ''     argument unknown'', Newline,
      Newline,
      Bold, Text ''AUTHOR'', Newline, Reset,
      Text ''     Implemented by Truekenny.'', Newline,
      Text ''     Source code is available at '', Underline, Text ''https://github.com/truekenny/etracker'', Reset, Text ''.'', Newline]"

definition helpText :: "help_piece list" where
  "helpText = helpSynopsis @ helpServing @ helpSystem @ helpExamples @ helpExitStatus"

definition EXIT_CODE_SOCKET_TCP_END :: nat where "EXIT_CODE_SOCKET_TCP_END = 244"
definition EXIT_CODE_SOCKET_UDP_END :: nat where "EXIT_CODE_SOCKET_UDP_END = 235"
definition EXIT_CODE_UNUSED_LIST :: nat where "EXIT_CODE_UNUSED_LIST = 234"
definition EXIT_CODE_GEOIP_MEMORY :: nat where "EXIT_CODE_GEOIP_MEMORY = 227"

definition ARGUMENT_PORT_DEFAULT :: nat where "ARGUMENT_PORT_DEFAULT = 3000"
definition ARGUMENT_INTERVAL_DEFAULT :: nat where "ARGUMENT_INTERVAL_DEFAULT = 1799"
definition ARGUMENT_MAX_PEER_PER_RESULT_DEFAULT :: nat where "ARGUMENT_MAX_PEER_PER_RESULT_DEFAULT = 60"
definition ARGUMENT_SOCKET_TIMEOUT_DEFAULT :: nat where "ARGUMENT_SOCKET_TIMEOUT_DEFAULT = 3"

text \<open>The arguments of printf behind the format.\<close>

definition helpNumbers :: "nat list" where
  "helpNumbers =
     [ARGUMENT_PORT_DEFAULT, ARGUMENT_INTERVAL_DEFAULT, ARGUMENT_MAX_PEER_PER_RESULT_DEFAULT, ARGUMENT_SOCKET_TIMEOUT_DEFAULT,
      unat ARGUMENT_MIN_INTERVAL_DEFAULT, unat ARGUMENT_MAX_INTERVAL_DEFAULT,
      EXIT_CODE_CHDIR, EXIT_CODE_CWD, EXIT_CODE_SOCKET_TCP_CREATE, EXIT_CODE_REUSEADDR, EXIT_CODE_BIND_TCP,
      EXIT_CODE_TCP_CLIENT_THREAD, EXIT_CODE_SOCKET_TCP_END, EXIT_CODE_SIZE_CONNECT_REQUEST,
      EXIT_CODE_SIZE_CONNECT_RESPONSE, EXIT_CODE_SIZE_ANNOUNCE_REQUEST, EXIT_CODE_SIZE_ANNOUNCE_HEAD_RESPONSE,
      EXIT_CODE_SIZE_ANNOUNCE_PEER_RESPONSE, EXIT_CODE_SOCKET_UDP_CREATE, EXIT_CODE_BIND_UDP, EXIT_CODE_UDP_CLIENT_THREAD,
      EXIT_CODE_SOCKET_UDP_END, EXIT_CODE_UNUSED_LIST, EXIT_CODE_LIST_WRONG_LIMIT, EXIT_CODE_LIST_WRONG_HASH_LENGTH,
      EXIT_CODE_LIST_NOT_EMPTY, EXIT_CODE_SEMAPHORE_INIT, EXIT_CODE_SEMAPHORE_POST, EXIT_CODE_SEMAPHORE_DESTROY,
      EXIT_CODE_GEOIP_MEMORY, EXIT_CODE_GEOIP_WRONG_DATA, EXIT_CODE_GEOIP_TEST_FAILED, EXIT_CODE_ARGUMENT_UNKNOWN]"

text \<open>A format with fewer arguments than it reads is an error.\<close>

fun printHelp :: "help_piece list \<Rightarrow> nat list \<Rightarrow> bytes res" where
  "printHelp [] ns = Inr []"
| "printHelp (Text s # ps) ns = bindR (printHelp ps ns) (\<lambda>t. Inr (lit s @ t))"
| "printHelp (Newline # ps) ns = bindR (printHelp ps ns) (\<lambda>t. Inr (10 # t))"
| "printHelp (Bold # ps) ns = bindR (printHelp ps ns) (\<lambda>t. Inr (27 # lit ''[1m'' @ t))"
| "printHelp (Underline # ps) ns = bindR (printHelp ps ns) (\<lambda>t. Inr (27 # lit ''[4m'' @ t))"
| "printHelp (Reset # ps) ns = bindR (printHelp ps ns) (\<lambda>t. Inr (27 # lit ''[0m'' @ t))"
| "printHelp (Percent_d # ps) (n # ns) = bindR (printHelp ps ns) (\<lambda>t. Inr (dec n @ t))"
| "printHelp (Percent_3d # ps) (n # ns) = bindR (printHelp ps ns) (\<lambda>t. Inr (replicate (3 - length (dec n)) 32 @ dec n @ t))"
| "printHelp (p # ps) [] = Inl Out_of_bounds"

text \<open>What is printed, and the status of the exit.\<close>

definition showHelp :: "(bytes \<times> nat) res" where
  "showHelp = bindR (printHelp helpText helpNumbers) (\<lambda>t. Inr (t, EXIT_SUCCESS))"

fun numbersRead :: "help_piece list \<Rightarrow> nat" where
  "numbersRead [] = 0"
| "numbersRead (Percent_d # ps) = Suc (numbersRead ps)"
| "numbersRead (Percent_3d # ps) = Suc (numbersRead ps)"
| "numbersRead (p # ps) = numbersRead ps"

lemma printHelp_prints: "numbersRead ps \<le> length ns \<Longrightarrow> \<exists>t. printHelp ps ns = Inr t"
  by (induction ps ns rule: printHelp.induct) (auto simp: bindR_Inr_iff)

section \<open>What the help says\<close>

text \<open>The lines of the help: their text, and whether a part of it is underlined.\<close>

fun linesOf :: "string \<Rightarrow> bool \<Rightarrow> help_piece list \<Rightarrow> (string \<times> bool) list" where
  "linesOf acc u [] = [(acc, u)]"
| "linesOf acc u (Text s # ps) = linesOf (acc @ s) u ps"
| "linesOf acc u (Newline # ps) = (acc, u) # linesOf [] False ps"
| "linesOf acc u (Underline # ps) = linesOf acc True ps"
| "linesOf acc u (p # ps) = linesOf acc u ps"

text \<open>A line with an option, indented by five: its name, and whether a value is underlined behind it.\<close>

fun optionOf :: "string \<times> bool \<Rightarrow> (string \<times> bool) list" where
  "optionOf (t, u) = (if take 6 t = ''     -'' then [(takeWhile (\<lambda>c. c \<noteq> CHR 0x20) (drop 5 t), u)] else [])"

definition helpOptions :: "(string \<times> bool) list" where
  "helpOptions = concat (map optionOf (linesOf [] False helpText))"

text \<open>The numbers of \%d with the text before them, those of \%3d with the text behind them.\<close>

fun defaultsShown :: "string \<Rightarrow> help_piece list \<Rightarrow> nat list \<Rightarrow> (string \<times> nat) list" where
  "defaultsShown before [] ns = []"
| "defaultsShown before (Text s # ps) ns = defaultsShown s ps ns"
| "defaultsShown before (Percent_d # ps) (n # ns) = (before, n) # defaultsShown [] ps ns"
| "defaultsShown before (Percent_3d # ps) (n # ns) = defaultsShown [] ps ns"
| "defaultsShown before (p # ps) ns = defaultsShown before ps ns"

fun statusShown :: "help_piece list \<Rightarrow> nat list \<Rightarrow> (nat \<times> string) list" where
  "statusShown (Percent_3d # Text s # ps) (n # ns) = (n, drop 5 s) # statusShown ps ns"
| "statusShown (Percent_d # ps) (n # ns) = statusShown ps ns"
| "statusShown (p # ps) ns = statusShown ps ns"
| "statusShown [] ns = []"

lemmas help_texts = helpText_def helpSynopsis_def helpServing_def helpSystem_def helpExamples_def helpExitStatus_def

lemma helpOptions_eq: "helpOptions =
  [(''--port'', True), (''-p'', True), (''--interval'', True), (''-i'', True), (''--workers'', True), (''-w'', True),
   (''--peers'', True), (''-e'', True), (''--timeout'', True), (''-t'', True), (''--keep'', False), (''-k'', False),
   (''--no-tcp'', False), (''--no-udp'', False), (''--charset'', True), (''--locale'', True), (''--min-interval'', True),
   (''--max-interval'', True), (''--core'', True), (''--nofile'', True), (''--no-locations'', False), (''-x'', True),
   (''-a'', True), (''--help'', False), (''-h'', False)]"
  unfolding helpOptions_def help_texts by code_simp

lemma statusShown_eq: "statusShown helpText helpNumbers =
  [(250, ''chdir''), (249, ''getcwd''), (248, ''socket tcp create''), (247, ''reuseaddr''), (246, ''bind tcp''),
   (245, ''tcp client thread''), (244, ''socket tcp end''), (243, ''size connect request''),
   (242, ''size connect response''), (241, ''size announce request''), (240, ''size announce head response''),
   (239, ''size announce peer response''), (238, ''socket udp create''), (237, ''bind udp''),
   (236, ''udp client thread''), (235, ''socket udp end''), (234, ''unused list''), (233, ''list wrong limit''),
   (232, ''list wrong hash length''), (231, ''list not empty''), (230, ''semaphore init''), (229, ''semaphore post''),
   (228, ''semaphore destroy''), (227, ''geoip memory''), (226, ''geoip wrong data''), (225, ''geoip test failed''),
   (224, ''argument unknown'')]"
  by code_simp

lemma defaultsShown_eq: "defaultsShown [] helpText helpNumbers =
    [(''             Port for http and udp connections, default '', 3000),
     (''             Starting interval, default '', 1799),
     (''             Max peers per announce response, default '', 60),
     (''             Socket timeout, default '', 3),
     (''             Minimum interval to be reached based on load_avg, default '', 239),
     (''             Maximum interval to be reached based on load_avg, default '', 1799)]"
  by code_simp

lemma statusShown_codes:
  "map fst (statusShown helpText helpNumbers) = rev [EXIT_CODE_ARGUMENT_UNKNOWN..<Suc EXIT_CODE_CHDIR]"
  unfolding statusShown_eq by code_simp

text \<open>The names of getName as a table.\<close>

definition optionNames :: "(string \<times> nat) list" where
  "optionNames =
     [(''-p'', ARGUMENT_PORT_INDEX), (''--port'', ARGUMENT_PORT_INDEX), (''-i'', ARGUMENT_INTERVAL_INDEX),
      (''--interval'', ARGUMENT_INTERVAL_INDEX), (''-w'', ARGUMENT_WORKERS_INDEX), (''--workers'', ARGUMENT_WORKERS_INDEX),
      (''-e'', ARGUMENT_MAX_PEERS_PER_RESPONSE_INDEX), (''--peers'', ARGUMENT_MAX_PEERS_PER_RESPONSE_INDEX),
      (''-t'', ARGUMENT_SOCKET_TIMEOUT_INDEX), (''--timeout'', ARGUMENT_SOCKET_TIMEOUT_INDEX),
      (''-k'', ARGUMENT_KEEP_ALIVE_INDEX), (''--keep'', ARGUMENT_KEEP_ALIVE_INDEX), (''-h'', ARGUMENT_HELP_INDEX),
      (''--help'', ARGUMENT_HELP_INDEX), (''--charset'', ARGUMENT_CHARSET_INDEX),
      (''--min-interval'', ARGUMENT_MIN_INTERVAL_INDEX), (''--max-interval'', ARGUMENT_MAX_INTERVAL_INDEX),
      (''--no-tcp'', ARGUMENT_NO_TCP_INDEX), (''--no-udp'', ARGUMENT_NO_UDP_INDEX), (''--locale'', ARGUMENT_LOCALE_INDEX),
      (''--nofile'', ARGUMENT_NOFILE_INDEX), (''--core'', ARGUMENT_CORE_INDEX), (''-f'', ARGUMENT_FAILED_INDEX),
      (''--no-locations'', ARGUMENT_NO_LOCATIONS), (''-x'', ARGUMENT_X_FORWARDED_FOR), (''-a'', ARGUMENT_MAX_LOAD_AVG)]"

fun lookupName :: "(string \<times> nat) list \<Rightarrow> bytes \<Rightarrow> nat" where
  "lookupName [] s = ARGUMENT_UNKNOWN_INDEX"
| "lookupName ((n, i) # r) s = (if s = lit n then i else lookupName r s)"

lemma of_char_byte_inject: "(of_char c :: byte) = of_char d \<longleftrightarrow> c = d"
proof -
  have "unat (of_char x :: byte) = of_char x" for x
  proof -
    have "(of_char x :: nat) < 256" by simp
    then have "unat (of_nat (of_char x) :: byte) = of_char x" by (simp only: unat_of_nat) simp
    then show ?thesis by (simp only: of_nat_of_char)
  qed
  then show ?thesis by (metis of_char_eq_iff)
qed

lemma lit_inject [simp]: "lit a = lit b \<longleftrightarrow> a = b"
  using inj_map_eq_map [of "of_char :: char \<Rightarrow> byte" a b] by (simp add: lit_def inj_def of_char_byte_inject)

definition nul_free :: "string \<Rightarrow> bool" where
  "nul_free n \<longleftrightarrow> list_all (\<lambda>c. c \<noteq> CHR 0x00) n"

lemma cstr_lit: "nul_free n \<Longrightarrow> cstr (lit n) = lit n"
proof (rule cstr_no_nul, rule notI)
  assume "nul_free n" "0 \<in> set (lit n)"
  then obtain c where c: "0 = (of_char c :: byte)" "c \<in> set n" by (auto simp only: lit_def set_map image_iff)
  have "(of_char c :: byte) = of_char (CHR 0x00)" unfolding c(1) [symmetric] by simp
  then have "c = CHR 0x00" by (simp only: of_char_byte_inject)
  with c(2) \<open>nul_free n\<close> show False by (auto simp: nul_free_def list_all_iff)
qed

lemma optionNames_nul_free: "list_all (\<lambda>(n, i). nul_free n) optionNames"
  by code_simp

lemma if_disj: "(if c \<or> d then x else y) = (if c then x else if d then x else y)"
  by simp

lemma getName_lookup: "getName s = lookupName optionNames (cstr s)"
proof -
  have n: "nul_free n \<Longrightarrow> strcmp_eq s (lit n) \<longleftrightarrow> cstr s = lit n" for n by (simp add: strcmp_eq_def cstr_lit)
  have "map (strcmp_eq s \<circ> lit \<circ> fst) optionNames = map (\<lambda>x. cstr s = lit (fst x)) optionNames"
    using optionNames_nul_free n by (auto simp: list_all_iff)
  then show ?thesis
    unfolding optionNames_def list.map comp_def fst_conv list.inject
    by (elim conjE) (simp only: getName_def if_disj lookupName.simps)
qed

lemma lookupName_map_of: "lookupName tab (lit n) = (case map_of tab n of None \<Rightarrow> ARGUMENT_UNKNOWN_INDEX | Some i \<Rightarrow> i)"
  by (induction tab) auto

lemma lookupName_known:
  "list_all (\<lambda>(n, i). i \<noteq> ARGUMENT_UNKNOWN_INDEX) tab \<Longrightarrow> lookupName tab s \<noteq> ARGUMENT_UNKNOWN_INDEX \<longleftrightarrow> s \<in> lit ` fst ` set tab"
  by (induction tab) (auto split: if_splits)

lemma listed_names: "set (map fst optionNames) = insert ''-f'' (set (map fst helpOptions))"
  unfolding helpOptions_eq optionNames_def by auto

text \<open>Whether the parser takes a value with an option.\<close>

definition takesValue :: "nat \<Rightarrow> bool" where
  "takesValue i \<longleftrightarrow> i \<notin> {ARGUMENT_KEEP_ALIVE_INDEX, ARGUMENT_HELP_INDEX, ARGUMENT_NO_TCP_INDEX, ARGUMENT_NO_UDP_INDEX, ARGUMENT_NO_LOCATIONS}"

lemma parseOption_takesValue:
  assumes "(n, i) \<in> set optionNames"
  shows "parseOption strtod i behind v a = (if i = ARGUMENT_HELP_INDEX then Inl (Exit EXIT_SUCCESS)
    else Inr (fst (projr (parseOption strtod i behind v a)), takesValue i))"
proof -
  have "i \<in> set (map snd optionNames)" using assms by force
  then show ?thesis
    unfolding optionNames_def list.map snd_conv set_simps insert_iff empty_iff simp_thms
    by (elim disjE) (simp_all add: parseOption_def takesValue_def argument_indices)
qed

lemma listed_options:
  "list_all (\<lambda>(name, u). case map_of optionNames name of None \<Rightarrow> False | Some i \<Rightarrow> takesValue i = u) helpOptions"
  unfolding helpOptions_eq by code_simp

lemma listed_option:
  assumes "(name, u) \<in> set helpOptions"
  shows "parseOption strtod (getName (lit name)) behind v a =
    (if getName (lit name) = ARGUMENT_HELP_INDEX then Inl (Exit 0) else Inr (fst (projr (parseOption strtod (getName (lit name)) behind v a)), u))"
proof -
  from listed_options assms obtain i where i: "map_of optionNames name = Some i" "takesValue i = u"
    by (auto simp: list_all_iff split: option.splits)
  then have m: "(name, i) \<in> set optionNames" by (simp add: map_of_SomeD)
  then have "nul_free name" using optionNames_nul_free by (auto simp: list_all_iff)
  then have g: "getName (lit name) = i" using i(1) by (simp add: getName_lookup cstr_lit lookupName_map_of)
  show ?thesis
    using parseOption_takesValue [OF m, of strtod behind v a]
    unfolding g i(2) EXIT_SUCCESS_def by blast
qed

lemma values_of: "(\<And>s. P s \<longleftrightarrow> f s \<in> A) \<Longrightarrow> (\<And>c. c \<in> A \<Longrightarrow> \<exists>s. c = f s) \<Longrightarrow> {f s | s. P s} = A"
  by auto

lemma known_options: "{cstr s | s. getName s \<noteq> ARGUMENT_UNKNOWN_INDEX} = lit ` insert ''-f'' (fst ` set helpOptions)"
proof -
  have known: "list_all (\<lambda>(n, i). i \<noteq> ARGUMENT_UNKNOWN_INDEX) optionNames" by code_simp
  have "{cstr s | s. getName s \<noteq> ARGUMENT_UNKNOWN_INDEX} = lit ` fst ` set optionNames"
  proof (rule values_of)
    show "getName s \<noteq> ARGUMENT_UNKNOWN_INDEX \<longleftrightarrow> cstr s \<in> lit ` fst ` set optionNames" for s
      unfolding getName_lookup by (rule lookupName_known [OF known])
    fix c assume "c \<in> lit ` fst ` set optionNames"
    then obtain n i where n: "c = lit n" "(n, i) \<in> set optionNames" by auto
    from n(2) have "nul_free n" using optionNames_nul_free by (auto simp: list_all_iff)
    then have "c = cstr (lit n)" using n(1) by (simp add: cstr_lit)
    then show "\<exists>s. c = cstr s" ..
  qed
  also have "fst ` set optionNames = insert ''-f'' (fst ` set helpOptions)" using listed_names by (simp only: set_map)
  finally show ?thesis .
qed

section \<open>Properties\<close>

text \<open>C21: The help is true: it prints and exits with 0; the options the parser knows are those the help
lists and -f; with each of them the parser takes a value exactly when the help underlines one (--help shows
the help); the defaults it states are those a run without options has; the numbers of its exit codes are the
27 codes, each once.\<close>

theorem help_matches_the_parser:
  "(\<exists>t. showHelp = Inr (t, 0)) \<and>
   {cstr s | s. getName s \<noteq> ARGUMENT_UNKNOWN_INDEX} = lit ` insert ''-f'' (fst ` set helpOptions) \<and>
   list_all (\<lambda>(name, underlined). parseOption strtod (getName (lit name)) behind v a =
      (if getName (lit name) = ARGUMENT_HELP_INDEX then Inl (Exit 0)
       else Inr (fst (projr (parseOption strtod (getName (lit name)) behind v a)), underlined))) helpOptions \<and>
   defaultsShown [] helpText helpNumbers =
    [(''             Port for http and udp connections, default '', unat (a_port (arguments0 p))),
     (''             Starting interval, default '', unat (a_interval (arguments0 p))),
     (''             Max peers per announce response, default '', unat (a_maxPeersPerResponse (arguments0 p))),
     (''             Socket timeout, default '', unat (a_socketTimeout (arguments0 p))),
     (''             Minimum interval to be reached based on load_avg, default '', unat (a_minInterval (arguments0 p))),
     (''             Maximum interval to be reached based on load_avg, default '', unat (a_maxInterval (arguments0 p)))] \<and>
   map fst (statusShown helpText helpNumbers) = rev [224..<251]"
proof (intro conjI)
  have "numbersRead helpText \<le> length helpNumbers" by code_simp
  from printHelp_prints [OF this] show "\<exists>t. showHelp = Inr (t, 0)" by (auto simp: showHelp_def EXIT_SUCCESS_def)
  have "(\<lambda>(name, underlined). parseOption strtod (getName (lit name)) behind v a =
      (if getName (lit name) = ARGUMENT_HELP_INDEX then Inl (Exit 0)
       else Inr (fst (projr (parseOption strtod (getName (lit name)) behind v a)), underlined))) x" if "x \<in> set helpOptions" for x
    using that listed_option [of "fst x" "snd x" strtod behind v a] by (simp only: split_beta prod.collapse)
  then show "list_all (\<lambda>(name, underlined). parseOption strtod (getName (lit name)) behind v a =
      (if getName (lit name) = ARGUMENT_HELP_INDEX then Inl (Exit 0)
       else Inr (fst (projr (parseOption strtod (getName (lit name)) behind v a)), underlined))) helpOptions"
    unfolding list_all_iff by (rule ballI)
  show "map fst (statusShown helpText helpNumbers) = rev [224..<251]"
    using statusShown_codes by (simp add: EXIT_CODE_ARGUMENT_UNKNOWN_def EXIT_CODE_CHDIR_def)
  show "{cstr s | s. getName s \<noteq> ARGUMENT_UNKNOWN_INDEX} = lit ` insert ''-f'' (fst ` set helpOptions)" by (rule known_options)
  show "defaultsShown [] helpText helpNumbers =
    [(''             Port for http and udp connections, default '', unat (a_port (arguments0 p))),
     (''             Starting interval, default '', unat (a_interval (arguments0 p))),
     (''             Max peers per announce response, default '', unat (a_maxPeersPerResponse (arguments0 p))),
     (''             Socket timeout, default '', unat (a_socketTimeout (arguments0 p))),
     (''             Minimum interval to be reached based on load_avg, default '', unat (a_minInterval (arguments0 p))),
     (''             Maximum interval to be reached based on load_avg, default '', unat (a_maxInterval (arguments0 p)))]"
    unfolding defaultsShown_eq by (simp add: arguments0_def ARGUMENT_MIN_INTERVAL_DEFAULT_def ARGUMENT_MAX_INTERVAL_DEFAULT_def)
qed

end
