(* ===== verification/Authorization_Race.thy ===== *)
theory Authorization_Race
  imports Tcp_Client
begin

text \<open>
  The password of /api/set (thread\_client\_tcp.c, the branch of /api/set, with getAuthorizationHeader of
  basic.c) when several workers meet it at once: the block with the expected header is shared by all workers
  and is filled, by three appends, by the first request that finds it empty, under no lock. Each test,
  append and comparison is a step here. Two runs show what the interleaving allows; a request alone is safe.
\<close>

section \<open>The steps of a request\<close>

text \<open>What getAuthorizationHeader appends, call by call.\<close>

definition authorizationPieces :: "bytes \<Rightarrow> bytes list" where
  "authorizationPieces randomBytes =
     [lit ''Authorization: Basic '',
      base64_encode (lit ''etracker:'' @ randomString (take BASIC_PASSWORD_LENGTH randomBytes)),
      [13, 0]]"

lemma authorizationPieces_concat: "concat (authorizationPieces r) = getAuthorizationHeader r []"
  by (simp add: authorizationPieces_def getAuthorizationHeader_def)

text \<open>Where a request for /api/set is: before the test of the size, with appends to make, before the
comparisons, answered with a status.\<close>

datatype set_phase = Testing | Filling "bytes list" | Comparing | Answered nat

text \<open>A request with the bytes read and the random bytes its worker would draw.\<close>

type_synonym set_request = "bytes \<times> bytes \<times> set_phase"

definition isAjax :: "bytes \<Rightarrow> bool" where
  "isAjax readBuffer \<longleftrightarrow> strstr readBuffer (CRLF @ lit ''X-Requested-With: XMLHttpRequest'' @ CRLF) \<noteq> None"

definition setStatus :: "bytes \<Rightarrow> bytes \<Rightarrow> nat" where
  "setStatus readBuffer shared =
     (if \<not> isAjax readBuffer then 400 else if hasBasic readBuffer shared then 200 else 401)"

text \<open>The next step of a request, with the header before and after.\<close>

fun set_next :: "bytes \<Rightarrow> set_request \<Rightarrow> (bytes \<times> set_request) option" where
  "set_next shared (b, r, Testing) = Some (shared, b, r, if shared = [] then Filling (authorizationPieces r) else Comparing)"
| "set_next shared (b, r, Filling []) = Some (shared, b, r, Comparing)"
| "set_next shared (b, r, Filling (p # ps)) = Some (shared @ p, b, r, Filling ps)"
| "set_next shared (b, r, Comparing) = Some (shared, b, r, Answered (setStatus b shared))"
| "set_next shared (b, r, Answered status) = None"

text \<open>The requests at the positions of a list take a step each, in this order.\<close>

fun set_run :: "nat list \<Rightarrow> bytes \<times> set_request list \<Rightarrow> (bytes \<times> set_request list) option" where
  "set_run [] s = Some s"
| "set_run (i # is) (shared, qs) =
     (if i < length qs then
        (case set_next shared (qs ! i) of None \<Rightarrow> None | Some (shared', q) \<Rightarrow> set_run is (shared', qs[i := q]))
      else None)"

lemma set_run_append: "set_run (is @ js) s = (case set_run is s of None \<Rightarrow> None | Some t \<Rightarrow> set_run js t)"
  by (induction "is" s rule: set_run.induct) (auto split: option.splits)

section \<open>One request after the other\<close>

text \<open>A request that is alone while it is answered is compared with a whole header: the one there is, or its own.\<close>

definition wholeHeader :: "bytes \<Rightarrow> bytes \<Rightarrow> bytes" where
  "wholeHeader shared r = (if shared = [] then getAuthorizationHeader r [] else shared)"

lemma set_run_alone:
  assumes "i < length qs" "qs ! i = (b, r, Testing)"
  shows "\<exists>n. set_run (replicate n i) (shared, qs) = Some (wholeHeader shared r, qs[i := (b, r, Answered (setStatus b (wholeHeader shared r)))])"
proof (cases "shared = []")
  case True
  have "set_run (replicate 6 i) (shared, qs) = Some (wholeHeader shared r, qs[i := (b, r, Answered (setStatus b (wholeHeader shared r)))])"
    using assms True authorizationPieces_concat [of r]
    by (simp add: numeral_eq_Suc authorizationPieces_def wholeHeader_def)
  then show ?thesis ..
next
  case False
  have "set_run (replicate 2 i) (shared, qs) = Some (wholeHeader shared r, qs[i := (b, r, Answered (setStatus b (wholeHeader shared r)))])"
    using assms False by (simp add: numeral_eq_Suc wholeHeader_def)
  then show ?thesis ..
qed

text \<open>This is the test that apiSet makes.\<close>

lemma apiSet_status:
  assumes "shared = c_authorizationHeader s"
  shows "c_authorizationHeader (ensureAuthorization os s) = wholeHeader shared (o_random os)"
  using assms by (simp add: ensureAuthorization_def wholeHeader_def)

section \<open>Two requests at once\<close>

lemma find_sub_append: "find_sub n (a @ n @ b) \<noteq> None"
proof (induction a)
  case Nil
  have "take (length n) (n @ b) = n" by simp
  then show ?case by (cases "n @ b") auto
qed simp

lemma find_sub_prefix: "find_sub (n @ m) s \<noteq> None \<Longrightarrow> find_sub n s \<noteq> None"
proof (induction s)
  case (Cons x xs)
  have "take (length n) (x # xs) = n" if "take (length (n @ m)) (x # xs) = n @ m"
    using arg_cong [OF that, of "take (length n)"] by (simp add: min_def)
  with Cons show ?case by (auto split: if_splits)
qed (simp split: if_splits)

text \<open>The second request comes when the first has appended the start of the header.\<close>

lemma run_bypass:
  assumes "isAjax b2" "hasBasic b2 (lit ''Authorization: Basic '')"
  shows "set_run [0, 0, 1, 1] ([], [(b1, r1, Testing), (b2, r2, Testing)]) =
    Some (lit ''Authorization: Basic '', [(b1, r1, Filling (tl (authorizationPieces r1))), (b2, r2, Answered 200)])"
  using assms by (simp add: numeral_eq_Suc authorizationPieces_def setStatus_def lit_def)

text \<open>Both requests find the header empty and append in turns.\<close>

lemma run_lockout:
  "\<exists>shared s1 s2 rest. set_run [0, 1, 0, 1, 0, 0, 0, 0, 1, 1, 1, 1] ([], [(b1, r1, Testing), (b2, r2, Testing)]) =
     Some (shared, [(b1, r1, Answered s1), (b2, r2, Answered s2)]) \<and>
     shared = lit ''Authorization: Basic '' @ lit ''Authorization: Basic '' @ rest"
  by (simp add: numeral_eq_Suc authorizationPieces_def)

lemma doubled_header:
  assumes "hasBasic b (lit ''Authorization: Basic '' @ lit ''Authorization: Basic '' @ rest)"
  shows "hasBasic b (lit ''Authorization: Basic Authorization: Basic '')"
proof -
  let ?p = "lit ''Authorization: Basic Authorization: Basic ''"
  have p: "lit ''Authorization: Basic '' @ lit ''Authorization: Basic '' = ?p" by (simp add: lit_def)
  have n: "0 \<notin> set ?p" by (simp add: lit_def)
  have "find_sub (?p @ cstr rest) (cstr b) \<noteq> None"
    using assms unfolding hasBasic_def strstr_def append_assoc [symmetric] p cstr_append [OF n] .
  from find_sub_prefix [OF this] show ?thesis by (simp add: hasBasic_def strstr_def cstr_no_nul [OF n])
qed

section \<open>Properties\<close>

text \<open>C20: The header of the password is filled under no lock, so two first requests for /api/set that come
together can go wrong in two ways: a request with any password at all is accepted (200) while the other one
has appended only the words before the password; and the words are appended twice, after which only a
request that repeats them is accepted, whatever password it has, until the tracker is started again.\<close>

theorem set_authorization_race:
  assumes "isAjax b2" "hasBasic b2 (lit ''Authorization: Basic '')"
  shows "(\<exists>is shared q. set_run is ([], [(b1, r1, Testing), (b2, r2, Testing)]) = Some (shared, [q, (b2, r2, Answered 200)])) \<and>
    (\<exists>is shared s1 s2. set_run is ([], [(b1, r1, Testing), (b2, r2, Testing)]) =
        Some (shared, [(b1, r1, Answered s1), (b2, r2, Answered s2)]) \<and>
      {b. setStatus b shared = 200} \<subseteq> {b. hasBasic b (lit ''Authorization: Basic Authorization: Basic '')})"
proof
  show "\<exists>is shared q. set_run is ([], [(b1, r1, Testing), (b2, r2, Testing)]) = Some (shared, [q, (b2, r2, Answered 200)])"
    using run_bypass [OF assms, of b1 r1 r2] by blast
  obtain shared s1 s2 rest where
    r: "set_run [0, 1, 0, 1, 0, 0, 0, 0, 1, 1, 1, 1] ([], [(b1, r1, Testing), (b2, r2, Testing)]) =
        Some (shared, [(b1, r1, Answered s1), (b2, r2, Answered s2)])"
      "shared = lit ''Authorization: Basic '' @ lit ''Authorization: Basic '' @ rest"
    using run_lockout [of b1 r1 b2 r2] by blast
  have "{b. setStatus b shared = 200} \<subseteq> {b. hasBasic b (lit ''Authorization: Basic Authorization: Basic '')}"
    unfolding r(2) using doubled_header [of _ rest] by (auto simp: setStatus_def split: if_splits)
  with r(1) show "\<exists>is shared s1 s2. set_run is ([], [(b1, r1, Testing), (b2, r2, Testing)]) =
        Some (shared, [(b1, r1, Answered s1), (b2, r2, Answered s2)]) \<and>
      {b. setStatus b shared = 200} \<subseteq> {b. hasBasic b (lit ''Authorization: Basic Authorization: Basic '')}" by blast
qed

definition guessing_request :: bytes where
  "guessing_request = lit ''GET /api/set?interval=1 HTTP/1.1'' @ CRLF @ lit ''X-Requested-With: XMLHttpRequest'' @ CRLF @
     lit ''Authorization: Basic QQ=='' @ CRLF @ CRLF"

theorem set_authorization_race_witness:
  "\<exists>is shared q. set_run is ([], [([], [], Testing), (guessing_request, [], Testing)]) = Some (shared, [q, (guessing_request, [], Answered 200)])"
proof -
  have "isAjax guessing_request" "hasBasic guessing_request (lit ''Authorization: Basic '')" by code_simp+
  from set_authorization_race [OF this] show ?thesis by blast
qed

end
