(* ===== verification/Geoip_Loading.thy ===== *)
theory Geoip_Loading
  imports Geoip
begin

text \<open>
  The locations while they are loaded (geoip.c): loadGeoip runs loadGeoipHandler in a thread of its own,
  and the workers look addresses up in the same table under no lock. The tables they can see are those
  after each cell that has been read; the mark in the last entry keeps the search away from them.
\<close>

section \<open>The tables the workers can see\<close>

text \<open>The entry of a line after each of its cells, and the last first address read.\<close>

fun cellStates :: "(bytes \<Rightarrow> u32) \<Rightarrow> byte \<Rightarrow> bytes list \<Rightarrow> geoip \<times> u32 \<Rightarrow> (geoip \<times> u32) list" where
  "cellStates atof position [] s = [s]"
| "cellStates atof position (c # cs) s =
     s # (case loadCell atof (position + 1) c s of Inl e \<Rightarrow> [] | Inr s1 \<Rightarrow> cellStates atof (position + 1) cs s1)"

text \<open>The table after each cell of the lines, up to an exit.\<close>

fun tablesSeen :: "(bytes \<Rightarrow> u32) \<Rightarrow> bytes list \<Rightarrow> nat \<Rightarrow> u32 \<Rightarrow> geoip list \<Rightarrow> geoip list list" where
  "tablesSeen atof [] lineNumber startIp table = [table]"
| "tablesSeen atof (l # ls) lineNumber startIp table =
     (if cells l = [] then tablesSeen atof ls (lineNumber + 1) startIp table
      else
        (case nth_res table lineNumber of
           Inl e \<Rightarrow> [table]
         | Inr g \<Rightarrow>
             map (\<lambda>(g', _). table[lineNumber := g']) (cellStates atof 0 (cells l) (g, startIp)) @
             (case loadCells atof 0 (cells l) (g, startIp) of
                Inl e \<Rightarrow> []
              | Inr (g', startIp') \<Rightarrow> tablesSeen atof ls (lineNumber + 1) startIp' (table[lineNumber := g']))))"

lemma cellStates_last: "loadCells atof position cs s = Inr s' \<Longrightarrow> last (cellStates atof position cs s) = s' \<and> cellStates atof position cs s \<noteq> []"
proof (induction cs arbitrary: position s)
  case (Cons c cs)
  then obtain s1 where "loadCell atof (position + 1) c s = Inr s1" "loadCells atof (position + 1) cs s1 = Inr s'"
    by (auto simp: bindR_Inr_iff)
  with Cons.IH [OF this(2)] show ?case by simp
qed simp

text \<open>The table of loadLines is the last one seen.\<close>

lemma tablesSeen_last:
  "loadLines atof ls n start table = Inr table' \<Longrightarrow> tablesSeen atof ls n start table \<noteq> [] \<and> last (tablesSeen atof ls n start table) = table'"
proof (induction ls arbitrary: n start table)
  case (Cons l ls)
  show ?case
  proof (cases "cells l = []")
    case True
    with Cons show ?thesis by simp
  next
    case False
    with Cons.prems obtain g g1 s1 where "nth_res table n = Inr g" "loadCells atof 0 (cells l) (g, start) = Inr (g1, s1)"
      "loadLines atof ls (n + 1) s1 (table[n := g1]) = Inr table'" by (auto simp: bindR_Inr_iff)
    with False Cons.IH [OF this(3)] show ?thesis by simp
  qed
qed simp

section \<open>Lookups while the table is loaded\<close>

text \<open>The mark that initGeoip sets.\<close>

definition marked :: "geoip list \<Rightarrow> bool" where
  "marked table \<longleftrightarrow> length table = GEOIP_FILE_LINES \<and> g_lat (table ! (GEOIP_FILE_LINES - 1)) = GEOIP_NOT_LOADING"

lemma marked_initGeoip: "marked (initGeoip False)"
  using GEOIP_FILE_LINES_pos by (simp add: marked_def initGeoip_def)

lemma marked_update: "marked table \<Longrightarrow> n < GEOIP_FILE_LINES - 1 \<Longrightarrow> marked (table[n := g])"
  by (simp add: marked_def)

lemma marked_finds: "marked table \<Longrightarrow> findGeoip table ip = Inr 0"
  using GEOIP_FILE_LINES_pos by (simp add: marked_def findGeoip_def nth_res_def)

lemma tablesSeen_marked:
  "marked table \<Longrightarrow> n + length ls \<le> GEOIP_FILE_LINES - 1 \<Longrightarrow> \<forall>t \<in> set (tablesSeen atof ls n start table). marked t"
proof (induction ls arbitrary: n start table)
  case (Cons l ls)
  have n: "n < GEOIP_FILE_LINES - 1" using Cons.prems(2) by simp
  have rest: "\<forall>t \<in> set (tablesSeen atof ls (n + 1) s t1). marked t" if "marked t1" for s t1
    using Cons.IH [OF that, of "n + 1" s] Cons.prems(2) by simp
  have upd: "marked (table[n := g])" for g by (rule marked_update [OF Cons.prems(1) n])
  show ?case
    using rest [OF Cons.prems(1)] rest [OF upd] upd Cons.prems(1)
    by (auto split: sum.splits)
qed simp

text \<open>The last line: until the cell with the latitude has been read the mark is there, and after it the entry has its addresses.\<close>

lemma cellStates_addresses:
  assumes "loadCells atof position cs (g, s) = Inr (g', s')" "2 \<le> unat position" "unat position + length cs < 256"
  shows "\<forall>(h, u) \<in> set (cellStates atof position cs (g, s)). g_startIp h = g_startIp g' \<and> g_endIp h = g_endIp g'"
  using assms
proof (induction cs arbitrary: position g s)
  case (Cons c cs)
  have p: "unat (position + 1) = unat position + 1" using Cons.prems(3) by (simp add: unat_word_ariths)
  from Cons.prems(1) obtain g1 s1 where l: "loadCell atof (position + 1) c (g, s) = Inr (g1, s1)"
    "loadCells atof (position + 1) cs (g1, s1) = Inr (g', s')" by (auto simp: bindR_Inr_iff)
  have "position + 1 \<noteq> GEOIP_POSITION_START_IP_GEOIP" "position + 1 \<noteq> GEOIP_POSITION_END_IP_GEOIP"
    using p Cons.prems(2) by (auto simp: GEOIP_POSITION_START_IP_GEOIP_def GEOIP_POSITION_END_IP_GEOIP_def)
  then have g: "g_startIp g1 = g_startIp g" "g_endIp g1 = g_endIp g" using l(1) by (auto simp: loadCell_def split: if_splits)
  from Cons.IH [OF l(2)] have ih: "\<forall>(h, u) \<in> set (cellStates atof (position + 1) cs (g1, s1)). g_startIp h = g_startIp g' \<and> g_endIp h = g_endIp g'"
    using p Cons.prems(2,3) by simp
  have "(g1, s1) \<in> set (cellStates atof (position + 1) cs (g1, s1))" by (cases cs) simp_all
  with ih have "g_startIp g1 = g_startIp g' \<and> g_endIp g1 = g_endIp g'" by blast
  with ih g l(1) show ?case by simp
qed simp

lemma covers_addresses:
  assumes "covers t" "length u = length t" "\<And>i. i < length t \<Longrightarrow> g_startIp (u ! i) = g_startIp (t ! i) \<and> g_endIp (u ! i) = g_endIp (t ! i)"
  shows "covers u"
proof -
  have l: "length t = GEOIP_FILE_LINES" using assms(1) by (simp add: covers_def)
  with assms(1) GEOIP_FILE_LINES_pos show ?thesis using assms(2,3) unfolding covers_def l by simp
qed

lemma last_line_ready:
  assumes t: "marked t" and n: "n = GEOIP_FILE_LINES - 1"
    and l: "loadCells atof 0 cs (t ! n, st) = Inr (g', s')" "length cs < 256" and c: "covers (t[n := g'])"
  shows "\<forall>(h, u) \<in> set (cellStates atof 0 cs (t ! n, st)). geoip_ready (t[n := h])"
proof -
  have early: "geoip_ready (t[n := h])" if "g_lat h = g_lat (t ! n)" for h
    using t that n GEOIP_FILE_LINES_pos by (simp add: geoip_ready_def marked_def)
  have nl: "n < length t" using t n GEOIP_FILE_LINES_pos by (simp add: marked_def)
  have late: "geoip_ready (t[n := h])" if "g_startIp h = g_startIp g'" "g_endIp h = g_endIp g'" for h
  proof -
    have "covers (t[n := h])" by (rule covers_addresses [OF c]) (use that nl in \<open>simp_all add: nth_list_update\<close>)
    then show ?thesis by (simp add: geoip_ready_def)
  qed
  have lat: "g_lat h1 = g_lat h" if "loadCell atof p x (h, u) = Inr (h1, u1)" "p = 1 \<or> p = 2" for p x h u h1 u1
    using that by (auto simp: loadCell_def GEOIP_POSITION_START_IP_GEOIP_def GEOIP_POSITION_END_IP_GEOIP_def
        GEOIP_POSITION_LAT_GEOIP_def GEOIP_POSITION_LON_GEOIP_def split: if_splits)
  show ?thesis
  proof (cases cs)
    case Nil
    then show ?thesis using early [of "t ! n"] by simp
  next
    case c1: (Cons x xs)
    obtain g1 u1 where 1: "loadCell atof 1 x (t ! n, st) = Inr (g1, u1)" "loadCells atof 1 xs (g1, u1) = Inr (g', s')"
      using l(1) c1 by (auto simp: bindR_Inr_iff)
    note e1 = early [OF lat [OF 1(1)]]
    show ?thesis
    proof (cases xs)
      case Nil
      then show ?thesis using c1 1 e1 early [of "t ! n"] by simp
    next
      case c2: (Cons y ys)
      obtain g2 u2 where 2: "loadCell atof 2 y (g1, u1) = Inr (g2, u2)" "loadCells atof 2 ys (g2, u2) = Inr (g', s')"
        using 1(2) c2 by (auto simp: bindR_Inr_iff)
      have "\<forall>(h, u) \<in> set (cellStates atof 2 ys (g2, u2)). g_startIp h = g_startIp g' \<and> g_endIp h = g_endIp g'"
        by (rule cellStates_addresses [OF 2(2)]) (use l(2) c1 c2 in simp_all)
      then have "\<forall>(h, u) \<in> set (cellStates atof 2 ys (g2, u2)). geoip_ready (t[n := h])" using late by fast
      then show ?thesis using c1 c2 1(1) 2(1) e1 early [of "t ! n"] by simp
    qed
  qed
qed

text \<open>
  The tables of a file with a line for each entry: before the last line every address is answered with the
  first entry, and from then on the table is one that the search is right on.
\<close>

lemma lookups_while_loading:
  assumes "length ls < GEOIP_FILE_LINES" "t \<in> set (tablesSeen atof ls 0 0 (initGeoip False))"
  shows "findGeoip t ip = Inr 0"
  using tablesSeen_marked [OF marked_initGeoip, of 0 ls atof 0] assms by (auto intro: marked_finds)

lemma lookups_at_the_last_line:
  assumes "loadLines atof ls 0 0 (initGeoip False) = Inr t" "Suc (length ls) = GEOIP_FILE_LINES"
    "loadCells atof 0 (cells l) (t ! length ls, st) = Inr (g', s')" "length (cells l) < 256" "covers (t[length ls := g'])"
    "(h, u) \<in> set (cellStates atof 0 (cells l) (t ! length ls, st))"
  shows "\<exists>i < GEOIP_FILE_LINES. findGeoip (t[length ls := h]) ip = Inr i"
proof -
  have "t \<in> set (tablesSeen atof ls 0 0 (initGeoip False))" using tablesSeen_last [OF assms(1)] last_in_set by blast
  moreover have "\<forall>t \<in> set (tablesSeen atof ls 0 0 (initGeoip False)). marked t"
    by (rule tablesSeen_marked [OF marked_initGeoip]) (use assms(2) in simp)
  ultimately have m: "marked t" by blast
  have "length ls = GEOIP_FILE_LINES - 1" using assms(2) by simp
  from last_line_ready [OF m this assms(3-5)] assms(6) have "geoip_ready (t[length ls := h])" by blast
  from findGeoip_ready [OF this] m show ?thesis by (simp add: marked_def)
qed

end
