(* ===== verification/Event_Queue.thy ===== *)
theory Event_Queue
  imports Tcp_Client
begin

text \<open>
  The event queue of a worker (equeue.c) on its two systems, epoll and kqueue: what the calls are given
  and how an event that comes back is read. The events a turn of the worker gets (Tcp\_Client) are these.
\<close>

section \<open>equeue.c\<close>

definition EQUEUE_WAIT_TIMEOUT_MS :: nat where "EQUEUE_WAIT_TIMEOUT_MS = 50"
definition EQUEUE_EVENTS_EACH_LOOP :: nat where "EQUEUE_EVENTS_EACH_LOOP = 32"

text \<open>The constants of sys/epoll.h and sys/event.h.\<close>

definition EPOLLIN :: u32 where "EPOLLIN = 1"
definition EPOLLET :: u32 where "EPOLLET = 0x80000000"
definition EVFILT_READ :: u16 where "EVFILT_READ = - 1"
definition EV_ADD :: u16 where "EV_ADD = 1"
definition EV_DELETE :: u16 where "EV_DELETE = 2"
definition EV_CLEAR :: u16 where "EV_CLEAR = 0x20"
definition EV_EOF :: u16 where "EV_EOF = 0x8000"

text \<open>The descriptor as the worker put it into the event; the identifier, the filter and the flags of a kevent.\<close>

datatype eq_event = Epoll_event u32 u32 | Kevent u64 u16 u16

datatype equeue_call = Epoll_add u32 eq_event | Epoll_del u32 | Kevent_change eq_event

definition addClientEqueue :: "bool \<Rightarrow> u32 \<Rightarrow> equeue_call" where
  "addClientEqueue apple clientSocket =
     (if apple then Kevent_change (Kevent (scast clientSocket) EVFILT_READ (EV_ADD OR EV_CLEAR))
      else Epoll_add clientSocket (Epoll_event (EPOLLIN OR EPOLLET) clientSocket))"

definition deleteClientEqueue :: "bool \<Rightarrow> u32 \<Rightarrow> equeue_call" where
  "deleteClientEqueue apple clientSocket =
     (if apple then Kevent_change (Kevent (scast clientSocket) EVFILT_READ EV_DELETE) else Epoll_del clientSocket)"

text \<open>The most events and the time to wait: milliseconds for epoll, seconds and nanoseconds for kqueue.\<close>

definition checkEqueue :: "bool \<Rightarrow> nat \<times> nat \<times> nat" where
  "checkEqueue apple = (EQUEUE_EVENTS_EACH_LOOP, if apple then (0, EQUEUE_WAIT_TIMEOUT_MS * 1000000) else (EQUEUE_WAIT_TIMEOUT_MS, 0))"

fun getSocketEqueue :: "eq_event \<Rightarrow> u32" where
  "getSocketEqueue (Epoll_event events fd) = fd"
| "getSocketEqueue (Kevent ident filt flags) = ucast ident"

fun isEof :: "eq_event \<Rightarrow> bool" where
  "isEof (Epoll_event events fd) \<longleftrightarrow> False"
| "isEof (Kevent ident filt flags) \<longleftrightarrow> flags AND EV_EOF \<noteq> 0"

fun isRead :: "eq_event \<Rightarrow> bool" where
  "isRead (Epoll_event events fd) \<longleftrightarrow> True"
| "isRead (Kevent ident filt flags) \<longleftrightarrow> filt = EVFILT_READ"

text \<open>What clientTcpHandler asks of an event, in this order.\<close>

definition eventOf :: "eq_event \<Rightarrow> tcp_event" where
  "eventOf e = (if isEof e then Eof else if isRead e then Readable else Other_event)"

definition loopInput :: "(eq_event \<times> tcp_os) list \<Rightarrow> (u32 \<times> tcp_event \<times> tcp_os) list" where
  "loopInput = map (\<lambda>(e, os). (getSocketEqueue e, eventOf e, os))"

section \<open>The events of the sockets\<close>

text \<open>The event a socket is registered with, which epoll and kqueue give back, the flags apart.\<close>

fun registered :: "equeue_call \<Rightarrow> eq_event option" where
  "registered (Epoll_add fd e) = Some e"
| "registered (Kevent_change e) = Some e"
| "registered (Epoll_del fd) = None"

fun reported :: "eq_event \<Rightarrow> u16 \<Rightarrow> eq_event" where
  "reported (Epoll_event events fd) flags = Epoll_event (ucast flags) fd"
| "reported (Kevent ident filt f) flags = Kevent ident filt flags"

lemma scast_back: "ucast (scast (w :: u32) :: u64) = w"
  by (rule bit_word_eqI) (simp add: bit_simps)

lemma event_of_its_socket:
  assumes "registered (addClientEqueue apple socket) = Some e"
  shows "getSocketEqueue (reported e flags) = socket" "isRead (reported e flags)"
  using assms by (auto simp: addClientEqueue_def scast_back split: if_splits)

text \<open>With epoll an event is always one to read: that the peer has gone shows in what recv returns.\<close>

lemma epoll_never_eof: "eventOf (Epoll_event events fd) = Readable"
  by (simp add: eventOf_def)

lemma kqueue_eof: "eventOf (Kevent ident EVFILT_READ flags) = (if bit flags 15 then Eof else Readable)"
proof -
  have "flags AND EV_EOF \<noteq> 0 \<longleftrightarrow> bit flags 15"
    using and_exp_eq_0_iff_not_bit [of flags 15] by (simp add: EV_EOF_def)
  then show ?thesis by (simp add: eventOf_def)
qed

text \<open>The wait is below a second, so the nanoseconds are in their range.\<close>

lemma checkEqueue_range: "snd (snd (checkEqueue apple)) < 10 ^ 9"
  by (simp add: checkEqueue_def EQUEUE_WAIT_TIMEOUT_MS_def)

text \<open>A turn of the worker on the events of epoll: none of them closes a socket without a look at its bytes.\<close>

lemma epoll_turn:
  "clientTcpHandler env closeErr (loopInput (map (\<lambda>(events, fd, os). (Epoll_event events fd, os)) evs)) s =
   clientTcpHandler env closeErr (map (\<lambda>(events, fd, os). (fd, Readable, os)) evs) s"
  by (simp add: loopInput_def comp_def case_prod_unfold epoll_never_eof)

end
