(* ===== verification/Console.thy ===== *)
theory Console
  imports Hash_List_Laws Block_Buffer
begin

text \<open>
  What the program prints for those who look for its faults: the hexadecimal dump of a datagram or an answer
  (string.c, printHex), with a reader that shows that the dump has every byte, and the items of a list (list.c,
  printList).
\<close>

section \<open>printHex\<close>

text \<open>The digits of \%x, \%4d, and isprint in the C locale.\<close>

definition hexDigit :: "nat \<Rightarrow> byte" where
  "hexDigit n = (if n < 10 then 48 + of_nat n else 87 + of_nat n)"

definition hex2 :: "byte \<Rightarrow> bytes" where
  "hex2 b = [hexDigit (unat b div 16), hexDigit (unat b mod 16)]"

definition pad4 :: "bytes \<Rightarrow> bytes" where
  "pad4 s = replicate (4 - length s) 32 @ s"

definition isprint :: "byte \<Rightarrow> bool" where
  "isprint c \<longleftrightarrow> 32 \<le> c \<and> c \<le> 126"

definition dumpHead :: bytes where
  "dumpHead =
     lit ''     |  0  1  2  3    4  5  6  7    8  9 10 11   12 13 14 15 | 0123 4567 8901 2345'' @ [10] @
     lit ''-----+-------------------------------------------------------+--------------------'' @ [10]"

text \<open>The characters at the end of a line of sixteen bytes.\<close>

definition dumpChar :: "bytes \<Rightarrow> nat \<Rightarrow> nat \<Rightarrow> bytes" where
  "dumpChar string len j =
     (if j < len
      then (if isprint (string ! j) then [string ! j] else lit ''.'') @
           (if j mod 4 = 3 \<and> j mod 16 \<noteq> 15 then lit '' '' else [])
      else [])"

text \<open>One turn of the loop.\<close>

definition dumpIndex :: "bytes \<Rightarrow> nat \<Rightarrow> nat \<Rightarrow> bytes" where
  "dumpIndex string len index =
     (if index mod 16 = 0 then pad4 (fmt_d (of_nat index)) @ lit '' | '' else []) @
     (if index < len then hex2 (string ! index) @ [32] else lit ''   '') @
     (if index mod 4 = 3 \<and> index mod 16 \<noteq> 15 then lit ''  '' else []) @
     (if index mod 16 = 15 then lit ''| '' @ concat (map (dumpChar string len) [index - 15..<index + 1]) @ [10] else [])"

definition ceilLen :: "u32 \<Rightarrow> u32" where
  "ceilLen len = of_nat ((unat len + 15) div 16) * 16"

definition printHex :: "bytes \<Rightarrow> u32 \<Rightarrow> bytes" where
  "printHex string len = dumpHead @ concat (map (dumpIndex string (unat len)) [0..<unat (ceilLen len)])"

section \<open>Reading a dump\<close>

text \<open>The lines without the two of the head, the cells of a line behind its first bar, the byte of a cell.\<close>

fun splitLines :: "bytes \<Rightarrow> bytes \<Rightarrow> bytes list" where
  "splitLines acc [] = []"
| "splitLines acc (c # cs) = (if c = 10 then acc # splitLines [] cs else splitLines (acc @ [c]) cs)"

definition readCell :: "bytes \<Rightarrow> bytes" where
  "readCell s =
     (case s of
        a # b # _ \<Rightarrow> (case (digit_val a, digit_val b) of (Some x, Some y) \<Rightarrow> [of_nat (16 * x + y)] | _ \<Rightarrow> [])
      | _ \<Rightarrow> [])"

definition cellPos :: "nat \<Rightarrow> nat" where
  "cellPos k = 3 * k + 2 * (k div 4)"

definition readLine :: "bytes \<Rightarrow> bytes" where
  "readLine l = (let h = drop 2 (dropWhile (\<lambda>c. c \<noteq> 124) l) in concat (map (\<lambda>k. readCell (drop (cellPos k) h)) [0..<16]))"

definition readDump :: "bytes \<Rightarrow> bytes" where
  "readDump d = concat (map readLine (drop 2 (splitLines [] d)))"

section \<open>The cells\<close>

lemma upt_16: "[0..<16] = [0, 1, 2, 3, 4, 5, 6, 7, 8, 9, 10, 11, 12, 13, 14, 15 :: nat]"
  by (simp add: upt_rec)

text \<open>A claim about the column n of the dump, from all of them.\<close>

lemma every_column: "n < 16 \<Longrightarrow> list_all P [0..<16] \<Longrightarrow> P n"
  by (simp add: list_all_iff)

lemma hexDigit_val: "n < 16 \<Longrightarrow> digit_val (hexDigit n) = Some n \<and> hexDigit n \<noteq> 10 \<and> hexDigit n \<noteq> 124"
  by (erule every_column) (simp add: upt_16 hexDigit_def digit_val_def)

lemma readCell_hex2: "readCell (hex2 b @ r) = [b]"
proof -
  have "unat b div 16 < 16" using unat_byte [of b] by (simp add: div_less_iff_less_mult)
  then show ?thesis
    using hexDigit_val [of "unat b div 16"] hexDigit_val [of "unat b mod 16"]
    by (simp add: readCell_def hex2_def mult.commute [of 16])
qed

lemma readCell_blank: "readCell (32 # r) = []"
  by (auto simp: readCell_def digit_val_def split: list.split)

text \<open>The cell of the byte k of the line r, with the gap behind it.\<close>

definition dumpCell :: "bytes \<Rightarrow> nat \<Rightarrow> nat \<Rightarrow> nat \<Rightarrow> bytes" where
  "dumpCell string len r k =
     (if 16 * r + k < len then hex2 (string ! (16 * r + k)) @ [32] else lit ''   '') @ (if k mod 4 = 3 \<and> k \<noteq> 15 then lit ''  '' else [])"

definition cellSize :: "nat \<Rightarrow> nat" where
  "cellSize k = (if k mod 4 = 3 \<and> k \<noteq> 15 then 5 else 3)"

lemma length_dumpCell [simp]: "length (dumpCell string len r k) = cellSize k"
  by (simp add: dumpCell_def cellSize_def hex2_def)

lemma drop_concat: "k \<le> length xs \<Longrightarrow> drop (sum_list (map length (take k xs))) (concat xs) = concat (drop k xs)"
  by (induction xs arbitrary: k) (auto simp: take_Cons' drop_Cons')

lemma cellPos_sum: "k < 16 \<Longrightarrow> cellPos k = sum_list (map cellSize [0..<k])"
  by (erule every_column) (simp add: upt_16 cellPos_def cellSize_def upt_rec)

lemma readCell_at:
  assumes "k < 16"
  shows "readCell (drop (cellPos k) (concat (map (dumpCell string len r) [0..<16]) @ rest)) =
    (if 16 * r + k < len then [string ! (16 * r + k)] else [])"
proof -
  let ?c = "map (dumpCell string len r) [0..<16]"
  have "drop (cellPos k) (concat ?c) = concat (drop k ?c)"
    using drop_concat [of k ?c] assms by (simp add: cellPos_sum take_map comp_def)
  moreover have "drop k ?c = dumpCell string len r k # drop (Suc k) ?c" using assms by (subst Cons_nth_drop_Suc [symmetric]) simp_all
  moreover have "cellPos k \<le> length (concat ?c)"
    using assms by (rule every_column) (simp add: upt_16 length_concat comp_def cellPos_def cellSize_def upt_rec)
  ultimately have "drop (cellPos k) (concat ?c @ rest) = dumpCell string len r k @ concat (drop (Suc k) ?c) @ rest" by simp
  then show ?thesis by (simp add: dumpCell_def readCell_hex2 readCell_blank lit_def)
qed

section \<open>The lines\<close>

definition lineBody :: "bytes \<Rightarrow> nat \<Rightarrow> nat \<Rightarrow> bytes" where
  "lineBody string len r =
     pad4 (fmt_d (of_nat (16 * r))) @ [32] @ [124, 32] @ concat (map (dumpCell string len r) [0..<16]) @ [124, 32] @
     concat (map (dumpChar string len) [16 * r..<16 * r + 16])"

lemma shift_upt: "[16 * r..<16 * r + 16] = map (\<lambda>k. 16 * r + k) [0..<16]"
  using map_add_upt [of "16 * r" 16] by (simp add: add.commute)

lemma dumpIndex_cell:
  assumes "k < 16"
  shows "dumpIndex string len (16 * r + k) =
    (if k = 0 then pad4 (fmt_d (of_nat (16 * r))) @ [32, 124, 32] else []) @ dumpCell string len r k @
    (if k = 15 then [124, 32] @ concat (map (dumpChar string len) [16 * r..<16 * r + 16]) @ [10] else [])"
proof -
  have m: "(16 * r + k) mod 16 = k" "(16 * r + k) mod 4 = k mod 4"
    using assms mod_mult_self3 [of "4 * r" 4 k] by (simp_all add: mult.assoc [symmetric])
  have l: "lit '' | '' = [32, 124, 32]" "lit ''| '' = [124, 32]" by (simp_all add: lit_def)
  show ?thesis
    unfolding dumpIndex_def dumpCell_def m l by (cases "k = 15"; cases "k = 0") (simp_all add: m add.commute)
qed

lemma dumpIndex_line: "concat (map (dumpIndex string len) [16 * r..<16 * r + 16]) = lineBody string len r @ [10]"
proof -
  define x where "x = pad4 (fmt_d (of_nat (16 * r))) @ [32, 124, 32]"
  define y where "y = [124, 32] @ concat (map (dumpChar string len) [16 * r..<16 * r + 16]) @ [10]"
  have "dumpIndex string len (16 * r + k) = (if k = 0 then x else []) @ dumpCell string len r k @ (if k = 15 then y else [])"
    if "k < 16" for k using dumpIndex_cell [OF that, of string len r] by (simp only: x_def y_def)
  then have "concat (map (dumpIndex string len) [16 * r..<16 * r + 16]) =
      concat (map (\<lambda>k. (if k = 0 then x else []) @ dumpCell string len r k @ (if k = 15 then y else [])) [0..<16])"
    unfolding shift_upt map_map by (intro arg_cong [of _ _ concat] map_cong refl) simp
  also have "\<dots> = x @ concat (map (dumpCell string len r) [0..<16]) @ y"
    unfolding upt_16 by simp
  finally show ?thesis by (simp add: lineBody_def x_def y_def)
qed

lemma upt_lines: "concat (map f [0..<16 * n]) = concat (map (\<lambda>r. concat (map f [16 * r..<16 * r + 16])) [0..<n])"
proof (induction n)
  case (Suc n)
  have "[0..<16 * Suc n] = [0..<16 * n] @ [16 * n..<16 * n + 16]" using upt_add_eq_append [of 0 "16 * n" 16] by (simp add: add.commute)
  then show ?case using Suc.IH by simp
qed simp

lemma splitLines_line: "10 \<notin> set l \<Longrightarrow> splitLines acc (l @ 10 # d) = (acc @ l) # splitLines [] d"
  by (induction l arbitrary: acc) auto

lemma splitLines_lines: "(\<And>r. r \<in> set rs \<Longrightarrow> 10 \<notin> set (f r)) \<Longrightarrow> splitLines [] (concat (map (\<lambda>r. f r @ [10]) rs)) = map f rs"
  by (induction rs) (auto simp: splitLines_line)

lemma fmt_d_chars: "c \<in> set (fmt_d w) \<Longrightarrow> c = 45 \<or> isdigit c"
  by (auto simp: fmt_d_def split: if_splits)

lemma indexColumn: "10 \<notin> set (pad4 (fmt_d w))" "124 \<notin> set (pad4 (fmt_d w))"
  using fmt_d_chars [of 10 w] fmt_d_chars [of 124 w] by (auto simp: pad4_def isdigit_def)

lemma dumpCell_chars: "10 \<notin> set (dumpCell string len r k)"
proof -
  have "hexDigit (unat b div 16) \<noteq> 10 \<and> hexDigit (unat b mod 16) \<noteq> 10" for b :: byte
    using hexDigit_val [of "unat b div 16"] hexDigit_val [of "unat b mod 16"] unat_byte [of b] by (simp add: div_less_iff_less_mult)
  then show ?thesis by (auto simp: dumpCell_def hex2_def lit_def)
qed

lemma dumpChar_chars: "10 \<notin> set (dumpChar string len j)"
  by (auto simp: dumpChar_def isprint_def lit_def)

lemma lineBody_chars: "10 \<notin> set (lineBody string len r)"
  using indexColumn(1) by (auto simp: lineBody_def dumpCell_chars dumpChar_chars)

lemma readLine_body: "readLine (lineBody string len r) = concat (map (\<lambda>k. if 16 * r + k < len then [string ! (16 * r + k)] else []) [0..<16])"
proof -
  let ?rest = "[124, 32] @ concat (map (dumpChar string len) [16 * r..<16 * r + 16])"
  have "dropWhile (\<lambda>c. c \<noteq> 124) (lineBody string len r) = [124, 32] @ concat (map (dumpCell string len r) [0..<16]) @ ?rest"
    using indexColumn(2) [of "of_nat (16 * r)"] unfolding lineBody_def by (subst dropWhile_append2) auto
  then have h: "drop 2 (dropWhile (\<lambda>c. c \<noteq> 124) (lineBody string len r)) = concat (map (dumpCell string len r) [0..<16]) @ ?rest"
    by simp
  show ?thesis
    unfolding readLine_def Let_def h by (intro arg_cong [of _ _ concat] map_cong refl readCell_at) simp
qed

lemma printHex_lines:
  assumes "unat len + 16 \<le> 2 ^ 32"
  shows "printHex string len = dumpHead @ concat (map (\<lambda>r. lineBody string (unat len) r @ [10]) [0..<(unat len + 15) div 16])"
proof -
  have "(unat len + 15) div 16 * 16 < 2 ^ 32" using assms div_times_less_eq_dividend [of "unat len + 15" 16] by linarith
  then have "unat (ceilLen len) = 16 * ((unat len + 15) div 16)"
    unfolding ceilLen_def by (simp add: unat_word_ariths unat_of_nat mult.commute)
  then show ?thesis unfolding printHex_def by (simp only: upt_lines dumpIndex_line)
qed

lemma select_below: "n \<le> 16 * m \<Longrightarrow> n = length xs \<Longrightarrow>
  concat (map (\<lambda>r. concat (map (\<lambda>k. if 16 * r + k < n then [xs ! (16 * r + k)] else []) [0..<16])) [0..<m]) = xs"
proof -
  let ?f = "\<lambda>i. if i < n then [xs ! i] else []"
  assume n: "n \<le> 16 * m" "n = length xs"
  have "concat (map (\<lambda>r. concat (map (\<lambda>k. ?f (16 * r + k)) [0..<16])) [0..<m]) = concat (map ?f [0..<16 * m])"
    unfolding upt_lines [of ?f] shift_upt map_map comp_def ..
  also have "[0..<16 * m] = [0..<n] @ [n..<16 * m]" using upt_add_eq_append [of 0 n "16 * m - n"] n(1) by simp
  also have "concat (map ?f ([0..<n] @ [n..<16 * m])) = concat (map (\<lambda>i. [xs ! i]) [0..<n])"
  proof -
    have "concat (map ?f [n..<16 * m]) = []" by (simp add: concat_eq_Nil_conv)
    moreover have "map ?f [0..<n] = map (\<lambda>i. [xs ! i]) [0..<n]" by (rule map_cong) simp_all
    ultimately show ?thesis unfolding map_append concat_append by (simp only: append_Nil2)
  qed
  also have "\<dots> = map ((!) xs) [0..<n]" by (induction n) simp_all
  also have "\<dots> = xs" using n(2) by (simp add: map_nth)
  finally show ?thesis .
qed

section \<open>printList\<close>

text \<open>The item as \%.*s prints it, up to a NUL, with a blank.\<close>

definition itemText :: "nat \<Rightarrow> bytes \<Rightarrow> bytes" where
  "itemText n h = cstr (take n h) @ [32]"

fun concatR :: "('k \<Rightarrow> 'p list res) \<Rightarrow> 'k list \<Rightarrow> 'p list res" where
  "concatR f [] = Inr []"
| "concatR f (x # xs) = bindR (f x) (\<lambda>ps. bindR (concatR f xs) (\<lambda>qs. Inr (ps @ qs)))"

lemma concatR_cong [fundef_cong]:
  "xs = ys \<Longrightarrow> (\<And>x. x \<in> set ys \<Longrightarrow> f x = g x) \<Longrightarrow> concatR f xs = concatR g ys"
  by (induction ys arbitrary: xs) auto

text \<open>The pieces of the nested calls, those of a leaf under its semaphore.\<close>

function printLeaves :: "'a hlist \<Rightarrow> bytes list res" where
  "printLeaves l =
     (if level l > 0 then concatR printLeaves (subLists l)
      else if leafItems l = [] then Inr []
      else bindR (waitSemaphoreLeaf l) (\<lambda>l1. bindR (postSemaphoreLeaf l1) (\<lambda>_.
             Inr (map (\<lambda>(h, _). itemText (hashLength l1) h) (leafItems l1) @ [lit '', '']))))"
  by pat_completeness auto
termination
  by (relation "measure size") (auto dest: size_subLists)

declare printLeaves.simps [simp del]

definition printList :: "'a hlist \<Rightarrow> piece list res" where
  "printList l = bindR (printLeaves l) (\<lambda>ps. Inr (map (Piece_format 100) ([lit ''List:''] @ ps @ [[10]])))"

text \<open>The items in their order, in groups that are not empty.\<close>

definition printed :: "(nat \<times> 'a item list) list \<Rightarrow> bytes list" where
  "printed groups = concat (map (\<lambda>(n, g). map (\<lambda>(h, _). itemText n h) g @ [lit '', '']) groups)"

lemma printed_append: "printed (gs @ hs) = printed gs @ printed hs"
  by (simp add: printed_def)

lemma printLeaves_prints:
  "leaves_free l \<Longrightarrow> \<exists>groups. printLeaves l = Inr (printed groups) \<and> concat (map snd groups) = allItems l \<and> (\<forall>(n, g) \<in> set groups. g \<noteq> [])"
proof (induction l rule: printLeaves.induct)
  case (1 l)
  show ?case
  proof (cases "level l > 0")
    case True
    have "\<forall>c \<in> set cs. \<exists>groups. printLeaves c = Inr (printed groups) \<and> concat (map snd groups) = allItems c \<and> (\<forall>(n, g) \<in> set groups. g \<noteq> []) \<Longrightarrow>
      \<exists>groups. concatR printLeaves cs = Inr (printed groups) \<and> concat (map snd groups) = concat (map allItems cs) \<and>
        (\<forall>(n, g) \<in> set groups. g \<noteq> [])" for cs :: "'a hlist list"
    proof (induction cs)
      case Nil
      then show ?case by (intro exI [of _ "[]"]) (simp add: printed_def)
    next
      case (Cons c cs)
      then obtain g1 g2 where g: "printLeaves c = Inr (printed g1)" "concat (map snd g1) = allItems c" "\<forall>(n, g) \<in> set g1. g \<noteq> []"
        "concatR printLeaves cs = Inr (printed g2)" "concat (map snd g2) = concat (map allItems cs)" "\<forall>(n, g) \<in> set g2. g \<noteq> []"
        by auto
      then show ?case by (intro exI [of _ "g1 @ g2"]) (auto simp: printed_append)
    qed
    moreover have "\<forall>c \<in> set (subLists l). \<exists>groups. printLeaves c = Inr (printed groups) \<and> concat (map snd groups) = allItems c \<and>
        (\<forall>(n, g) \<in> set groups. g \<noteq> [])"
      using 1(1) [OF True] 1(2) True by (simp add: leaves_free_node)
    ultimately show ?thesis using True by (simp add: printLeaves.simps [of l] allItems_node)
  next
    case False
    show ?thesis
    proof (cases "leafItems l = []")
      case True
      then show ?thesis
        using False by (intro exI [of _ "[]"]) (simp add: printLeaves.simps [of l] printed_def allItems_leaf)
    next
      case items: False
      obtain l1 where l1: "waitSemaphoreLeaf l = Inr l1" "leafItems l1 = leafItems l"
        "\<And>xs. postSemaphoreLeaf (set_items xs l1) = Inr (set_items xs l)" using wait_post [OF _ 1(2)] False by auto
      have "postSemaphoreLeaf l1 = Inr (set_items (leafItems l1) l)" using l1(3) [of "leafItems l1"] by (cases l1) simp
      with False items l1(1,2) show ?thesis
        by (intro exI [of _ "[(hashLength l1, leafItems l)]"]) (simp add: printLeaves.simps [of l] printed_def allItems_leaf)
    qed
  qed
qed

text \<open>Every item of a list that no one holds is printed, and a piece fits its hundred bytes for hashes of up to 99.\<close>

lemma printList_prints:
  assumes "leaves_free l"
  shows "\<exists>groups. printList l = Inr (map (Piece_format 100) ([lit ''List:''] @ printed groups @ [[10]])) \<and>
    concat (map snd groups) = allItems l \<and> (\<forall>(n, g) \<in> set groups. g \<noteq> [])"
  using printLeaves_prints [OF assms] by (force simp: printList_def)

lemma itemText_fits: "n < 100 \<Longrightarrow> piece_valid (Piece_format 100 (itemText n h))"
  using strlen_le [of "take n h"] by (simp add: itemText_def strlen_def)

section \<open>Properties\<close>

text \<open>The dump of any bytes (up to the sizes a 32-bit length rounds up to) can be read back: its cells,
line by line, are the hexadecimal numbers of the bytes, all of them and nothing else.\<close>

theorem dump_reads_back:
  assumes "length string + 16 \<le> 2 ^ 32"
  shows "readDump (printHex string (of_nat (length string))) = string"
proof -
  let ?n = "length string" and ?m = "(length string + 15) div 16"
  have n: "unat (of_nat ?n :: u32) = ?n" using assms by (simp add: unat_of_nat)
  have head: "splitLines [] (dumpHead @ d) =
      [lit ''     |  0  1  2  3    4  5  6  7    8  9 10 11   12 13 14 15 | 0123 4567 8901 2345'',
       lit ''-----+-------------------------------------------------------+--------------------''] @ splitLines [] d" for d
    unfolding dumpHead_def append_assoc append_Cons append_Nil
    by (subst splitLines_line, code_simp, subst splitLines_line, code_simp, simp)
  have "splitLines [] (concat (map (\<lambda>r. lineBody string ?n r @ [10]) [0..<?m])) = map (lineBody string ?n) [0..<?m]"
    by (rule splitLines_lines) (rule lineBody_chars)
  then have "readDump (printHex string (of_nat ?n)) = concat (map (\<lambda>r. readLine (lineBody string ?n r)) [0..<?m])"
    using printHex_lines [of "of_nat ?n" string] assms n by (simp add: readDump_def head comp_def)
  also have "\<dots> = string" unfolding readLine_body by (rule select_below) simp_all
  finally show ?thesis .
qed

theorem dump_reads_back_witness: "readDump (printHex [0, 255, 124, 10, 65] 5) = [0, 255, 124, 10, 65]"
  using dump_reads_back [of "[0, 255, 124, 10, 65]"] by simp

end
