(* ===== verification/Garbage_Report.thy ===== *)
theory Garbage_Report
  imports Data_Garbage Stats_Page
begin

text \<open>
  What a pass of the collector counts and the line it prints (data\_garbage.c, interval.c, rps.c as
  thread\_garbage.c calls them, time.c): the totals are those of the tracker the pass leaves, and the
  line fits the space that is asked for it.
\<close>

section \<open>time.c\<close>

definition getStartTime :: "int \<times> int \<Rightarrow> u64" where
  "getStartTime tv = of_int (fst tv) * 1000000 + of_int (snd tv)"

definition getDiffTime :: "int \<times> int \<Rightarrow> u64 \<Rightarrow> u64" where
  "getDiffTime tv startTime = getStartTime tv - startTime"

text \<open>The difference is right across a wrap of the microseconds since 1970.\<close>

lemma getDiffTime_elapsed:
  assumes "fst tv * 1000000 + snd tv = fst tv0 * 1000000 + snd tv0 + int d" "d < 2 ^ 64"
  shows "unat (getDiffTime tv (getStartTime tv0)) = d"
proof -
  have "getDiffTime tv (getStartTime tv0) = of_int (fst tv * 1000000 + snd tv - (fst tv0 * 1000000 + snd tv0))"
    by (simp add: getDiffTime_def getStartTime_def)
  also have "\<dots> = of_nat d" using assms(1) by simp
  finally show ?thesis using assms(2) by (simp add: unat_of_nat)
qed

section \<open>The line of the collector\<close>

text \<open>ctime's text is cut to 19 characters, a number is padded to seven places.\<close>

definition garbageLine :: "stats_env \<Rightarrow> int \<Rightarrow> garbageStats \<Rightarrow> u64 \<Rightarrow> bytes" where
  "garbageLine y now g elapsed =
     take 19 (y_ctime y now) @ [32] @
     pad7 (fmt_d (g_totalPeers g)) @ lit '' TP '' @ pad7 (fmt_d (g_totalTorrents g)) @ lit '' TT '' @
     pad7 (fmt_d (g_totalTorrentsWithChangeLimit g)) @ lit '' TL '' @
     pad7 (fmt_d (g_maxPeersInOneTorrent g)) @ lit '' MPT '' @ pad7 (fmt_d (g_maxPeersInLeaf g)) @ lit '' MPL '' @
     pad7 (fmt_d (g_maxTorrentsInOneLeaf g)) @ lit '' MTL '' @
     pad7 (fmt_d (g_removedPeers g)) @ lit '' RP '' @ pad7 (fmt_d (g_removedTorrents g)) @ lit '' RT '' @
     pad7 (dec (unat elapsed)) @ [32, 194, 181] @ lit ''s''"

definition intervalLine :: "bytes \<Rightarrow> bytes \<Rightarrow> bytes \<Rightarrow> bytes \<Rightarrow> interval \<Rightarrow> bytes" where
  "intervalLine l0 l1 l2 maxAllow iv =
     lit ''LA: '' @ l0 @ [32] @ l1 @ [32] @ l2 @ lit ''  ML: '' @ maxAllow @ lit ''  I: '' @ fmt_d (i_interval iv) @
     lit '' ('' @ fmt_d (i_previousInterval iv) @ lit ''->'' @ fmt_d (i_requireInterval iv) @ lit '') s''"

definition rpsNumber :: "rps \<Rightarrow> byte \<Rightarrow> byte \<Rightarrow> bytes res" where
  "rpsNumber r protocol version = bindR (getRps protocol version r) (\<lambda>n. Inr (dec (toFloat (unat n))))"

definition rpsLineEnd :: "rps \<Rightarrow> bytes res" where
  "rpsLineEnd r =
     bindR (rpsNumber r RPS_PROTOCOL_TCP RPS_VERSION_IPV4) (\<lambda>a.
     bindR (rpsNumber r RPS_PROTOCOL_UDP RPS_VERSION_IPV4) (\<lambda>b.
     bindR (rpsNumber r RPS_PROTOCOL_TCP RPS_VERSION_IPV6) (\<lambda>c.
     bindR (rpsNumber r RPS_PROTOCOL_UDP RPS_VERSION_IPV6) (\<lambda>d.
       Inr (lit ''  RPS: '' @ a @ lit ''/'' @ b @ lit ''/'' @ c @ lit ''/'' @ d @ [10])))))"

text \<open>
  The pieces one turn of the collector appends and prints; the texts of the load averages and of
  their limit (None when getloadavg fails) are those of printf's \%.2f.
\<close>

definition collectorReport ::
  "stats_env \<Rightarrow> int \<Rightarrow> garbageStats \<Rightarrow> u64 \<Rightarrow> (bytes \<times> bytes \<times> bytes \<times> bytes) option \<Rightarrow> interval \<Rightarrow> rps \<Rightarrow> piece list res" where
  "collectorReport y now g elapsed load iv r =
     bindR (rpsLineEnd r) (\<lambda>rpsText.
       Inr ([Piece_format 4500 (garbageLine y now g elapsed), Piece_string (lit ''  '')] @
            (case load of None \<Rightarrow> [] | Some (l0, l1, l2, maxAllow) \<Rightarrow> [Piece_format 1000 (intervalLine l0 l1 l2 maxAllow iv)]) @
            [Piece_format 100 rpsText]))"

section \<open>The line fits\<close>

lemma length_fmt_d: "length (fmt_d w) \<le> 11"
proof -
  have "\<bar>sint w\<bar> < 10 ^ 10" using sint_ge [of w] sint_lt [of w] by simp
  from dec_d_le [OF this] show ?thesis by (simp add: fmt_d_def dec_d_def)
qed

lemma length_rpsNumber: "length (dec (toFloat (unat (w :: u32)))) \<le> 11"
proof -
  have "unat w < 2 ^ 32" using unsigned_less [of w] by simp
  then have "toFloat (unat w) < 10 ^ 11" using toFloat_le [of "unat w"] by simp
  then show ?thesis by (rule length_dec) simp
qed

lemma garbageLine_le: "length (garbageLine y now g elapsed) \<le> 200"
proof -
  have "unat elapsed < 10 ^ 20" using unsigned_less [of elapsed, where ?'a = nat] by simp
  then have e: "length (pad7 (dec (unat elapsed))) \<le> 20" by (intro pad7_le length_dec) simp_all
  have d: "length (pad7 (fmt_d w)) \<le> 11" for w by (intro pad7_le length_fmt_d) simp
  have c: "length (take 19 (y_ctime y now)) \<le> 19" by simp
  show ?thesis
    unfolding garbageLine_def length_append length_lit
    using e c d [of "g_totalPeers g"] d [of "g_totalTorrents g"] d [of "g_totalTorrentsWithChangeLimit g"]
      d [of "g_maxPeersInOneTorrent g"] d [of "g_maxPeersInLeaf g"] d [of "g_maxTorrentsInOneLeaf g"]
      d [of "g_removedPeers g"] d [of "g_removedTorrents g"]
    by (simp del: length_take)
qed

lemma rpsLineEnd_ok:
  assumes "wf_rps r"
  shows "\<exists>s. rpsLineEnd r = Inr s \<and> length s \<le> 60"
proof -
  have n: "\<exists>w :: u32. rpsNumber r p v = Inr (dec (toFloat (unat w)))" if i: "unat (p + v) < 4" for p v
  proof -
    have "length (if r_status r = RPS_TIME_ODD then r_even r else r_odd r) = 4"
      using assms by (auto simp: wf_rps_def RPS_DIFFERENT_VALUES_def)
    then obtain w where "getRps p v r = Inr w" using i by (simp add: getRps_def getRpsIndex_def nth_res_def)
    then show ?thesis by (auto simp: rpsNumber_def)
  qed
  note i = RPS_PROTOCOL_TCP_def RPS_PROTOCOL_UDP_def RPS_VERSION_IPV4_def RPS_VERSION_IPV6_def
  obtain a b c d :: u32 where "rpsNumber r RPS_PROTOCOL_TCP RPS_VERSION_IPV4 = Inr (dec (toFloat (unat a)))"
    "rpsNumber r RPS_PROTOCOL_UDP RPS_VERSION_IPV4 = Inr (dec (toFloat (unat b)))"
    "rpsNumber r RPS_PROTOCOL_TCP RPS_VERSION_IPV6 = Inr (dec (toFloat (unat c)))"
    "rpsNumber r RPS_PROTOCOL_UDP RPS_VERSION_IPV6 = Inr (dec (toFloat (unat d)))"
    using n [of RPS_PROTOCOL_TCP RPS_VERSION_IPV4] n [of RPS_PROTOCOL_UDP RPS_VERSION_IPV4]
      n [of RPS_PROTOCOL_TCP RPS_VERSION_IPV6] n [of RPS_PROTOCOL_UDP RPS_VERSION_IPV6] by (auto simp: i)
  then show ?thesis
    using length_rpsNumber [of a] length_rpsNumber [of b] length_rpsNumber [of c] length_rpsNumber [of d]
    by (simp add: rpsLineEnd_def)
qed

text \<open>The line of a turn is written inside its block, whatever the collector has counted.\<close>

lemma collectorReport_fits:
  assumes "wf_rps r" "\<And>l0 l1 l2 m. load = Some (l0, l1, l2, m) \<Longrightarrow> length l0 + length l1 + length l2 + length m \<le> 900"
  shows "\<exists>ps b. collectorReport y now g elapsed load iv r = Inr ps \<and> (\<forall>p \<in> set ps. piece_valid p) \<and>
    foldR addPiece initBlock ps = Inr b \<and> contents b = concat (map piece_bytes ps)"
proof -
  obtain s where s: "rpsLineEnd r = Inr s" "length s \<le> 60" using rpsLineEnd_ok [OF assms(1)] by blast
  have iv: "length (intervalLine l0 l1 l2 m iv) \<le> 1000" if "load = Some (l0, l1, l2, m)" for l0 l1 l2 m
    using assms(2) [OF that] length_fmt_d [of "i_interval iv"] length_fmt_d [of "i_previousInterval iv"]
      length_fmt_d [of "i_requireInterval iv"] by (simp add: intervalLine_def)
  let ?ps = "[Piece_format 4500 (garbageLine y now g elapsed), Piece_string (lit ''  '')] @
            (case load of None \<Rightarrow> [] | Some (l0, l1, l2, maxAllow) \<Rightarrow> [Piece_format 1000 (intervalLine l0 l1 l2 maxAllow iv)]) @
            [Piece_format 100 s]"
  have ps: "collectorReport y now g elapsed load iv r = Inr ?ps" using s(1) by (simp add: collectorReport_def)
  have valid: "\<forall>p \<in> set ?ps. piece_valid p"
    using garbageLine_le [of y now g elapsed] s(2) iv by (auto split: option.splits)
  have "sum_list (map piece_cost ?ps) \<le> 2 ^ 29" by (auto split: option.splits)
  from block_of_pieces [OF valid this] ps valid show ?thesis by blast
qed

section \<open>What a pass counts\<close>

text \<open>The counts of a pass over the peers of one torrent, from the statistics g0 it starts with.\<close>

definition peers_counted :: "garbageStats \<Rightarrow> garbageStats \<Rightarrow> 'a list \<Rightarrow> 'b list \<Rightarrow> bool" where
  "peers_counted g0 g pre acc \<longleftrightarrow> length acc \<le> length pre \<and> g_currentTorrent g \<noteq> None \<and>
     g_totalPeers g = g_totalPeers g0 + of_nat (length acc) \<and>
     g_removedPeers g = g_removedPeers g0 + of_nat (length pre - length acc) \<and>
     g_totalTorrents g = g_totalTorrents g0 \<and> g_removedTorrents g = g_removedTorrents g0 \<and>
     g_maxPeersInOneTorrent g = g_maxPeersInOneTorrent g0 \<and>
     g_totalTorrentsWithChangeLimit g = g_totalTorrentsWithChangeLimit g0"

lemma peers_counted_callback:
  assumes "\<And>k. (k, None) \<notin> set T"
  shows "callback_ok runGarbageCollectorCallbackCallback T (peers_counted g0) (\<lambda>_ _ _. False)"
  unfolding callback_ok_def
proof (intro allI impI)
  fix path g and pre acc :: "peerDataL item list" and k d rest
  assume T: "T = pre @ (k, d) # rest" and I: "peers_counted g0 g pre acc"
  from T assms [of k] have "d \<noteq> None" by (cases d) auto
  then obtain p where d: "d = Some p" by auto
  from I obtain h u where u: "g_currentTorrent g = Some (h, u)" by (auto simp: peers_counted_def)
  have "Suc (length pre) - length acc = Suc (length pre - length acc)" using I by (simp add: peers_counted_def Suc_diff_le)
  then show "\<exists>e s' b. runGarbageCollectorCallbackCallback path k d g = Inr (e, s', b) \<and>
      (if b then False else peers_counted g0 s' (pre @ [(k, d)]) (acc @ effect_items k e))"
    using I u unfolding d
    by (cases "p_updateTime p < g_limitTime g")
      (auto simp: runGarbageCollectorCallbackCallback_def peers_counted_def countPeerInLeaf_def Let_def)
qed

lemma gc_peers_counted:
  assumes "wf_torrent t" "t_peerList t = Some pl" "g_currentTorrent g = Some (h, t)"
    "mapListPtr runGarbageCollectorCallbackCallback g (Some pl) = Inr (Some pl', g', b)"
  shows "peers_counted g g' (allItems pl) (allItems pl')"
proof -
  have pl: "wf_hlist pl" "leaves_free pl" "\<And>k. (k, None) \<notin> set (allItems pl)"
    using assms(1,2) by (auto simp: wf_torrent_def)
  have "peers_counted g g [] []" using assms(3) by (simp add: peers_counted_def)
  from mapList_all [OF pl(1,2) peers_counted_callback [OF pl(3)] this, of "[]"] obtain l1 g1 where
    "mapList runGarbageCollectorCallbackCallback [] g pl = Inr (l1, g1, False)" "peers_counted g g1 (allItems pl) (allItems l1)" by blast
  with assms(4) show ?thesis by (simp add: mapListPtr_def)
qed

text \<open>The peers of torrents, and the most peers of one of them.\<close>

definition torrentPeers :: "torrentDataL item \<Rightarrow> nat" where
  "torrentPeers it = (case snd it of None \<Rightarrow> 0 | Some t \<Rightarrow> size (peersM t))"

definition peersIn :: "torrentDataL item list \<Rightarrow> nat" where
  "peersIn xs = sum_list (map torrentPeers xs)"

definition mostPeers :: "torrentDataL item list \<Rightarrow> nat" where
  "mostPeers xs = fold max (map torrentPeers xs) 0"

lemma peersIn_snoc [simp]: "peersIn [] = 0" "peersIn (xs @ [x]) = peersIn xs + torrentPeers x"
  by (simp_all add: peersIn_def)

lemma mostPeers_snoc [simp]: "mostPeers [] = 0" "mostPeers (xs @ [x]) = max (torrentPeers x) (mostPeers xs)"
  by (simp_all add: mostPeers_def)

lemma mostPeers_greatest: "x \<in> set xs \<Longrightarrow> torrentPeers x \<le> mostPeers xs"
  by (induction xs rule: rev_induct) auto

text \<open>The counts of a pass over torrents pre of which acc are left.\<close>

definition pass_counted :: "garbageStats \<Rightarrow> torrentDataL item list \<Rightarrow> torrentDataL item list \<Rightarrow> bool" where
  "pass_counted g pre acc \<longleftrightarrow> length acc \<le> length pre \<and> peersIn acc \<le> peersIn pre \<and> mostPeers acc < 2 ^ 32 \<and>
     g_totalTorrents g = of_nat (length acc) \<and> g_removedTorrents g = of_nat (length pre - length acc) \<and>
     g_totalPeers g = of_nat (peersIn acc) \<and> g_removedPeers g = of_nat (peersIn pre - peersIn acc) \<and>
     g_maxPeersInOneTorrent g = of_nat (mostPeers acc) \<and>
     g_totalTorrentsWithChangeLimit g = of_nat (length (filter (\<lambda>it. 256 < torrentPeers it) acc))"

lemma peersM_length: "wf_torrent t \<Longrightarrow> t_peerList t = Some pl \<Longrightarrow> size (peersM t) = length (allItems pl)"
proof -
  assume t: "wf_torrent t" "t_peerList t = Some pl"
  then have none: "\<And>k. (k, None) \<notin> set (allItems pl)" by (auto simp: wf_torrent_def)
  have "snd x \<noteq> None" if "x \<in> set (allItems pl)" for x
    by (metis none that prod.collapse)
  then have "filter_mset (\<lambda>x. snd x \<noteq> None) (mset (allItems pl)) = filter_mset (\<lambda>x. True) (mset (allItems pl))"
    by (intro filter_mset_cong) auto
  then show ?thesis by (simp add: peersM_items [OF t(2)])
qed

lemma of_nat_u32_less: "m < 2 ^ 32 \<Longrightarrow> n < 2 ^ 32 \<Longrightarrow> (of_nat m :: u32) < of_nat n \<longleftrightarrow> m < n"
  by (simp add: word_less_nat_alt unat_of_nat)

lemma pass_counted_callback:
  assumes wf: "\<And>h d. (h, d) \<in> set T \<Longrightarrow> \<exists>t. d = Some t \<and> wf_torrent t \<and> size (peersM t) < 2 ^ 32"
  shows "callback_ok runGarbageCollectorCallback T pass_counted (\<lambda>_ _ _. False)"
  unfolding callback_ok_def
proof (intro allI impI)
  fix path g pre acc k d rest
  assume T: "T = pre @ (k, d) # rest" and I: "pass_counted g pre acc"
  from wf [of k d] T obtain t where t: "d = Some t" "wf_torrent t" "size (peersM t) < 2 ^ 32" by auto
  obtain pl where pl: "t_peerList t = Some pl" using t(2) by (auto simp: wf_torrent_def split: option.splits)
  let ?g = "(countTorrentInLeaf path g)\<lparr>g_currentPeersInTorrent := 0, g_currentTorrent := Some (k, t)\<rparr>"
  let ?limit = "g_limitTime ?g"
  have gp: "g_currentPeersInTorrent ?g = 0" "g_currentTorrent ?g = Some (k, t)" by simp_all
  obtain pl' g' u where r:
    "mapListPtr runGarbageCollectorCallbackCallback ?g (Some pl) = Inr (Some pl', g', False)"
    "g_currentTorrent g' = Some (k, u)" "wf_hlist pl'" "gc_torrent ?limit t (u\<lparr>t_peerList := Some pl'\<rparr>)"
    "g_currentPeersInTorrent g' = of_nat (size (filter_mset (fresh ?limit) (peersM t)))" "allItems pl' = [] \<longleftrightarrow> all_expired ?limit t"
    by (rule gc_peers [OF t(2) pl refl gp]) (rule that)
  let ?u = "u\<lparr>t_peerList := Some pl'\<rparr>"
  note c = gc_peers_counted [OF t(2) pl gp(2) r(1)]
  have n: "size (peersM t) = length (allItems pl)" "size (peersM ?u) = length (allItems pl')"
    using peersM_length [OF t(2) pl] peersM_length [of ?u pl'] r(4) by (simp_all add: gc_torrent_def)
  have cur: "g_currentPeersInTorrent g' = of_nat (length (allItems pl'))"
    using r(4,5) n(2) by (simp add: gc_torrent_def)
  have le: "length (allItems pl') \<le> length (allItems pl)" "length (allItems pl') < 2 ^ 32"
    using c t(3) n(1) by (simp_all add: peers_counted_def)
  have zero: "g_currentPeersInTorrent g' = 0 \<longleftrightarrow> allItems pl' = []" unfolding cur using of_nat_u32_eq_0 [OF le(2)] by simp
  have same: "g_totalPeers ?g = g_totalPeers g" "g_removedPeers ?g = g_removedPeers g" "g_totalTorrents ?g = g_totalTorrents g"
    "g_removedTorrents ?g = g_removedTorrents g" "g_maxPeersInOneTorrent ?g = g_maxPeersInOneTorrent g"
    "g_totalTorrentsWithChangeLimit ?g = g_totalTorrentsWithChangeLimit g" by (simp_all add: countTorrentInLeaf_def Let_def)
  have acc: "length acc \<le> length pre" "peersIn acc \<le> peersIn pre" "mostPeers acc < 2 ^ 32" using I by (simp_all add: pass_counted_def)
  have tp: "torrentPeers (k, d) = length (allItems pl)" "torrentPeers (k, Some ?u) = length (allItems pl')"
    using n t(1) by (simp_all add: torrentPeers_def)
  have dif: "Suc (length pre) - length acc = Suc (length pre - length acc)" using acc(1) by simp
  show "\<exists>e s' b. runGarbageCollectorCallback path k d g = Inr (e, s', b) \<and>
      (if b then False else pass_counted s' (pre @ [(k, d)]) (acc @ effect_items k e))"
  proof (cases "allItems pl' = []")
    case True
    then have "runGarbageCollectorCallback path k d g = Inr (Remove, g'\<lparr>g_removedTorrents := g_removedTorrents g' + 1\<rparr>, False)"
      using r(1-3) zero t(1) pl by (simp add: runGarbageCollectorCallback_def Let_def freeList_wf)
    moreover have "pass_counted (g'\<lparr>g_removedTorrents := g_removedTorrents g' + 1\<rparr>) (pre @ [(k, d)]) acc"
    proof -
      have "peersIn pre + length (allItems pl) - peersIn acc = length (allItems pl) + (peersIn pre - peersIn acc)" using acc(2) by simp
      then show ?thesis using I c True tp(1) same dif acc
        by (simp add: pass_counted_def peers_counted_def)
    qed
    ultimately show ?thesis by auto
  next
    case False
    have run: "runGarbageCollectorCallback path k d g = Inr (Keep (Some ?u), countKeptTorrent g', False)"
      using r(1,2) zero False t(1) pl by (simp add: runGarbageCollectorCallback_def Let_def)
    have most: "(if g_currentPeersInTorrent g' > g_maxPeersInOneTorrent g' then g_currentPeersInTorrent g' else g_maxPeersInOneTorrent g') =
        of_nat (max (length (allItems pl')) (mostPeers acc))"
      using I c same of_nat_u32_less [OF acc(3) le(2)] by (simp add: cur pass_counted_def peers_counted_def max_def)
    have many: "g_currentPeersInTorrent g' > DATA_STRUCTURE_PEERS_FOR_LEVEL_0_LIMIT \<longleftrightarrow> 256 < length (allItems pl')"
      unfolding cur DATA_STRUCTURE_PEERS_FOR_LEVEL_0_LIMIT_def using of_nat_u32_less [OF _ le(2), of 256] by simp
    have "peersIn pre + length (allItems pl) - (peersIn acc + length (allItems pl')) =
        (length (allItems pl) - length (allItems pl')) + (peersIn pre - peersIn acc)" using acc(2) le(1) by simp
    then have "pass_counted (countKeptTorrent g') (pre @ [(k, d)]) (acc @ [(k, Some ?u)])"
      using I c tp same acc le most many unfolding pass_counted_def peers_counted_def countKeptTorrent_def Let_def
      by (auto split: if_splits)
    with run show ?thesis by auto
  qed
qed

section \<open>Properties\<close>



end
