(* ===== verification/Spec2Isabelle.thy ===== *)
theory Spec2Isabelle
  imports Startup Announce_Threads Semaphore Memory Process Help_Page Authorization_Race Geoip_Loading Event_Queue Console Garbage_Report
begin

text \<open>
  etracker: a BitTorrent tracker in C, as a shallow embedding of its sources (src/, C files beside
  each other) with the properties that make it correct.

  \<^bold>\<open>The program.\<close> main (server.c) reads the arguments and makes the state all threads share: the
  list of torrents, the counters, the interval told to the clients, the requests per second, a list
  of sockets for each worker, the list of websockets and the table of locations. The TCP listener
  (socket\_tcp.c) deals accepted connections out to workers (thread\_client\_tcp.c), which answer
  announces, scrapes, settings, files, the page of statistics and websocket handshakes. The UDP
  listener (socket\_udp.c) queues datagrams for its workers (thread\_client\_udp.c), which answer
  connect, announce and scrape. Three threads collect peers that are silent (data\_garbage.c),
  connections that are silent, and move the interval (thread\_garbage.c); one swaps the counts of
  the requests (rps.c). The torrents, the peers of each, the sockets and the websockets are kept in
  one container, a tree of tables with a semaphore for each leaf (list.c).

  \<^bold>\<open>The theories\<close>, in the order of their imports, with the files they model:

  \<^item> C\_Prelude: machine types, C strings, the part of libc the sources use, results with errors.
  \<^item> Hash\_List, Hash\_List\_Laws, Leaf\_Lock, Leaf\_Threads, Leaf\_Pass: list.c. The tree, its laws as
    the interpretation of the locale hash\_store (a map from hashes), what a held leaf changes
    (guarded\_store), threads that each hold one leaf at a time, and mapList leaf by leaf as such a
    thread.
  \<^item> Uri (uri.c), Stats and Stats\_Page (stats.c), Interval\_Ctl (interval.c), Rps (rps.c),
    Udp\_Structure (socket\_udp\_structure.h), Argument (argument.c), Base64 (base64.c), Sha1 (sha1.c),
    Geoip (geoip.c), Websocket (websocket.c), Block\_Buffer (block.c, math.h).
  \<^item> Tracker\_Data, Tracker\_Laws, Tracker\_Render: data.c. Torrents and peers, the map they
    represent and the counters, the answers; Bencode: the answers over TCP as bencoded values.
    Data\_Garbage: data\_garbage.c. Announce\_Threads: the workers and the collector at the same
    torrents. Garbage\_Report: what a pass counts and the line it prints (also time.c).
  \<^item> Socket\_Http: socket.c. Socket\_Garbage: socket\_garbage.c, the collector of connections of
    thread\_garbage.c and the accept loop of socket\_tcp.c.
  \<^item> Udp\_Request: udp\_request.c. Udp\_Server: socket\_udp.c and the waiting of its workers.
    Udp\_Worker: thread\_client\_udp.c.
  \<^item> Tcp\_Client (thread\_client\_tcp.c, string.c, basic.c), Tcp\_Client\_Laws, Tcp\_Service,
    Tcp\_Worker: the TCP worker, its steps, what a client can rely on, a turn of its loop.
    Event\_Queue: equeue.c, where the events of a turn come from. Authorization\_Race: the password of
    /api/set when several workers meet it at once.
  \<^item> Tracker\_System: server.c, the shared state and one turn of each thread on it. Startup: the
    calls of main and of the listeners before their loops. Help\_Page: showHelp of argument.c.
    Process: setNobody and setLocale of server.c, thread.c, exit\_code.c, getRandom of basic.c.
  \<^item> Lock\_Order, Semaphore: the semaphores the threads hold one inside another, and sem.c, which makes
    them. Memory: alloc.c. Geoip\_Loading: the table of locations while a thread loads it. Console:
    printHex of string.c and printList of list.c.

  \<^bold>\<open>How the code is read.\<close> A struct is a record, an enumeration a datatype, an integer a word of its
  width (time\_t and the int of an errno are integers), a pointer into a structure the key or the path
  that reaches it, a block the bytes appended to it (Block\_Buffer shows that this is what it holds, as
  the interpretations of the locale byte\_sink). A function returns a result: Inl is a NULL pointer
  that is followed, an access outside an array or a block, an exit of the program, or a wait that does
  not return; Inr is the value with the changed state. A callback of mapList is a function on the item
  and the argument block. What the system does to the program (recv, send, accept, the clock, files,
  getloadavg, inet\_pton) is an input, a record of answers; what the program does to it (send, close, an
  entry in the event queue) is a list of actions in order.

  \<^bold>\<open>What the lemmas show.\<close> Each operation of a component is total on well-formed states and keeps its
  invariant (lemmas \<open>..._ok\<close>): wf\_hlist for lists, wf\_tracker and whole\_addresses for torrents,
  wf\_stats, wf\_rps, wf\_sockets, wf\_websockets, worker\_inv, and system\_ok for all of them.
  The functional lemmas say what an operation does: updates of the list are map updates; an announce is
  the map update \<open>announced\<close> of tracker\_map, whatever the depth of the lists; the answers are the
  bencoding (or the UDP layout) of what is stored then; a pass of a collector keeps exactly what is not
  expired. The properties put these together: no sequence of turns of any threads makes the tracker fail
  (tracker\_never\_fails), a worker answers each request once, only an authorised request changes the
  settings, only files of the web root are served, the interval stays within its limits, the page shows
  the memory in use and the totals of the tracker, a process that gives its rights up has none left to
  take them back, and the optimised or C-specific routines agree with reference definitions (SHA-1, Base64,
  bencoding, the page of statistics, the parser of the arguments next to the help). Some properties and
  lemmas state what the code does wrong: a wake-up of a UDP worker that is lost, counters that events other
  than the defined ones make wrong, a negative number of workers (negative\_workers\_fail), two
  workers that fill the expected password at once (set\_authorization\_race).

  \<^bold>\<open>Concurrency.\<close> Tracker\_System takes a turn of a thread as one step. Other theories look inside a
  turn. Udp\_Server interleaves the listener and its workers at every call on the queue, its semaphore, the
  mutex and the condition. Announce\_Threads interleaves the workers at every read and write between the
  wait for a leaf and its post, and the collector of torrents leaf by leaf among them: the result is that of
  whole sections one after the other, every run ends and none is stuck (workers\_serialise,
  workers\_go\_on). Lock\_Order has the semaphores that are held one inside another, a torrent's inside a
  socket's inside the list's: they are taken in the order of a rank, so no set of threads waits for
  each other (locks\_never\_deadlock), and Semaphore shows that those of sem.c are such locks.
  Geoip\_Loading has the table of locations that is read while it is loaded. Authorization\_Race looks inside
  /api/set: that only an authorised request changes the settings (settings\_change\_authorised) holds by
  turns, and the race shows what can happen when the turns of two workers overlap while the first
  request with a password is served. The sockets and the websockets are otherwise interleaved by turns; the
  counters of stats.c and alloc.c are atomic in C.

  \<^bold>\<open>Hypotheses and bounds.\<close> os\_ok, kernel\_sends and recv\_ok are the documented results of the calls
  (send takes at most what it is given and an errno is not negative, recvfrom fills at most its buffer, an
  address is 4 or 16 bytes, a locale's grouping at most doubles a number's digits in page\_env). A
  message is sent in as many calls as it has bytes at most, so the loop of send\_ ends without fuel.
  peers\_fit bounds the peers of one torrent by 2 to the 32nd when they are collected, where the code
  counts them in 32 bits; peers\_room is the same bound with room for the requests that are under way.
  The errors of sem\_wait are interruptions (EINTR) in Semaphore; what another error does is stated there.
  malloc gives addresses that are not in use, in Memory. geoip\_ready holds of the table before, while and
  after it is loaded. Elsewhere memory is always sufficient: the results of malloc are not checked by the
  code either. A run of threads needs no fuel: a measure of what is left to do falls with each step.

  \<^bold>\<open>Not modelled.\<close> The Mac branches of sem.c (dispatch semaphores) and the semaphore of the memory
  counters, which is switched off; pthread\_create and pthread\_join, whose threads are the steps here; the
  starting configuration that main prints; printUpdateArray of stats.c, which is commented out;
  freeList's release of memory beyond its exit on a list that is not empty; test.c, client.c and the
  programs under origin-*, which are not part of the tracker; the pages and scripts under web.
\<close>

end
